(* ===== verification/Mq_Prelude.thy ===== *)
theory Mq_Prelude
  imports Main "HOL-Library.Word" "HOL-Library.Monad_Syntax" "HOL-Library.AList" "HOL-Library.Sublist"
begin

text \<open>
  Shared vocabulary of the development: byte buffers and the bounds-checked copies
  between them, NUL-terminated names, the constants of \<^verbatim>\<open>common_def/comdef.h\<close>, and
  the generic lemmas on lists, buffers and association lists that the component
  theories use through the collections declared here.

  A value of type \<^typ>\<open>'a option\<close> that a modelled routine returns is \<^const>\<open>None\<close> when the
  C++ execution does not complete normally: a copy or a read outside its buffer, a
  C string without terminator, an access through a dangling pointer, or a loop that never
  exits. A routine that returns an error code returns \<^const>\<open>Some\<close> of that code.
\<close>

section \<open>Types\<close>

type_synonym byte = "8 word"
type_synonym bytes = "8 word list"
type_synonym u16 = "16 word"
type_synonym i16 = "16 word"
type_synonym i32 = "32 word"

named_theorems buf_simps \<open>reads of a buffer after a write\<close>
named_theorems proto_defs \<open>definitions of the byte-level accessors\<close>

definition bytes_of :: "string \<Rightarrow> bytes" where
  "bytes_of s = map of_char s"

section \<open>Constants of comdef.h\<close>

definition MAX_CLINT_PACKAGE_LENGTH :: nat where "MAX_CLINT_PACKAGE_LENGTH = 1024 * 11"
definition MAX_SERVER_PACKAGE_LENGTH :: nat where "MAX_SERVER_PACKAGE_LENGTH = 1024 * 11"
definition SERVER_BUFFER_SIZE :: nat where "SERVER_BUFFER_SIZE = 1024 * 100"
definition MAX_NAME_LENGTH :: nat where "MAX_NAME_LENGTH = 32"
definition CLIENT_EPOLL_COUNT :: nat where "CLIENT_EPOLL_COUNT = 1000"

definition CMD_CREATE_EXCNANGE :: u16 where "CMD_CREATE_EXCNANGE = 1"
definition CMD_CREATE_QUEUE :: u16 where "CMD_CREATE_QUEUE = 2"
definition CMD_CREATE_BINDING :: u16 where "CMD_CREATE_BINDING = 3"
definition CMD_CREATE_PUBLISH :: u16 where "CMD_CREATE_PUBLISH = 4"
definition CMD_CREATE_RECV :: u16 where "CMD_CREATE_RECV = 5"
definition CMD_CREATE_SUBCRIBE :: u16 where "CMD_CREATE_SUBCRIBE = 6"
definition CMD_DELETE_EXCHANGE :: u16 where "CMD_DELETE_EXCHANGE = 7"
definition CMD_DELETE_QUEUE :: u16 where "CMD_DELETE_QUEUE = 8"
definition CMD_CANCEL_SUBCRIBE :: u16 where "CMD_CANCEL_SUBCRIBE = 9"
definition CMD_CLIENT_PULL_MESSAGE :: u16 where "CMD_CLIENT_PULL_MESSAGE = 10"
definition CMD_SERVER_PUSH_MESSAGE :: u16 where "CMD_SERVER_PUSH_MESSAGE = 11"
definition CMD_SERVER_REPLY_MESSAGE :: u16 where "CMD_SERVER_REPLY_MESSAGE = 12"
definition CMD_CLIENT_ACK_MESSAGE :: u16 where "CMD_CLIENT_ACK_MESSAGE = 13"
definition CMD_SERVER_ACK_MESSAGE :: u16 where "CMD_SERVER_ACK_MESSAGE = 14"
definition CMD_CLIENT_EXIT :: u16 where "CMD_CLIENT_EXIT = 15"

definition EXCHANGE_TYPE_FANOUT :: u16 where "EXCHANGE_TYPE_FANOUT = 1"
definition EXCHANGE_TYPE_DIRECT :: u16 where "EXCHANGE_TYPE_DIRECT = 2"
definition EXCHANGE_TYPE_TOPIC :: u16 where "EXCHANGE_TYPE_TOPIC = 3"

definition PRODUCER_NO_ACK :: byte where "PRODUCER_NO_ACK = 0"
definition PRODUCER_SINGLE_ACK :: byte where "PRODUCER_SINGLE_ACK = 1"
definition PRODUCER_MUTIL_ACK :: byte where "PRODUCER_MUTIL_ACK = 2"
definition CONSUMER_NO_ACK :: byte where "CONSUMER_NO_ACK = 0"
definition CONSUMER_AUTO_ACK :: byte where "CONSUMER_AUTO_ACK = 1"
definition CONSUMER_SINGLE_ACK :: byte where "CONSUMER_SINGLE_ACK = 2"
definition CONSUMER_MUTIL_ACK :: byte where "CONSUMER_MUTIL_ACK = 3"

text \<open>The two return codes every class of the program defines with the same values.\<close>

definition SUCCESS :: int where "SUCCESS = 0"
definition ERROR :: int where "ERROR = -1"

lemma SUCCESS_neq_ERROR [simp]: "SUCCESS \<noteq> ERROR" "ERROR \<noteq> SUCCESS"
  by (simp_all add: SUCCESS_def ERROR_def)

lemmas size_defs = MAX_CLINT_PACKAGE_LENGTH_def MAX_SERVER_PACKAGE_LENGTH_def
  SERVER_BUFFER_SIZE_def MAX_NAME_LENGTH_def CLIENT_EPOLL_COUNT_def

lemmas cmd_defs = CMD_CREATE_EXCNANGE_def CMD_CREATE_QUEUE_def CMD_CREATE_BINDING_def
  CMD_CREATE_PUBLISH_def CMD_CREATE_RECV_def CMD_CREATE_SUBCRIBE_def CMD_DELETE_EXCHANGE_def
  CMD_DELETE_QUEUE_def CMD_CANCEL_SUBCRIBE_def CMD_CLIENT_PULL_MESSAGE_def
  CMD_SERVER_PUSH_MESSAGE_def CMD_SERVER_REPLY_MESSAGE_def CMD_CLIENT_ACK_MESSAGE_def
  CMD_SERVER_ACK_MESSAGE_def CMD_CLIENT_EXIT_def

lemmas ack_defs = PRODUCER_NO_ACK_def PRODUCER_SINGLE_ACK_def PRODUCER_MUTIL_ACK_def
  CONSUMER_NO_ACK_def CONSUMER_AUTO_ACK_def CONSUMER_SINGLE_ACK_def CONSUMER_MUTIL_ACK_def

section \<open>Buffers\<close>

text \<open>
  \<open>memcpy\<close> as the C library defines it: \<open>n\<close> bytes from offset \<open>si\<close> of \<open>src\<close> to offset
  \<open>di\<close> of \<open>dst\<close>. The code passes \<open>int\<close> offsets and lengths; a negative one, or a range
  that leaves either array, is undefined behaviour.
\<close>

definition put_at :: "bytes \<Rightarrow> nat \<Rightarrow> bytes \<Rightarrow> bytes" where
  "put_at b p xs = take p b @ xs @ drop (p + length xs) b"

definition get_at :: "bytes \<Rightarrow> nat \<Rightarrow> nat \<Rightarrow> bytes" where
  "get_at b p n = take n (drop p b)"

definition memcpy :: "bytes \<Rightarrow> int \<Rightarrow> bytes \<Rightarrow> int \<Rightarrow> int \<Rightarrow> bytes option" where
  "memcpy dst di src si n =
     (if 0 \<le> di \<and> 0 \<le> si \<and> 0 \<le> n \<and> si + n \<le> int (length src) \<and> di + n \<le> int (length dst)
      then Some (put_at dst (nat di) (get_at src (nat si) (nat n)))
      else None)"

definition mem_write :: "bytes \<Rightarrow> nat \<Rightarrow> bytes \<Rightarrow> bytes option" where
  "mem_write b p xs = (if p + length xs \<le> length b then Some (put_at b p xs) else None)"

definition mem_read :: "bytes \<Rightarrow> nat \<Rightarrow> nat \<Rightarrow> bytes option" where
  "mem_read b p n = (if p + n \<le> length b then Some (get_at b p n) else None)"

text \<open>\<open>string s(p)\<close> for a \<open>char[n]\<close> array: the bytes before the first NUL of the array;
  without one the constructor reads past the array.\<close>

definition cstr :: "bytes \<Rightarrow> bytes option" where
  "cstr b = (if 0 \<in> set b then Some (takeWhile (\<lambda>c. c \<noteq> 0) b) else None)"

lemma length_put_at [simp]: "p + length xs \<le> length b \<Longrightarrow> length (put_at b p xs) = length b"
  by (simp add: put_at_def)

lemma length_get_at [simp]: "p + n \<le> length b \<Longrightarrow> length (get_at b p n) = n"
  by (simp add: get_at_def)

lemma get_at_0 [simp]: "get_at b p 0 = []"
  by (simp add: get_at_def)

lemma get_at_all [simp]: "get_at xs 0 (length xs) = xs"
  by (simp add: get_at_def)

lemma put_at_Nil [simp]: "put_at b p [] = b"
  by (simp add: put_at_def)

lemma mem_write_Some [simp]: "p + length xs \<le> length b \<Longrightarrow> mem_write b p xs = Some (put_at b p xs)"
  by (simp add: mem_write_def)

lemma mem_read_Some [simp]: "p + n \<le> length b \<Longrightarrow> mem_read b p n = Some (get_at b p n)"
  by (simp add: mem_read_def)

lemma nth_put_at:
  "p + length xs \<le> length b \<Longrightarrow> i < length b \<Longrightarrow>
   put_at b p xs ! i = (if p \<le> i \<and> i < p + length xs then xs ! (i - p) else b ! i)"
  by (auto simp: put_at_def nth_append min_def)

lemma nth_get_at: "p + n \<le> length b \<Longrightarrow> i < n \<Longrightarrow> get_at b p n ! i = b ! (p + i)"
  by (simp add: get_at_def)

lemma get_at_eqI:
  assumes "p + n \<le> length b" "q + n \<le> length c" "\<And>i. i < n \<Longrightarrow> b ! (p + i) = c ! (q + i)"
  shows "get_at b p n = get_at c q n"
  by (rule nth_equalityI) (use assms in \<open>simp_all add: nth_get_at\<close>)

lemma get_put_same [buf_simps]:
  "p + length xs \<le> length b \<Longrightarrow> n = length xs \<Longrightarrow> get_at (put_at b p xs) p n = xs"
  by (auto simp: get_at_def put_at_def)

lemma get_put_before [buf_simps]:
  "q + n \<le> p \<Longrightarrow> p + length xs \<le> length b \<Longrightarrow> get_at (put_at b p xs) q n = get_at b q n"
  by (rule get_at_eqI) (auto simp: nth_put_at)

lemma get_put_after [buf_simps]:
  "p + length xs \<le> q \<Longrightarrow> q + n \<le> length b \<Longrightarrow> get_at (put_at b p xs) q n = get_at b q n"
  by (rule get_at_eqI) (auto simp: nth_put_at)

lemma put_put_append:
  "p + length xs + length ys \<le> length b \<Longrightarrow>
   put_at (put_at b p xs) (p + length xs) ys = put_at b p (xs @ ys)"
  by (auto simp: put_at_def ac_simps)

lemma get_at_split: "get_at b p (m + n) = get_at b p m @ get_at b (p + m) n"
  by (simp add: get_at_def take_add add.commute)

lemma get_at_prefix:
  "p + length xs \<le> length b \<Longrightarrow> length xs \<le> n \<Longrightarrow> p + n \<le> length b \<Longrightarrow>
   get_at (put_at b p xs) p n = xs @ get_at b (p + length xs) (n - length xs)"
  using get_at_split [of "put_at b p xs" p "length xs" "n - length xs"]
  by (simp add: get_put_same get_put_after)

lemma get_at_replicate [simp]: "p + n \<le> m \<Longrightarrow> get_at (replicate m x) p n = replicate n x"
  by (simp add: get_at_def)

lemma cstr_name [simp]: "0 \<notin> set s \<Longrightarrow> 0 < n \<Longrightarrow> cstr (s @ replicate n 0) = Some s"
  by (auto simp: cstr_def takeWhile_append)

lemma length_takeWhile_less: "x \<in> set b \<Longrightarrow> \<not> P x \<Longrightarrow> length (takeWhile P b) < length b"
  by (induction b) auto

lemma cstr_eq_Some: "cstr b = Some s \<Longrightarrow> 0 \<notin> set s \<and> length s < length b"
  by (auto simp: cstr_def intro: length_takeWhile_less dest: set_takeWhileD split: if_splits)

text \<open>The copies of the protocol code, with non-negative arguments.\<close>

lemma memcpy_nat:
  "memcpy dst (int di) src (int si) (int n) =
     (if si + n \<le> length src \<and> di + n \<le> length dst
      then Some (put_at dst di (get_at src si n)) else None)"
  by (auto simp: memcpy_def)

section \<open>Runs that return\<close>

text \<open>These equations take apart the assumption that a routine returns normally.\<close>

named_theorems run_simps \<open>inversion of option-valued runs\<close>

lemma case_option_eq_Some [run_simps]:
  "(case x of None \<Rightarrow> A | Some y \<Rightarrow> B y) = Some z \<longleftrightarrow>
   (x = None \<and> A = Some z) \<or> (\<exists>y. x = Some y \<and> B y = Some z)"
  by (cases x) auto

lemma case_option_eq_None [run_simps]:
  "(case x of None \<Rightarrow> A | Some y \<Rightarrow> B y) = None \<longleftrightarrow>
   (x = None \<and> A = None) \<or> (\<exists>y. x = Some y \<and> B y = None)"
  by (cases x) auto

lemma if_eq_Some [run_simps]:
  "(if c then A else B) = Some z \<longleftrightarrow> (c \<and> A = Some z) \<or> (\<not> c \<and> B = Some z)"
  by auto

lemma case_prod_eq_Some:
  "(case p of (x, y) \<Rightarrow> f x y) = Some z \<longleftrightarrow> (\<exists>x y. p = (x, y) \<and> f x y = Some z)"
  by (cases p) simp

lemmas bind_eq_Some [run_simps] = bind_eq_Some_conv

section \<open>Association lists for unordered maps\<close>

text \<open>
  A \<^verbatim>\<open>std::unordered_map\<close> is an association list with distinct keys whose order is the
  iteration order. Inserting a new key puts it at one end; the theorems hold for every
  order of the entries, so none depends on that choice.
\<close>

abbreviation has_key :: "('k \<times> 'v) list \<Rightarrow> 'k \<Rightarrow> bool" where
  "has_key m k \<equiv> map_of m k \<noteq> None"

lemma distinct_fst_update [simp]:
  "distinct (map fst m) \<Longrightarrow> distinct (map fst (AList.update k v m))"
  by (rule distinct_update)

lemma distinct_fst_delete [simp]:
  "distinct (map fst m) \<Longrightarrow> distinct (map fst (AList.delete k m))"
  by (rule distinct_delete)

lemma map_of_update [simp]: "map_of (AList.update k v m) = (map_of m)(k \<mapsto> v)"
  by (rule update_conv')

lemma map_of_delete [simp]: "map_of (AList.delete k m) = (map_of m)(k := None)"
  by (rule delete_conv')

section \<open>Sums over the parts of a list\<close>

lemma sum_by_key:
  fixes g :: "'a \<Rightarrow> 'b :: comm_monoid_add"
  assumes "finite A" "inj_on k A" "\<forall>x\<in>set xs. \<exists>p\<in>A. h x = k p"
  shows "(\<Sum>x\<leftarrow>xs. g x) = (\<Sum>p\<in>A. \<Sum>x\<leftarrow>filter (\<lambda>x. h x = k p) xs. g x)"
  using assms(3)
proof (induction xs)
  case (Cons x xs)
  obtain p where p: "p \<in> A" "h x = k p" using Cons.prems by auto
  have "(\<Sum>r\<in>A. \<Sum>y\<leftarrow>filter (\<lambda>y. h y = k r) (x # xs). g y) =
      (\<Sum>r\<in>A. (if r = p then g x else 0) + (\<Sum>y\<leftarrow>filter (\<lambda>y. h y = k r) xs. g y))"
    by (rule sum.cong) (use p inj_onD [OF assms(2)] in auto)
  also have "\<dots> = g x + (\<Sum>r\<in>A. \<Sum>y\<leftarrow>filter (\<lambda>y. h y = k r) xs. g y)"
    using p(1) assms(1) by (simp add: sum.distrib)
  finally show ?case using Cons by simp
qed simp

end
