(* ===== verification/Func_Tool.thy ===== *)
theory Func_Tool
  imports Mq_Prelude
begin

text \<open>
  The byte-level accessors of \<^verbatim>\<open>mq_util/mq_util.cpp\<close> (\<^verbatim>\<open>FuncTool\<close>) and its two socket
  loops. A writer takes the buffer and the offset that \<^verbatim>\<open>ipBuffer\<close> points to, and returns
  the number of bytes it advanced together with the new buffer; a reader returns the
  number of bytes together with the value. Both are \<^const>\<open>None\<close> outside the buffer.

  The host is the little-endian x86 of the code's inline assembly: \<open>memcpy\<close> of an integer
  lays its bytes out least significant first, and \<^verbatim>\<open>htons\<close>/\<^verbatim>\<open>htonl\<close> swap them.
\<close>

section \<open>Integers in memory\<close>

definition le16 :: "u16 \<Rightarrow> bytes" where
  "le16 v = [ucast v, ucast (drop_bit 8 v)]"

definition le32 :: "i32 \<Rightarrow> bytes" where
  "le32 v = [ucast v, ucast (drop_bit 8 v), ucast (drop_bit 16 v), ucast (drop_bit 24 v)]"

fun un_le16 :: "bytes \<Rightarrow> u16" where
  "un_le16 [a, b] = or (ucast a) (push_bit 8 (ucast b))"
| "un_le16 _ = 0"

fun un_le32 :: "bytes \<Rightarrow> i32" where
  "un_le32 [a, b, c, d] =
     or (or (ucast a) (push_bit 8 (ucast b))) (or (push_bit 16 (ucast c)) (push_bit 24 (ucast d)))"
| "un_le32 _ = 0"

text \<open>The byte-order conversions of the C library: on this host they reverse the bytes.\<close>

definition htons :: "u16 \<Rightarrow> u16" where "htons v = un_le16 (rev (le16 v))"
definition htonl :: "i32 \<Rightarrow> i32" where "htonl v = un_le32 (rev (le32 v))"
definition ntohs :: "u16 \<Rightarrow> u16" where "ntohs v = un_le16 (rev (le16 v))"
definition ntohl :: "i32 \<Rightarrow> i32" where "ntohl v = un_le32 (rev (le32 v))"

lemma length_le [simp]: "length (le16 v) = 2" "length (le32 w) = 4"
  by (simp_all add: le16_def le32_def)

lemma un_le16_le16 [simp]: "un_le16 (le16 v) = v"
  unfolding le16_def un_le16.simps
  by (rule bit_word_eqI) (auto simp: bit_simps)

lemma un_le32_le32 [simp]: "un_le32 (le32 v) = v"
  unfolding le32_def un_le32.simps
proof (rule bit_word_eqI)
  fix n assume "n < LENGTH(32)"
  then consider "n < 8" | "8 \<le> n" "n < 16" | "16 \<le> n" "n < 24" | "24 \<le> n" "n < 32"
    by fastforce
  then show "bit (or (or (ucast (ucast v :: byte)) (push_bit 8 (ucast (ucast (drop_bit 8 v) :: byte))))
      (or (push_bit 16 (ucast (ucast (drop_bit 16 v) :: byte)))
        (push_bit 24 (ucast (ucast (drop_bit 24 v) :: byte)))) :: i32) n = bit v n"
    by cases (auto simp: bit_simps)
qed

lemma byte_bit_high [simp]: "8 \<le> n \<Longrightarrow> \<not> bit (a :: byte) n"
  using bit_imp_le_length [of a n] by auto

lemma le16_un_le16_list: "le16 (un_le16 [a, b]) = [a, b]"
  unfolding le16_def un_le16.simps
  by (auto simp: bit_simps intro!: bit_word_eqI simp: byte_bit_high)

lemma le32_un_le32_list: "le32 (un_le32 [a, b, c, d]) = [a, b, c, d]"
  unfolding le32_def un_le32.simps
  by (auto simp: bit_simps intro!: bit_word_eqI simp: byte_bit_high)

lemma list2E: "length b = 2 \<Longrightarrow> \<exists>x y. b = [x, y]"
  by (cases b; cases "tl b") auto

lemma list4E: "length b = 4 \<Longrightarrow> \<exists>x y z w. b = [x, y, z, w]"
  by (cases b; cases "tl b"; cases "tl (tl b)"; cases "tl (tl (tl b))") auto

lemma le16_un_le16 [simp]: "length b = 2 \<Longrightarrow> le16 (un_le16 b) = b"
  by (auto dest!: list2E simp only: le16_un_le16_list)

lemma le32_un_le32 [simp]: "length b = 4 \<Longrightarrow> le32 (un_le32 b) = b"
  by (auto dest!: list4E simp only: le32_un_le32_list)

text \<open>The wire format of an integer, and its inverse.\<close>

definition be16 :: "u16 \<Rightarrow> bytes" where "be16 v = rev (le16 v)"
definition be32 :: "i32 \<Rightarrow> bytes" where "be32 v = rev (le32 v)"
definition un_be16 :: "bytes \<Rightarrow> u16" where "un_be16 b = un_le16 (rev b)"
definition un_be32 :: "bytes \<Rightarrow> i32" where "un_be32 b = un_le32 (rev b)"

lemma length_be [simp]: "length (be16 v) = 2" "length (be32 w) = 4"
  by (simp_all add: be16_def be32_def)

lemma un_be_be [simp]: "un_be16 (be16 v) = v" "un_be32 (be32 w) = w"
  by (simp_all add: be16_def be32_def un_be16_def un_be32_def)

lemma be_un_be [simp]:
  "length b = 2 \<Longrightarrow> be16 (un_be16 b) = b" "length c = 4 \<Longrightarrow> be32 (un_be32 c) = c"
  by (simp_all add: be16_def be32_def un_be16_def un_be32_def)

lemma le_hton [simp]: "le16 (htons v) = be16 v" "le32 (htonl w) = be32 w"
  by (simp_all add: htons_def htonl_def be16_def be32_def)

lemma ntoh_un_le [simp]:
  "length b = 2 \<Longrightarrow> ntohs (un_le16 b) = un_be16 b"
  "length c = 4 \<Longrightarrow> ntohl (un_le32 c) = un_be32 c"
  by (simp_all add: ntohs_def ntohl_def un_be16_def un_be32_def)

section \<open>FuncTool readers and writers\<close>

text \<open>
  \<^verbatim>\<open>ReadShort\<close>, \<^verbatim>\<open>ReadInt\<close> and their writers take the byte-order flag as a last argument
  that is 1 at every call of the program; \<open>order = 1\<close> converts, any other value copies.
  The overloads for signed and unsigned values move the same bits.
\<close>

definition ReadBool :: "bytes \<Rightarrow> nat \<Rightarrow> (nat \<times> bool) option" where
  "ReadBool b p = do { x \<leftarrow> mem_read b p 1; Some (1, hd x \<noteq> 0) }"

definition WriteBool :: "bytes \<Rightarrow> nat \<Rightarrow> bool \<Rightarrow> (nat \<times> bytes) option" where
  "WriteBool b p v = do { b' \<leftarrow> mem_write b p [if v then 1 else 0]; Some (1, b') }"

definition ReadByte :: "bytes \<Rightarrow> nat \<Rightarrow> (nat \<times> byte) option" where
  "ReadByte b p = do { x \<leftarrow> mem_read b p 1; Some (1, hd x) }"

definition WriteByte :: "bytes \<Rightarrow> nat \<Rightarrow> byte \<Rightarrow> (nat \<times> bytes) option" where
  "WriteByte b p v = do { b' \<leftarrow> mem_write b p [v]; Some (1, b') }"

definition ReadShort_ord :: "bytes \<Rightarrow> nat \<Rightarrow> int \<Rightarrow> (nat \<times> u16) option" where
  "ReadShort_ord b p order = do {
     x \<leftarrow> mem_read b p 2;
     let v = un_le16 x;
     Some (2, if order = 1 then ntohs v else v) }"

definition WriteShort_ord :: "bytes \<Rightarrow> nat \<Rightarrow> u16 \<Rightarrow> int \<Rightarrow> (nat \<times> bytes) option" where
  "WriteShort_ord b p v order = do {
     let v' = (if order = 1 then htons v else v);
     b' \<leftarrow> mem_write b p (le16 v');
     Some (2, b') }"

definition ReadInt_ord :: "bytes \<Rightarrow> nat \<Rightarrow> int \<Rightarrow> (nat \<times> i32) option" where
  "ReadInt_ord b p order = do {
     x \<leftarrow> mem_read b p 4;
     let v = un_le32 x;
     Some (4, if order = 1 then ntohl v else v) }"

definition WriteInt_ord :: "bytes \<Rightarrow> nat \<Rightarrow> i32 \<Rightarrow> int \<Rightarrow> (nat \<times> bytes) option" where
  "WriteInt_ord b p v order = do {
     let v' = (if order = 1 then htonl v else v);
     b' \<leftarrow> mem_write b p (le32 v');
     Some (4, b') }"

definition ReadShort :: "bytes \<Rightarrow> nat \<Rightarrow> (nat \<times> u16) option" where
  "ReadShort b p = ReadShort_ord b p 1"
definition WriteShort :: "bytes \<Rightarrow> nat \<Rightarrow> u16 \<Rightarrow> (nat \<times> bytes) option" where
  "WriteShort b p v = WriteShort_ord b p v 1"
definition ReadInt :: "bytes \<Rightarrow> nat \<Rightarrow> (nat \<times> i32) option" where
  "ReadInt b p = ReadInt_ord b p 1"
definition WriteInt :: "bytes \<Rightarrow> nat \<Rightarrow> i32 \<Rightarrow> (nat \<times> bytes) option" where
  "WriteInt b p v = WriteInt_ord b p v 1"

definition ReadBuf :: "bytes \<Rightarrow> nat \<Rightarrow> nat \<Rightarrow> (nat \<times> bytes) option" where
  "ReadBuf b p n = do { x \<leftarrow> mem_read b p n; Some (n, x) }"

definition WriteBuf :: "bytes \<Rightarrow> nat \<Rightarrow> bytes \<Rightarrow> nat \<Rightarrow> (nat \<times> bytes) option" where
  "WriteBuf b p src n = do { b' \<leftarrow> memcpy b (int p) src 0 (int n); Some (n, b') }"

text \<open>Inside the buffer every accessor succeeds; these equations drive the protocol proofs.\<close>

lemma accessors_in_range [simp]:
  "p + 1 \<le> length b \<Longrightarrow> ReadBool b p = Some (1, b ! p \<noteq> 0)"
  "p + 1 \<le> length b \<Longrightarrow> WriteBool b p t = Some (1, put_at b p [if t then 1 else 0])"
  "p + 1 \<le> length b \<Longrightarrow> ReadByte b p = Some (1, b ! p)"
  "p + 1 \<le> length b \<Longrightarrow> WriteByte b p x = Some (1, put_at b p [x])"
  "p + 2 \<le> length b \<Longrightarrow> ReadShort b p = Some (2, un_be16 (get_at b p 2))"
  "p + 2 \<le> length b \<Longrightarrow> WriteShort b p v = Some (2, put_at b p (be16 v))"
  "p + 4 \<le> length b \<Longrightarrow> ReadInt b p = Some (4, un_be32 (get_at b p 4))"
  "p + 4 \<le> length b \<Longrightarrow> WriteInt b p w = Some (4, put_at b p (be32 w))"
  "p + n \<le> length b \<Longrightarrow> ReadBuf b p n = Some (n, get_at b p n)"
  "p + length s \<le> length b \<Longrightarrow> WriteBuf b p s (length s) = Some (length s, put_at b p s)"
  by (simp_all add: ReadBool_def WriteBool_def ReadByte_def WriteByte_def ReadShort_def
      ReadShort_ord_def WriteShort_def WriteShort_ord_def ReadInt_def ReadInt_ord_def
      WriteInt_def WriteInt_ord_def ReadBuf_def WriteBuf_def memcpy_def get_at_def
      hd_drop_conv_nth)

lemma nth_put_at_simps [buf_simps]:
  "p + length xs \<le> length b \<Longrightarrow> i < p \<Longrightarrow> put_at b p xs ! i = b ! i"
  "p + length xs \<le> i \<Longrightarrow> i < length b \<Longrightarrow> put_at b p xs ! i = b ! i"
  "Suc p \<le> length b \<Longrightarrow> put_at b p [x] ! p = x"
  by (auto simp: nth_put_at)

section \<open>Sendn and Recvn\<close>

text \<open>
  The loops over \<^verbatim>\<open>send\<close> and \<^verbatim>\<open>recv\<close>. The socket is the list of results of the successive
  system calls, each the return value with the \<^verbatim>\<open>errno\<close> it leaves (and the bytes \<^verbatim>\<open>recv\<close>
  stores). \<open>None\<close> says that the loop is still waiting when the listed results are used up.
  \<^verbatim>\<open>Sendn\<close> also returns the bytes handed to the kernel.
\<close>

datatype sock_errno = EWOULDBLOCK | EAGAIN | EINTR | EOTHER

definition try_again :: "sock_errno \<Rightarrow> bool" where
  "try_again e \<longleftrightarrow> e = EWOULDBLOCK \<or> e = EAGAIN \<or> e = EINTR"

fun Sendn :: "(int \<times> sock_errno) list \<Rightarrow> bytes \<Rightarrow> nat \<Rightarrow> int \<Rightarrow> (int \<times> bytes) option" where
  "Sendn script buf pTemp iLeft =
     (if iLeft \<le> 0 then Some (SUCCESS, [])
      else case script of
        [] \<Rightarrow> None
      | (ret, e) # rest \<Rightarrow>
          if ret < 0 then
            (if try_again e then Sendn rest buf pTemp iLeft else Some (ERROR, []))
          else if ret = 0 then Some (ERROR, [])
          else (case Sendn rest buf (pTemp + nat ret) (iLeft - ret) of
                  None \<Rightarrow> None
                | Some (code, wire) \<Rightarrow> Some (code, get_at buf pTemp (nat ret) @ wire)))"

fun Recvn :: "(int \<times> sock_errno \<times> bytes) list \<Rightarrow> bytes \<Rightarrow> nat \<Rightarrow> int \<Rightarrow> (int \<times> bytes) option" where
  "Recvn script buf pTemp iLeft =
     (if iLeft \<le> 0 then Some (SUCCESS, buf)
      else case script of
        [] \<Rightarrow> None
      | (ret, e, dat) # rest \<Rightarrow>
          if ret < 0 then
            (if try_again e then Recvn rest buf pTemp iLeft else Some (ERROR, buf))
          else if ret = 0 then Some (ERROR, buf)
          else Recvn rest (put_at buf pTemp dat) (pTemp + nat ret) (iLeft - ret))"

declare Sendn.simps [simp del] Recvn.simps [simp del]

text \<open>What POSIX promises: a call transfers at most as many bytes as were asked for.\<close>

fun send_results :: "(int \<times> sock_errno) list \<Rightarrow> int \<Rightarrow> bool" where
  "send_results [] n = True"
| "send_results ((ret, e) # rest) n = (ret \<le> n \<and> send_results rest (if 0 < ret then n - ret else n))"

fun recv_results :: "(int \<times> sock_errno \<times> bytes) list \<Rightarrow> int \<Rightarrow> bool" where
  "recv_results [] n = True"
| "recv_results ((ret, e, dat) # rest) n =
     (ret \<le> n \<and> (0 < ret \<longrightarrow> length dat = nat ret) \<and>
      recv_results rest (if 0 < ret then n - ret else n))"

text \<open>The bytes a script of \<^verbatim>\<open>recv\<close> results carries, in order.\<close>

fun received :: "(int \<times> sock_errno \<times> bytes) list \<Rightarrow> bytes" where
  "received [] = []"
| "received ((ret, e, dat) # rest) = (if 0 < ret then dat else []) @ received rest"

lemma get_at_append_shift:
  "0 < k \<Longrightarrow> k \<le> n \<Longrightarrow> get_at buf p k @ get_at buf (p + k) (n - k) = get_at buf p n"
  using get_at_split [of buf p k "n - k"] by simp

lemma Sendn_prefix:
  "send_results script n \<Longrightarrow> 0 \<le> n \<Longrightarrow> Sendn script buf p n = Some (code, wire) \<Longrightarrow>
   prefix wire (get_at buf p (nat n)) \<and> (code = SUCCESS \<longrightarrow> wire = get_at buf p (nat n)) \<and>
   (code = SUCCESS \<or> code = ERROR)"
proof (induction script arbitrary: p n wire)
  case Nil
  then show ?case by (simp add: Sendn.simps split: if_splits)
next
  case (Cons r rest)
  obtain ret e where r: "r = (ret, e)" by (cases r)
  show ?case
  proof (cases "n = 0 \<or> ret \<le> 0")
    case True
    then show ?thesis
      using Cons.prems Cons.IH [of n p wire]
      by (auto simp: r Sendn.simps [of "(ret, e) # rest"] split: if_splits)
  next
    case False
    with Cons.prems r obtain w where
      w: "Sendn rest buf (p + nat ret) (n - ret) = Some (code, w)"
      and wire: "wire = get_at buf p (nat ret) @ w"
      by (auto simp: Sendn.simps [of "(ret, e) # rest"] split: if_splits option.splits)
    from Cons.prems(1) False r
    have ok: "send_results rest (n - ret)" "0 \<le> n - ret" by auto
    have "get_at buf p (nat n) = get_at buf p (nat ret) @ get_at buf (p + nat ret) (nat (n - ret))"
      using get_at_append_shift [of "nat ret" "nat n" buf p] False ok
      by (simp add: nat_diff_distrib)
    then show ?thesis using Cons.IH [OF ok w] wire by auto
  qed
qed

text \<open>\<open>Sendn\<close> hands the kernel a prefix of the \<open>n\<close> bytes it was asked to send, in order and
  without gap or repetition, however the kernel splits them and whatever retryable errors
  occur in between; it returns \<open>SUCCESS\<close> only when all \<open>n\<close> bytes have been handed over.\<close>

theorem Sendn_wire:
  "send_results script n \<Longrightarrow> 0 \<le> n \<Longrightarrow> Sendn script buf p n = Some (code, wire) \<Longrightarrow>
   prefix wire (get_at buf p (nat n)) \<and> (code = SUCCESS \<longrightarrow> wire = get_at buf p (nat n)) \<and>
   (code = SUCCESS \<or> code = ERROR)"
  by (rule Sendn_prefix)

text \<open>When \<open>Recvn\<close> returns \<open>SUCCESS\<close>, the \<open>n\<close> bytes after \<open>p\<close> are the first \<open>n\<close> bytes
  the socket delivered, and no other byte of the buffer has changed.\<close>

theorem Recvn_buffer:
  "recv_results script n \<Longrightarrow> 0 \<le> n \<Longrightarrow> p + nat n \<le> length buf \<Longrightarrow>
   Recvn script buf p n = Some (SUCCESS, buf') \<Longrightarrow>
   buf' = put_at buf p (take (nat n) (received script)) \<and> nat n \<le> length (received script)"
proof (induction script arbitrary: p n buf)
  case Nil
  then show ?case by (simp add: Recvn.simps split: if_splits)
next
  case (Cons r rest)
  obtain ret e dat where r: "r = (ret, e, dat)" by (cases r)
  show ?case
  proof (cases "n = 0 \<or> ret \<le> 0")
    case True
    then show ?thesis
      using Cons.prems Cons.IH [of n p buf]
      by (auto simp: r Recvn.simps [of "(ret, e, dat) # rest"] split: if_splits)
  next
    case False
    let ?b = "put_at buf p dat" let ?m = "n - ret" let ?q = "p + nat ret"
    from Cons.prems False r have ok: "recv_results rest ?m" "0 \<le> ?m" "length dat = nat ret"
      and run: "Recvn rest ?b ?q ?m = Some (SUCCESS, buf')"
      by (auto simp: Recvn.simps [of "(ret, e, dat) # rest"] split: if_splits)
    have "nat ret + nat ?m = nat n" using False ok by (simp add: nat_add_distrib [symmetric])
    with Cons.prems(3) ok have len: "?q + nat ?m \<le> length ?b" by simp
    from Cons.IH [OF ok(1,2) len run]
    have IH: "buf' = put_at ?b ?q (take (nat ?m) (received rest))" "nat ?m \<le> length (received rest)"
      by auto
    have tk: "take (nat n) (received (r # rest)) = dat @ take (nat ?m) (received rest)"
      using ok False r by (simp add: nat_diff_distrib)
    have "buf' = put_at buf p (dat @ take (nat ?m) (received rest))"
      unfolding IH(1) ok(3) [symmetric]
      by (rule put_put_append) (use IH(2) ok(3) len \<open>nat ret + nat ?m = nat n\<close> Cons.prems(3) in simp)
    with tk IH(2) ok(3) r False \<open>nat ret + nat ?m = nat n\<close> show ?thesis by simp
  qed
qed

section \<open>Witnesses\<close>

theorem Sendn_wire_witness:
  "Sendn [(2, EOTHER), (-1, EAGAIN), (1, EOTHER)] [5, 6, 7, 8] 1 3 = Some (SUCCESS, [6, 7, 8]) \<and>
   prefix [6, 7, 8] (get_at [5, 6, 7, 8 :: byte] 1 (nat 3))"
proof -
  have run: "Sendn [(2, EOTHER), (-1, EAGAIN), (1, EOTHER)] [5, 6, 7, 8] 1 3 = Some (SUCCESS, [6, 7, 8])"
    by (simp add: Sendn.simps try_again_def get_at_def)
  have "send_results [(2, EOTHER), (-1, EAGAIN), (1, EOTHER)] 3" by simp
  from Sendn_wire [OF this _ run] run show ?thesis by simp
qed

theorem Recvn_buffer_witness:
  "Recvn [(2, EOTHER, [6, 7]), (-1, EINTR, []), (1, EOTHER, [8])] [0, 0, 0, 9] 0 3 = Some (SUCCESS, [6, 7, 8, 9]) \<and>
   [6, 7, 8, 9 :: byte] = put_at [0, 0, 0, 9] 0 (take (nat 3) (received
     [(2, EOTHER, [6, 7]), (-1, EINTR, []), (1, EOTHER, [8])]))"
proof -
  have run: "Recvn [(2, EOTHER, [6, 7]), (-1, EINTR, []), (1, EOTHER, [8])] [0, 0, 0, 9] 0 3 =
      Some (SUCCESS, [6, 7, 8, 9])"
    by (simp add: Recvn.simps try_again_def put_at_def)
  have "recv_results [(2, EOTHER, [6, 7 :: byte]), (-1, EINTR, []), (1, EOTHER, [8])] 3" by simp
  from Recvn_buffer [OF this _ _ run] run show ?thesis by simp
qed

end
