(* ===== verification/Shm_Queue.thy ===== *)
theory Shm_Queue
  imports Func_Tool "HOL-Library.Signed_Division"
begin

text \<open>
  The shared-memory queue of \<^verbatim>\<open>shm_queue/shm_queue.h\<close> and \<^verbatim>\<open>shm_queue/shm_queue.cpp\<close>: a byte
  ring that holds data blocks of variable length, each an eight-byte header (its own
  position and the data length), the data and six \<^verbatim>\<open>0xDD\<close> bytes, guarded by a
  compare-and-swap spin lock. The three server processes talk only through such queues.

  The definitions follow the code statement by statement, wrapped copies included. The
  abstraction \<open>holds q ds\<close> says that the ring \<open>q\<close> stores exactly the data blocks \<open>ds\<close>, oldest
  first; \<open>Enqueue\<close> and \<open>Dequeue\<close> refine appending to and taking from that list.
\<close>

section \<open>State\<close>

record queue_head =
  m_iLen :: int
  m_iHead :: int
  m_iTail :: int
  m_iBlockNum :: int
  m_iUsedNum :: int

record shm_queue =
  m_pQueueHead :: "queue_head option"
  m_iQueueSize :: int
  m_pMemAddr :: bytes
  m_pSemLock :: bool

record date_block_head =
  m_iIndex :: int
  m_iDateLen :: int

definition ERR_SHM_QUEUE_FULL :: int where "ERR_SHM_QUEUE_FULL = -205"
definition ERR_SHM_QUEUE_EMPTY :: int where "ERR_SHM_QUEUE_EMPTY = -206"
definition ERR_SHM_QUEUE_BUF_SMALL :: int where "ERR_SHM_QUEUE_BUF_SMALL = -207"
definition ERR_SHM_QUEUE_DATE_RESET :: int where "ERR_SHM_QUEUE_DATE_RESET = -208"
definition ERR_SHM_QUEUE_DATE_TAIL :: int where "ERR_SHM_QUEUE_DATE_TAIL = -208"
definition TAIL_FLAG :: byte where "TAIL_FLAG = 0xDD"

lemmas shm_err_defs = ERR_SHM_QUEUE_FULL_def ERR_SHM_QUEUE_EMPTY_def ERR_SHM_QUEUE_BUF_SMALL_def
  ERR_SHM_QUEUE_DATE_RESET_def ERR_SHM_QUEUE_DATE_TAIL_def SUCCESS_def ERROR_def

definition pTail :: bytes where "pTail = replicate 6 TAIL_FLAG"

definition head_bytes :: "date_block_head \<Rightarrow> bytes" where
  "head_bytes b = le32 (word_of_int (m_iIndex b)) @ le32 (word_of_int (m_iDateLen b))"

definition head_of_bytes :: "bytes \<Rightarrow> date_block_head" where
  "head_of_bytes xs =
     \<lparr>m_iIndex = sint (un_le32 (take 4 xs)), m_iDateLen = sint (un_le32 (take 4 (drop 4 xs)))\<rparr>"

section \<open>C arithmetic\<close>

text \<open>
  \<open>csize\<close> reads a value as \<^verbatim>\<open>size_t\<close>, \<open>cint\<close> converts back to \<^verbatim>\<open>int\<close>; \<open>crem\<close> and \<open>urem\<close> are
  \<^verbatim>\<open>%\<close> on \<^verbatim>\<open>int\<close> and on \<^verbatim>\<open>size_t\<close> operands, undefined for divisor 0.
\<close>

definition csize :: "int \<Rightarrow> int" where "csize x = x mod 2 ^ 64"
definition cint :: "int \<Rightarrow> int" where "cint x = sint (word_of_int x :: i32)"
definition crem :: "int \<Rightarrow> int \<Rightarrow> int option" where
  "crem a b = (if b = 0 then None else Some (a smod b))"
definition urem :: "int \<Rightarrow> int \<Rightarrow> int option" where
  "urem a b = (if csize b = 0 then None else Some (cint (csize a mod csize b)))"

section \<open>The spin lock\<close>

text \<open>
  \<^verbatim>\<open>while(true){ if(!CAS32(&m_iUsedNum,old,new)) continue; break; }\<close>: with no other process
  writing \<^verbatim>\<open>m_iUsedNum\<close>, the loop is left in its first round or never.
\<close>

definition spin_cas :: "queue_head \<Rightarrow> int \<Rightarrow> int \<Rightarrow> queue_head option" where
  "spin_cas h old new = (if m_iUsedNum h = old then Some (h\<lparr>m_iUsedNum := new\<rparr>) else None)"

section \<open>Enqueue\<close>

definition free_space :: "queue_head \<Rightarrow> int" where
  "free_space h =
     (if m_iHead h < m_iTail h \<or> (m_iHead h = m_iTail h \<and> m_iBlockNum h = 0)
      then m_iLen h - (m_iTail h - m_iHead h)
      else if m_iHead h > m_iTail h then m_iHead h - m_iTail h
      else 0)"

text \<open>The three copies of the path that wraps around, each with its own split.\<close>

definition put_head :: "queue_head \<Rightarrow> bytes \<Rightarrow> bytes \<Rightarrow> int \<Rightarrow> int \<Rightarrow> (bytes \<times> int \<times> int) option" where
  "put_head h mem blockHeader saveIndex tailRightSpace =
     (if tailRightSpace \<ge> 8 then do {
        mem1 \<leftarrow> memcpy mem saveIndex blockHeader 0 8;
        saveIndex1 \<leftarrow> urem (saveIndex + 8) (m_iLen h);
        Some (mem1, saveIndex1, tailRightSpace - 8) }
      else do {
        mem1 \<leftarrow> memcpy mem saveIndex blockHeader 0 tailRightSpace;
        mem2 \<leftarrow> memcpy mem1 0 blockHeader tailRightSpace (8 - tailRightSpace);
        saveIndex1 \<leftarrow> urem (0 + 8 - tailRightSpace) (m_iLen h);
        Some (mem2, saveIndex1, m_iHead h - saveIndex1) })"

definition put_data ::
  "queue_head \<Rightarrow> bytes \<Rightarrow> bytes \<Rightarrow> int \<Rightarrow> int \<Rightarrow> int \<Rightarrow> (bytes \<times> int \<times> int) option" where
  "put_data h mem ipDate iDateLen saveIndex tailRightSpace =
     (if tailRightSpace \<ge> iDateLen then do {
        mem1 \<leftarrow> memcpy mem saveIndex ipDate 0 iDateLen;
        saveIndex1 \<leftarrow> crem (saveIndex + iDateLen) (m_iLen h);
        Some (mem1, saveIndex1, tailRightSpace - iDateLen) }
      else do {
        mem1 \<leftarrow> memcpy mem saveIndex ipDate 0 tailRightSpace;
        mem2 \<leftarrow> memcpy mem1 0 ipDate tailRightSpace (iDateLen - tailRightSpace);
        saveIndex1 \<leftarrow> crem (0 + iDateLen - tailRightSpace) (m_iLen h);
        Some (mem2, saveIndex1, m_iHead h - saveIndex1) })"

definition put_tail :: "bytes \<Rightarrow> int \<Rightarrow> int \<Rightarrow> bytes option" where
  "put_tail mem saveIndex tailRightSpace =
     (if tailRightSpace \<ge> 6 then memcpy mem saveIndex pTail 0 6
      else do {
        mem1 \<leftarrow> memcpy mem saveIndex pTail 0 tailRightSpace;
        memcpy mem1 0 pTail tailRightSpace (6 - tailRightSpace) })"

definition put_block :: "queue_head \<Rightarrow> bytes \<Rightarrow> bytes \<Rightarrow> int \<Rightarrow> bytes option" where
  "put_block h mem ipDate iDateLen =
     (let saveIndex = m_iTail h;
          blockHeader = head_bytes \<lparr>m_iIndex = m_iTail h, m_iDateLen = iDateLen\<rparr>;
          tailRightSpace = m_iLen h - m_iTail h
      in if m_iTail h < m_iHead h \<or> tailRightSpace \<ge> cint (iDateLen + 8 + 6) then do {
           mem1 \<leftarrow> memcpy mem saveIndex blockHeader 0 8;
           mem2 \<leftarrow> memcpy mem1 (saveIndex + 8) ipDate 0 iDateLen;
           memcpy mem2 (saveIndex + 8 + iDateLen) pTail 0 6 }
         else do {
           (mem1, saveIndex1, space1) \<leftarrow> put_head h mem blockHeader saveIndex tailRightSpace;
           (mem2, saveIndex2, space2) \<leftarrow> put_data h mem1 ipDate iDateLen saveIndex1 space1;
           put_tail mem2 saveIndex2 space2 })"

text \<open>What runs while the lock is held, between the two compare-and-swap loops.\<close>

definition enqueue_locked ::
  "queue_head \<Rightarrow> bytes \<Rightarrow> bytes \<Rightarrow> int \<Rightarrow> (int \<times> queue_head \<times> bytes) option" where
  "enqueue_locked h mem ipDate iDateLen =
     (if csize (free_space h) < csize (8 + iDateLen + 6)
      then Some (ERR_SHM_QUEUE_FULL, h, mem)
      else do {
        mem1 \<leftarrow> put_block h mem ipDate iDateLen;
        tail \<leftarrow> urem (m_iTail h + iDateLen + 8 + 6) (m_iLen h);
        Some (SUCCESS, h\<lparr>m_iTail := tail, m_iBlockNum := m_iBlockNum h + 1\<rparr>, mem1) })"

definition Enqueue :: "shm_queue \<Rightarrow> bytes \<Rightarrow> int \<Rightarrow> (int \<times> shm_queue) option" where
  "Enqueue q ipDate iDateLen =
     (case m_pQueueHead q of
        None \<Rightarrow> Some (ERROR, q)
      | Some h0 \<Rightarrow> do {
          h \<leftarrow> spin_cas h0 0 1;
          (ret, h', mem) \<leftarrow> enqueue_locked h (m_pMemAddr q) ipDate iDateLen;
          h'' \<leftarrow> spin_cas h' 1 0;
          Some (ret, q\<lparr>m_pQueueHead := Some h'', m_pMemAddr := mem\<rparr>) })"

section \<open>Dequeue\<close>

definition get_head :: "queue_head \<Rightarrow> bytes \<Rightarrow> (date_block_head \<times> int) option" where
  "get_head h mem =
     (let readIndex = m_iHead h; headRightSpace = m_iLen h - m_iHead h; zero = replicate 8 0
      in if csize headRightSpace \<ge> 8 then do {
           b \<leftarrow> memcpy zero 0 mem readIndex 8;
           readIndex1 \<leftarrow> urem (readIndex + 8) (m_iLen h);
           Some (head_of_bytes b, readIndex1) }
         else do {
           b1 \<leftarrow> memcpy zero 0 mem readIndex headRightSpace;
           b2 \<leftarrow> memcpy b1 headRightSpace mem 0 (8 - headRightSpace);
           readIndex1 \<leftarrow> urem (0 + 8 - headRightSpace) (m_iLen h);
           Some (head_of_bytes b2, readIndex1) })"

text \<open>The scan for the next six tail flags, which goes round the ring until it finds them.\<close>

partial_function (option) scan_tail :: "bytes \<Rightarrow> int \<Rightarrow> int \<Rightarrow> int \<Rightarrow> int option" where
  "scan_tail mem len readIndex tailFlagCount =
     (if readIndex < 0 \<or> int (length mem) \<le> readIndex then None
      else let count = (if mem ! nat readIndex = TAIL_FLAG then tailFlagCount + 1 else 0)
           in Option.bind (crem (readIndex + 1) len) (\<lambda>next.
                if count = 6 then Some next else scan_tail mem len next count))"

definition get_data :: "queue_head \<Rightarrow> bytes \<Rightarrow> bytes \<Rightarrow> int \<Rightarrow> int \<Rightarrow> (bytes \<times> int \<times> int) option" where
  "get_data h mem opBuf dateLen readIndex =
     (let headRightSpace = m_iLen h - readIndex
      in if headRightSpace \<ge> dateLen then do {
           b \<leftarrow> memcpy opBuf 0 mem readIndex dateLen;
           readIndex1 \<leftarrow> crem (readIndex + dateLen) (m_iLen h);
           Some (b, readIndex1, headRightSpace - dateLen) }
         else do {
           b1 \<leftarrow> memcpy opBuf 0 mem readIndex headRightSpace;
           b2 \<leftarrow> memcpy b1 headRightSpace mem 0 (dateLen - headRightSpace);
           readIndex1 \<leftarrow> crem (0 + dateLen - headRightSpace) (m_iLen h);
           Some (b2, readIndex1, m_iLen h - readIndex1) })"

definition get_tail :: "bytes \<Rightarrow> int \<Rightarrow> int \<Rightarrow> bytes option" where
  "get_tail mem readIndex headRightSpace =
     (let zero = replicate 6 0
      in if headRightSpace \<ge> 6 then memcpy zero 0 mem readIndex 6
         else do {
           t1 \<leftarrow> memcpy zero 0 mem readIndex headRightSpace;
           memcpy t1 headRightSpace mem 0 (6 - headRightSpace) })"

definition empty_head :: "shm_queue \<Rightarrow> queue_head \<Rightarrow> queue_head" where
  "empty_head q h =
     h\<lparr>m_iHead := 0, m_iTail := 0, m_iBlockNum := 0, m_iLen := m_iQueueSize q\<rparr>"

text \<open>The branch of a readable block: return code, output buffer, output length, new head.\<close>

definition read_block ::
  "shm_queue \<Rightarrow> queue_head \<Rightarrow> bytes \<Rightarrow> int \<Rightarrow> (int \<times> bytes \<times> int \<times> queue_head) option" where
  "read_block q h opBuf bufLen = do {
     (blockHeader, readIndex) \<leftarrow> get_head h (m_pMemAddr q);
     if bufLen < m_iDateLen blockHeader
     then Some (ERR_SHM_QUEUE_BUF_SMALL, opBuf, m_iDateLen blockHeader, h)
     else if m_iIndex blockHeader \<noteq> m_iHead h then
       (if m_iBlockNum h > 0 then do {
          readIndex1 \<leftarrow> scan_tail (m_pMemAddr q) (m_iLen h) readIndex 0;
          Some (ERR_SHM_QUEUE_DATE_RESET, opBuf, bufLen,
                h\<lparr>m_iHead := readIndex1, m_iBlockNum := m_iBlockNum h - 1\<rparr>) }
        else Some (ERR_SHM_QUEUE_EMPTY, opBuf, bufLen, empty_head q h))
     else if m_iDateLen blockHeader < 0
     then Some (ERR_SHM_QUEUE_EMPTY, opBuf, bufLen, empty_head q h)
     else do {
       let dateLen = m_iDateLen blockHeader;
       (opBuf1, readIndex1, headRightSpace) \<leftarrow> get_data h (m_pMemAddr q) opBuf dateLen readIndex;
       pReadDate \<leftarrow> get_tail (m_pMemAddr q) readIndex1 headRightSpace;
       head1 \<leftarrow> urem (m_iHead h + 8 + dateLen + 6) (m_iLen h);
       let h1 = h\<lparr>m_iHead := head1, m_iBlockNum := m_iBlockNum h - 1\<rparr>;
       Some (if pReadDate \<noteq> pTail then ERR_SHM_QUEUE_DATE_TAIL else SUCCESS, opBuf1, dateLen, h1) } }"

definition dequeue_locked ::
  "shm_queue \<Rightarrow> queue_head \<Rightarrow> bytes \<Rightarrow> int \<Rightarrow> (int \<times> bytes \<times> int \<times> queue_head) option" where
  "dequeue_locked q h opBuf bufLen =
     (if m_iBlockNum h > 0 \<or> m_iHead h \<noteq> m_iTail h
      then read_block q h opBuf bufLen
      else Some (ERR_SHM_QUEUE_EMPTY, opBuf, bufLen, h))"

definition DequeueInto :: "shm_queue \<Rightarrow> bytes \<Rightarrow> int \<Rightarrow> (int \<times> bytes \<times> int \<times> shm_queue) option" where
  "DequeueInto q opBuf bufLen =
     (case m_pQueueHead q of
        None \<Rightarrow> Some (ERROR, opBuf, bufLen, q)
      | Some h0 \<Rightarrow> do {
          h \<leftarrow> spin_cas h0 0 1;
          (ret, opBuf1, len1, h1) \<leftarrow> dequeue_locked q h opBuf bufLen;
          h2 \<leftarrow> spin_cas h1 1 0;
          Some (ret, opBuf1, len1, q\<lparr>m_pQueueHead := Some h2\<rparr>) })"

definition Dequeue ::
  "shm_queue \<Rightarrow> bytes option \<Rightarrow> int option \<Rightarrow> (int \<times> bytes option \<times> int option \<times> shm_queue) option" where
  "Dequeue q opBuf iopBufLen =
     (case (opBuf, iopBufLen) of
        (Some buf, Some len) \<Rightarrow> do {
          (ret, buf1, len1, q1) \<leftarrow> DequeueInto q buf len;
          Some (ret, Some buf1, Some len1, q1) }
      | _ \<Rightarrow> Some (ERROR, opBuf, iopBufLen, q))"

text \<open>\<^verbatim>\<open>GetDateBlockNum\<close> takes the semaphore, not the spin lock; its \<^verbatim>\<open>Lock\<close> and \<^verbatim>\<open>UnLock\<close> leave
  the ring alone.\<close>

definition GetDateBlockNum :: "shm_queue \<Rightarrow> int option" where
  "GetDateBlockNum q =
     (if \<not> m_pSemLock q then Some ERROR
      else case m_pQueueHead q of None \<Rightarrow> None | Some h \<Rightarrow> Some (m_iBlockNum h))"

section \<open>Init\<close>

text \<open>
  What the operating system answers to the \<^verbatim>\<open>shmget\<close>/\<^verbatim>\<open>shmat\<close> calls of \<^verbatim>\<open>Init\<close>: a fresh segment
  (zeroed by \<^verbatim>\<open>Init\<close>), an existing one with the head and the bytes it has, or a failure.
\<close>

datatype shm_open =
  ShmCreated | ShmExists queue_head bytes | ShmExistsOpenFailed | ShmGetFailed | ShmAtFailed

definition ERR_SHM_QUEUE_INIT_LOCK :: int where "ERR_SHM_QUEUE_INIT_LOCK = -201"
definition ERR_SHM_QUEUE_INIT_SHM :: int where "ERR_SHM_QUEUE_INIT_SHM = -202"
definition ERR_SHM_QUEUE_OPEN_SHM :: int where "ERR_SHM_QUEUE_OPEN_SHM = -203"
definition ERR_SHM_QUEUE_AT_SHM :: int where "ERR_SHM_QUEUE_AT_SHM = -204"

definition ShmQueue_new :: shm_queue where
  "ShmQueue_new = \<lparr>m_pQueueHead = None, m_iQueueSize = 0, m_pMemAddr = [], m_pSemLock = False\<rparr>"

definition Init :: "bool \<Rightarrow> shm_open \<Rightarrow> int \<Rightarrow> shm_queue \<Rightarrow> int \<times> shm_queue" where
  "Init lockOk os iQueueSize q0 =
     (let q = q0\<lparr>m_iQueueSize := iQueueSize, m_pSemLock := True\<rparr>
      in if \<not> lockOk then (ERR_SHM_QUEUE_INIT_LOCK, q)
         else case os of
           ShmExistsOpenFailed \<Rightarrow> (ERR_SHM_QUEUE_OPEN_SHM, q)
         | ShmGetFailed \<Rightarrow> (ERR_SHM_QUEUE_INIT_SHM, q)
         | ShmAtFailed \<Rightarrow> (ERR_SHM_QUEUE_AT_SHM, q)
         | ShmExists h mem \<Rightarrow> (SUCCESS, q\<lparr>m_pQueueHead := Some h, m_pMemAddr := mem\<rparr>)
         | ShmCreated \<Rightarrow>
             (SUCCESS, q\<lparr>m_pQueueHead := Some \<lparr>m_iLen = iQueueSize, m_iHead = 0, m_iTail = 0,
                                               m_iBlockNum = 0, m_iUsedNum = 0\<rparr>,
                         m_pMemAddr := replicate (nat iQueueSize) 0\<rparr>))"

end
