(* ===== verification/Ring_Memory.thy ===== *)
theory Ring_Memory
  imports Mq_Prelude
begin

text \<open>
  Reading and writing a byte array as a ring: \<open>circ mem p n\<close> is what a reader sees that
  starts at \<open>p\<close> and goes on at 0 after the last byte, \<open>cput mem p xs\<close> the array after
  writing \<open>xs\<close> the same way. The lemmas say that consecutive writes compose, that a write
  is read back, and that it leaves the rest of the ring alone; the shared-memory queue is
  proved correct on top of them.
\<close>

definition circ :: "bytes \<Rightarrow> nat \<Rightarrow> nat \<Rightarrow> bytes" where
  "circ mem p n = map (\<lambda>k. mem ! ((p + k) mod length mem)) [0..<n]"

definition cput :: "bytes \<Rightarrow> nat \<Rightarrow> bytes \<Rightarrow> bytes" where
  "cput mem p xs =
     (if p + length xs \<le> length mem then put_at mem p xs
      else put_at (put_at mem p (take (length mem - p) xs)) 0 (drop (length mem - p) xs))"

lemma length_circ [simp]: "length (circ mem p n) = n"
  by (simp add: circ_def)

lemma circ_0 [simp]: "circ mem p 0 = []"
  by (simp add: circ_def)

lemma nth_circ: "k < n \<Longrightarrow> circ mem p n ! k = mem ! ((p + k) mod length mem)"
  by (simp add: circ_def)

lemma length_cput [simp]:
  "p < length mem \<Longrightarrow> length xs \<le> length mem \<Longrightarrow> length (cput mem p xs) = length mem"
  by (auto simp: cput_def)

text \<open>Every index of the ring is at some distance \<open>j\<close> from \<open>p\<close>; \<open>cput\<close> writes the first ones.\<close>

lemma nth_put_at_in: "p + length xs \<le> length b \<Longrightarrow> p \<le> i \<Longrightarrow> i < p + length xs \<Longrightarrow>
   put_at b p xs ! i = xs ! (i - p)"
  by (simp add: nth_put_at)

lemma nth_put_at_out: "p + length xs \<le> length b \<Longrightarrow> i < length b \<Longrightarrow> i < p \<or> p + length xs \<le> i \<Longrightarrow>
   put_at b p xs ! i = b ! i"
  by (auto simp: nth_put_at)

lemma cput_wrapped_append:
  "length a = length mem - p \<Longrightarrow> p < length mem \<Longrightarrow> b \<noteq> [] \<Longrightarrow>
   cput mem p (a @ b) = put_at (put_at mem p a) 0 b"
  by (cases b) (auto simp: cput_def)

lemma nth_cput_wrapped_append:
  assumes "length a = length mem - p" "p < length mem" "b \<noteq> []" "length b \<le> p" "i < length mem"
  shows "cput mem p (a @ b) ! i =
    (if p \<le> i then a ! (i - p) else if i < length b then b ! i else mem ! i)"
proof -
  have la: "p + length a = length mem" using assms by simp
  have len: "length (put_at mem p a) = length mem" using la by simp
  have "put_at (put_at mem p a) 0 b ! i = (if i < length b then b ! i else put_at mem p a ! i)"
    using len assms by (simp add: nth_put_at)
  moreover have "put_at mem p a ! i = (if p \<le> i then a ! (i - p) else mem ! i)"
    using la assms(5) by (simp add: nth_put_at)
  ultimately show ?thesis using assms by (simp add: cput_wrapped_append)
qed

lemma ring_mod:
  "(p::nat) < L \<Longrightarrow> j < L \<Longrightarrow> (p + j) mod L = (if p + j < L then p + j else p + j - L)"
  by (simp add: mod_if)

lemma nth_cput:
  assumes "p < length mem" "length xs \<le> length mem" "j < length mem"
  shows "cput mem p xs ! ((p + j) mod length mem) =
         (if j < length xs then xs ! j else mem ! ((p + j) mod length mem))"
proof -
  obtain i where i: "i = (p + j) mod length mem" "i < length mem"
    "i = p + j \<or> i + length mem = p + j"
    by (rule that [of "(p + j) mod length mem"]) (use assms in \<open>auto simp: ring_mod\<close>)
  show ?thesis
  proof (cases "p + length xs \<le> length mem")
    case True
    then have "cput mem p xs ! i = (if j < length xs then xs ! j else mem ! i)"
      using i(2,3) assms by (auto simp: cput_def nth_put_at)
    with i(1) show ?thesis by simp
  next
    case False
    obtain a b where ab: "xs = a @ b" "length a = length mem - p"
      using that [of "take (length mem - p) xs" "drop (length mem - p) xs"] False by simp
    have b: "b \<noteq> []" "length b \<le> p" using ab False assms by auto
    note nth = nth_cput_wrapped_append [OF ab(2) assms(1) b i(2)]
    from i(3) have "cput mem p xs ! i = (if j < length xs then xs ! j else mem ! i)"
    proof
      assume "i = p + j"
      then have "j < length a" using ab(2) i(2) assms(1) by linarith
      then show ?thesis using nth ab(1) \<open>i = p + j\<close> by (simp add: nth_append)
    next
      assume "i + length mem = p + j"
      then have "i < p" "j = length a + i" using assms ab by auto
      then show ?thesis using nth ab nth_append_length_plus [of a b i] by simp
    qed
    with i(1) show ?thesis by simp
  qed
qed

lemma ring_index: "i < (L::nat) \<Longrightarrow> p < L \<Longrightarrow> \<exists>j<L. i = (p + j) mod L"
  by (rule exI [of _ "if p \<le> i then i - p else i + L - p"]) (auto simp: ring_mod)

lemma ring_eqI:
  assumes "length a = length mem" "length b = length mem" "p < length mem"
    and "\<And>j. j < length mem \<Longrightarrow> a ! ((p + j) mod length mem) = b ! ((p + j) mod length mem)"
  shows "a = b"
proof (rule nth_equalityI)
  fix i assume "i < length a"
  with assms(1,3) ring_index [of i "length mem" p] obtain j
    where "j < length mem" "i = (p + j) mod length mem" by auto
  with assms(4) show "a ! i = b ! i" by simp
qed (use assms in simp)

lemma cput_append:
  assumes "p < length mem" "length xs + length ys \<le> length mem"
  shows "cput (cput mem p xs) ((p + length xs) mod length mem) ys = cput mem p (xs @ ys)"
proof (rule ring_eqI [of _ mem _ p])
  have "0 < length mem" using assms by linarith
  then have "(p + length xs) mod length mem < length mem" by simp
  then show "length (cput (cput mem p xs) ((p + length xs) mod length mem) ys) = length mem"
    using assms by simp
next
  let ?L = "length mem" let ?q = "(p + length xs) mod ?L"
  have "0 < ?L" using assms by linarith
  then have q: "?q < ?L" by simp
  fix j assume j: "j < ?L"
  show "cput (cput mem p xs) ?q ys ! ((p + j) mod ?L) = cput mem p (xs @ ys) ! ((p + j) mod ?L)"
  proof (cases "j < length xs")
    case True
    let ?i = "j + ?L - length xs"
    have "(?q + ?i) mod ?L = (p + length xs + ?i) mod ?L" by (simp add: mod_add_left_eq)
    also have "p + length xs + ?i = p + j + ?L" using assms True by simp
    finally have i: "(p + j) mod ?L = (?q + ?i) mod ?L" by simp
    have "?i < ?L" "length ys \<le> ?i" using True assms by auto
    with i nth_cput [of ?q "cput mem p xs" ys ?i] q assms
    have "cput (cput mem p xs) ?q ys ! ((p + j) mod ?L) = cput mem p xs ! ((p + j) mod ?L)"
      by auto
    then show ?thesis using nth_cput [of p mem] j True assms by (simp add: nth_append)
  next
    case False
    then obtain i where ji: "j = length xs + i" using le_Suc_ex by (auto simp: not_less)
    have i: "(p + j) mod ?L = (?q + i) mod ?L" by (simp add: ji mod_add_left_eq add.assoc)
    have "i < ?L" using j ji by simp
    with i nth_cput [of ?q "cput mem p xs" ys i] nth_cput [of p mem xs j]
      nth_cput [of p mem "xs @ ys" j] q assms j ji
    show ?thesis by (auto simp: nth_append)
  qed
qed (use assms in simp_all)

lemma circ_cput_same:
  assumes "p < length mem" "length xs \<le> length mem"
  shows "circ (cput mem p xs) p (length xs) = xs"
  by (rule nth_equalityI) (use assms in \<open>auto simp: nth_circ nth_cput\<close>)

text \<open>A region that ends where the write begins, ring-wise, and fits beside it is untouched.\<close>

lemma circ_cput_other:
  assumes "p < length mem" "length xs \<le> length mem"
    and "p = (h + u) mod length mem" "u + length xs \<le> length mem" "a + n \<le> u"
  shows "circ (cput mem p xs) ((h + a) mod length mem) n = circ mem ((h + a) mod length mem) n"
proof (rule nth_equalityI)
  let ?L = "length mem"
  fix k assume "k < length (circ (cput mem p xs) ((h + a) mod ?L) n)"
  then have k: "k < n" by simp
  define j where "j = ?L - u + a + k"
  have "(p + j) mod ?L = (h + u + j) mod ?L" using assms(3) by (simp add: mod_add_left_eq)
  also have "h + u + j = h + a + k + ?L" using assms(4,5) k by (simp add: j_def)
  finally have idx: "((h + a) mod ?L + k) mod ?L = (p + j) mod ?L"
    by (simp add: mod_add_left_eq)
  have "j < ?L" "\<not> j < length xs" using assms k by (auto simp: j_def)
  with nth_cput [OF assms(1,2) \<open>j < ?L\<close>]
  show "circ (cput mem p xs) ((h + a) mod ?L) n ! k = circ mem ((h + a) mod ?L) n ! k"
    using k idx assms(1,2) by (simp add: nth_circ)
qed simp

lemma circ_append: "circ mem p (m + n) = circ mem p m @ circ mem ((p + m) mod length mem) n"
proof (rule nth_equalityI)
  fix i assume "i < length (circ mem p (m + n))"
  then have i: "i < m + n" by simp
  show "circ mem p (m + n) ! i = (circ mem p m @ circ mem ((p + m) mod length mem) n) ! i"
  proof (cases "i < m")
    case True
    then show ?thesis using i by (simp add: nth_circ nth_append)
  next
    case False
    then obtain k where "i = m + k" using le_Suc_ex by (auto simp: not_less)
    then show ?thesis using i by (simp add: nth_circ nth_append mod_add_left_eq add.assoc)
  qed
qed simp

text \<open>The two ways the code reads a stretch of the ring.\<close>

lemma circ_straight: "p + n \<le> length mem \<Longrightarrow> circ mem p n = get_at mem p n"
  by (rule nth_equalityI) (auto simp: nth_circ nth_get_at)

lemma circ_wrapped:
  assumes "p < length mem" "n \<le> length mem" "length mem < p + n"
  shows "circ mem p n = get_at mem p (length mem - p) @ get_at mem 0 (n - (length mem - p))"
proof (rule nth_equalityI)
  fix k assume "k < length (circ mem p n)"
  then have k: "k < n" by simp
  let ?r = "length mem - p"
  show "circ mem p n ! k = (get_at mem p ?r @ get_at mem 0 (n - ?r)) ! k"
  proof (cases "k < ?r")
    case True
    then show ?thesis using assms(1) k nth_get_at [of p ?r mem k] by (simp add: nth_circ nth_append)
  next
    case False
    then obtain i where i: "k = ?r + i" using le_Suc_ex by (auto simp: not_less)
    have "i < length mem" using i k assms by simp
    moreover have "p + k = i + length mem" using i assms(1) by simp
    ultimately have "(p + k) mod length mem = i" by simp
    then have "circ mem p n ! k = mem ! i" using k by (simp add: nth_circ)
    moreover have "length (get_at mem p ?r) = ?r" using assms(1) by simp
    then have "(get_at mem p ?r @ get_at mem 0 (n - ?r)) ! k = get_at mem 0 (n - ?r) ! i"
      using i nth_append_length_plus [of "get_at mem p ?r" "get_at mem 0 (n - ?r)" i] by simp
    moreover have "get_at mem 0 (n - ?r) ! i = mem ! i"
      using nth_get_at [of 0 "n - ?r" mem i] i k assms by simp
    ultimately show ?thesis by simp
  qed
qed (use assms in auto)

text \<open>The two ways the code writes one.\<close>

lemma cput_straight: "p + length xs \<le> length mem \<Longrightarrow> cput mem p xs = put_at mem p xs"
  by (simp add: cput_def)

lemma cput_wrapped:
  "\<not> p + length xs \<le> length mem \<Longrightarrow>
   cput mem p xs = put_at (put_at mem p (take (length mem - p) xs)) 0 (drop (length mem - p) xs)"
  by (simp add: cput_def)

end
