(* ===== verification/Fifo_Channel.thy ===== *)
theory Fifo_Channel
  imports Mq_Prelude
begin

text \<open>
  The interface through which the three processes talk: a channel that accepts a message or
  refuses it, and hands out the oldest message or nothing. The locale states what a client
  may rely on; its lemmas describe whole sequences of calls. The shared-memory queue is
  shown to be an instance in \<^verbatim>\<open>Shm_Correct\<close>.
\<close>

datatype chan_op = Put bytes | Take
datatype chan_res = Accepted bytes | Refused bytes | Got bytes | Nothing

text \<open>A sequence of calls on an implementation, and on the list of stored messages.\<close>

fun run_ops ::
  "('s \<Rightarrow> bytes \<Rightarrow> (int \<times> 's) option) \<Rightarrow> ('s \<Rightarrow> (int \<times> bytes \<times> 's) option) \<Rightarrow>
   's \<Rightarrow> chan_op list \<Rightarrow> (chan_res list \<times> 's) option" where
  "run_ops put tk s [] = Some ([], s)"
| "run_ops put tk s (Put d # ops) = do {
     (ret, s1) \<leftarrow> put s d;
     (rs, s2) \<leftarrow> run_ops put tk s1 ops;
     Some ((if ret = SUCCESS then Accepted d else Refused d) # rs, s2) }"
| "run_ops put tk s (Take # ops) = do {
     (ret, d, s1) \<leftarrow> tk s;
     (rs, s2) \<leftarrow> run_ops put tk s1 ops;
     Some ((if ret = SUCCESS then Got d else Nothing) # rs, s2) }"

fun spec_ops :: "(bytes list \<Rightarrow> bytes \<Rightarrow> bool) \<Rightarrow> bytes list \<Rightarrow> chan_op list \<Rightarrow>
    chan_res list \<times> bytes list" where
  "spec_ops fits ds [] = ([], ds)"
| "spec_ops fits ds (Put d # ops) =
     (if fits ds d
      then (let (rs, es) = spec_ops fits (ds @ [d]) ops in (Accepted d # rs, es))
      else (let (rs, es) = spec_ops fits ds ops in (Refused d # rs, es)))"
| "spec_ops fits [] (Take # ops) =
     (let (rs, es) = spec_ops fits [] ops in (Nothing # rs, es))"
| "spec_ops fits (d # ds) (Take # ops) =
     (let (rs, es) = spec_ops fits ds ops in (Got d # rs, es))"

fun accepted_of :: "chan_res list \<Rightarrow> bytes list" where
  "accepted_of [] = []"
| "accepted_of (Accepted d # rs) = d # accepted_of rs"
| "accepted_of (_ # rs) = accepted_of rs"

fun received_of :: "chan_res list \<Rightarrow> bytes list" where
  "received_of [] = []"
| "received_of (Got d # rs) = d # received_of rs"
| "received_of (_ # rs) = received_of rs"

fun put_ok :: "(bytes \<Rightarrow> bool) \<Rightarrow> chan_op \<Rightarrow> bool" where
  "put_ok ok (Put d) = ok d"
| "put_ok ok Take = True"

text \<open>On the list, what has been received and what is left is what was accepted, in order.\<close>

lemma spec_ops_fifo:
  "spec_ops fits ds ops = (rs, es) \<Longrightarrow> ds @ accepted_of rs = received_of rs @ es"
proof (induction fits ds ops arbitrary: rs es rule: spec_ops.induct)
  case (2 fits ds d ops)
  show ?case
  proof (cases "fits ds d")
    case True
    with 2(3) 2(1) [OF True] show ?thesis by (auto split: prod.splits)
  next
    case False
    with 2(3) 2(2) [OF False] show ?thesis by (auto split: prod.splits)
  qed
qed (auto split: prod.splits)

locale fifo_channel =
  fixes put :: "'s \<Rightarrow> bytes \<Rightarrow> (int \<times> 's) option"
    and tk :: "'s \<Rightarrow> (int \<times> bytes \<times> 's) option"
    and content :: "'s \<Rightarrow> bytes list \<Rightarrow> bool"
    and fits :: "bytes list \<Rightarrow> bytes \<Rightarrow> bool"
    and ok :: "bytes \<Rightarrow> bool"
  assumes put_fits: "content s ds \<Longrightarrow> ok d \<Longrightarrow> fits ds d \<Longrightarrow>
      \<exists>s'. put s d = Some (SUCCESS, s') \<and> content s' (ds @ [d])"
    and put_full: "content s ds \<Longrightarrow> ok d \<Longrightarrow> \<not> fits ds d \<Longrightarrow>
      \<exists>ret. ret \<noteq> SUCCESS \<and> put s d = Some (ret, s)"
    and take_oldest: "content s (d # ds) \<Longrightarrow> ok d \<Longrightarrow>
      \<exists>s'. tk s = Some (SUCCESS, d, s') \<and> content s' ds"
    and take_empty: "content s [] \<Longrightarrow> \<exists>ret d. ret \<noteq> SUCCESS \<and> tk s = Some (ret, d, s)"
begin

lemma run_refines:
  "content s ds \<Longrightarrow> \<forall>d\<in>set ds. ok d \<Longrightarrow> list_all (put_ok ok) ops \<Longrightarrow>
   \<exists>s'. run_ops put tk s ops = Some (fst (spec_ops fits ds ops), s') \<and>
        content s' (snd (spec_ops fits ds ops))"
proof (induction ops arbitrary: s ds)
  case Nil
  then show ?case by simp
next
  case (Cons x ops)
  then have ops: "list_all (put_ok ok) ops" by simp
  consider (fit) d where "x = Put d" "fits ds d" | (full) d where "x = Put d" "\<not> fits ds d"
    | (empty) "x = Take" "ds = []" | (old) d es where "x = Take" "ds = d # es"
    by (cases x; cases ds) auto
  then show ?case
  proof cases
    case (fit d)
    with Cons.prems put_fits [of s ds d] obtain s1 where
      s1: "put s d = Some (SUCCESS, s1)" "content s1 (ds @ [d])" by auto
    from Cons.IH [OF s1(2) _ ops] Cons.prems fit s1(1) show ?thesis
      by (auto simp: split_beta)
  next
    case (full d)
    with Cons.prems put_full [of s ds d] obtain ret where
      "put s d = Some (ret, s)" "ret \<noteq> SUCCESS" by auto
    with Cons.IH [OF Cons.prems(1,2) ops] full show ?thesis by (auto simp: split_beta)
  next
    case empty
    with Cons.prems take_empty [of s] obtain ret d where
      "tk s = Some (ret, d, s)" "ret \<noteq> SUCCESS" by auto
    with Cons.IH [OF Cons.prems(1,2) ops] empty show ?thesis by (auto simp: split_beta)
  next
    case (old d es)
    with Cons.prems take_oldest [of s d es] obtain s1 where
      s1: "tk s = Some (SUCCESS, d, s1)" "content s1 es" by auto
    from Cons.IH [OF s1(2) _ ops] Cons.prems old s1(1) show ?thesis
      by (auto simp: split_beta)
  qed
qed

lemma run_fifo:
  assumes "content s []" "list_all (put_ok ok) ops"
  shows "\<exists>rs s' es. run_ops put tk s ops = Some (rs, s') \<and> content s' es \<and>
    accepted_of rs = received_of rs @ es"
  using run_refines [of s "[]" ops] spec_ops_fifo [of fits "[]" ops] assms
  by (cases "spec_ops fits [] ops") auto

end

end
