(* ===== verification/Shm_Correct.thy ===== *)
theory Shm_Correct
  imports Shm_Queue Ring_Memory Fifo_Channel
begin

text \<open>
  Correctness of the shared-memory queue: the invariant of a ring that stores a list of
  data blocks, and the refinement of \<open>Enqueue\<close> and \<open>Dequeue\<close> to the operations on that
  list, wrap-around, full and empty rings and short buffers included.
\<close>

section \<open>The abstraction\<close>

definition blk :: "nat \<Rightarrow> bytes \<Rightarrow> bytes" where
  "blk p d = head_bytes \<lparr>m_iIndex = int p, m_iDateLen = int (length d)\<rparr> @ d @ pTail"

fun chain :: "bytes \<Rightarrow> nat \<Rightarrow> bytes list \<Rightarrow> bool" where
  "chain mem p [] = True"
| "chain mem p (d # ds) =
     (circ mem p (14 + length d) = blk p d \<and>
      chain mem ((p + (14 + length d)) mod length mem) ds)"

definition used :: "bytes list \<Rightarrow> nat" where
  "used ds = sum_list (map (\<lambda>d. 14 + length d) ds)"

definition ring_ok :: "queue_head \<Rightarrow> bytes \<Rightarrow> bytes list \<Rightarrow> bool" where
  "ring_ok h mem ds \<longleftrightarrow>
     m_iLen h = int (length mem) \<and> 0 < length mem \<and> m_iLen h < 2 ^ 30 \<and>
     m_iBlockNum h = int (length ds) \<and> used ds \<le> length mem \<and>
     0 \<le> m_iHead h \<and> m_iHead h < int (length mem) \<and>
     m_iTail h = int ((nat (m_iHead h) + used ds) mod length mem) \<and>
     chain mem (nat (m_iHead h)) ds"

definition holds :: "shm_queue \<Rightarrow> bytes list \<Rightarrow> bool" where
  "holds q ds \<longleftrightarrow>
     (case m_pQueueHead q of
        None \<Rightarrow> False
      | Some h \<Rightarrow> m_iUsedNum h = 0 \<and> ring_ok h (m_pMemAddr q) ds)"

definition capacity :: "shm_queue \<Rightarrow> nat" where
  "capacity q = length (m_pMemAddr q)"

lemma used_simps [simp]:
  "used [] = 0" "used (d # ds) = 14 + length d + used ds" "used (ds @ es) = used ds + used es"
  by (simp_all add: used_def)

lemma used_0_iff [simp]: "used ds = 0 \<longleftrightarrow> ds = []"
  by (cases ds) auto

lemma length_le_used: "14 * length ds \<le> used ds"
  by (induction ds) auto

lemma length_head_bytes [simp]: "length (head_bytes b) = 8"
  by (simp add: head_bytes_def)

lemma length_pTail [simp]: "length pTail = 6"
  by (simp add: pTail_def)

lemma length_blk [simp]: "length (blk p d) = 14 + length d"
  by (simp add: blk_def)

section \<open>C arithmetic within the bounds\<close>

lemma sint_i32: "- (2 ^ 31) \<le> x \<Longrightarrow> x < 2 ^ 31 \<Longrightarrow> sint (word_of_int x :: i32) = x"
  by (simp add: sint_sbintrunc' signed_take_bit_int_eq_self)

lemma c_arith [simp]:
  "0 \<le> x \<Longrightarrow> x < 2 ^ 31 \<Longrightarrow> csize x = x"
  "0 \<le> x \<Longrightarrow> x < 2 ^ 31 \<Longrightarrow> cint x = x"
  by (simp_all add: csize_def cint_def sint_i32)

lemma c_rem [simp]:
  "0 \<le> a \<Longrightarrow> 0 < b \<Longrightarrow> crem a b = Some (a mod b)"
  by (cases "a = 0") (auto simp: crem_def signed_modulo_int_def)

lemma u_rem [simp]:
  assumes "0 \<le> a" "a < 2 ^ 31" "0 < b" "b < 2 ^ 31"
  shows "urem a b = Some (a mod b)"
proof -
  have "0 \<le> a mod b" "a mod b < 2 ^ 31"
    using assms pos_mod_bound [of b a] by (simp, linarith)
  then show ?thesis using assms by (simp add: urem_def)
qed

lemma head_of_bytes_head_bytes:
  assumes "0 \<le> m_iIndex b" "m_iIndex b < 2 ^ 31" "0 \<le> m_iDateLen b" "m_iDateLen b < 2 ^ 31"
  shows "head_of_bytes (head_bytes b) = b"
  using assms by (cases b) (simp add: head_of_bytes_def head_bytes_def sint_i32)

section \<open>Storing a block\<close>

text \<open>
  \<open>room p L s space m\<close>: the writer is at \<open>s\<close>, believes that \<open>space\<close> bytes follow before it has
  to wrap around (or before it meets the head \<open>p\<close>), and has \<open>m\<close> more bytes to write.
\<close>

definition room :: "nat \<Rightarrow> nat \<Rightarrow> nat \<Rightarrow> nat \<Rightarrow> nat \<Rightarrow> bool" where
  "room p L s space m \<longleftrightarrow> p < L \<and> s < L \<and> m \<le> L \<and>
     ((space = L - s \<and> s + m \<le> p + L) \<or> (s = 0 \<and> space = 0 \<and> m \<le> p) \<or>
      (space = p - s \<and> s + m \<le> p))"

lemma roomI1: "p < L \<Longrightarrow> s < L \<Longrightarrow> m \<le> L \<Longrightarrow> s + m \<le> p + L \<Longrightarrow> room p L s (L - s) m"
  and roomI2: "p < L \<Longrightarrow> m \<le> p \<Longrightarrow> room p L 0 0 m"
  and roomI3: "p < L \<Longrightarrow> s < L \<Longrightarrow> s + m \<le> p \<Longrightarrow> room p L s (p - s) m"
  by (simp_all add: room_def)

lemma room_next_straight:
  assumes "room p L s space m" "k \<le> m" "s + k < L"
  shows "room p L (s + k) (if k \<le> space then space - k else p - (s + k)) (m - k)"
proof -
  from assms(1) have b: "p < L" "s < L" "m \<le> L"
    and d: "space = L - s \<and> s + m \<le> p + L \<or> s = 0 \<and> space = 0 \<and> m \<le> p \<or> space = p - s \<and> s + m \<le> p"
    by (simp_all add: room_def)
  from d show ?thesis
  proof (elim disjE conjE)
    assume sp: "space = L - s" "s + m \<le> p + L"
    have "k \<le> space" "space - k = L - (s + k)" "m - k \<le> L" "s + k + (m - k) \<le> p + L"
      using sp b assms(2,3) by linarith+
    then show ?thesis using roomI1 [OF b(1) assms(3)] by simp
  next
    assume "s = 0" "space = 0" "m \<le> p"
    then show ?thesis
      using b assms(2,3) roomI2 [of p L m] roomI3 [of p L k "m - k"] by (cases "k = 0") simp_all
  next
    assume sp: "space = p - s" "s + m \<le> p"
    have "k \<le> space" "space - k = p - (s + k)" "s + k + (m - k) \<le> p"
      using sp assms(2) by linarith+
    then show ?thesis using roomI3 [OF b(1) assms(3)] by simp
  qed
qed

lemma room_next_wrap:
  assumes "room p L s space m" "k \<le> m" "L \<le> s + k"
  shows "room p L (s + k - L) (if k \<le> space then space - k else p - (s + k - L)) (m - k)"
proof -
  from assms(1) have b: "p < L" "s < L" "m \<le> L"
    and d: "space = L - s \<and> s + m \<le> p + L \<or> s = 0 \<and> space = 0 \<and> m \<le> p \<or> space = p - s \<and> s + m \<le> p"
    by (simp_all add: room_def)
  with assms(2,3) have sp: "space = L - s" "s + m \<le> p + L" by auto
  show ?thesis
  proof (cases "s + k = L")
    case True
    then have "k \<le> space" "space - k = 0" "s + k - L = 0" "m - k \<le> p"
      using sp b assms(2) by linarith+
    then show ?thesis using roomI2 [OF b(1)] by simp
  next
    case False
    then have "\<not> k \<le> space" "s + k - L < L" "s + k - L + (m - k) \<le> p"
      using sp b assms(2,3) by linarith+
    then show ?thesis using roomI3 [OF b(1)] by (simp only: if_False)
  qed
qed

lemma room_next:
  assumes "room p L s space m" "k \<le> m"
  shows "room p L ((s + k) mod L) (if k \<le> space then space - k else p - (s + k) mod L) (m - k)"
proof (cases "s + k < L")
  case True
  then have "(s + k) mod L = s + k" by simp
  then show ?thesis using room_next_straight [OF assms True] by (simp only:)
next
  case False
  moreover have "s + k - L < L" using assms unfolding room_def by linarith
  ultimately have "(s + k) mod L = s + k - L" by (simp add: le_mod_geq)
  then show ?thesis using room_next_wrap [OF assms] False by (simp only: not_less)
qed

lemma copy_direct:
  assumes "room p (length mem) s space m" "k \<le> m" "k \<le> space" "k \<le> length src"
  shows "memcpy mem (int s) src 0 (int k) = Some (cput mem s (take k src))"
proof -
  have "s + k \<le> length mem" using assms by (auto simp: room_def)
  then show ?thesis
    using assms memcpy_nat [of mem s src 0 k] by (simp add: cput_straight get_at_def)
qed

lemma copy_wrapped:
  assumes "room p (length mem) s space m" "k \<le> m" "space < k" "k \<le> length src"
  shows "\<exists>mem1. memcpy mem (int s) src 0 (int space) = Some mem1 \<and> length mem1 = length mem \<and>
    memcpy mem1 0 src (int space) (int k - int space) = Some (cput mem s (take k src))"
proof -
  have s: "space = length mem - s \<or> s = 0 \<and> space = 0" "s < length mem" "k \<le> length mem"
    "s + space \<le> length mem"
    using assms by (auto simp: room_def)
  let ?m1 = "put_at mem s (take space src)"
  have 1: "memcpy mem (int s) src 0 (int space) = Some ?m1"
    using assms s memcpy_nat [of mem s src 0 space] by (simp add: get_at_def)
  have len: "length ?m1 = length mem" using s assms by simp
  have 2: "memcpy ?m1 0 src (int space) (int k - int space) =
    Some (put_at ?m1 0 (get_at src space (k - space)))"
    using assms s len memcpy_nat [of ?m1 0 src space "k - space"] by (simp add: of_nat_diff)
  have "put_at ?m1 0 (get_at src space (k - space)) = cput mem s (take k src)"
  proof (cases "space = 0")
    case True
    then show ?thesis using s assms by (auto simp: cput_straight get_at_def)
  next
    case False
    then have "space = length mem - s" using s by auto
    then show ?thesis
      using s assms by (simp add: cput_wrapped get_at_def take_drop min_def)
  qed
  with 1 2 len show ?thesis by auto
qed

lemma wrapped_index:
  "room p L s space m \<Longrightarrow> k \<le> m \<Longrightarrow> space < k \<Longrightarrow> (int k - int space) mod int L = int ((s + k) mod L)"
proof -
  assume a: "room p L s space m" "k \<le> m" "space < k"
  then have "int k - int space = int (s + k) - int L \<or> int k - int space = int (s + k)"
    by (auto simp: room_def)
  moreover have "(int (s + k) - int L) mod int L = int (s + k) mod int L" by simp
  ultimately have "(int k - int space) mod int L = int (s + k) mod int L" by metis
  then show ?thesis by (simp add: zmod_int)
qed

text \<open>Each stage writes its part of the block and leaves room for the rest.\<close>

lemma put_head_cput:
  assumes r: "room p (length mem) s space m" and "8 \<le> m" "length hb = 8"
    and h: "m_iLen h = int (length mem)" "m_iHead h = int p" "length mem < 2 ^ 30"
  shows "\<exists>space'. put_head h mem hb (int s) (int space) =
           Some (cput mem s hb, int ((s + 8) mod length mem), int space') \<and>
         room p (length mem) ((s + 8) mod length mem) space' (m - 8)"
proof (cases "8 \<le> space")
  case True
  have s: "s < length mem" "0 < length mem" using r by (auto simp: room_def)
  have "put_head h mem hb (int s) (int space) =
    Some (cput mem s hb, int ((s + 8) mod length mem), int (space - 8))"
    using copy_direct [OF r assms(2) True, of hb] True assms(3) h s
    by (simp add: put_head_def zmod_int of_nat_diff)
  moreover have "room p (length mem) ((s + 8) mod length mem) (space - 8) (m - 8)"
    using room_next [OF r assms(2)] True by simp
  ultimately show ?thesis by blast
next
  case False
  have s: "s < length mem" "0 < length mem" using r by (auto simp: room_def)
  from False copy_wrapped [OF r assms(2), of hb] assms(3) obtain mem1 where
    "memcpy mem (int s) hb 0 (int space) = Some mem1"
    "memcpy mem1 0 hb (int space) (8 - int space) = Some (cput mem s hb)" by auto
  moreover have "(8 - int space) mod int (length mem) = int ((s + 8) mod length mem)"
    using wrapped_index [OF r assms(2)] False by simp
  moreover have "(s + 8) mod length mem \<le> p"
    using room_next [OF r assms(2)] False assms(2) by (auto simp: room_def)
  ultimately have "put_head h mem hb (int s) (int space) =
    Some (cput mem s hb, int ((s + 8) mod length mem), int (p - (s + 8) mod length mem))"
    using False h s by (simp add: put_head_def of_nat_diff)
  moreover have "room p (length mem) ((s + 8) mod length mem) (p - (s + 8) mod length mem) (m - 8)"
    using room_next [OF r assms(2)] False by simp
  ultimately show ?thesis by blast
qed

lemma put_data_cput:
  assumes r: "room p (length mem) s space m" and "n \<le> m" "n \<le> length dat"
    and h: "m_iLen h = int (length mem)" "m_iHead h = int p"
  shows "\<exists>space'. put_data h mem dat (int n) (int s) (int space) =
           Some (cput mem s (take n dat), int ((s + n) mod length mem), int space') \<and>
         room p (length mem) ((s + n) mod length mem) space' (m - n)"
proof (cases "n \<le> space")
  case True
  have s: "s < length mem" "0 < length mem" using r by (auto simp: room_def)
  have "put_data h mem dat (int n) (int s) (int space) =
    Some (cput mem s (take n dat), int ((s + n) mod length mem), int (space - n))"
    using copy_direct [OF r assms(2) True assms(3)] True h s
    by (simp add: put_data_def zmod_int of_nat_diff)
  moreover have "room p (length mem) ((s + n) mod length mem) (space - n) (m - n)"
    using room_next [OF r assms(2)] True by simp
  ultimately show ?thesis by blast
next
  case False
  have s: "s < length mem" "0 < length mem" using r by (auto simp: room_def)
  from False copy_wrapped [OF r assms(2) _ assms(3)] obtain mem1 where
    "memcpy mem (int s) dat 0 (int space) = Some mem1"
    "memcpy mem1 0 dat (int space) (int n - int space) = Some (cput mem s (take n dat))" by auto
  moreover have "(int n - int space) mod int (length mem) = int ((s + n) mod length mem)"
    using wrapped_index [OF r assms(2)] False by simp
  moreover have "(s + n) mod length mem \<le> p"
    using room_next [OF r assms(2)] False by (auto simp: room_def)
  ultimately have "put_data h mem dat (int n) (int s) (int space) =
    Some (cput mem s (take n dat), int ((s + n) mod length mem), int (p - (s + n) mod length mem))"
    using False h s by (simp add: put_data_def of_nat_diff)
  moreover have "room p (length mem) ((s + n) mod length mem) (p - (s + n) mod length mem) (m - n)"
    using room_next [OF r assms(2)] False by simp
  ultimately show ?thesis by blast
qed

lemma put_tail_cput:
  assumes r: "room p (length mem) s space 6"
  shows "put_tail mem (int s) (int space) = Some (cput mem s pTail)"
proof (cases "6 \<le> space")
  case True
  then show ?thesis using copy_direct [OF r _ True, of pTail] by (simp add: put_tail_def)
next
  case False
  with copy_wrapped [OF r, of 6 pTail] show ?thesis by (auto simp: put_tail_def)
qed

lemma put_block_cput:
  assumes ok: "ring_ok h mem ds" and n: "n \<le> length dat" "used ds + 14 + n \<le> length mem"
    and t: "t = (nat (m_iHead h) + used ds) mod length mem"
  shows "put_block h mem dat (int n) = Some (cput mem t (blk t (take n dat)))"
proof -
  define p where "p = nat (m_iHead h)"
  let ?L = "length mem" and ?H = "head_bytes \<lparr>m_iIndex = int t, m_iDateLen = int n\<rparr>"
  from ok have L: "m_iLen h = int ?L" "0 < ?L" "?L < 2 ^ 30"
    and hp: "m_iHead h = int p" "p < ?L" and tt: "m_iTail h = int t"
    by (auto simp: ring_ok_def t p_def)
  have tm: "t = (p + used ds) mod ?L" by (simp add: t p_def)
  have tL: "t < ?L" unfolding tm using L(2) by simp
  have "used ds < ?L" using n(2) by linarith
  from ring_mod [OF hp(2) this] hp(2) have tp: "t = p + used ds \<or> t + ?L = p + used ds"
    unfolding tm by (cases "p + used ds < ?L") simp_all
  have blk: "blk t (take n dat) = (?H @ take n dat) @ pTail"
    using n by (simp add: blk_def)
  have whole: "cput mem t (blk t (take n dat)) =
    cput (cput (cput mem t ?H) ((t + 8) mod ?L) (take n dat)) ((t + 8 + n) mod ?L) pTail"
    using cput_append [of t mem ?H "take n dat"] cput_append [of t mem "?H @ take n dat" pTail]
      tL n unfolding blk by (simp add: add.assoc)
  have cond: "cint (14 + int n) = int n + 14" using n L by simp
  show ?thesis
  proof (cases "t < p \<or> n + 14 \<le> ?L - t")
    case True
    then have fit: "t + (14 + n) \<le> ?L" using tp tL n hp by auto
    have m1: "(t + 8) mod ?L = t + 8" using fit by simp
    have m2: "(t + 8 + n) mod ?L = t + 8 + n" using fit by simp
    have c1: "memcpy mem (int t) ?H 0 8 = Some (cput mem t ?H)"
      using fit memcpy_nat [of mem t ?H 0 8] get_at_all [of ?H] by (simp add: cput_straight)
    have c2: "memcpy (cput mem t ?H) (int t + 8) dat 0 (int n) =
        Some (cput (cput mem t ?H) (t + 8) (take n dat))"
      using fit n tL memcpy_nat [of "cput mem t ?H" "t + 8" dat 0 n]
      by (simp add: cput_straight get_at_def add.commute)
    have c3: "memcpy (cput (cput mem t ?H) (t + 8) (take n dat)) (int t + 8 + int n) pTail 0 6 =
        Some (cput (cput (cput mem t ?H) (t + 8) (take n dat)) (t + 8 + n) pTail)"
      using fit n tL memcpy_nat [of "cput (cput mem t ?H) (t + 8) (take n dat)" "t + 8 + n" pTail 0 6]
        get_at_all [of pTail]
      by (simp add: cput_straight add.commute)
    have "m_iTail h < m_iHead h \<or> m_iLen h - m_iTail h \<ge> cint (int n + 8 + 6)"
      using True tL by (auto simp: tt hp L cond)
    then show ?thesis
      unfolding put_block_def Let_def whole m1 m2 by (simp add: tt c1 c2 c3)
  next
    case False
    have "t + (14 + n) \<le> p + ?L" using tp n by auto
    with roomI1 [OF hp(2) tL] n have r0: "room p ?L t (?L - t) (14 + n)" by simp
    obtain sp1 where h1: "put_head h mem ?H (int t) (int (?L - t)) =
         Some (cput mem t ?H, int ((t + 8) mod ?L), int sp1)"
      and r1: "room p ?L ((t + 8) mod ?L) sp1 (6 + n)"
      using put_head_cput [OF r0 _ length_head_bytes L(1) hp(1) L(3)] by auto
    let ?m1 = "cput mem t ?H" and ?s1 = "(t + 8) mod ?L"
    have l1: "length ?m1 = ?L" using tL n by simp
    obtain sp2 where h2: "put_data h ?m1 dat (int n) (int ?s1) (int sp1) =
         Some (cput ?m1 ?s1 (take n dat), int ((?s1 + n) mod ?L), int sp2)"
      and r2: "room p ?L ((?s1 + n) mod ?L) sp2 6"
      using put_data_cput [of p ?m1 ?s1 sp1 "6 + n" n dat h] r1 n L hp l1 by auto
    let ?m2 = "cput ?m1 ?s1 (take n dat)"
    have s2: "(?s1 + n) mod ?L = (t + 8 + n) mod ?L" by (simp add: mod_add_left_eq)
    have l2: "length ?m2 = ?L" using l1 r1 n by (auto simp: room_def)
    have h3: "put_tail ?m2 (int ((?s1 + n) mod ?L)) (int sp2) = Some (cput ?m2 ((?s1 + n) mod ?L) pTail)"
      using put_tail_cput [of p ?m2 _ sp2] r2 l2 by simp
    have neg: "\<not> (m_iTail h < m_iHead h \<or> m_iLen h - m_iTail h \<ge> cint (int n + 8 + 6))"
      using False tL by (auto simp: tt hp L cond)
    have sp: "m_iLen h - m_iTail h = int (?L - t)" using tL by (simp add: tt L of_nat_diff)
    show ?thesis
      unfolding put_block_def Let_def
      unfolding if_not_P [OF neg]
      unfolding sp unfolding tt whole
      by (simp add: h1 h2 h3 [unfolded s2] s2)
  qed
qed

section \<open>The chain of blocks\<close>

lemma chain_cput:
  assumes "t < length mem" "t = (p + u) mod length mem" "u + length xs \<le> length mem"
  shows "a + used ds \<le> u \<Longrightarrow>
    chain (cput mem t xs) ((p + a) mod length mem) ds = chain mem ((p + a) mod length mem) ds"
proof (induction ds arbitrary: a)
  case Nil
  then show ?case by simp
next
  case (Cons d ds)
  let ?L = "length mem"
  have "((p + a) mod ?L + (14 + length d)) mod ?L = (p + (a + (14 + length d))) mod ?L"
    by (simp add: mod_add_left_eq add.assoc)
  moreover have "circ (cput mem t xs) ((p + a) mod ?L) (14 + length d) =
      circ mem ((p + a) mod ?L) (14 + length d)"
    using circ_cput_other [OF assms(1) _ assms(2,3), of a "14 + length d"] Cons.prems assms(3) by simp
  ultimately show ?case
    using Cons.IH [of "a + (14 + length d)"] Cons.prems assms by simp
qed

lemma chain_snoc:
  "p < length mem \<Longrightarrow> chain mem p (ds @ [d]) \<longleftrightarrow>
   chain mem p ds \<and> circ mem ((p + used ds) mod length mem) (14 + length d) =
     blk ((p + used ds) mod length mem) d"
proof (induction ds arbitrary: p)
  case Nil
  then show ?case by simp
next
  case (Cons e ds)
  have "0 < length mem" using Cons.prems by linarith
  then have "(p + (14 + length e)) mod length mem < length mem" by simp
  from Cons.IH [OF this] show ?case by (simp add: mod_add_left_eq add.assoc)
qed

section \<open>Enqueue refines appending\<close>

lemma ring_ok_used_cong [simp]:
  "ring_ok (h\<lparr>m_iUsedNum := x\<rparr>) mem ds = ring_ok h mem ds"
  by (simp add: ring_ok_def)

lemma holds_record:
  "holds q ds \<longleftrightarrow>
     (\<exists>h. m_pQueueHead q = Some h \<and> m_iUsedNum h = 0 \<and> ring_ok h (m_pMemAddr q) ds)"
  by (auto simp: holds_def split: option.splits)

lemma free_space_used:
  assumes "ring_ok h mem ds"
  shows "free_space h = int (length mem - used ds)"
proof -
  obtain p where p: "m_iHead h = int p" "p < length mem"
    using assms by (auto simp: ring_ok_def intro: nonneg_int_cases)
  have a: "m_iLen h = int (length mem)" "used ds \<le> length mem"
    "m_iBlockNum h = int (length ds)" "m_iTail h = int ((p + used ds) mod length mem)"
    using assms by (auto simp: ring_ok_def p)
  consider "used ds = length mem" | "p + used ds < length mem" "used ds < length mem"
    | "length mem \<le> p + used ds" "used ds < length mem"
    using a(2) by linarith
  then show ?thesis
  proof cases
    case 1
    then show ?thesis using a p by (auto simp: free_space_def)
  next
    case 2
    then show ?thesis using a p ring_mod [OF p(2) 2(2)] by (auto simp: free_space_def of_nat_diff)
  next
    case 3
    then show ?thesis using a p ring_mod [OF p(2) 3(2)] by (auto simp: free_space_def of_nat_diff)
  qed
qed

lemma free_space_used_cong [simp]: "free_space (h\<lparr>m_iUsedNum := x\<rparr>) = free_space h"
  by (simp add: free_space_def)

lemma ring_ok_enqueue:
  assumes ok: "ring_ok h mem ds" and fit: "used ds + (14 + length d) \<le> length mem"
    and t: "t = (nat (m_iHead h) + used ds) mod length mem"
  shows "ring_ok (h\<lparr>m_iTail := int ((t + (14 + length d)) mod length mem),
                    m_iBlockNum := m_iBlockNum h + 1\<rparr>) (cput mem t (blk t d)) (ds @ [d])"
proof -
  let ?L = "length mem" and ?p = "nat (m_iHead h)"
  have p: "?p < ?L" "0 < ?L" using ok by (auto simp: ring_ok_def)
  then have tL: "t < ?L" using t by simp
  have len: "length (cput mem t (blk t d)) = ?L" using tL fit by simp
  have "chain (cput mem t (blk t d)) ?p ds"
    using chain_cput [OF tL t, of "blk t d" 0 ds] fit p ok by (simp add: ring_ok_def)
  moreover have "circ (cput mem t (blk t d)) t (14 + length d) = blk t d"
    using circ_cput_same [OF tL, of "blk t d"] fit by simp
  ultimately have "chain (cput mem t (blk t d)) ?p (ds @ [d])"
    using chain_snoc [of ?p "cput mem t (blk t d)"] p len t by simp
  moreover have "(t + (14 + length d)) mod ?L = (?p + used (ds @ [d])) mod ?L"
    by (simp add: t mod_add_left_eq add.assoc)
  ultimately show ?thesis
    using ok len fit by (simp add: ring_ok_def)
qed

lemma enqueue_locked_fits:
  assumes ok: "ring_ok h mem ds" and n: "n \<le> length dat" "used ds + (14 + n) \<le> length mem"
  shows "\<exists>h' mem'. enqueue_locked h mem dat (int n) = Some (SUCCESS, h', mem') \<and>
    ring_ok h' mem' (ds @ [take n dat]) \<and> length mem' = length mem \<and> m_iUsedNum h' = m_iUsedNum h"
proof -
  let ?L = "length mem"
  have L: "?L < 2 ^ 30" "m_iLen h = int ?L" "0 < ?L" using ok by (auto simp: ring_ok_def)
  have fit: "used ds + 14 + n \<le> ?L" using n by simp
  define t where "t = (nat (m_iHead h) + used ds) mod ?L"
  have t: "t < ?L" "m_iTail h = int t" using ok L by (auto simp: t_def ring_ok_def)
  have put: "put_block h mem dat (int n) = Some (cput mem t (blk t (take n dat)))"
    using put_block_cput [OF ok n(1) fit, of t] by (simp add: t_def)
  have full: "\<not> csize (free_space h) < csize (8 + int n + 6)"
    using free_space_used [OF ok] fit L by simp
  have tail: "urem (m_iTail h + int n + 8 + 6) (m_iLen h) = Some (int ((t + (14 + n)) mod ?L))"
    using t fit L by (simp add: zmod_int ac_simps)
  note ring = ring_ok_enqueue [OF ok, of "take n dat" t, unfolded t_def [symmetric]]
  define h' where "h' = h\<lparr>m_iTail := int ((t + (14 + n)) mod ?L), m_iBlockNum := m_iBlockNum h + 1\<rparr>"
  have "enqueue_locked h mem dat (int n) = Some (SUCCESS, h', cput mem t (blk t (take n dat)))"
    using put full tail by (simp add: enqueue_locked_def h'_def)
  moreover have "ring_ok h' (cput mem t (blk t (take n dat))) (ds @ [take n dat])"
    using ring n fit by (simp add: h'_def)
  moreover have "length (cput mem t (blk t (take n dat))) = ?L" using t n fit by simp
  ultimately show ?thesis by (auto simp: h'_def)
qed

lemma enqueue_locked_full:
  assumes ok: "ring_ok h mem ds" and n: "n < 2 ^ 30" "length mem < used ds + (14 + n)"
  shows "enqueue_locked h mem dat (int n) = Some (ERR_SHM_QUEUE_FULL, h, mem)"
  using free_space_used [OF ok] n ok by (simp add: enqueue_locked_def ring_ok_def)

lemma Enqueue_fits:
  assumes q: "holds q ds" and n: "n \<le> length dat" "used ds + (14 + n) \<le> capacity q"
  shows "\<exists>q'. Enqueue q dat (int n) = Some (SUCCESS, q') \<and> holds q' (ds @ [take n dat]) \<and>
    capacity q' = capacity q \<and> m_iQueueSize q' = m_iQueueSize q"
proof -
  obtain h where h: "m_pQueueHead q = Some h" "m_iUsedNum h = 0" "ring_ok h (m_pMemAddr q) ds"
    using q by (auto simp: holds_record)
  then have "ring_ok (h\<lparr>m_iUsedNum := 1\<rparr>) (m_pMemAddr q) ds" by simp
  from enqueue_locked_fits [OF this n(1)] n(2) obtain h' mem' where
    "enqueue_locked (h\<lparr>m_iUsedNum := 1\<rparr>) (m_pMemAddr q) dat (int n) = Some (SUCCESS, h', mem')"
    "ring_ok h' mem' (ds @ [take n dat])" "length mem' = capacity q" "m_iUsedNum h' = 1"
    by (auto simp: capacity_def)
  then show ?thesis
    using h by (auto simp: Enqueue_def spin_cas_def holds_record capacity_def)
qed

lemma holds_reset_lock [simp]: "m_iUsedNum h = 0 \<Longrightarrow> h\<lparr>m_iUsedNum := 0\<rparr> = h"
  by simp

lemma Enqueue_full:
  assumes q: "holds q ds" and n: "n < 2 ^ 30" "capacity q < used ds + (14 + n)"
  shows "Enqueue q dat (int n) = Some (ERR_SHM_QUEUE_FULL, q)"
proof -
  obtain h where h: "m_pQueueHead q = Some h" "m_iUsedNum h = 0" "ring_ok h (m_pMemAddr q) ds"
    using q by (auto simp: holds_record)
  then have "ring_ok (h\<lparr>m_iUsedNum := 1\<rparr>) (m_pMemAddr q) ds" by simp
  from enqueue_locked_full [OF this n(1)] n(2) h show ?thesis
    by (simp add: Enqueue_def spin_cas_def capacity_def)
qed

section \<open>Dequeue refines taking the oldest block\<close>

text \<open>A wrapped or straight copy out of the ring into the front of a buffer.\<close>

lemma read_straight:
  assumes "p + n \<le> length mem" "n \<le> length buf"
  shows "memcpy buf 0 mem (int p) (int n) = Some (put_at buf 0 (circ mem p n))"
  using assms memcpy_nat [of buf 0 mem p n] by (simp add: circ_straight)

lemma read_wrapped:
  assumes L: "length mem = p + r" and n: "r < n" "n \<le> p + r" "n \<le> length buf" and "0 < r"
  shows "\<exists>b1. memcpy buf 0 mem (int p) (int r) = Some b1 \<and>
    memcpy b1 (int r) mem 0 (int n - int r) = Some (put_at buf 0 (circ mem p n))"
proof -
  let ?a = "get_at mem p r" and ?b = "get_at mem 0 (n - r)"
  have la: "length ?a = r" "length ?b = n - r" using L n by simp_all
  have 1: "memcpy buf 0 mem (int p) (int r) = Some (put_at buf 0 ?a)"
    using n L memcpy_nat [of buf 0 mem p r] by simp
  have i: "int n - int r = int (n - r)" using n by simp
  have len: "length (put_at buf 0 ?a) = length buf" using n la by simp
  have "memcpy (put_at buf 0 ?a) (int r) mem 0 (int (n - r)) = Some (put_at (put_at buf 0 ?a) r ?b)"
    using n L len memcpy_nat [of "put_at buf 0 ?a" r mem 0 "n - r"] by simp
  moreover have "put_at (put_at buf 0 ?a) r ?b = put_at buf 0 (?a @ ?b)"
    using put_put_append [of 0 ?a ?b buf] n la by simp
  moreover have "circ mem p n = ?a @ ?b"
    using circ_wrapped [of p mem n] L n \<open>0 < r\<close> by simp
  ultimately show ?thesis unfolding i using 1 by auto
qed

lemma put_at_whole [simp]: "length xs = length b \<Longrightarrow> put_at b 0 xs = xs"
  by (simp add: put_at_def)

lemma get_head_circ:
  assumes h: "m_iHead h = int p" "m_iLen h = int (length mem)"
    and L: "length mem = p + r" "0 < r" "8 \<le> p + r" "p + r < 2 ^ 30"
  shows "get_head h mem = Some (head_of_bytes (circ mem p 8), int ((p + 8) mod length mem))"
proof -
  have sp: "m_iLen h - m_iHead h = int r" "csize (int r) = int r" using h L by simp_all
  show ?thesis
  proof (cases "8 \<le> r")
    case True
    have "urem (int p + 8) (m_iLen h) = Some (int ((p + 8) mod length mem))"
      using h L by (simp add: zmod_int)
    with read_straight [of p 8 mem "replicate 8 0"] L True show ?thesis
      unfolding get_head_def Let_def sp by (simp add: h(1))
  next
    case False
    with L read_wrapped [of mem p r 8 "replicate 8 0"] obtain b1 where
      c: "memcpy (replicate 8 0) 0 mem (int p) (int r) = Some b1"
      "memcpy b1 (int r) mem 0 (8 - int r) = Some (circ mem p 8)"
      by auto
    have "(p + 8) mod length mem = 8 - r" using L False by (simp add: le_mod_geq)
    then have "urem (0 + 8 - int r) (m_iLen h) = Some (int ((p + 8) mod length mem))"
      using h L False by (simp add: of_nat_diff)
    with c False show ?thesis
      unfolding get_head_def Let_def sp by (simp add: h(1))
  qed
qed

lemma get_data_circ:
  assumes h: "m_iLen h = int (length mem)" and n: "n \<le> length mem" "n \<le> length buf"
    and L: "length mem = p + r" "0 < r"
  shows "get_data h mem buf (int n) (int p) =
    Some (put_at buf 0 (circ mem p n), int ((p + n) mod length mem),
          int (if n \<le> r then r - n else length mem - (p + n) mod length mem))"
proof -
  have sp: "m_iLen h - int p = int r" using h L by simp
  show ?thesis
  proof (cases "n \<le> r")
    case True
    have "crem (int p + int n) (m_iLen h) = Some (int ((p + n) mod length mem))"
      using h L by (simp add: zmod_int)
    with read_straight [of p n mem buf] L True n show ?thesis
      unfolding get_data_def Let_def sp by (simp add: of_nat_diff)
  next
    case False
    with n L read_wrapped [of mem p r n buf] obtain b1 where
      c: "memcpy buf 0 mem (int p) (int r) = Some b1"
      "memcpy b1 (int r) mem 0 (int n - int r) = Some (put_at buf 0 (circ mem p n))"
      by auto
    have m: "(p + n) mod length mem = n - r" using L False n by (simp add: le_mod_geq)
    then have cr: "crem (0 + int n - int r) (m_iLen h) = Some (int ((p + n) mod length mem))"
      using h L False n by (simp add: of_nat_diff)
    have "m_iLen h - int ((p + n) mod length mem) = int (length mem - (p + n) mod length mem)"
      using h L False n m by (simp add: of_nat_diff)
    with c cr False show ?thesis
      unfolding get_data_def Let_def sp by simp
  qed
qed

lemma get_tail_circ:
  assumes L: "length mem = p + r" "0 < r" "6 \<le> length mem"
    and space: "space = r \<or> (p = 0 \<and> space = 0)"
  shows "get_tail mem (int p) (int space) = Some (circ mem p 6)"
  using space
proof
  assume s: "space = r"
  show ?thesis
  proof (cases "6 \<le> r")
    case True
    then show ?thesis
      using read_straight [of p 6 mem "replicate 6 0"] L s by (simp add: get_tail_def)
  next
    case False
    then show ?thesis
      using read_wrapped [of mem p r 6 "replicate 6 0"] L s by (auto simp: get_tail_def)
  qed
next
  assume s: "p = 0 \<and> space = 0"
  then show ?thesis
    using read_straight [of 0 6 mem "replicate 6 0"] L memcpy_nat [of "replicate 6 0" 0 mem 0 0]
    by (simp add: get_tail_def)
qed

text \<open>The first block of the chain, read stage by stage.\<close>

lemma circ_blk_parts:
  assumes "circ mem p (14 + length d) = blk p d"
  shows "circ mem p 8 = head_bytes \<lparr>m_iIndex = int p, m_iDateLen = int (length d)\<rparr>"
    "circ mem ((p + 8) mod length mem) (length d) = d"
    "circ mem ((p + 8 + length d) mod length mem) 6 = pTail"
proof -
  let ?L = "length mem" and ?h = "head_bytes \<lparr>m_iIndex = int p, m_iDateLen = int (length d)\<rparr>"
  have "14 + length d = 8 + (length d + 6)" by simp
  then have "circ mem p (14 + length d) =
    circ mem p 8 @ circ mem ((p + 8) mod ?L) (length d) @ circ mem ((p + 8 + length d) mod ?L) 6"
    by (simp only: circ_append mod_add_left_eq add.assoc)
  then have "circ mem p 8 @ (circ mem ((p + 8) mod ?L) (length d) @
      circ mem ((p + 8 + length d) mod ?L) 6) = ?h @ (d @ pTail)"
    using assms by (simp add: blk_def)
  then show "circ mem p 8 = ?h"
    "circ mem ((p + 8) mod ?L) (length d) = d"
    "circ mem ((p + 8 + length d) mod ?L) 6 = pTail" by simp_all
qed

lemma ring_ok_Cons:
  assumes ok: "ring_ok h mem (d # ds)"
  obtains p r where "m_iHead h = int p" "length mem = p + r" "0 < r" "14 + length d \<le> p + r"
    "p + r < 2 ^ 30" "m_iLen h = int (length mem)" "circ mem p (14 + length d) = blk p d"
    "chain mem ((p + (14 + length d)) mod length mem) ds"
    "m_iBlockNum h = int (length ds) + 1"
    "m_iTail h = int ((p + used (d # ds)) mod length mem)" "used (d # ds) \<le> length mem"
proof -
  define p where "p = nat (m_iHead h)"
  have "m_iHead h = int p" "p < length mem" using ok by (auto simp: p_def ring_ok_def)
  moreover have "length mem = p + (length mem - p)" "0 < length mem - p"
    using \<open>p < length mem\<close> by auto
  moreover have "14 + length d \<le> length mem" using ok by (simp add: ring_ok_def)
  ultimately show thesis
    using ok by (intro that [of p "length mem - p"]) (auto simp: ring_ok_def)
qed

lemma ring_ok_dequeue:
  assumes ok: "ring_ok h mem (d # ds)" and p: "m_iHead h = int p"
  shows "ring_ok (h\<lparr>m_iHead := int ((p + (14 + length d)) mod length mem),
                    m_iBlockNum := m_iBlockNum h - 1\<rparr>) mem ds"
  using ok p by (auto simp: ring_ok_def mod_add_left_eq add.assoc)

lemma read_block_ok:
  assumes ok: "ring_ok h (m_pMemAddr q) (d # ds)" and p: "m_iHead h = int p"
    and buf: "int (length d) \<le> bufLen" "bufLen \<le> int (length buf)"
  shows "read_block q h buf bufLen = Some (SUCCESS, put_at buf 0 d, int (length d),
    h\<lparr>m_iHead := int ((p + (14 + length d)) mod length (m_pMemAddr q)),
      m_iBlockNum := m_iBlockNum h - 1\<rparr>)"
proof -
  let ?mem = "m_pMemAddr q" and ?n = "length d"
  obtain r where r: "length ?mem = p + r" "0 < r" "14 + ?n \<le> p + r" "p + r < 2 ^ 30"
    "m_iLen h = int (length ?mem)" "circ ?mem p (14 + ?n) = blk p d"
    by (rule ring_ok_Cons [OF ok]) (use p in auto)
  note parts = circ_blk_parts [OF r(6)]
  let ?p1 = "(p + 8) mod length ?mem" and ?p2 = "(p + 8 + ?n) mod length ?mem"
  have p1: "?p1 < length ?mem" "?p2 < length ?mem" using r(1,2) by simp_all
  define r1 where "r1 = length ?mem - ?p1"
  have r1: "length ?mem = ?p1 + r1" "0 < r1" using p1 by (simp_all add: r1_def)
  define sp where "sp = (if ?n \<le> r1 then r1 - ?n else length ?mem - (?p1 + ?n) mod length ?mem)"
  have p12: "(?p1 + ?n) mod length ?mem = ?p2" by (simp add: mod_add_left_eq)
  have nle: "?n \<le> length ?mem" "?n \<le> length buf" using r(1,3) buf by linarith+
  have hd: "get_head h ?mem =
      Some (\<lparr>m_iIndex = int p, m_iDateLen = int ?n\<rparr>, int ?p1)"
    using get_head_circ [OF p r(5,1,2)] r parts(1) by (simp add: head_of_bytes_head_bytes)
  have dat: "get_data h ?mem buf (int ?n) (int ?p1) = Some (put_at buf 0 d, int ?p2, int sp)"
    using get_data_circ [OF r(5) nle r1] by (simp only: p12 sp_def parts(2))
  have "sp = length ?mem - ?p2 \<or> (?p2 = 0 \<and> sp = 0)"
  proof (cases "?p1 + ?n < length ?mem")
    case True
    then have "?p2 = ?p1 + ?n" using p12 by simp
    then show ?thesis using r1 True by (simp add: sp_def)
  next
    case False
    then show ?thesis using p12 r1 by (cases "?n = r1") (auto simp: sp_def)
  qed
  then have tail: "get_tail ?mem (int ?p2) (int sp) = Some pTail"
    using get_tail_circ [of ?mem ?p2 "length ?mem - ?p2" sp] p1 r(1,3) parts(3) by simp
  have new: "urem (14 + (int p + int ?n)) (m_iLen h) =
      Some (int ((p + (14 + ?n)) mod length ?mem))"
    using r p by (simp add: zmod_int ac_simps)
  show ?thesis
    using buf by (simp add: read_block_def Let_def hd dat tail new p)
qed

lemma read_block_small:
  assumes ok: "ring_ok h (m_pMemAddr q) (d # ds)" and "bufLen < int (length d)"
  shows "read_block q h buf bufLen = Some (ERR_SHM_QUEUE_BUF_SMALL, buf, int (length d), h)"
proof -
  obtain p r where r: "m_iHead h = int p" "length (m_pMemAddr q) = p + r" "0 < r"
    "14 + length d \<le> p + r" "p + r < 2 ^ 30" "m_iLen h = int (length (m_pMemAddr q))"
    "circ (m_pMemAddr q) p (14 + length d) = blk p d"
    by (rule ring_ok_Cons [OF ok])
  have "get_head h (m_pMemAddr q) =
      Some (\<lparr>m_iIndex = int p, m_iDateLen = int (length d)\<rparr>,
        int ((p + 8) mod length (m_pMemAddr q)))"
    using get_head_circ [OF r(1,6,2,3)] r circ_blk_parts(1) [OF r(7)]
    by (simp add: head_of_bytes_head_bytes)
  then show ?thesis using assms(2) by (simp add: read_block_def)
qed

lemma dequeue_locked_ok:
  assumes ok: "ring_ok h (m_pMemAddr q) (d # ds)"
    and buf: "int (length d) \<le> bufLen" "bufLen \<le> int (length buf)"
  shows "\<exists>h'. dequeue_locked q h buf bufLen = Some (SUCCESS, put_at buf 0 d, int (length d), h') \<and>
    ring_ok h' (m_pMemAddr q) ds \<and> m_iUsedNum h' = m_iUsedNum h"
proof -
  obtain p where p: "m_iHead h = int p" by (rule ring_ok_Cons [OF ok])
  have "m_iBlockNum h > 0" using ok by (simp add: ring_ok_def)
  then show ?thesis
    using read_block_ok [OF ok p buf] ring_ok_dequeue [OF ok p] by (simp add: dequeue_locked_def)
qed

lemma dequeue_locked_small:
  "ring_ok h (m_pMemAddr q) (d # ds) \<Longrightarrow> bufLen < int (length d) \<Longrightarrow>
   dequeue_locked q h buf bufLen = Some (ERR_SHM_QUEUE_BUF_SMALL, buf, int (length d), h)"
  by (simp add: dequeue_locked_def read_block_small) (simp add: ring_ok_def)

lemma dequeue_locked_empty:
  "ring_ok h (m_pMemAddr q) [] \<Longrightarrow>
   dequeue_locked q h buf bufLen = Some (ERR_SHM_QUEUE_EMPTY, buf, bufLen, h)"
  by (auto simp: dequeue_locked_def ring_ok_def)

lemma DequeueInto_ok:
  assumes q: "holds q (d # ds)" and buf: "int (length d) \<le> bufLen" "bufLen \<le> int (length buf)"
  shows "\<exists>q'. DequeueInto q buf bufLen = Some (SUCCESS, put_at buf 0 d, int (length d), q') \<and>
    holds q' ds \<and> capacity q' = capacity q \<and> m_iQueueSize q' = m_iQueueSize q"
proof -
  obtain h where h: "m_pQueueHead q = Some h" "m_iUsedNum h = 0" "ring_ok h (m_pMemAddr q) (d # ds)"
    using q by (auto simp: holds_record)
  then have "ring_ok (h\<lparr>m_iUsedNum := 1\<rparr>) (m_pMemAddr q) (d # ds)" by simp
  from dequeue_locked_ok [OF this buf] obtain h' where
    "dequeue_locked q (h\<lparr>m_iUsedNum := 1\<rparr>) buf bufLen = Some (SUCCESS, put_at buf 0 d, int (length d), h')"
    "ring_ok h' (m_pMemAddr q) ds" "m_iUsedNum h' = 1" by auto
  then show ?thesis
    using h by (auto simp: DequeueInto_def spin_cas_def holds_record capacity_def)
qed

lemma DequeueInto_small:
  "holds q (d # ds) \<Longrightarrow> bufLen < int (length d) \<Longrightarrow>
   DequeueInto q buf bufLen = Some (ERR_SHM_QUEUE_BUF_SMALL, buf, int (length d), q)"
  by (auto simp: holds_record DequeueInto_def spin_cas_def dequeue_locked_small)

lemma DequeueInto_empty:
  "holds q [] \<Longrightarrow> DequeueInto q buf bufLen = Some (ERR_SHM_QUEUE_EMPTY, buf, bufLen, q)"
  by (auto simp: holds_record DequeueInto_def spin_cas_def dequeue_locked_empty)

text \<open>The ring that \<open>Init\<close> makes in a fresh segment.\<close>

lemma Init_holds:
  assumes "0 < n" "n < 2 ^ 30"
  shows "\<exists>q. Init True ShmCreated (int n) q0 = (SUCCESS, q) \<and> holds q [] \<and> capacity q = n \<and>
    m_iQueueSize q = int n"
  using assms by (simp add: Init_def holds_record ring_ok_def capacity_def)

section \<open>Any packet, any content\<close>

text \<open>A ring that holds some list of blocks; whatever is put in, the call returns and the ring holds some list.\<close>

definition shm_ok :: "shm_queue \<Rightarrow> bool" where
  "shm_ok q \<longleftrightarrow> (\<exists>ds. holds q ds)"

lemma put_data_too_short: "int (length dat) < n \<Longrightarrow> put_data h mem dat n i sp = None"
  by (auto simp: put_data_def memcpy_def bind_eq_None_conv)

lemma put_block_too_short: "int (length dat) < n \<Longrightarrow> put_block h mem dat n = None"
  by (auto simp: put_block_def Let_def put_data_too_short memcpy_def bind_eq_None_conv
      split: prod.splits)

lemma Enqueue_shm_ok:
  assumes ok: "shm_ok q" and e: "Enqueue q buf n = Some (ret, q')" and n: "0 \<le> n" "n < 2 ^ 30"
  shows "shm_ok q'"
proof -
  from ok obtain ds where ds: "holds q ds" by (auto simp: shm_ok_def)
  obtain k where k: "n = int k" "k < 2 ^ 30" using n nonneg_int_cases by (metis of_nat_less_numeral_power_cancel_iff)
  show ?thesis
  proof (cases "capacity q < used ds + (14 + k)")
    case True
    with Enqueue_full [OF ds k(2)] e k show ?thesis using ok by auto
  next
    case fits: False
    show ?thesis
    proof (cases "k \<le> length buf")
      case True
      with Enqueue_fits [OF ds, of k buf] fits e k show ?thesis by (auto simp: shm_ok_def)
    next
      case False
      obtain h where h: "m_pQueueHead q = Some h" "m_iUsedNum h = 0" "ring_ok h (m_pMemAddr q) ds"
        using ds by (auto simp: holds_record)
      then have "ring_ok (h\<lparr>m_iUsedNum := 1\<rparr>) (m_pMemAddr q) ds" by simp
      from free_space_used [OF this] fits k h(3)
      have "\<not> csize (free_space (h\<lparr>m_iUsedNum := 1\<rparr>)) < csize (8 + n + 6)"
        by (simp add: capacity_def ring_ok_def)
      then have "enqueue_locked (h\<lparr>m_iUsedNum := 1\<rparr>) (m_pMemAddr q) buf n = None"
        using put_block_too_short [of buf n] False k by (simp add: enqueue_locked_def)
      then show ?thesis using e h by (simp add: Enqueue_def spin_cas_def)
    qed
  qed
qed

lemma Enqueue_returns:
  assumes "shm_ok q" "0 \<le> n" "n \<le> int (length buf)" "n < 2 ^ 30"
  shows "\<exists>r q'. Enqueue q buf n = Some (r, q')"
proof -
  from assms(1) obtain ds where ds: "holds q ds" by (auto simp: shm_ok_def)
  obtain k where k: "n = int k" "k < 2 ^ 30" "k \<le> length buf"
    using assms(2-) nonneg_int_cases by (metis of_nat_le_iff of_nat_less_numeral_power_cancel_iff)
  show ?thesis
  proof (cases "capacity q < used ds + (14 + k)")
    case True
    with Enqueue_full [OF ds k(2)] k show ?thesis by auto
  next
    case False
    with Enqueue_fits [OF ds k(3)] k show ?thesis by auto
  qed
qed

section \<open>The queue as a channel\<close>

text \<open>The calls as the servers make them: a whole packet in, a server buffer for the answer.\<close>

definition shm_put :: "shm_queue \<Rightarrow> bytes \<Rightarrow> (int \<times> shm_queue) option" where
  "shm_put q d = Enqueue q d (int (length d))"

definition shm_take :: "shm_queue \<Rightarrow> (int \<times> bytes \<times> shm_queue) option" where
  "shm_take q = do {
     (ret, buf, len, q1) \<leftarrow> DequeueInto q (replicate MAX_SERVER_PACKAGE_LENGTH 0)
                             (int MAX_SERVER_PACKAGE_LENGTH);
     Some (ret, take (nat len) buf, q1) }"

definition packet_ok :: "bytes \<Rightarrow> bool" where
  "packet_ok d \<longleftrightarrow> length d \<le> MAX_SERVER_PACKAGE_LENGTH"

lemma take_put_at_0: "length d \<le> length b \<Longrightarrow> take (length d) (put_at b 0 d) = d"
  by (simp add: put_at_def)

interpretation shm: fifo_channel shm_put shm_take "\<lambda>q ds. holds q ds \<and> capacity q = cap"
    "\<lambda>ds d. used ds + (14 + length d) \<le> cap" packet_ok for cap
proof (unfold_locales, goal_cases)
  case (1 q ds d)
  then show ?case using Enqueue_fits [of q ds "length d" d] by (auto simp: shm_put_def)
next
  case (2 q ds d)
  then show ?case
    using Enqueue_full [of q ds "length d" d]
    by (auto simp: shm_put_def packet_ok_def size_defs shm_err_defs)
next
  case (3 q d ds)
  then show ?case
    using DequeueInto_ok [of q d ds "int MAX_SERVER_PACKAGE_LENGTH" "replicate MAX_SERVER_PACKAGE_LENGTH 0"]
    by (auto simp: shm_take_def packet_ok_def take_put_at_0)
next
  case (4 q)
  then show ?case by (auto simp: shm_take_def DequeueInto_empty shm_err_defs)
qed

section \<open>Properties\<close>

text \<open>C17. \<open>Enqueue\<close> refines appending to the list of stored blocks: when the block with its
  header and tail fits into the free bytes of the ring, wherever the ring is about to wrap
  around, the call succeeds and the ring then holds the old blocks followed by the new one;
  otherwise it returns \<open>ERR_SHM_QUEUE_FULL\<close> and changes nothing. No copy leaves the ring.\<close>

theorem Enqueue_refines:
  assumes "holds q ds" "n \<le> length dat" "n < 2 ^ 30"
  shows "if used ds + (14 + n) \<le> capacity q
    then \<exists>q'. Enqueue q dat (int n) = Some (SUCCESS, q') \<and> holds q' (ds @ [take n dat]) \<and>
           capacity q' = capacity q
    else Enqueue q dat (int n) = Some (ERR_SHM_QUEUE_FULL, q)"
  using Enqueue_fits [OF assms(1,2)] Enqueue_full [OF assms(1,3)] by auto

text \<open>C20. \<open>Dequeue\<close> refines taking the oldest block: into a buffer that is large enough it
  copies exactly the bytes that were enqueued, reports their number, and leaves the remaining
  blocks in order; into a smaller buffer it returns \<open>ERR_SHM_QUEUE_BUF_SMALL\<close> with the length
  it needs and keeps the block; an empty ring gives \<open>ERR_SHM_QUEUE_EMPTY\<close>.\<close>

theorem Dequeue_refines:
  assumes "holds q ds" "bufLen \<le> int (length buf)"
  shows "case ds of
      [] \<Rightarrow> Dequeue q (Some buf) (Some bufLen) = Some (ERR_SHM_QUEUE_EMPTY, Some buf, Some bufLen, q)
    | d # rest \<Rightarrow>
        if int (length d) \<le> bufLen
        then \<exists>q'. Dequeue q (Some buf) (Some bufLen) =
                Some (SUCCESS, Some (put_at buf 0 d), Some (int (length d)), q') \<and> holds q' rest
        else Dequeue q (Some buf) (Some bufLen) =
               Some (ERR_SHM_QUEUE_BUF_SMALL, Some buf, Some (int (length d)), q)"
proof (cases ds)
  case Nil
  then show ?thesis using assms by (simp add: Dequeue_def DequeueInto_empty)
next
  case (Cons d rest)
  then show ?thesis
    using assms DequeueInto_ok [of q d rest bufLen buf] DequeueInto_small [of q d rest bufLen buf]
    by (auto simp: Dequeue_def)
qed

text \<open>A queue is first-in first-out without loss or duplication: after \<open>Init\<close> creates a
  ring of any size below 1 GB, every sequence of \<open>Enqueue\<close> and \<open>Dequeue\<close> calls with packets of at most
  \<open>MAX_SERVER_PACKAGE_LENGTH\<close> bytes runs without fault, and the packets received followed by the ones
  still stored are exactly the packets accepted, in order.\<close>

theorem shm_queue_fifo:
  assumes "0 < n" "n < 2 ^ 30" "list_all (put_ok packet_ok) ops"
  shows "\<exists>rs q es. run_ops shm_put shm_take (snd (Init True ShmCreated (int n) ShmQueue_new)) ops =
      Some (rs, q) \<and> holds q es \<and> accepted_of rs = received_of rs @ es"
  using Init_holds [OF assms(1,2), of ShmQueue_new] shm.run_fifo [of _ n ops] assms(3) by fastforce

section \<open>Witnesses\<close>

definition w_ring :: shm_queue where
  "w_ring = \<lparr>m_pQueueHead = Some \<lparr>m_iLen = 40, m_iHead = 30, m_iTail = 6, m_iBlockNum = 1,
     m_iUsedNum = 0\<rparr>, m_iQueueSize = 40,
     m_pMemAddr = put_at (put_at (replicate 40 0) 30 (take 10 (blk 30 [7, 9]))) 0 (drop 10 (blk 30 [7, 9])),
     m_pSemLock = True\<rparr>"

lemma w_ring_holds: "holds w_ring [[7, 9]]" "capacity w_ring = 40"
  by code_simp+

theorem Enqueue_refines_witness:
  "\<exists>q'. Enqueue w_ring [1, 2, 3, 4] 4 = Some (SUCCESS, q') \<and> holds q' [[7, 9], [1, 2, 3, 4]] \<and>
     capacity q' = 40"
  using Enqueue_refines [OF w_ring_holds(1), of 4 "[1, 2, 3, 4]"]
  by (simp add: w_ring_holds)

theorem Dequeue_refines_witness:
  "\<exists>q'. Dequeue w_ring (Some [0, 0, 0]) (Some 3) = Some (SUCCESS, Some [7, 9, 0], Some 2, q') \<and>
     holds q' []"
  using Dequeue_refines [OF w_ring_holds(1), of 3 "[0, 0, 0]"]
  by (simp add: put_at_def)

theorem shm_queue_fifo_witness:
  "\<exists>rs q es. run_ops shm_put shm_take (snd (Init True ShmCreated 40 ShmQueue_new))
       [Put [1, 2], Take, Put [3], Put (replicate 9 4), Take] = Some (rs, q) \<and>
     holds q es \<and> accepted_of rs = received_of rs @ es"
  using shm_queue_fifo [of 40 "[Put [1, 2], Take, Put [3], Put (replicate 9 4), Take]"]
  by (simp add: packet_ok_def size_defs)

end
