(* ===== verification/Shm_Concurrent.thy ===== *)
theory Shm_Concurrent
  imports Shm_Correct
begin

text \<open>
  The shared-memory queue under any number of processes. Each \<open>Enqueue\<close> or \<open>Dequeue\<close> call is
  a sequence of steps: spin on the lock word until the compare-and-swap succeeds, read the
  head and the ring, write back what the call computes, and swap the lock word back. The
  steps of different processes interleave freely. The invariant says that at most one
  process is past its spin loop, and that the ring always stores the accepted packets
  that have not been handed out yet.
\<close>

section \<open>Steps\<close>

datatype request = ReqEnqueue bytes | ReqDequeue

datatype pc =
  Idle
| Spin request
| Locked request
| Working request queue_head bytes
| Leaving int

record shm_sys =
  ring :: shm_queue
  pcs :: "nat \<Rightarrow> pc"
  accepted :: "bytes list"
  returned :: "bytes list"

fun request_ok :: "request \<Rightarrow> bool" where
  "request_ok (ReqEnqueue d) = packet_ok d"
| "request_ok ReqDequeue = True"

abbreviation server_buf :: bytes where
  "server_buf \<equiv> replicate MAX_SERVER_PACKAGE_LENGTH 0"

inductive shm_step :: "nat \<Rightarrow> shm_sys \<Rightarrow> shm_sys \<Rightarrow> bool" where
  call: "pcs s i = Idle \<Longrightarrow> request_ok r \<Longrightarrow> shm_step i s (s\<lparr>pcs := (pcs s)(i := Spin r)\<rparr>)"
| acquire: "pcs s i = Spin r \<Longrightarrow> m_pQueueHead (ring s) = Some h \<Longrightarrow> spin_cas h 0 1 = Some h' \<Longrightarrow>
    shm_step i s (s\<lparr>pcs := (pcs s)(i := Locked r), ring := (ring s)\<lparr>m_pQueueHead := Some h'\<rparr>\<rparr>)"
| load: "pcs s i = Locked r \<Longrightarrow> m_pQueueHead (ring s) = Some h \<Longrightarrow>
    shm_step i s (s\<lparr>pcs := (pcs s)(i := Working r h (m_pMemAddr (ring s)))\<rparr>)"
| store_enqueue: "pcs s i = Working (ReqEnqueue d) h mem \<Longrightarrow>
    enqueue_locked h mem d (int (length d)) = Some (ret, h', mem') \<Longrightarrow>
    shm_step i s (s\<lparr>pcs := (pcs s)(i := Leaving ret),
      ring := (ring s)\<lparr>m_pQueueHead := Some h', m_pMemAddr := mem'\<rparr>,
      accepted := (if ret = SUCCESS then accepted s @ [d] else accepted s)\<rparr>)"
| store_dequeue: "pcs s i = Working ReqDequeue h mem \<Longrightarrow>
    dequeue_locked ((ring s)\<lparr>m_pMemAddr := mem\<rparr>) h server_buf (int MAX_SERVER_PACKAGE_LENGTH) =
      Some (ret, buf, len, h') \<Longrightarrow>
    shm_step i s (s\<lparr>pcs := (pcs s)(i := Leaving ret), ring := (ring s)\<lparr>m_pQueueHead := Some h'\<rparr>,
      returned := (if ret = SUCCESS then returned s @ [take (nat len) buf] else returned s)\<rparr>)"
| release: "pcs s i = Leaving ret \<Longrightarrow> m_pQueueHead (ring s) = Some h \<Longrightarrow> spin_cas h 1 0 = Some h' \<Longrightarrow>
    shm_step i s (s\<lparr>pcs := (pcs s)(i := Idle), ring := (ring s)\<lparr>m_pQueueHead := Some h'\<rparr>\<rparr>)"

definition shm_start :: "nat \<Rightarrow> shm_sys" where
  "shm_start n = \<lparr>ring = snd (Init True ShmCreated (int n) ShmQueue_new), pcs = (\<lambda>_. Idle),
     accepted = [], returned = []\<rparr>"

inductive shm_reach :: "nat \<Rightarrow> shm_sys \<Rightarrow> bool" for n where
  start: "shm_reach n (shm_start n)"
| step: "shm_reach n s \<Longrightarrow> shm_step i s s' \<Longrightarrow> shm_reach n s'"

inductive_cases shm_stepE: "shm_step i s s'"

section \<open>The invariant\<close>

fun inside :: "pc \<Rightarrow> bool" where
  "inside Idle = False"
| "inside (Spin _) = False"
| "inside _ = True"

text \<open>What a process that is inside has read is still what the ring holds.\<close>

fun pc_ok :: "queue_head \<Rightarrow> bytes \<Rightarrow> pc \<Rightarrow> bool" where
  "pc_ok h mem Idle = True"
| "pc_ok h mem (Spin r) = request_ok r"
| "pc_ok h mem (Locked r) = request_ok r"
| "pc_ok h mem (Working r h1 mem1) = (request_ok r \<and> h1 = h \<and> mem1 = mem)"
| "pc_ok h mem (Leaving _) = True"

definition shm_inv :: "shm_sys \<Rightarrow> bool" where
  "shm_inv s \<longleftrightarrow> (\<exists>h ds. m_pQueueHead (ring s) = Some h \<and>
     ring_ok h (m_pMemAddr (ring s)) ds \<and> (\<forall>d\<in>set ds. packet_ok d) \<and>
     accepted s = returned s @ ds \<and>
     (\<forall>i. pc_ok h (m_pMemAddr (ring s)) (pcs s i)) \<and>
     (\<forall>i j. inside (pcs s i) \<longrightarrow> inside (pcs s j) \<longrightarrow> i = j) \<and>
     m_iUsedNum h = (if \<exists>i. inside (pcs s i) then 1 else 0))"

lemma pc_ok_outside: "\<not> inside p \<Longrightarrow> pc_ok h mem p = pc_ok h' mem' p"
  by (cases p) auto

lemma shm_invE:
  assumes "shm_inv s"
  obtains h ds where "m_pQueueHead (ring s) = Some h" "ring_ok h (m_pMemAddr (ring s)) ds"
    "\<forall>d\<in>set ds. packet_ok d" "accepted s = returned s @ ds"
    "\<And>i. pc_ok h (m_pMemAddr (ring s)) (pcs s i)"
    "\<And>i j. inside (pcs s i) \<Longrightarrow> inside (pcs s j) \<Longrightarrow> i = j"
    "m_iUsedNum h = (if \<exists>i. inside (pcs s i) then 1 else 0)"
  using assms unfolding shm_inv_def by blast

text \<open>A step of process \<open>i\<close> that is inside the lock afterwards or before; the others are outside.\<close>

lemma shm_invI:
  assumes "m_pQueueHead (ring s') = Some h'" "ring_ok h' (m_pMemAddr (ring s')) ds'"
    "\<forall>d\<in>set ds'. packet_ok d" "accepted s' = returned s' @ ds'"
    and p: "pcs s' = (pcs s)(i := p)" "pc_ok h' (m_pMemAddr (ring s')) p"
    and out: "\<And>j. j \<noteq> i \<Longrightarrow> \<not> inside (pcs s j)" "\<And>j. pc_ok h mem (pcs s j)"
    and lock: "m_iUsedNum h' = (if inside p then 1 else 0)"
  shows "shm_inv s'"
proof -
  have "pc_ok h' (m_pMemAddr (ring s')) (pcs s' j)" for j
  proof (cases "j = i")
    case False
    with out(2) [of j] pc_ok_outside [OF out(1) [OF False], of h mem h' "m_pMemAddr (ring s')"] p(1)
    show ?thesis by simp
  qed (use p in simp)
  moreover have "inside (pcs s' j) \<longleftrightarrow> j = i \<and> inside p" for j
    using p(1) out(1) by (cases "j = i") auto
  ultimately show ?thesis
    unfolding shm_inv_def using assms(1-4) lock by auto
qed

lemma shm_inv_start:
  assumes "0 < n" "n < 2 ^ 30"
  shows "shm_inv (shm_start n)"
proof -
  obtain q where "Init True ShmCreated (int n) ShmQueue_new = (SUCCESS, q)" "holds q []"
    using Init_holds [OF assms, of ShmQueue_new] by blast
  then show ?thesis
    by (auto simp: shm_inv_def shm_start_def holds_record)
qed

lemma shm_inv_step:
  assumes "shm_inv s" "shm_step i s s'"
  shows "shm_inv s'"
proof -
  obtain h ds where h: "m_pQueueHead (ring s) = Some h" "ring_ok h (m_pMemAddr (ring s)) ds"
    and ds: "\<forall>d\<in>set ds. packet_ok d" "accepted s = returned s @ ds"
    and pcs: "\<And>i. pc_ok h (m_pMemAddr (ring s)) (pcs s i)"
    and one: "\<And>i j. inside (pcs s i) \<Longrightarrow> inside (pcs s j) \<Longrightarrow> i = j"
    and lock: "m_iUsedNum h = (if \<exists>i. inside (pcs s i) then 1 else 0)"
    by (rule shm_invE [OF assms(1)]) (rule that; assumption)
  from assms(2) show ?thesis
  proof cases
    case (call r)
    have ins: "inside (pcs s' j) = inside (pcs s j)" for j using call by simp
    have "pc_ok h (m_pMemAddr (ring s)) (pcs s' j)" for j using call pcs [of j] by simp
    then show ?thesis
      unfolding shm_inv_def ins using h ds one lock call(1)
      by (intro exI [of _ h] exI [of _ ds]) simp
  next
    case (acquire r h1 h')
    then have a: "m_iUsedNum h = 0" "h' = h\<lparr>m_iUsedNum := 1\<rparr>"
      using h by (auto simp: spin_cas_def split: if_splits)
    then have o: "\<And>j. \<not> inside (pcs s j)" using lock by (metis zero_neq_one)
    have "request_ok r" using pcs [of i] acquire(2) by simp
    then show ?thesis
      unfolding acquire(1)
      by (intro shm_invI [where p = "Locked r" and i = i and h = h and h' = h'
            and ds' = ds and mem = "m_pMemAddr (ring s)" and s = s])
        (use a h ds o pcs in simp_all)
  next
    case (load r h1)
    then have w: "h1 = h" "inside (pcs s i)" "request_ok r" using h pcs [of i] by auto
    then have o: "\<And>j. j \<noteq> i \<Longrightarrow> \<not> inside (pcs s j)" "m_iUsedNum h = 1" using one lock by auto
    show ?thesis
      unfolding load(1)
      by (intro shm_invI [where p = "Working r h (m_pMemAddr (ring s))" and i = i and h = h
            and h' = h and ds' = ds and mem = "m_pMemAddr (ring s)" and s = s])
        (use w h ds o pcs in simp_all)
  next
    case (store_enqueue d h1 mem ret h' mem')
    then have w: "h1 = h" "mem = m_pMemAddr (ring s)" "inside (pcs s i)" "packet_ok d"
      using pcs [of i] by auto
    then have o: "\<And>j. j \<noteq> i \<Longrightarrow> \<not> inside (pcs s j)" "m_iUsedNum h = 1" using one lock by auto
    note eq = store_enqueue(3) [unfolded w]
    obtain ds' where d: "ring_ok h' mem' ds'" "\<forall>d\<in>set ds'. packet_ok d"
      "(if ret = SUCCESS then accepted s @ [d] else accepted s) = returned s @ ds'" "m_iUsedNum h' = 1"
    proof (cases "used ds + (14 + length d) \<le> length mem")
      case True
      with enqueue_locked_fits [OF h(2), of "length d" d] eq w o
      have "ret = SUCCESS" "ring_ok h' mem' (ds @ [d])" "m_iUsedNum h' = 1" by auto
      with w ds show ?thesis by (intro that [of "ds @ [d]"]) simp_all
    next
      case False
      with enqueue_locked_full [OF h(2), of "length d" d] eq w
      have "ret = ERR_SHM_QUEUE_FULL" "h' = h" "mem' = mem" by (auto simp: packet_ok_def size_defs)
      with w ds h o show ?thesis by (intro that [of ds]) (simp_all add: shm_err_defs)
    qed
    show ?thesis
      unfolding store_enqueue(1)
      by (intro shm_invI [where p = "Leaving ret" and i = i and h = h
            and h' = h' and ds' = ds' and mem = "m_pMemAddr (ring s)" and s = s])
        (use d o pcs in simp_all)
  next
    case (store_dequeue h1 mem ret buf len h')
    then have w: "h1 = h" "mem = m_pMemAddr (ring s)" "inside (pcs s i)"
      using pcs [of i] by auto
    then have o: "\<And>j. j \<noteq> i \<Longrightarrow> \<not> inside (pcs s j)" "m_iUsedNum h = 1" using one lock by auto
    have "(ring s)\<lparr>m_pMemAddr := mem\<rparr> = ring s" using w by simp
    note eq = store_dequeue(3) [unfolded this w(1)]
    obtain ds' where d: "ring_ok h' (m_pMemAddr (ring s)) ds'" "\<forall>d\<in>set ds'. packet_ok d"
      "accepted s = (if ret = SUCCESS then returned s @ [take (nat len) buf] else returned s) @ ds'"
      "m_iUsedNum h' = 1"
    proof (cases ds)
      case Nil
      with dequeue_locked_empty [of h "ring s"] eq h
      have "ret = ERR_SHM_QUEUE_EMPTY" "h' = h" by auto
      with ds h o show ?thesis by (intro that [of ds]) (simp_all add: shm_err_defs)
    next
      case (Cons d rest)
      then have l: "length d \<le> MAX_SERVER_PACKAGE_LENGTH" using ds by (simp add: packet_ok_def)
      then have "ret = SUCCESS" "take (nat len) buf = d" "ring_ok h' (m_pMemAddr (ring s)) rest"
          "m_iUsedNum h' = 1"
        using dequeue_locked_ok [of h "ring s" d rest "int MAX_SERVER_PACKAGE_LENGTH" server_buf]
          eq h Cons o by (auto simp: take_put_at_0)
      with ds Cons show ?thesis by (intro that [of rest]) simp_all
    qed
    show ?thesis
      unfolding store_dequeue(1)
      by (intro shm_invI [where p = "Leaving ret" and i = i and h = h
            and h' = h' and ds' = ds' and mem = "m_pMemAddr (ring s)" and s = s])
        (use d o pcs in simp_all)
  next
    case (release ret h1 h')
    then have a: "h' = h\<lparr>m_iUsedNum := 0\<rparr>" "inside (pcs s i)"
      using h by (auto simp: spin_cas_def split: if_splits)
    then have o: "\<And>j. j \<noteq> i \<Longrightarrow> \<not> inside (pcs s j)" using one by auto
    show ?thesis
      unfolding release(1)
      by (intro shm_invI [where p = Idle and i = i and h = h
            and h' = h' and ds' = ds and mem = "m_pMemAddr (ring s)" and s = s])
        (use a h ds o pcs in simp_all)
  qed
qed

lemma shm_reach_inv:
  assumes "shm_reach n s" "0 < n" "n < 2 ^ 30"
  shows "shm_inv s"
  using assms(1) by induction (auto intro: shm_inv_start [OF assms(2,3)] shm_inv_step)

section \<open>Properties\<close>

text \<open>C26. Under every interleaving of any number of processes, at most one of them is past the
  spin loop of the lock, the ring always stores well-formed blocks, and the packets handed
  out followed by the stored ones are exactly the accepted ones in the order of acceptance:
  no packet is lost, duplicated, reordered or torn by a concurrent call.\<close>

theorem shm_concurrent_fifo:
  assumes "shm_reach n s" "0 < n" "n < 2 ^ 30"
  shows "(\<forall>i j. inside (pcs s i) \<and> inside (pcs s j) \<longrightarrow> i = j) \<and>
    (\<exists>h ds. m_pQueueHead (ring s) = Some h \<and> ring_ok h (m_pMemAddr (ring s)) ds \<and>
       accepted s = returned s @ ds)"
proof -
  obtain h ds where "m_pQueueHead (ring s) = Some h" "ring_ok h (m_pMemAddr (ring s)) ds"
    "accepted s = returned s @ ds" "\<And>i j. inside (pcs s i) \<Longrightarrow> inside (pcs s j) \<Longrightarrow> i = j"
    by (rule shm_invE [OF shm_reach_inv [OF assms]]) (rule that; assumption)
  then show ?thesis by auto
qed

lemma shm_progress:
  assumes "shm_inv s" "\<And>r. pcs s i = Spin r \<Longrightarrow> \<forall>j. \<not> inside (pcs s j)"
  shows "\<exists>s'. shm_step i s s'"
proof -
  obtain h ds where h: "m_pQueueHead (ring s) = Some h" "ring_ok h (m_pMemAddr (ring s)) ds"
    and ds: "\<forall>d\<in>set ds. packet_ok d"
    and pcs: "\<And>i. pc_ok h (m_pMemAddr (ring s)) (pcs s i)"
    and lock: "m_iUsedNum h = (if \<exists>i. inside (pcs s i) then 1 else 0)"
    by (rule shm_invE [OF assms(1)]) (rule that; assumption)
  show ?thesis
  proof (cases "pcs s i")
    case Idle
    then show ?thesis using shm_step.call [of s i ReqDequeue] by auto
  next
    case (Spin r)
    then have "spin_cas h 0 1 = Some (h\<lparr>m_iUsedNum := 1\<rparr>)"
      using assms(2) lock by (simp add: spin_cas_def)
    then show ?thesis using shm_step.acquire [OF Spin h(1)] by auto
  next
    case (Locked r)
    then show ?thesis using shm_step.load [OF Locked h(1)] by auto
  next
    case (Leaving ret)
    then have "inside (pcs s i)" by simp
    then have "spin_cas h 1 0 = Some (h\<lparr>m_iUsedNum := 0\<rparr>)"
      using lock by (auto simp: spin_cas_def)
    then show ?thesis using shm_step.release [OF Leaving h(1)] by auto
  next
    case (Working r h1 mem)
    then have w: "h1 = h" "mem = m_pMemAddr (ring s)" "request_ok r" using pcs [of i] by auto
    then have eq: "(ring s)\<lparr>m_pMemAddr := mem\<rparr> = ring s" by simp
    show ?thesis
    proof (cases r)
      case (ReqEnqueue d)
      then have "length d < 2 ^ 30" using w by (simp add: packet_ok_def size_defs)
      then have "\<exists>x. enqueue_locked h mem d (int (length d)) = Some x"
        using enqueue_locked_fits [OF h(2), of "length d" d] enqueue_locked_full [OF h(2), of "length d" d] w
        by (cases "used ds + (14 + length d) \<le> length mem") auto
      then show ?thesis using shm_step.store_enqueue [of s i d h mem] Working ReqEnqueue w by auto
    next
      case ReqDequeue
      have "\<exists>x. dequeue_locked (ring s) h server_buf (int MAX_SERVER_PACKAGE_LENGTH) = Some x"
        using dequeue_locked_ok [of h "ring s" _ _ "int MAX_SERVER_PACKAGE_LENGTH" server_buf]
          dequeue_locked_empty [of h "ring s"] h ds
        by (cases ds) (fastforce simp: packet_ok_def)+
      then show ?thesis
        using shm_step.store_dequeue [of s i h mem] Working ReqDequeue w by (auto simp: eq)
    qed
  qed
qed

text \<open>C27. The queue never faults and never deadlocks while its processes run: in every
  reachable state each process has a step, unless it spins on the lock that another process
  holds, and that process has a step. In particular the copies of \<open>Enqueue\<close> and \<open>Dequeue\<close> stay
  inside the ring and the caller's buffer in every interleaving.\<close>

theorem shm_concurrent_progress:
  assumes "shm_reach n s" "0 < n" "n < 2 ^ 30"
  shows "(\<exists>s'. shm_step i s s') \<or>
    (\<exists>r j. pcs s i = Spin r \<and> j \<noteq> i \<and> inside (pcs s j) \<and> (\<exists>s'. shm_step j s s'))"
proof -
  note inv = shm_reach_inv [OF assms]
  show ?thesis
  proof (cases "\<exists>r j. pcs s i = Spin r \<and> inside (pcs s j)")
    case True
    then obtain r j where j: "pcs s i = Spin r" "inside (pcs s j)" by blast
    moreover then have "\<And>r. pcs s j \<noteq> Spin r" by auto
    ultimately have "j \<noteq> i" "\<exists>s'. shm_step j s s'" using shm_progress [OF inv, of j] by auto
    with j show ?thesis by blast
  next
    case False
    then show ?thesis using shm_progress [OF inv, of i] by blast
  qed
qed

text \<open>Runs in which process \<open>k\<close> takes no step.\<close>

inductive others_run :: "nat \<Rightarrow> shm_sys \<Rightarrow> shm_sys \<Rightarrow> bool" for k s where
  stay: "others_run k s s"
| step: "others_run k s s' \<Longrightarrow> i \<noteq> k \<Longrightarrow> shm_step i s' s'' \<Longrightarrow> others_run k s s''"

lemma blocked_step:
  assumes "shm_inv s" "inside (pcs s k)" "shm_step i s s'" "i \<noteq> k"
  shows "pcs s' k = pcs s k \<and> ring s' = ring s \<and> accepted s' = accepted s \<and> returned s' = returned s"
proof -
  obtain h ds where h: "m_pQueueHead (ring s) = Some h"
    "\<And>i j. inside (pcs s i) \<Longrightarrow> inside (pcs s j) \<Longrightarrow> i = j"
    "m_iUsedNum h = (if \<exists>i. inside (pcs s i) then 1 else 0)"
    by (rule shm_invE [OF assms(1)]) (rule that; assumption)
  then have "\<not> inside (pcs s i)" "m_iUsedNum h = 1" using assms(2,4) by auto
  note h = h(1) this
  from assms(3) show ?thesis
    by cases (use h assms(4) in \<open>auto simp: spin_cas_def\<close>)
qed

text \<open>A process that stops while it holds the lock (killed between the two
  compare-and-swap loops) blocks the queue for good: no other process ever changes the ring, enqueues
  or dequeues anything again, because nothing but the holder resets the lock word.\<close>

theorem dead_owner_blocks:
  assumes "shm_reach n s" "0 < n" "n < 2 ^ 30" "inside (pcs s k)" "others_run k s s'"
  shows "ring s' = ring s \<and> accepted s' = accepted s \<and> returned s' = returned s"
proof -
  from assms(5) have "shm_inv s' \<and> inside (pcs s' k) \<and> ring s' = ring s \<and>
      accepted s' = accepted s \<and> returned s' = returned s"
  proof induction
    case stay
    then show ?case using shm_reach_inv [OF assms(1-3)] assms(4) by simp
  next
    case (step s1 i s2)
    then have "shm_inv s1" "inside (pcs s1 k)" by auto
    from blocked_step [OF this step(3,2)] shm_inv_step [OF this(1) step(3)] step.IH
    show ?case by auto
  qed
  then show ?thesis by simp
qed

section \<open>Witnesses\<close>

text \<open>Process 0 holds the lock to enqueue, process 1 spins to dequeue.\<close>

definition w_sys :: shm_sys where
  "w_sys = \<lparr>ring = (ring (shm_start 40))\<lparr>m_pQueueHead := Some \<lparr>m_iLen = 40, m_iHead = 0, m_iTail = 0,
       m_iBlockNum = 0, m_iUsedNum = 1\<rparr>\<rparr>,
     pcs = (\<lambda>_. Idle)(0 := Locked (ReqEnqueue [1, 2]), 1 := Spin ReqDequeue),
     accepted = [], returned = []\<rparr>"

lemma w_sys_reach: "shm_reach 40 w_sys"
proof -
  let ?s0 = "shm_start 40"
  let ?s1 = "?s0\<lparr>pcs := (pcs ?s0)(0 := Spin (ReqEnqueue [1, 2]))\<rparr>"
  let ?s2 = "?s1\<lparr>pcs := (pcs ?s1)(1 := Spin ReqDequeue)\<rparr>"
  let ?h = "\<lparr>m_iLen = 40, m_iHead = 0, m_iTail = 0, m_iBlockNum = 0, m_iUsedNum = 0\<rparr>"
  have "shm_reach 40 ?s1"
    by (rule shm_reach.step [OF shm_reach.start shm_step.call])
      (simp_all add: shm_start_def packet_ok_def size_defs)
  then have "shm_reach 40 ?s2"
    by (rule shm_reach.step [OF _ shm_step.call]) (simp_all add: shm_start_def)
  moreover have "shm_step 0 ?s2 (?s2\<lparr>pcs := (pcs ?s2)(0 := Locked (ReqEnqueue [1, 2])),
      ring := (ring ?s2)\<lparr>m_pQueueHead := Some (?h\<lparr>m_iUsedNum := 1\<rparr>)\<rparr>\<rparr>)"
    by (rule shm_step.acquire [where h = ?h])
      (simp_all add: shm_start_def Init_def spin_cas_def)
  moreover have "?s2\<lparr>pcs := (pcs ?s2)(0 := Locked (ReqEnqueue [1, 2])),
      ring := (ring ?s2)\<lparr>m_pQueueHead := Some (?h\<lparr>m_iUsedNum := 1\<rparr>)\<rparr>\<rparr> = w_sys"
    by (simp add: w_sys_def shm_start_def fun_upd_twist)
  ultimately show ?thesis using shm_reach.step [of 40 ?s2 0 w_sys] by (simp only:)
qed

theorem shm_concurrent_fifo_witness:
  "inside (pcs w_sys 0) \<and> \<not> inside (pcs w_sys 1) \<and>
    (\<exists>h ds. m_pQueueHead (ring w_sys) = Some h \<and> ring_ok h (m_pMemAddr (ring w_sys)) ds \<and>
       accepted w_sys = returned w_sys @ ds)"
proof -
  have "inside (pcs w_sys 0)" by (simp add: w_sys_def)
  moreover have "\<not> inside (pcs w_sys 1)"
    using shm_concurrent_fifo [OF w_sys_reach] calculation by force
  ultimately show ?thesis using shm_concurrent_fifo [OF w_sys_reach] by simp
qed

theorem shm_concurrent_progress_witness:
  "(\<exists>s'. shm_step 1 w_sys s') \<or>
    (\<exists>r j. pcs w_sys 1 = Spin r \<and> j \<noteq> 1 \<and> inside (pcs w_sys j) \<and> (\<exists>s'. shm_step j w_sys s'))"
  using shm_concurrent_progress [OF w_sys_reach, of 1] by simp

theorem dead_owner_blocks_witness:
  "ring (w_sys\<lparr>pcs := (pcs w_sys)(2 := Spin ReqDequeue)\<rparr>) = ring w_sys"
proof -
  have "others_run 0 w_sys (w_sys\<lparr>pcs := (pcs w_sys)(2 := Spin ReqDequeue)\<rparr>)"
    by (rule others_run.step [OF others_run.stay, of 2], simp, rule shm_step.call)
      (simp_all add: w_sys_def)
  from dead_owner_blocks [OF w_sys_reach _ _ _ this] show ?thesis
    by (simp add: w_sys_def)
qed

end
