(* ===== verification/Mq_Message.thy ===== *)
theory Mq_Message
  imports Func_Tool
begin

text \<open>
  The message classes of \<^verbatim>\<open>message/message.h\<close> and \<^verbatim>\<open>message/message.cpp\<close>. A class is a
  constructor of the datatype \<open>message\<close>, its virtual \<^verbatim>\<open>GetMessagePack\<close> one definition per class,
  with the \<^verbatim>\<open>unsigned short\<close> packet length the code computes. The specification \<open>wire\<close> gives
  the bytes of a message on the network; a packer refines it for the zeroed buffers that
  the callers pass.
\<close>

section \<open>Messages\<close>

record sever_store_message =
  ssm_iIndex :: i32
  ssm_iCmdId :: u16
  ssm_iPriority :: i16
  ssm_bDurable :: bool
  ssm_iConfirmLevel :: byte
  ssm_iMsgSeq :: i32
  ssm_iDurableIndex :: i32
  ssm_strMsgBody :: bytes
  ssm_strQueueName :: bytes
  ssm_tSaveTime :: "int \<times> int"

text \<open>The arguments are the members in the order of the class: client index and command first.\<close>

datatype message =
  CreateExchangeMessage i32 u16 bytes u16 bool bool
| CreateQueueMessage i32 u16 bytes i16 bool bool
| CreateBindingMessage i32 u16 bytes bytes bytes
| CreatePublishMessage i32 u16 bytes bytes i16 bool i32 byte bytes
| CreateRecvMessage i32 u16 bytes byte
| CreateSubscribeMessage i32 u16 bytes byte
| DeleteExchangeMessage i32 u16 bytes
| DeleteQueueMessage i32 u16 bytes
| CancelSubscribeMessage i32 u16 bytes
| SeverStoreMessage sever_store_message
| ActReplyMessage i32 u16 bool bytes
| ClientAckMessage i32 u16 byte i32
| ServerAckMessage i32 u16 i32
| ClientExitMessage i32 u16

definition ERR_MSG_NAME_TOO_LONG :: int where "ERR_MSG_NAME_TOO_LONG = -500"
definition ERR_MSG_BUF_TOO_SMALL :: int where "ERR_MSG_BUF_TOO_SMALL = -501"

lemmas msg_err_defs = ERR_MSG_NAME_TOO_LONG_def ERR_MSG_BUF_TOO_SMALL_def

definition new_CreateExchangeMessage :: "bytes \<Rightarrow> u16 \<Rightarrow> bool \<Rightarrow> bool \<Rightarrow> message" where
  "new_CreateExchangeMessage name ty durable autoDel =
     CreateExchangeMessage (-1) CMD_CREATE_EXCNANGE name ty durable autoDel"
definition new_CreateQueueMessage :: "bytes \<Rightarrow> i16 \<Rightarrow> bool \<Rightarrow> bool \<Rightarrow> message" where
  "new_CreateQueueMessage name pri durable autoDel =
     CreateQueueMessage (-1) CMD_CREATE_QUEUE name pri durable autoDel"
definition new_CreateBindingMessage :: "bytes \<Rightarrow> bytes \<Rightarrow> bytes \<Rightarrow> message" where
  "new_CreateBindingMessage ex q key = CreateBindingMessage (-1) CMD_CREATE_BINDING ex q key"
definition new_CreatePublishMessage ::
  "bytes \<Rightarrow> bytes \<Rightarrow> bytes \<Rightarrow> i16 \<Rightarrow> bool \<Rightarrow> byte \<Rightarrow> message" where
  "new_CreatePublishMessage ex key body pri durable level =
     CreatePublishMessage (-1) CMD_CREATE_PUBLISH ex key pri durable (-1) level body"
definition new_CreateRecvMessage :: "bytes \<Rightarrow> byte \<Rightarrow> message" where
  "new_CreateRecvMessage q level = CreateRecvMessage (-1) CMD_CREATE_RECV q level"
definition new_CreateSubscribeMessage :: "bytes \<Rightarrow> byte \<Rightarrow> message" where
  "new_CreateSubscribeMessage q level = CreateSubscribeMessage (-1) CMD_CREATE_SUBCRIBE q level"
definition new_DeleteExchangeMessage :: "bytes \<Rightarrow> message" where
  "new_DeleteExchangeMessage ex = DeleteExchangeMessage (-1) CMD_DELETE_EXCHANGE ex"
definition new_DeleteQueueMessage :: "bytes \<Rightarrow> message" where
  "new_DeleteQueueMessage q = DeleteQueueMessage (-1) CMD_DELETE_QUEUE q"
definition new_CancelSubscribeMessage :: "bytes \<Rightarrow> message" where
  "new_CancelSubscribeMessage q = CancelSubscribeMessage (-1) CMD_CANCEL_SUBCRIBE q"
definition new_SeverStoreMessage :: "bytes \<Rightarrow> i16 \<Rightarrow> bool \<Rightarrow> sever_store_message" where
  "new_SeverStoreMessage body pri durable =
     \<lparr>ssm_iIndex = -1, ssm_iCmdId = CMD_CLIENT_PULL_MESSAGE, ssm_iPriority = pri, ssm_bDurable = durable,
      ssm_iConfirmLevel = CONSUMER_NO_ACK, ssm_iMsgSeq = -1, ssm_iDurableIndex = -1,
      ssm_strMsgBody = body, ssm_strQueueName = [], ssm_tSaveTime = (0, 0)\<rparr>"
definition new_ActReplyMessage :: "bool \<Rightarrow> bytes \<Rightarrow> message" where
  "new_ActReplyMessage succeed body = ActReplyMessage (-1) CMD_SERVER_REPLY_MESSAGE succeed body"
definition new_ClientAckMessage :: "byte \<Rightarrow> i32 \<Rightarrow> message" where
  "new_ClientAckMessage level seq = ClientAckMessage (-1) CMD_CLIENT_ACK_MESSAGE level seq"
definition new_ServerAckMessage :: "i32 \<Rightarrow> message" where
  "new_ServerAckMessage seq = ServerAckMessage (-1) CMD_SERVER_ACK_MESSAGE seq"
definition new_ClientExitMessage :: "i32 \<Rightarrow> message" where
  "new_ClientExitMessage idx = ClientExitMessage idx CMD_CLIENT_EXIT"

section \<open>GetMessagePack\<close>

text \<open>
  Every packer first writes the packet length, the client index and the command;
  \<open>write_head\<close> is that sequence, and returns where \<^verbatim>\<open>pTemp\<close> points after it.
\<close>

definition write_head :: "bytes \<Rightarrow> u16 \<Rightarrow> i32 \<Rightarrow> u16 \<Rightarrow> (nat \<times> bytes) option" where
  "write_head b iMsgLen iIndex iCmdId = do {
     (n, b) \<leftarrow> WriteShort b 0 iMsgLen;
     let p = n;
     (n, b) \<leftarrow> WriteInt b p iIndex;
     let p = p + n;
     (n, b) \<leftarrow> WriteShort b p iCmdId;
     Some (p + n, b) }"

definition name_too_long :: "bytes \<Rightarrow> bool" where
  "name_too_long s \<longleftrightarrow> MAX_NAME_LENGTH < length s"

type_synonym packed = "(int \<times> bytes \<times> int) option"

definition CreateExchangeMessage_GetMessagePack ::
  "i32 \<Rightarrow> u16 \<Rightarrow> bytes \<Rightarrow> u16 \<Rightarrow> bool \<Rightarrow> bool \<Rightarrow> bytes \<Rightarrow> int \<Rightarrow> packed" where
  "CreateExchangeMessage_GetMessagePack iIndex iCmdId name ty durable autoDel ipBuf iopBuffLen =
     (if name_too_long name then Some (ERR_MSG_NAME_TOO_LONG, ipBuf, iopBuffLen)
      else let iMsgLen = word_of_nat (8 + MAX_NAME_LENGTH + 2 + 1 + 1) :: u16
       in if iopBuffLen < uint iMsgLen then Some (ERR_MSG_BUF_TOO_SMALL, ipBuf, iopBuffLen)
       else do {
         (p, b) \<leftarrow> write_head ipBuf iMsgLen iIndex iCmdId;
         (n, b) \<leftarrow> WriteBuf b p name (length name);
         let p = p + MAX_NAME_LENGTH;
         (n, b) \<leftarrow> WriteShort b p ty;
         let p = p + n;
         (n, b) \<leftarrow> WriteBool b p durable;
         let p = p + n;
         (n, b) \<leftarrow> WriteBool b p autoDel;
         Some (SUCCESS, b, uint iMsgLen) })"

definition CreateQueueMessage_GetMessagePack ::
  "i32 \<Rightarrow> u16 \<Rightarrow> bytes \<Rightarrow> i16 \<Rightarrow> bool \<Rightarrow> bool \<Rightarrow> bytes \<Rightarrow> int \<Rightarrow> packed" where
  "CreateQueueMessage_GetMessagePack iIndex iCmdId name pri durable autoDel ipBuf iopBuffLen =
     (if name_too_long name then Some (ERR_MSG_NAME_TOO_LONG, ipBuf, iopBuffLen)
      else let iMsgLen = word_of_nat (8 + MAX_NAME_LENGTH + 2 + 1 + 1) :: u16
       in if iopBuffLen < uint iMsgLen then Some (ERR_MSG_BUF_TOO_SMALL, ipBuf, iopBuffLen)
       else do {
         (p, b) \<leftarrow> write_head ipBuf iMsgLen iIndex iCmdId;
         (n, b) \<leftarrow> WriteBuf b p name (length name);
         let p = p + MAX_NAME_LENGTH;
         (n, b) \<leftarrow> WriteShort b p pri;
         let p = p + n;
         (n, b) \<leftarrow> WriteBool b p durable;
         let p = p + n;
         (n, b) \<leftarrow> WriteBool b p autoDel;
         Some (SUCCESS, b, uint iMsgLen) })"

definition CreateBindingMessage_GetMessagePack ::
  "i32 \<Rightarrow> u16 \<Rightarrow> bytes \<Rightarrow> bytes \<Rightarrow> bytes \<Rightarrow> bytes \<Rightarrow> int \<Rightarrow> packed" where
  "CreateBindingMessage_GetMessagePack iIndex iCmdId ex q key ipBuf iopBuffLen =
     (if name_too_long ex \<or> name_too_long q \<or> name_too_long key then Some (ERR_MSG_NAME_TOO_LONG, ipBuf, iopBuffLen)
      else let iMsgLen = word_of_nat (8 + MAX_NAME_LENGTH + MAX_NAME_LENGTH + MAX_NAME_LENGTH) :: u16
       in if iopBuffLen < uint iMsgLen then Some (ERR_MSG_BUF_TOO_SMALL, ipBuf, iopBuffLen)
       else do {
         (p, b) \<leftarrow> write_head ipBuf iMsgLen iIndex iCmdId;
         (n, b) \<leftarrow> WriteBuf b p ex (length ex);
         let p = p + MAX_NAME_LENGTH;
         (n, b) \<leftarrow> WriteBuf b p q (length q);
         let p = p + MAX_NAME_LENGTH;
         (n, b) \<leftarrow> WriteBuf b p key (length key);
         Some (SUCCESS, b, uint iMsgLen) })"

definition CreatePublishMessage_GetMessagePack ::
  "i32 \<Rightarrow> u16 \<Rightarrow> bytes \<Rightarrow> bytes \<Rightarrow> i16 \<Rightarrow> bool \<Rightarrow> i32 \<Rightarrow> byte \<Rightarrow> bytes \<Rightarrow> bytes \<Rightarrow> int \<Rightarrow> packed" where
  "CreatePublishMessage_GetMessagePack iIndex iCmdId ex key pri durable seq level body ipBuf iopBuffLen =
     (if name_too_long ex \<or> name_too_long key then Some (ERR_MSG_NAME_TOO_LONG, ipBuf, iopBuffLen)
      else let iMsgLen = word_of_nat (8 + MAX_NAME_LENGTH + MAX_NAME_LENGTH + 2 + 1 + 4 + 1 + length body) :: u16
       in if iopBuffLen < uint iMsgLen then Some (ERR_MSG_BUF_TOO_SMALL, ipBuf, iopBuffLen)
       else do {
         (p, b) \<leftarrow> write_head ipBuf iMsgLen iIndex iCmdId;
         (n, b) \<leftarrow> WriteBuf b p ex (length ex);
         let p = p + MAX_NAME_LENGTH;
         (n, b) \<leftarrow> WriteBuf b p key (length key);
         let p = p + MAX_NAME_LENGTH;
         (n, b) \<leftarrow> WriteShort b p pri;
         let p = p + n;
         (n, b) \<leftarrow> WriteBool b p durable;
         let p = p + n;
         (n, b) \<leftarrow> WriteInt b p seq;
         let p = p + n;
         (n, b) \<leftarrow> WriteByte b p level;
         let p = p + n;
         (n, b) \<leftarrow> WriteBuf b p body (length body);
         Some (SUCCESS, b, uint iMsgLen) })"

definition CreateRecvMessage_GetMessagePack ::
  "i32 \<Rightarrow> u16 \<Rightarrow> bytes \<Rightarrow> byte \<Rightarrow> bytes \<Rightarrow> int \<Rightarrow> packed" where
  "CreateRecvMessage_GetMessagePack iIndex iCmdId q level ipBuf iopBuffLen =
     (if name_too_long q then Some (ERR_MSG_NAME_TOO_LONG, ipBuf, iopBuffLen)
      else let iMsgLen = word_of_nat (8 + MAX_NAME_LENGTH + 1) :: u16
       in if iopBuffLen < uint iMsgLen then Some (ERR_MSG_BUF_TOO_SMALL, ipBuf, iopBuffLen)
       else do {
         (p, b) \<leftarrow> write_head ipBuf iMsgLen iIndex iCmdId;
         (n, b) \<leftarrow> WriteBuf b p q (length q);
         let p = p + MAX_NAME_LENGTH;
         (n, b) \<leftarrow> WriteByte b p level;
         Some (SUCCESS, b, uint iMsgLen) })"

definition CreateSubscribeMessage_GetMessagePack ::
  "i32 \<Rightarrow> u16 \<Rightarrow> bytes \<Rightarrow> byte \<Rightarrow> bytes \<Rightarrow> int \<Rightarrow> packed" where
  "CreateSubscribeMessage_GetMessagePack iIndex iCmdId q level ipBuf iopBuffLen =
     (if name_too_long q then Some (ERR_MSG_NAME_TOO_LONG, ipBuf, iopBuffLen)
      else let iMsgLen = word_of_nat (8 + MAX_NAME_LENGTH + 1) :: u16
       in if iopBuffLen < uint iMsgLen then Some (ERR_MSG_BUF_TOO_SMALL, ipBuf, iopBuffLen)
       else do {
         (p, b) \<leftarrow> write_head ipBuf iMsgLen iIndex iCmdId;
         (n, b) \<leftarrow> WriteBuf b p q (length q);
         let p = p + MAX_NAME_LENGTH;
         (n, b) \<leftarrow> WriteByte b p level;
         Some (SUCCESS, b, uint iMsgLen) })"

definition DeleteExchangeMessage_GetMessagePack ::
  "i32 \<Rightarrow> u16 \<Rightarrow> bytes \<Rightarrow> bytes \<Rightarrow> int \<Rightarrow> packed" where
  "DeleteExchangeMessage_GetMessagePack iIndex iCmdId ex ipBuf iopBuffLen =
     (if name_too_long ex then Some (ERR_MSG_NAME_TOO_LONG, ipBuf, iopBuffLen)
      else let iMsgLen = word_of_nat (8 + MAX_NAME_LENGTH) :: u16
       in if iopBuffLen < uint iMsgLen then Some (ERR_MSG_BUF_TOO_SMALL, ipBuf, iopBuffLen)
       else do {
         (p, b) \<leftarrow> write_head ipBuf iMsgLen iIndex iCmdId;
         (n, b) \<leftarrow> WriteBuf b p ex (length ex);
         Some (SUCCESS, b, uint iMsgLen) })"

definition DeleteQueueMessage_GetMessagePack ::
  "i32 \<Rightarrow> u16 \<Rightarrow> bytes \<Rightarrow> bytes \<Rightarrow> int \<Rightarrow> packed" where
  "DeleteQueueMessage_GetMessagePack iIndex iCmdId q ipBuf iopBuffLen =
     (if name_too_long q then Some (ERR_MSG_NAME_TOO_LONG, ipBuf, iopBuffLen)
      else let iMsgLen = word_of_nat (8 + MAX_NAME_LENGTH) :: u16
       in if iopBuffLen < uint iMsgLen then Some (ERR_MSG_BUF_TOO_SMALL, ipBuf, iopBuffLen)
       else do {
         (p, b) \<leftarrow> write_head ipBuf iMsgLen iIndex iCmdId;
         (n, b) \<leftarrow> WriteBuf b p q (length q);
         Some (SUCCESS, b, uint iMsgLen) })"

definition CancelSubscribeMessage_GetMessagePack ::
  "i32 \<Rightarrow> u16 \<Rightarrow> bytes \<Rightarrow> bytes \<Rightarrow> int \<Rightarrow> packed" where
  "CancelSubscribeMessage_GetMessagePack iIndex iCmdId q ipBuf iopBuffLen =
     (if name_too_long q then Some (ERR_MSG_NAME_TOO_LONG, ipBuf, iopBuffLen)
      else let iMsgLen = word_of_nat (8 + MAX_NAME_LENGTH) :: u16
       in if iopBuffLen < uint iMsgLen then Some (ERR_MSG_BUF_TOO_SMALL, ipBuf, iopBuffLen)
       else do {
         (p, b) \<leftarrow> write_head ipBuf iMsgLen iIndex iCmdId;
         (n, b) \<leftarrow> WriteBuf b p q (length q);
         Some (SUCCESS, b, iopBuffLen) })"

definition SeverStoreMessage_GetMessagePack ::
  "sever_store_message \<Rightarrow> bytes \<Rightarrow> int \<Rightarrow> packed" where
  "SeverStoreMessage_GetMessagePack m ipBuf iopBuffLen =
     (let iMsgLen = word_of_nat (8 + 1 + 4 + length (ssm_strMsgBody m)) :: u16
       in if iopBuffLen < uint iMsgLen then Some (ERR_MSG_BUF_TOO_SMALL, ipBuf, iopBuffLen)
       else do {
         (p, b) \<leftarrow> write_head ipBuf iMsgLen (ssm_iIndex m) (ssm_iCmdId m);
         (n, b) \<leftarrow> WriteByte b p (ssm_iConfirmLevel m);
         let p = p + n;
         (n, b) \<leftarrow> WriteInt b p (ssm_iMsgSeq m);
         let p = p + n;
         (n, b) \<leftarrow> WriteBuf b p (ssm_strMsgBody m) (length (ssm_strMsgBody m));
         Some (SUCCESS, b, uint iMsgLen) })"

definition ActReplyMessage_GetMessagePack ::
  "i32 \<Rightarrow> u16 \<Rightarrow> bool \<Rightarrow> bytes \<Rightarrow> bytes \<Rightarrow> int \<Rightarrow> packed" where
  "ActReplyMessage_GetMessagePack iIndex iCmdId succeed body ipBuf iopBuffLen =
     (let iMsgLen = word_of_nat (8 + 1 + length body + 1) :: u16
       in if iopBuffLen < uint iMsgLen then Some (ERR_MSG_BUF_TOO_SMALL, ipBuf, iopBuffLen)
       else do {
         (p, b) \<leftarrow> write_head ipBuf iMsgLen iIndex iCmdId;
         (n, b) \<leftarrow> WriteBool b p succeed;
         let p = p + n;
         (n, b) \<leftarrow> WriteBuf b p body (length body);
         Some (SUCCESS, b, uint iMsgLen) })"

definition ClientAckMessage_GetMessagePack ::
  "i32 \<Rightarrow> u16 \<Rightarrow> byte \<Rightarrow> i32 \<Rightarrow> bytes \<Rightarrow> int \<Rightarrow> packed" where
  "ClientAckMessage_GetMessagePack iIndex iCmdId level seq ipBuf iopBuffLen =
     (let iMsgLen = word_of_nat (8 + 1 + 4) :: u16
       in if iopBuffLen < uint iMsgLen then Some (ERR_MSG_BUF_TOO_SMALL, ipBuf, iopBuffLen)
       else do {
         (p, b) \<leftarrow> write_head ipBuf iMsgLen iIndex iCmdId;
         (n, b) \<leftarrow> WriteByte b p level;
         let p = p + n;
         (n, b) \<leftarrow> WriteInt b p seq;
         Some (SUCCESS, b, uint iMsgLen) })"

definition ServerAckMessage_GetMessagePack ::
  "i32 \<Rightarrow> u16 \<Rightarrow> i32 \<Rightarrow> bytes \<Rightarrow> int \<Rightarrow> packed" where
  "ServerAckMessage_GetMessagePack iIndex iCmdId seq ipBuf iopBuffLen =
     (let iMsgLen = word_of_nat (8 + 4) :: u16
       in if iopBuffLen < uint iMsgLen then Some (ERR_MSG_BUF_TOO_SMALL, ipBuf, iopBuffLen)
       else do {
         (p, b) \<leftarrow> write_head ipBuf iMsgLen iIndex iCmdId;
         (n, b) \<leftarrow> WriteInt b p seq;
         Some (SUCCESS, b, uint iMsgLen) })"

definition ClientExitMessage_GetMessagePack ::
  "i32 \<Rightarrow> u16 \<Rightarrow> bytes \<Rightarrow> int \<Rightarrow> packed" where
  "ClientExitMessage_GetMessagePack iIndex iCmdId ipBuf iopBuffLen =
     (let iMsgLen = word_of_nat (8) :: u16
       in if iopBuffLen < uint iMsgLen then Some (ERR_MSG_BUF_TOO_SMALL, ipBuf, iopBuffLen)
       else do {
         (p, b) \<leftarrow> write_head ipBuf iMsgLen iIndex iCmdId;
         Some (SUCCESS, b, iopBuffLen) })"

text \<open>The virtual call.\<close>

fun GetMessagePack :: "message \<Rightarrow> bytes \<Rightarrow> int \<Rightarrow> packed" where
  "GetMessagePack (CreateExchangeMessage i c n t d a) = CreateExchangeMessage_GetMessagePack i c n t d a"
| "GetMessagePack (CreateQueueMessage i c n p d a) = CreateQueueMessage_GetMessagePack i c n p d a"
| "GetMessagePack (CreateBindingMessage i c e q k) = CreateBindingMessage_GetMessagePack i c e q k"
| "GetMessagePack (CreatePublishMessage i c e k p d s l b) = CreatePublishMessage_GetMessagePack i c e k p d s l b"
| "GetMessagePack (CreateRecvMessage i c q l) = CreateRecvMessage_GetMessagePack i c q l"
| "GetMessagePack (CreateSubscribeMessage i c q l) = CreateSubscribeMessage_GetMessagePack i c q l"
| "GetMessagePack (DeleteExchangeMessage i c e) = DeleteExchangeMessage_GetMessagePack i c e"
| "GetMessagePack (DeleteQueueMessage i c q) = DeleteQueueMessage_GetMessagePack i c q"
| "GetMessagePack (CancelSubscribeMessage i c q) = CancelSubscribeMessage_GetMessagePack i c q"
| "GetMessagePack (SeverStoreMessage m) = SeverStoreMessage_GetMessagePack m"
| "GetMessagePack (ActReplyMessage i c s b) = ActReplyMessage_GetMessagePack i c s b"
| "GetMessagePack (ClientAckMessage i c l s) = ClientAckMessage_GetMessagePack i c l s"
| "GetMessagePack (ServerAckMessage i c s) = ServerAckMessage_GetMessagePack i c s"
| "GetMessagePack (ClientExitMessage i c) = ClientExitMessage_GetMessagePack i c"

text \<open>The packet that the logic server sends to the persistence server for a stored message.\<close>

definition SerializeDurableToString :: "sever_store_message \<Rightarrow> bytes \<Rightarrow> int \<Rightarrow> packed" where
  "SerializeDurableToString m ipBuffer iBuffLen =
     (let iLen = word_of_nat (2 + 2 + MAX_NAME_LENGTH + 4 + 2 + length (ssm_strMsgBody m)) :: u16
      in if uint iLen > iBuffLen then Some (ERROR, ipBuffer, iBuffLen)
      else do {
        (n, b) \<leftarrow> WriteShort ipBuffer 0 iLen;
        let p = n;
        (n, b) \<leftarrow> WriteShort b p CMD_CREATE_PUBLISH;
        let p = p + n;
        (n, b) \<leftarrow> WriteBuf b p (ssm_strQueueName m) (length (ssm_strQueueName m));
        let p = p + MAX_NAME_LENGTH;
        (n, b) \<leftarrow> WriteInt b p (ssm_iDurableIndex m);
        let p = p + n;
        (n, b) \<leftarrow> WriteShort b p (ssm_iPriority m);
        let p = p + n;
        (n, b) \<leftarrow> WriteBuf b p (ssm_strMsgBody m) (length (ssm_strMsgBody m));
        Some (SUCCESS, b, uint iLen) })"

section \<open>Wire format\<close>

definition name_field :: "bytes \<Rightarrow> bytes" where
  "name_field s = s @ replicate (MAX_NAME_LENGTH - length s) 0"

definition flag :: "bool \<Rightarrow> byte" where
  "flag b = (if b then 1 else 0)"

fun msg_fields :: "message \<Rightarrow> bytes" where
  "msg_fields (CreateExchangeMessage i c n t d a) = name_field n @ be16 t @ [flag d, flag a]"
| "msg_fields (CreateQueueMessage i c n p d a) = name_field n @ be16 p @ [flag d, flag a]"
| "msg_fields (CreateBindingMessage i c e q k) = name_field e @ name_field q @ name_field k"
| "msg_fields (CreatePublishMessage i c e k p d s l b) =
     name_field e @ name_field k @ be16 p @ [flag d] @ be32 s @ [l] @ b"
| "msg_fields (CreateRecvMessage i c q l) = name_field q @ [l]"
| "msg_fields (CreateSubscribeMessage i c q l) = name_field q @ [l]"
| "msg_fields (DeleteExchangeMessage i c e) = name_field e"
| "msg_fields (DeleteQueueMessage i c q) = name_field q"
| "msg_fields (CancelSubscribeMessage i c q) = name_field q"
| "msg_fields (SeverStoreMessage m) = [ssm_iConfirmLevel m] @ be32 (ssm_iMsgSeq m) @ ssm_strMsgBody m"
| "msg_fields (ActReplyMessage i c s b) = [flag s] @ b @ [0]"
| "msg_fields (ClientAckMessage i c l s) = [l] @ be32 s"
| "msg_fields (ServerAckMessage i c s) = be32 s"
| "msg_fields (ClientExitMessage i c) = []"

fun msg_index :: "message \<Rightarrow> i32" where
  "msg_index (CreateExchangeMessage i c _ _ _ _) = i"
| "msg_index (CreateQueueMessage i c _ _ _ _) = i"
| "msg_index (CreateBindingMessage i c _ _ _) = i"
| "msg_index (CreatePublishMessage i c _ _ _ _ _ _ _) = i"
| "msg_index (CreateRecvMessage i c _ _) = i"
| "msg_index (CreateSubscribeMessage i c _ _) = i"
| "msg_index (DeleteExchangeMessage i c _) = i"
| "msg_index (DeleteQueueMessage i c _) = i"
| "msg_index (CancelSubscribeMessage i c _) = i"
| "msg_index (SeverStoreMessage m) = ssm_iIndex m"
| "msg_index (ActReplyMessage i c _ _) = i"
| "msg_index (ClientAckMessage i c _ _) = i"
| "msg_index (ServerAckMessage i c _) = i"
| "msg_index (ClientExitMessage i c) = i"

fun msg_cmd :: "message \<Rightarrow> u16" where
  "msg_cmd (CreateExchangeMessage i c _ _ _ _) = c"
| "msg_cmd (CreateQueueMessage i c _ _ _ _) = c"
| "msg_cmd (CreateBindingMessage i c _ _ _) = c"
| "msg_cmd (CreatePublishMessage i c _ _ _ _ _ _ _) = c"
| "msg_cmd (CreateRecvMessage i c _ _) = c"
| "msg_cmd (CreateSubscribeMessage i c _ _) = c"
| "msg_cmd (DeleteExchangeMessage i c _) = c"
| "msg_cmd (DeleteQueueMessage i c _) = c"
| "msg_cmd (CancelSubscribeMessage i c _) = c"
| "msg_cmd (SeverStoreMessage m) = ssm_iCmdId m"
| "msg_cmd (ActReplyMessage i c _ _) = c"
| "msg_cmd (ClientAckMessage i c _ _) = c"
| "msg_cmd (ServerAckMessage i c _) = c"
| "msg_cmd (ClientExitMessage i c) = c"

definition wire :: "message \<Rightarrow> bytes" where
  "wire m = be16 (word_of_nat (8 + length (msg_fields m))) @ be32 (msg_index m) @ be16 (msg_cmd m) @ msg_fields m"

end
