(* ===== verification/Priority_Store.thy ===== *)
theory Priority_Store
  imports Mq_Message "HOL-Library.Multiset"
begin

text \<open>
  The \<^verbatim>\<open>std::priority_queue\<close> of stored messages. The standard says what \<open>top\<close> and \<open>pop\<close>
  do up to the order among equal priorities, which it leaves open; the locale states
  just that, and a client lemma about draining the whole store. The model's store keeps the messages in a
  list and takes the first one of highest priority.
\<close>

definition pri :: "sever_store_message \<Rightarrow> int" where
  "pri m = sint (ssm_iPriority m)"

text \<open>The comparison object \<^verbatim>\<open>cmp\<close>.\<close>

definition cmp :: "sever_store_message \<Rightarrow> sever_store_message \<Rightarrow> bool" where
  "cmp a b \<longleftrightarrow> pri a < pri b"

locale priority_store =
  fixes push :: "sever_store_message \<Rightarrow> 'q \<Rightarrow> 'q"
    and top_msg :: "'q \<Rightarrow> sever_store_message"
    and pop :: "'q \<Rightarrow> 'q"
    and elems :: "'q \<Rightarrow> sever_store_message multiset"
  assumes elems_push: "elems (push m q) = add_mset m (elems q)"
    and top_in: "elems q \<noteq> {#} \<Longrightarrow> top_msg q \<in># elems q"
    and top_max: "elems q \<noteq> {#} \<Longrightarrow> x \<in># elems q \<Longrightarrow> \<not> cmp (top_msg q) x"
    and elems_pop: "elems q \<noteq> {#} \<Longrightarrow> elems (pop q) = elems q - {#top_msg q#}"

fun drain :: "('q \<Rightarrow> sever_store_message) \<Rightarrow> ('q \<Rightarrow> 'q) \<Rightarrow> nat \<Rightarrow> 'q \<Rightarrow> sever_store_message list" where
  "drain top_msg pop 0 q = []"
| "drain top_msg pop (Suc n) q = top_msg q # drain top_msg pop n (pop q)"

context priority_store
begin

lemma pop_less: "elems q \<noteq> {#} \<Longrightarrow> size (elems (pop q)) = size (elems q) - 1"
  using elems_pop [of q] top_in [of q] by (simp add: size_Diff_singleton)

text \<open>Taking out everything yields each message once, highest priority first.\<close>

lemma drain_sorted:
  "n = size (elems q) \<Longrightarrow>
   mset (drain top_msg pop n q) = elems q \<and> sorted_wrt (\<lambda>a b. pri b \<le> pri a) (drain top_msg pop n q)"
proof (induction n arbitrary: q)
  case 0
  then show ?case by simp
next
  case (Suc n)
  then have ne: "elems q \<noteq> {#}" by auto
  have "n = size (elems (pop q))" using Suc.prems pop_less [OF ne] by simp
  note IH = Suc.IH [OF this]
  have "mset (drain top_msg pop (Suc n) q) = elems q"
    using IH elems_pop [OF ne] top_in [OF ne] by simp
  moreover have "pri y \<le> pri (top_msg q)" if "y \<in> set (drain top_msg pop n (pop q))" for y
  proof -
    have "y \<in># elems (pop q)" using that IH by (metis set_mset_mset)
    then have "y \<in># elems q" using elems_pop [OF ne] by (metis in_diffD)
    then show ?thesis using top_max [OF ne] by (simp add: cmp_def not_less)
  qed
  ultimately show ?case using IH by simp
qed

end

section \<open>The model's store\<close>

type_synonym pri_queue = "sever_store_message list"

definition pq_push :: "sever_store_message \<Rightarrow> pri_queue \<Rightarrow> pri_queue" where
  "pq_push m q = q @ [m]"

fun pq_top :: "pri_queue \<Rightarrow> sever_store_message" where
  "pq_top (x # xs) = (if xs \<noteq> [] \<and> cmp x (pq_top xs) then pq_top xs else x)"
| "pq_top [] = undefined"

definition pq_pop :: "pri_queue \<Rightarrow> pri_queue" where
  "pq_pop q = remove1 (pq_top q) q"

lemma pq_top_in: "q \<noteq> [] \<Longrightarrow> pq_top q \<in> set q"
  by (induction q) auto

lemma pq_top_max: "q \<noteq> [] \<Longrightarrow> x \<in> set q \<Longrightarrow> pri x \<le> pri (pq_top q)"
proof (induction q)
  case (Cons y q)
  then show ?case by (cases "q = []") (auto simp: cmp_def)
qed simp

interpretation pq: priority_store pq_push pq_top pq_pop mset
proof unfold_locales
  fix q :: pri_queue and x
  assume "mset q \<noteq> {#}"
  then have ne: "q \<noteq> []" by auto
  show "pq_top q \<in># mset q" using pq_top_in [OF ne] by simp
  show "mset (pq_pop q) = mset q - {#pq_top q#}" by (simp add: pq_pop_def)
  show "\<not> cmp (pq_top q) x" if "x \<in># mset q"
    using pq_top_max [OF ne, of x] that by (simp add: cmp_def)
qed (simp add: pq_push_def)

lemma pq_pop_Cons_top: "length (pq_pop q) = length q - 1 \<or> q = []"
  using pq_top_in [of q] by (auto simp: pq_pop_def length_remove1)

end
