(* ===== verification/Mq_Queue.thy ===== *)
theory Mq_Queue
  imports Priority_Store
begin

text \<open>
  The class \<^verbatim>\<open>MessageQueue\<close> of \<^verbatim>\<open>logicServer/logicServer.h\<close> and \<^verbatim>\<open>.cpp\<close>: a named queue with
  an ordinary list, a priority store, and the subscribed consumers that a push serves in turn.
  A stored message is owned by one container at a time, so it is a value here.
\<close>

section \<open>State\<close>

record message_queue =
  mq_strQueueName :: bytes
  mq_iPriority :: i16
  mq_bDurable :: bool
  mq_bAutoDel :: bool
  mq_iConfirmLevel :: byte
  m_messagesList :: "sever_store_message list"
  m_msgPriQueue :: pri_queue
  m_vSubscribeConsumers :: "i32 list"
  m_iPushIndex :: int
  mq_iDurableIndex :: i32

definition new_MessageQueue :: "bytes \<Rightarrow> i16 \<Rightarrow> bool \<Rightarrow> bool \<Rightarrow> message_queue" where
  "new_MessageQueue name priority durable autoDel =
     \<lparr>mq_strQueueName = name, mq_iPriority = priority, mq_bDurable = durable, mq_bAutoDel = autoDel,
      mq_iConfirmLevel = 0, m_messagesList = [], m_msgPriQueue = [], m_vSubscribeConsumers = [],
      m_iPushIndex = -1, mq_iDurableIndex = 0\<rparr>"

definition IsEmpty :: "message_queue \<Rightarrow> bool" where
  "IsEmpty q \<longleftrightarrow> m_msgPriQueue q = [] \<and> m_messagesList q = []"

definition IsSubscribe :: "message_queue \<Rightarrow> bool" where
  "IsSubscribe q \<longleftrightarrow> m_vSubscribeConsumers q \<noteq> []"

definition GetNextDaurableIndex :: "message_queue \<Rightarrow> i32 \<times> message_queue" where
  "GetNextDaurableIndex q = (mq_iDurableIndex q, q\<lparr>mq_iDurableIndex := mq_iDurableIndex q + 1\<rparr>)"

section \<open>Messages\<close>

definition PopFrontMsg :: "message_queue \<Rightarrow> bool \<Rightarrow> sever_store_message option \<times> message_queue" where
  "PopFrontMsg q ibPush =
     (if ibPush \<and> m_vSubscribeConsumers q = [] then (None, q)
      else if m_msgPriQueue q = [] \<and> m_messagesList q = [] then (None, q)
      else
        let (pFrontMsg, q1) =
              (if m_msgPriQueue q \<noteq> []
               then (pq_top (m_msgPriQueue q), q\<lparr>m_msgPriQueue := pq_pop (m_msgPriQueue q)\<rparr>)
               else (hd (m_messagesList q), q\<lparr>m_messagesList := tl (m_messagesList q)\<rparr>))
        in if ibPush then
             let idx = m_iPushIndex q1 + 1;
                 idx' = (if idx \<ge> int (length (m_vSubscribeConsumers q1)) then 0 else idx)
             in (Some (pFrontMsg\<lparr>ssm_iIndex := m_vSubscribeConsumers q1 ! nat idx'\<rparr>),
                 q1\<lparr>m_iPushIndex := idx'\<rparr>)
           else (Some pFrontMsg, q1))"

text \<open>A message goes to the priority store when queue and message both have a positive priority,
  capped at the priority of the queue.\<close>

definition cap_priority :: "message_queue \<Rightarrow> sever_store_message \<Rightarrow> sever_store_message" where
  "cap_priority q m =
     (if pri m > sint (mq_iPriority q) then m\<lparr>ssm_iPriority := mq_iPriority q\<rparr> else m)"

definition AddMessage :: "message_queue \<Rightarrow> sever_store_message \<Rightarrow> message_queue" where
  "AddMessage q m =
     (if sint (mq_iPriority q) > 0 \<and> pri m > 0
      then q\<lparr>m_msgPriQueue := pq_push (cap_priority q m) (m_msgPriQueue q)\<rparr>
      else q\<lparr>m_messagesList := m_messagesList q @ [m]\<rparr>)"

definition AddMessageFront :: "message_queue \<Rightarrow> sever_store_message \<Rightarrow> message_queue" where
  "AddMessageFront q m =
     (if sint (mq_iPriority q) > 0 \<and> pri m > 0
      then q\<lparr>m_msgPriQueue := pq_push (cap_priority q m) (m_msgPriQueue q)\<rparr>
      else q\<lparr>m_messagesList := m # m_messagesList q\<rparr>)"

fun clear_pri :: "nat \<Rightarrow> pri_queue \<Rightarrow> pri_queue" where
  "clear_pri 0 pq = pq"
| "clear_pri (Suc n) pq = (if pq = [] then pq else clear_pri n (pq_pop pq))"

fun clear_list :: "sever_store_message list \<Rightarrow> sever_store_message list" where
  "clear_list [] = []"
| "clear_list (m # ms) = clear_list ms"

definition ClearMessage :: "message_queue \<Rightarrow> message_queue" where
  "ClearMessage q = q\<lparr>m_msgPriQueue := clear_pri (length (m_msgPriQueue q)) (m_msgPriQueue q),
                      m_messagesList := clear_list (m_messagesList q)\<rparr>"

section \<open>Subscribers\<close>

fun exists_sub :: "i32 \<Rightarrow> i32 list \<Rightarrow> bool \<Rightarrow> bool" where
  "exists_sub c [] bExist = bExist"
| "exists_sub c (x # xs) bExist = exists_sub c xs (if x = c then True else bExist)"

definition AddSubscribe :: "message_queue \<Rightarrow> i32 \<Rightarrow> byte \<Rightarrow> message_queue" where
  "AddSubscribe q iCliIndex iConfirmLevel =
     (let bExist = exists_sub iCliIndex (m_vSubscribeConsumers q) False;
          v = (if bExist then m_vSubscribeConsumers q else m_vSubscribeConsumers q @ [iCliIndex])
      in q\<lparr>m_vSubscribeConsumers := v, mq_iConfirmLevel := iConfirmLevel\<rparr>)"

text \<open>The loop advances \<open>i\<close> also after an erase, so it skips the element that moved to \<open>i\<close>.\<close>

function cancel_loop :: "i32 \<Rightarrow> i32 list \<Rightarrow> nat \<Rightarrow> i32 list" where
  "cancel_loop c v i =
     (if i < length v
      then cancel_loop c (if v ! i = c then take i v @ drop (i + 1) v else v) (i + 1)
      else v)"
  by pat_completeness auto
termination
  by (relation "measure (\<lambda>(c, v, i). length v - i)") auto

declare cancel_loop.simps [simp del]

definition CancelSubscribe :: "message_queue \<Rightarrow> i32 \<Rightarrow> message_queue" where
  "CancelSubscribe q iCliIndex =
     (let v = cancel_loop iCliIndex (m_vSubscribeConsumers q) 0
      in q\<lparr>m_vSubscribeConsumers := v,
           mq_iConfirmLevel := (if v = [] then 0 else mq_iConfirmLevel q)\<rparr>)"

section \<open>Serialisation\<close>

text \<open>
  \<^verbatim>\<open>WriteBuf(pBuff, s.c_str(), sizeof(s))\<close> copies \<open>sizeof(std::string)\<close> = 32 bytes: the characters, the
  terminator, and whatever lies behind them in memory. \<open>raw s\<close> stands for those bytes.
\<close>

definition string_bytes :: "(bytes \<Rightarrow> bytes) \<Rightarrow> bytes \<Rightarrow> bytes" where
  "string_bytes raw s = take 32 (s @ [0] @ raw s @ replicate 32 0)"

fun write_ints :: "bytes \<Rightarrow> nat \<Rightarrow> nat \<Rightarrow> i32 list \<Rightarrow> bytes option" where
  "write_ints b p offset [] = Some b"
| "write_ints b p offset (x # xs) = do {
     let p = p + offset;
     (n, b) \<leftarrow> WriteInt b p x;
     write_ints b p n xs }"

definition SerializeSubcribeToString ::
  "(bytes \<Rightarrow> bytes) \<Rightarrow> message_queue \<Rightarrow> bytes \<Rightarrow> int \<Rightarrow> bool \<Rightarrow> packed" where
  "SerializeSubcribeToString raw q ipBuffer iBuffLen ibIsCreate =
     (let len0 = word_of_nat (2 + 2 + MAX_NAME_LENGTH + 1 + 2) :: u16;
          iLen = (if m_vSubscribeConsumers q \<noteq> []
                  then len0 + word_of_nat (length (m_vSubscribeConsumers q) * 4) else len0)
      in if uint iLen > iBuffLen then Some (ERROR, ipBuffer, iBuffLen)
      else do {
        (n, b) \<leftarrow> WriteShort ipBuffer 0 iLen;
        let p = n;
        (n, b) \<leftarrow> WriteShort b p (if ibIsCreate then CMD_CREATE_SUBCRIBE else CMD_CANCEL_SUBCRIBE);
        let p = p + n;
        (n, b) \<leftarrow> WriteBuf b p (string_bytes raw (mq_strQueueName q)) 32;
        let p = p + MAX_NAME_LENGTH;
        (n, b) \<leftarrow> WriteByte b p (mq_iConfirmLevel q);
        let p = p + n;
        (n, b) \<leftarrow> WriteShort b p (word_of_nat (length (m_vSubscribeConsumers q)));
        b \<leftarrow> write_ints b p n (m_vSubscribeConsumers q);
        Some (SUCCESS, b, uint iLen) })"

section \<open>The invariant of a queue\<close>

definition stored :: "message_queue \<Rightarrow> sever_store_message multiset" where
  "stored q = mset (m_msgPriQueue q) + mset (m_messagesList q)"

definition queue_inv :: "message_queue \<Rightarrow> bool" where
  "queue_inv q \<longleftrightarrow>
     distinct (m_vSubscribeConsumers q) \<and> -1 \<le> m_iPushIndex q \<and>
     (m_vSubscribeConsumers q = [] \<longrightarrow> mq_iConfirmLevel q = 0) \<and>
     (\<forall>m\<in>set (m_msgPriQueue q). 0 < pri m \<and> pri m \<le> sint (mq_iPriority q)) \<and>
     (\<forall>m\<in>set (m_messagesList q). sint (mq_iPriority q) \<le> 0 \<or> pri m \<le> 0)"

lemma exists_sub_iff [simp]: "exists_sub c v b \<longleftrightarrow> b \<or> c \<in> set v"
  by (induction v arbitrary: b) auto

lemma clear_pri_Nil [simp]: "clear_pri (length pq) pq = []"
proof (induction "length pq" arbitrary: pq)
  case (Suc n)
  then have "pq \<noteq> []" "n = length (pq_pop pq)" using pq_pop_Cons_top [of pq] by auto
  with Suc(1) [OF this(2)] Suc(2) show ?case by (cases "length pq") auto
qed simp

lemma clear_list_Nil [simp]: "clear_list ms = []"
  by (induction ms) auto

text \<open>On a vector without duplicates the skipping loop removes exactly the client.\<close>

lemma cancel_loop_filter:
  "distinct v \<Longrightarrow> c \<notin> set (take i v) \<Longrightarrow> cancel_loop c v i = filter (\<lambda>x. x \<noteq> c) v"
proof (induction c v i rule: cancel_loop.induct)
  case (1 c v i)
  show ?case
  proof (cases "i < length v")
    case False
    then have "filter (\<lambda>x. x \<noteq> c) v = v" using 1(3) by (auto intro!: filter_True)
    then show ?thesis using False by (simp add: cancel_loop.simps [of c v i])
  next
    case True
    note split = id_take_nth_drop [OF True]
    show ?thesis
    proof (cases "v ! i = c")
      case False
      have "take (i + 1) v = take i v @ [v ! i]" using True by (simp add: take_Suc_conv_app_nth)
      with False 1(1) [OF True] 1(2,3) True show ?thesis
        by (simp add: cancel_loop.simps [of c v i])
    next
      case c: True
      let ?v = "take i v @ drop (i + 1) v"
      have d: "distinct (take i v @ v ! i # drop (Suc i) v)" using 1(2) split by simp
      then have nc: "c \<notin> set ?v" "distinct ?v" using c by auto
      moreover have "c \<notin> set (take (i + 1) ?v)" using nc(1) by (meson in_set_takeD)
      ultimately have "cancel_loop c ?v (i + 1) = filter (\<lambda>x. x \<noteq> c) ?v"
        using 1(1) [OF True] c by simp
      moreover have "filter (\<lambda>x. x \<noteq> c) v = ?v"
      proof -
        have "filter (\<lambda>x. x \<noteq> c) v = filter (\<lambda>x. x \<noteq> c) (take i v @ v ! i # drop (Suc i) v)"
          using split by simp
        also have "\<dots> = filter (\<lambda>x. x \<noteq> c) ?v" using c by simp
        also have "\<dots> = ?v" using nc(1) by (intro filter_True) auto
        finally show ?thesis .
      qed
      moreover have "filter (\<lambda>x. x \<noteq> c) ?v = ?v" using nc(1) by (intro filter_True) auto
      moreover have "cancel_loop c v i = cancel_loop c ?v (i + 1)"
        using True c by (simp add: cancel_loop.simps [of c v i])
      ultimately show ?thesis by (simp only:)
    qed
  qed
qed

lemma subs_CancelSubscribe:
  "queue_inv q \<Longrightarrow> m_vSubscribeConsumers (CancelSubscribe q c) = filter (\<lambda>x. x \<noteq> c) (m_vSubscribeConsumers q)"
  by (simp add: CancelSubscribe_def Let_def queue_inv_def cancel_loop_filter)

lemma queue_inv_new [simp]: "queue_inv (new_MessageQueue n p d a)"
  by (simp add: queue_inv_def new_MessageQueue_def)

lemma queue_inv_AddSubscribe [simp]: "queue_inv q \<Longrightarrow> queue_inv (AddSubscribe q c l)"
  by (auto simp: queue_inv_def AddSubscribe_def Let_def)

lemma queue_inv_CancelSubscribe [simp]: "queue_inv q \<Longrightarrow> queue_inv (CancelSubscribe q c)"
  using subs_CancelSubscribe [of q c]
  by (auto simp: queue_inv_def CancelSubscribe_def Let_def)

lemma queue_inv_Clear [simp]: "queue_inv q \<Longrightarrow> queue_inv (ClearMessage q)"
  by (simp add: queue_inv_def ClearMessage_def)

lemma pri_cap: "pri (cap_priority q m) = min (pri m) (sint (mq_iPriority q))"
  by (simp add: cap_priority_def pri_def)

lemma queue_inv_Add [simp]:
  "queue_inv q \<Longrightarrow> queue_inv (AddMessage q m)" "queue_inv q \<Longrightarrow> queue_inv (AddMessageFront q m)"
  by (auto simp: queue_inv_def AddMessage_def AddMessageFront_def pq_push_def pri_cap)

lemma queue_inv_next [simp]: "queue_inv q \<Longrightarrow> queue_inv (snd (GetNextDaurableIndex q))"
  by (simp add: queue_inv_def GetNextDaurableIndex_def)

text \<open>The two halves of \<open>PopFrontMsg\<close>: which message, and to whom.\<close>

definition take_front :: "message_queue \<Rightarrow> sever_store_message \<times> message_queue" where
  "take_front q =
     (if m_msgPriQueue q \<noteq> []
      then (pq_top (m_msgPriQueue q), q\<lparr>m_msgPriQueue := pq_pop (m_msgPriQueue q)\<rparr>)
      else (hd (m_messagesList q), q\<lparr>m_messagesList := tl (m_messagesList q)\<rparr>))"

definition next_push :: "message_queue \<Rightarrow> int" where
  "next_push q = (if m_iPushIndex q + 1 \<ge> int (length (m_vSubscribeConsumers q)) then 0
                  else m_iPushIndex q + 1)"

lemma take_front_keeps [simp]:
  "m_vSubscribeConsumers (snd (take_front q)) = m_vSubscribeConsumers q"
  "m_iPushIndex (snd (take_front q)) = m_iPushIndex q"
  "mq_strQueueName (snd (take_front q)) = mq_strQueueName q"
  "mq_iPriority (snd (take_front q)) = mq_iPriority q"
  "mq_bDurable (snd (take_front q)) = mq_bDurable q"
  "mq_bAutoDel (snd (take_front q)) = mq_bAutoDel q"
  "mq_iConfirmLevel (snd (take_front q)) = mq_iConfirmLevel q"
  by (simp_all add: take_front_def)

lemma PopFrontMsg_take_front:
  "PopFrontMsg q ibPush =
     (if ibPush \<and> \<not> IsSubscribe q \<or> IsEmpty q then (None, q)
      else if ibPush then
        (Some ((fst (take_front q))\<lparr>ssm_iIndex := m_vSubscribeConsumers q ! nat (next_push q)\<rparr>),
         (snd (take_front q))\<lparr>m_iPushIndex := next_push q\<rparr>)
      else (Some (fst (take_front q)), snd (take_front q)))"
  by (auto simp: PopFrontMsg_def take_front_def next_push_def IsEmpty_def IsSubscribe_def Let_def)

lemma mset_sum: "(\<Sum>x\<leftarrow>xs. {#f x#}) = mset (map f xs)"
  by (induction xs) simp_all

lemma take_front_stored:
  assumes "\<not> IsEmpty q"
  shows "stored q = add_mset (fst (take_front q)) (stored (snd (take_front q)))"
proof (cases "m_msgPriQueue q = []")
  case True
  then have "m_messagesList q \<noteq> []" using assms by (simp add: IsEmpty_def)
  then show ?thesis using True by (cases "m_messagesList q") (auto simp: stored_def take_front_def)
next
  case False
  then show ?thesis
    using pq.elems_pop [of "m_msgPriQueue q"] pq.top_in [of "m_msgPriQueue q"]
    by (simp add: stored_def take_front_def)
qed

lemma take_front_max:
  assumes "queue_inv q" "m_msgPriQueue q \<noteq> []" "x \<in># stored q"
  shows "pri x \<le> pri (fst (take_front q))"
proof -
  have t: "fst (take_front q) = pq_top (m_msgPriQueue q)" using assms(2) by (simp add: take_front_def)
  from assms(3) have "x \<in> set (m_msgPriQueue q) \<or> x \<in> set (m_messagesList q)" by (simp add: stored_def)
  then show ?thesis
  proof
    assume "x \<in> set (m_msgPriQueue q)"
    then show ?thesis using pq_top_max assms(2) by (simp add: t)
  next
    assume x: "x \<in> set (m_messagesList q)"
    have "0 < pri (pq_top (m_msgPriQueue q))" "0 < sint (mq_iPriority q)"
      using assms(1) pq_top_in [OF assms(2)] by (fastforce simp: queue_inv_def)+
    moreover have "pri x \<le> 0" using x assms(1) calculation by (auto simp: queue_inv_def)
    ultimately show ?thesis by (simp add: t)
  qed
qed

lemma queue_inv_take_front: "queue_inv q \<Longrightarrow> queue_inv (snd (take_front q))"
  by (auto simp: queue_inv_def take_front_def pq_pop_def dest: notin_set_remove1 list.set_sel(2)
      intro: list.set_sel(2) split: if_splits)
    (metis list.set_sel(2) tl_Nil)+

lemma next_push_range: "queue_inv q \<Longrightarrow> 0 \<le> next_push q"
  by (simp add: queue_inv_def next_push_def)

lemma queue_inv_Pop [simp]: "queue_inv q \<Longrightarrow> queue_inv (snd (PopFrontMsg q b))"
  using queue_inv_take_front [of q] next_push_range [of q]
  by (auto simp: PopFrontMsg_take_front queue_inv_def)

section \<open>Properties\<close>

lemma IsEmpty_stored: "IsEmpty q \<longleftrightarrow> stored q = {#}"
  by (auto simp: IsEmpty_def stored_def)

text \<open>C29. \<open>PopFrontMsg\<close> takes out exactly one message: the one with the highest priority of all
  stored messages while there are prioritised ones, otherwise the oldest ordinary one; a push also addresses
  it to a subscriber. It returns nothing, and changes nothing, exactly when the queue is
  empty or a push has no subscriber.\<close>

theorem PopFrontMsg_order:
  assumes "queue_inv q"
  shows "case PopFrontMsg q ibPush of
      (None, q') \<Rightarrow> q' = q \<and> (stored q = {#} \<or> ibPush \<and> m_vSubscribeConsumers q = [])
    | (Some m, q') \<Rightarrow> \<exists>m0. stored q = add_mset m0 (stored q') \<and>
        (if ibPush then \<exists>c\<in>set (m_vSubscribeConsumers q). m = m0\<lparr>ssm_iIndex := c\<rparr> else m = m0) \<and>
        (if m_msgPriQueue q = [] then m_messagesList q = m0 # m_messagesList q'
         else \<forall>x\<in>#stored q. pri x \<le> pri m0)"
proof (cases "ibPush \<and> \<not> IsSubscribe q \<or> IsEmpty q")
  case True
  then show ?thesis by (auto simp: PopFrontMsg_take_front IsSubscribe_def IsEmpty_stored)
next
  case False
  let ?m = "fst (take_front q)" and ?q = "snd (take_front q)"
  have st: "stored q = add_mset ?m (stored ?q)" using take_front_stored False by blast
  have ord: "if m_msgPriQueue q = [] then m_messagesList q = ?m # m_messagesList ?q
      else \<forall>x\<in>#stored q. pri x \<le> pri ?m"
    using take_front_max [OF assms] False by (auto simp: take_front_def IsEmpty_def)
  have sub: "m_vSubscribeConsumers q ! nat (next_push q) \<in> set (m_vSubscribeConsumers q)" if ibPush
    using that False next_push_range [OF assms] by (auto simp: IsSubscribe_def next_push_def)
  have "stored (?q\<lparr>m_iPushIndex := x\<rparr>) = stored ?q" for x by (simp add: stored_def)
  then show ?thesis
    using False st ord sub by (auto simp: PopFrontMsg_take_front intro!: exI [of _ ?m])
qed

text \<open>The clients that \<open>n\<close> pushes in a row address.\<close>

fun push_n :: "nat \<Rightarrow> message_queue \<Rightarrow> i32 list \<times> message_queue" where
  "push_n 0 q = ([], q)"
| "push_n (Suc n) q =
     (case PopFrontMsg q True of
        (None, q') \<Rightarrow> ([], q')
      | (Some m, q') \<Rightarrow> (let (cs, q'') = push_n n q' in (ssm_iIndex m # cs, q'')))"

lemma next_push_bound: "m_vSubscribeConsumers q \<noteq> [] \<Longrightarrow> queue_inv q \<Longrightarrow>
    nat (next_push q) < length (m_vSubscribeConsumers q)"
  by (auto simp: next_push_def queue_inv_def nat_less_iff)

lemma next_push_succ:
  assumes "m_vSubscribeConsumers q \<noteq> []" "queue_inv q"
    and "m_iPushIndex q' = next_push q" "m_vSubscribeConsumers q' = m_vSubscribeConsumers q"
  shows "nat (next_push q') = Suc (nat (next_push q)) mod length (m_vSubscribeConsumers q)"
proof -
  let ?L = "length (m_vSubscribeConsumers q)"
  have r: "0 \<le> next_push q" "nat (next_push q) < ?L"
    using next_push_range next_push_bound assms by auto
  show ?thesis
  proof (cases "next_push q + 1 < int ?L")
    case True
    then have "next_push q' = next_push q + 1" using assms(3,4) by (simp add: next_push_def [of q'])
    moreover have "Suc (nat (next_push q)) < ?L" using True r by linarith
    ultimately show ?thesis using r by (simp add: nat_add_distrib)
  next
    case False
    then have "Suc (nat (next_push q)) = ?L" using r by linarith
    moreover have "next_push q' = 0" using False assms(3,4) by (simp add: next_push_def [of q'])
    ultimately show ?thesis by simp
  qed
qed

text \<open>C30. Pushes serve the subscribers round-robin: with \<open>n\<close> or more stored messages, the \<open>i\<close>-th of \<open>n\<close>
  pushes in a row goes to the \<open>i\<close>-th subscriber after the one served last, cyclically, so no
  subscriber is served again before all others have been.\<close>

theorem push_round_robin:
  assumes "queue_inv q" "m_vSubscribeConsumers q \<noteq> []" "n \<le> size (stored q)"
  shows "fst (push_n n q) =
    map (\<lambda>i. m_vSubscribeConsumers q ! ((nat (next_push q) + i) mod length (m_vSubscribeConsumers q))) [0..<n]"
  using assms
proof (induction n arbitrary: q)
  case 0
  then show ?case by simp
next
  case (Suc n)
  let ?v = "m_vSubscribeConsumers q" let ?L = "length ?v" and ?s = "nat (next_push q)"
  let ?q = "(snd (take_front q))\<lparr>m_iPushIndex := next_push q\<rparr>"
  have ne: "\<not> IsEmpty q" using Suc.prems(3) by (auto simp: IsEmpty_stored)
  have pop: "PopFrontMsg q True = (Some ((fst (take_front q))\<lparr>ssm_iIndex := ?v ! ?s\<rparr>), ?q)"
    using ne Suc.prems(2) by (simp add: PopFrontMsg_take_front IsSubscribe_def)
  have "stored ?q = stored (snd (take_front q))" by (simp add: stored_def)
  then have "n \<le> size (stored ?q)"
    using Suc.prems(3) by (simp add: take_front_stored [OF ne])
  moreover have "queue_inv ?q"
    using queue_inv_Pop [OF Suc.prems(1), of True] pop by simp
  ultimately have "fst (push_n n ?q) = map (\<lambda>i. ?v ! ((nat (next_push ?q) + i) mod ?L)) [0..<n]"
    using Suc.IH [of ?q] Suc.prems(2) by simp
  moreover have "nat (next_push ?q) = Suc ?s mod ?L"
    using next_push_succ [OF Suc.prems(2,1), of ?q] by simp
  ultimately have "fst (push_n n ?q) = map (\<lambda>i. ?v ! ((?s + Suc i) mod ?L)) [0..<n]"
    by (simp add: mod_add_left_eq)
  moreover have "[0..<Suc n] = 0 # map Suc [0..<n]" by (simp add: upt_conv_Cons map_Suc_upt)
  moreover have "?s mod ?L = ?s" using next_push_bound [OF Suc.prems(2,1)] by simp
  ultimately show ?case using pop by (simp add: split_beta del: upt_Suc)
qed

text \<open>On a queue whose subscribers are distinct, as \<open>AddSubscribe\<close> keeps them,
  \<open>CancelSubscribe\<close> removes exactly the given client although its loop skips the element after an
  erased one, and resets the confirm level when nobody is left.\<close>

theorem CancelSubscribe_exact:
  assumes "queue_inv q"
  shows "m_vSubscribeConsumers (CancelSubscribe q c) = filter (\<lambda>x. x \<noteq> c) (m_vSubscribeConsumers q) \<and>
    mq_iConfirmLevel (CancelSubscribe q c) =
      (if \<forall>x\<in>set (m_vSubscribeConsumers q). x = c then 0 else mq_iConfirmLevel q) \<and>
    queue_inv (CancelSubscribe q c)"
  using subs_CancelSubscribe [OF assms, of c] queue_inv_CancelSubscribe [OF assms, of c]
  by (auto simp: CancelSubscribe_def Let_def filter_empty_conv)

section \<open>Witnesses\<close>

definition w_msg :: "byte \<Rightarrow> i16 \<Rightarrow> sever_store_message" where
  "w_msg x p = new_SeverStoreMessage [x] p False"

definition w_queue :: message_queue where
  "w_queue = AddSubscribe (AddSubscribe (AddMessage (AddMessage (AddMessage
     (new_MessageQueue [113] 9 False True) (w_msg 1 0)) (w_msg 2 3)) (w_msg 3 20)) 7 1) 8 1"

lemma w_queue_inv: "queue_inv w_queue"
  by (simp add: w_queue_def)

lemma w_queue_eqs:
  "m_msgPriQueue w_queue = [w_msg 2 3, w_msg 3 9]" "m_messagesList w_queue = [w_msg 1 0]"
  "m_vSubscribeConsumers w_queue = [7, 8]" "m_iPushIndex w_queue = -1"
  by (code_simp)+

theorem PopFrontMsg_order_witness:
  "\<exists>m q'. PopFrontMsg w_queue True = (Some m, q') \<and>
     (\<exists>m0. stored w_queue = add_mset m0 (stored q') \<and> pri m0 = 9 \<and> ssm_strMsgBody m = [3])"
proof -
  let ?m = "w_msg 3 9"
  obtain m q' where r: "PopFrontMsg w_queue True = (Some m, q')"
    by (simp add: PopFrontMsg_take_front IsEmpty_def IsSubscribe_def w_queue_eqs)
  from PopFrontMsg_order [OF w_queue_inv, of True] r obtain m0 c where
    m0: "stored w_queue = add_mset m0 (stored q')" "m = m0\<lparr>ssm_iIndex := c\<rparr>"
      "\<forall>x\<in>#stored w_queue. pri x \<le> pri m0"
    by (auto simp: w_queue_eqs)
  have "m0 \<in># stored w_queue" using m0(1) by simp
  moreover have "pri ?m \<le> pri m0" using m0(3) by (simp add: stored_def w_queue_eqs)
  ultimately have "m0 = ?m"
    by (auto simp: stored_def w_queue_eqs pri_def w_msg_def new_SeverStoreMessage_def)
  then show ?thesis using r m0
    by (auto simp: pri_def w_msg_def new_SeverStoreMessage_def)
qed

theorem push_round_robin_witness: "fst (push_n 3 w_queue) = [7, 8, 7]"
  using push_round_robin [OF w_queue_inv, of 3]
  by (simp add: w_queue_eqs stored_def next_push_def upt_rec numeral_3_eq_3)

theorem CancelSubscribe_exact_witness:
  "m_vSubscribeConsumers (CancelSubscribe w_queue 7) = [8] \<and> queue_inv (CancelSubscribe w_queue 7)"
  using CancelSubscribe_exact [OF w_queue_inv, of 7] by (simp add: w_queue_eqs)

end
