(* ===== verification/Mq_Exchange.thy ===== *)
theory Mq_Exchange
  imports Mq_Message
begin

text \<open>
  The class \<^verbatim>\<open>Exchange\<close> of \<^verbatim>\<open>logicServer/logicServer.h\<close> and \<^verbatim>\<open>.cpp\<close>: bindings from a key to
  queues, and routing by exchange type. A \<^verbatim>\<open>MessageQueue*\<close> is an address, a \<^typ>\<open>nat\<close>.
  The topic matcher is translated with its two-dimensional table and shown equal to a
  recursive specification on words.
\<close>

section \<open>State\<close>

type_synonym addr = nat
type_synonym bindings = "(bytes \<times> addr list) list"

record exchange =
  ex_strExchangeName :: bytes
  ex_iExchangeType :: u16
  ex_bDurable :: bool
  ex_bAutoDel :: bool
  m_mBindingQueues :: bindings

definition new_Exchange :: "bytes \<Rightarrow> u16 \<Rightarrow> bool \<Rightarrow> bool \<Rightarrow> exchange" where
  "new_Exchange name ty durable autoDel =
     \<lparr>ex_strExchangeName = name, ex_iExchangeType = ty, ex_bDurable = durable, ex_bAutoDel = autoDel,
      m_mBindingQueues = []\<rparr>"

definition ERR_BINDING_NOT_EXIST :: int where "ERR_BINDING_NOT_EXIST = -800"

definition GetBindingSize :: "exchange \<Rightarrow> nat" where
  "GetBindingSize e = length (m_mBindingQueues e)"

section \<open>Bindings\<close>

text \<open>For an existing key the code appends to \<^verbatim>\<open>queueList\<close>, a copy of the stored list that is
  dropped at the end of the block.\<close>

definition CreateBinding :: "exchange \<Rightarrow> bytes \<Rightarrow> addr \<Rightarrow> exchange" where
  "CreateBinding e istrBindingKey ipMsgQueue =
     (case map_of (m_mBindingQueues e) istrBindingKey of
        Some stored \<Rightarrow>
          (let queueList = stored;
               queueList' = (if ipMsgQueue \<in> set queueList then queueList else queueList @ [ipMsgQueue])
           in e)
      | None \<Rightarrow> e\<lparr>m_mBindingQueues := AList.update istrBindingKey [ipMsgQueue] (m_mBindingQueues e)\<rparr>)"

text \<open>Here too the loop erases from a copy; only an entry whose copy becomes empty is erased from the map.\<close>

fun delete_binding_loop :: "addr \<Rightarrow> bindings \<Rightarrow> bindings" where
  "delete_binding_loop q [] = []"
| "delete_binding_loop q ((key, second) # rest) =
     (let queueList = filter (\<lambda>x. x \<noteq> q) second
      in if queueList = [] then delete_binding_loop q rest
         else (key, second) # delete_binding_loop q rest)"

definition DeleteBindingQueue :: "exchange \<Rightarrow> addr \<Rightarrow> exchange" where
  "DeleteBindingQueue e q = e\<lparr>m_mBindingQueues := delete_binding_loop q (m_mBindingQueues e)\<rparr>"

section \<open>Topic matching\<close>

definition DOT :: byte where "DOT = 46"
definition STAR :: bytes where "STAR = [42]"
definition HASH :: bytes where "HASH = [35]"

lemmas key_chars = DOT_def STAR_def HASH_def

text \<open>The splitting loop; \<^verbatim>\<open>s[size]\<close> is the terminating NUL.\<close>

function split_loop :: "bytes \<Rightarrow> nat \<Rightarrow> nat \<Rightarrow> bytes list \<Rightarrow> bytes list" where
  "split_loop s lo hi acc =
     (if hi \<le> length s then
        (let c = (if hi < length s then s ! hi else 0)
         in if c \<noteq> DOT \<and> c \<noteq> 0 then split_loop s lo (hi + 1) acc
            else (let strSub = get_at s lo (hi - lo)
                  in split_loop s (hi + 1) (hi + 1) (if strSub \<noteq> [] then acc @ [strSub] else acc)))
      else acc)"
  by pat_completeness auto
termination
  by (relation "measure (\<lambda>(s, lo, hi, acc). Suc (length s) - hi)") auto

declare split_loop.simps [simp del]

definition split_key :: "bytes \<Rightarrow> bytes list" where
  "split_key s = split_loop s 0 0 []"

type_synonym table = "bool list list"

definition dp_set :: "table \<Rightarrow> nat \<Rightarrow> nat \<Rightarrow> bool \<Rightarrow> table" where
  "dp_set dp i j v = dp[i := (dp ! i)[j := v]]"

definition dp_step :: "bytes list \<Rightarrow> bytes list \<Rightarrow> nat \<Rightarrow> nat \<Rightarrow> table \<Rightarrow> table" where
  "dp_step vBinding vRouting i j dp =
     (let dp1 = (if vRouting ! (j - 1) = STAR \<or> vBinding ! (i - 1) = vRouting ! (j - 1)
                 then dp_set dp i j (dp ! (i - 1) ! (j - 1)) else dp)
      in if vRouting ! (j - 1) = HASH
         then dp_set dp1 i j (dp1 ! (i - 1) ! j \<or> dp1 ! i ! (j - 1)) else dp1)"

definition IsFit :: "bytes \<Rightarrow> bytes \<Rightarrow> bool" where
  "IsFit istrRoutingKey iStrBindingKey =
     (let vRouting = split_key istrRoutingKey;
          vBinding = split_key iStrBindingKey;
          iLen1 = length vBinding;
          iLen2 = length vRouting;
          dp0 = replicate (iLen1 + 1) (replicate (iLen2 + 1) False);
          dp1 = dp_set dp0 0 0 True;
          dp = fold (\<lambda>i dp. fold (\<lambda>j dp. dp_step vBinding vRouting i j dp) [1..<iLen2 + 1] dp)
                 [1..<iLen1 + 1] dp1
      in dp ! iLen1 ! iLen2)"

section \<open>Routing\<close>

fun append_queues :: "addr list \<Rightarrow> addr list \<Rightarrow> addr list" where
  "append_queues out [] = out"
| "append_queues out (q # qs) = append_queues (out @ [q]) qs"

fun fanout_loop :: "bindings \<Rightarrow> addr list \<Rightarrow> addr list" where
  "fanout_loop [] out = out"
| "fanout_loop ((key, queueList) # rest) out = fanout_loop rest (append_queues out queueList)"

fun topic_loop :: "bytes \<Rightarrow> bindings \<Rightarrow> addr list \<Rightarrow> addr list" where
  "topic_loop r [] out = out"
| "topic_loop r ((key, queueList) # rest) out =
     topic_loop r rest (if IsFit r key then append_queues out queueList else out)"

text \<open>Return code and \<^verbatim>\<open>oMsgQueueList\<close>, which the caller passes empty.\<close>

definition FindBindingQueue :: "exchange \<Rightarrow> bytes \<Rightarrow> addr list \<Rightarrow> int \<times> addr list" where
  "FindBindingQueue e istrRoutingKey out =
     (if ex_iExchangeType e = EXCHANGE_TYPE_DIRECT then
        (case map_of (m_mBindingQueues e) istrRoutingKey of
           None \<Rightarrow> (ERR_BINDING_NOT_EXIST, out)
         | Some ql \<Rightarrow> (SUCCESS, ql))
      else if ex_iExchangeType e = EXCHANGE_TYPE_FANOUT then
        (if m_mBindingQueues e = [] then (ERR_BINDING_NOT_EXIST, out)
         else (SUCCESS, fanout_loop (m_mBindingQueues e) out))
      else if ex_iExchangeType e = EXCHANGE_TYPE_TOPIC then
        (if m_mBindingQueues e = [] then (ERR_BINDING_NOT_EXIST, out)
         else (SUCCESS, topic_loop istrRoutingKey (m_mBindingQueues e) out))
      else (SUCCESS, out))"

section \<open>The splitting loop\<close>

text \<open>Specification: the non-empty stretches between separators.\<close>

fun words_of :: "bytes \<Rightarrow> bytes \<Rightarrow> bytes list" where
  "words_of cur [] = (if cur \<noteq> [] then [cur] else [])"
| "words_of cur (c # s) =
     (if c \<noteq> DOT \<and> c \<noteq> 0 then words_of (cur @ [c]) s
      else (if cur \<noteq> [] then cur # words_of [] s else words_of [] s))"

lemma split_loop_words:
  "lo \<le> hi \<Longrightarrow> hi \<le> length s \<Longrightarrow>
   split_loop s lo hi acc = acc @ words_of (get_at s lo (hi - lo)) (drop hi s)"
proof (induction s lo hi acc rule: split_loop.induct)
  case (1 s lo hi acc)
  show ?case
  proof (cases "hi < length s")
    case False
    then have "hi = length s" using 1(4) by simp
    then show ?thesis
      by (simp add: split_loop.simps [of s lo "length s"] split_loop.simps [of s "Suc (length s)"])
  next
    case True
    have d: "drop hi s = s ! hi # drop (hi + 1) s" using True by (simp add: Cons_nth_drop_Suc)
    show ?thesis
    proof (cases "s ! hi \<noteq> DOT \<and> s ! hi \<noteq> 0")
      case c: True
      have "get_at s lo (hi + 1 - lo) = get_at s lo (hi - lo) @ [s ! hi]"
        using get_at_split [of s lo "hi - lo" 1] True 1(3)
        by (simp add: Suc_diff_le get_at_def take_Suc_conv_app_nth Cons_nth_drop_Suc [symmetric])
      moreover have "split_loop s lo (hi + 1) acc =
          acc @ words_of (get_at s lo (hi + 1 - lo)) (drop (hi + 1) s)"
        by (rule 1(1) [OF 1(4) refl]) (use True c 1(3) in auto)
      ultimately show ?thesis
        using True c d by (simp add: split_loop.simps [of s lo hi])
    next
      case c: False
      let ?sub = "get_at s lo (hi - lo)"
      have "split_loop s (hi + 1) (hi + 1) (if ?sub \<noteq> [] then acc @ [?sub] else acc) =
          (if ?sub \<noteq> [] then acc @ [?sub] else acc) @ words_of [] (drop (hi + 1) s)"
        using 1(2) [OF 1(4) refl _ refl] True c by simp
      then show ?thesis
        using True c d by (auto simp: split_loop.simps [of s lo hi])
    qed
  qed
qed

lemma split_key_words: "split_key s = words_of [] s"
  by (simp add: split_key_def split_loop_words)

section \<open>The matching table\<close>

fun fit :: "bytes list \<Rightarrow> bytes list \<Rightarrow> nat \<Rightarrow> nat \<Rightarrow> bool" where
  "fit B R 0 0 = True"
| "fit B R 0 (Suc j) = False"
| "fit B R (Suc i) 0 = False"
| "fit B R (Suc i) (Suc j) =
     (if R ! j = HASH then fit B R i (Suc j) \<or> fit B R (Suc i) j
      else (R ! j = STAR \<or> B ! i = R ! j) \<and> fit B R i j)"

text \<open>The table before cell \<open>(bi, bj)\<close> is filled in, row by row.\<close>

definition filled :: "nat \<Rightarrow> nat \<Rightarrow> nat \<Rightarrow> nat \<Rightarrow> bool" where
  "filled bi bj i j \<longleftrightarrow> i = 0 \<or> j = 0 \<or> i < bi \<or> (i = bi \<and> j < bj)"

definition table_ok :: "bytes list \<Rightarrow> bytes list \<Rightarrow> nat \<Rightarrow> nat \<Rightarrow> table \<Rightarrow> bool" where
  "table_ok B R bi bj dp \<longleftrightarrow>
     length dp = length B + 1 \<and> (\<forall>i\<le>length B. length (dp ! i) = length R + 1) \<and>
     (\<forall>i\<le>length B. \<forall>j\<le>length R. dp ! i ! j = (filled bi bj i j \<and> fit B R i j))"

lemma nth_dp_set:
  "i < length dp \<Longrightarrow> j < length (dp ! i) \<Longrightarrow>
   dp_set dp i j v ! i' ! j' = (if i' = i \<and> j' = j then v else dp ! i' ! j')"
  by (simp add: dp_set_def nth_list_update)

lemma dim_dp_set [simp]:
  "length (dp_set dp i j v) = length dp"
  "i < length dp \<Longrightarrow> length (dp_set dp i j v ! i') = length (dp ! i')"
  by (auto simp: dp_set_def nth_list_update)

lemma dp_step_cell:
  assumes "i < length dp" "j < length (dp ! i)"
  shows "length (dp_step B R i j dp) = length dp \<and> (\<forall>i'. length (dp_step B R i j dp ! i') = length (dp ! i')) \<and>
    (\<forall>i' j'. (i', j') \<noteq> (i, j) \<longrightarrow> dp_step B R i j dp ! i' ! j' = dp ! i' ! j')"
  using assms by (auto simp: dp_step_def Let_def nth_dp_set)

lemma dp_step_value:
  assumes "Suc i < length dp" "Suc j < length (dp ! Suc i)"
  shows "dp_step B R (Suc i) (Suc j) dp ! Suc i ! Suc j =
    (if R ! j = HASH then dp ! i ! Suc j \<or> dp ! Suc i ! j
     else if R ! j = STAR \<or> B ! i = R ! j then dp ! i ! j else dp ! Suc i ! Suc j)"
  using assms by (auto simp: dp_step_def Let_def nth_dp_set)

lemma dp_step_ok:
  assumes ok: "table_ok B R (Suc i) (Suc j) dp" and "i < length B" "j < length R"
  shows "table_ok B R (Suc i) (Suc (Suc j)) (dp_step B R (Suc i) (Suc j) dp)"
proof -
  let ?dp = "dp_step B R (Suc i) (Suc j) dp"
  have dims: "Suc i < length dp" "Suc j < length (dp ! Suc i)"
    using assms by (auto simp: table_ok_def)
  note cell = dp_step_cell [OF dims, of B R]
  have val: "dp ! a ! b = (filled (Suc i) (Suc j) a b \<and> fit B R a b)" if "a \<le> length B" "b \<le> length R" for a b
    using ok that by (simp add: table_ok_def)
  have new: "?dp ! Suc i ! Suc j = fit B R (Suc i) (Suc j)"
    using dp_step_value [OF dims, of B R] val [of i "Suc j"] val [of "Suc i" j] val [of i j]
      val [of "Suc i" "Suc j"] assms(2,3)
    by (auto simp: filled_def)
  have "?dp ! a ! b = (filled (Suc i) (Suc (Suc j)) a b \<and> fit B R a b)"
    if ab: "a \<le> length B" "b \<le> length R" for a b
  proof (cases "(a, b) = (Suc i, Suc j)")
    case True
    then show ?thesis using new by (simp add: filled_def)
  next
    case False
    then have "?dp ! a ! b = dp ! a ! b" using cell by blast
    moreover have "filled (Suc i) (Suc (Suc j)) a b = filled (Suc i) (Suc j) a b"
      using False by (auto simp: filled_def)
    ultimately show ?thesis using val [OF ab] by simp
  qed
  then show ?thesis using cell ok by (simp add: table_ok_def)
qed

lemma dp_row_ok:
  assumes "table_ok B R (Suc i) 1 dp" "i < length B" "n \<le> length R"
  shows "table_ok B R (Suc i) (Suc n) (fold (\<lambda>j dp. dp_step B R (Suc i) j dp) [1..<n + 1] dp)"
  using assms(3)
proof (induction n)
  case 0
  then show ?case using assms(1) by simp
next
  case (Suc n)
  then show ?case using dp_step_ok [of B R i n] assms(2) by simp
qed

lemma dp_rows_ok:
  assumes "table_ok B R 1 1 dp" "n \<le> length B"
  shows "table_ok B R (Suc n) 1
    (fold (\<lambda>i dp. fold (\<lambda>j dp. dp_step B R i j dp) [1..<length R + 1] dp) [1..<n + 1] dp)"
  using assms(2)
proof (induction n)
  case 0
  then show ?case using assms(1) by simp
next
  case (Suc n)
  let ?dp = "fold (\<lambda>i dp. fold (\<lambda>j dp. dp_step B R i j dp) [1..<length R + 1] dp) [1..<n + 1] dp"
  have "table_ok B R (Suc n) (Suc (length R))
      (fold (\<lambda>j dp. dp_step B R (Suc n) j dp) [1..<length R + 1] ?dp)"
    using dp_row_ok [of B R n ?dp "length R"] Suc by simp
  then have "table_ok B R (Suc (Suc n)) 1
      (fold (\<lambda>j dp. dp_step B R (Suc n) j dp) [1..<length R + 1] ?dp)"
    by (auto simp: table_ok_def filled_def)
  then show ?case by simp
qed

lemma fit_border: "fit B R 0 j = (j = 0)" "fit B R i 0 = (i = 0)"
  by (cases j; simp) (cases i; simp)

lemma fit_pos: "fit B R i j \<Longrightarrow> 0 < i \<Longrightarrow> 0 < j"
  by (cases j) (auto simp: fit_border)

lemma IsFit_fit:
  "IsFit r b = fit (split_key b) (split_key r) (length (split_key b)) (length (split_key r))"
proof -
  let ?B = "split_key b" and ?R = "split_key r"
  let ?dp = "dp_set (replicate (length ?B + 1) (replicate (length ?R + 1) False)) 0 0 True"
  have "table_ok ?B ?R 1 1 ?dp"
    by (auto simp: table_ok_def filled_def nth_dp_set fit_border nth_Cons' dest: fit_pos simp del: replicate_Suc)
  from dp_rows_ok [OF this, of "length ?B"]
  show ?thesis by (simp add: IsFit_def Let_def table_ok_def filled_def del: upt_Suc)
qed

section \<open>What the table computes\<close>

text \<open>Topic patterns: \<^verbatim>\<open>*\<close> stands for one word, \<^verbatim>\<open>#\<close> for any number of them.\<close>

definition covers :: "bytes \<Rightarrow> bytes list \<Rightarrow> bool" where
  "covers p seg \<longleftrightarrow> p = HASH \<or> (p = STAR \<and> length seg = 1) \<or> seg = [p]"

definition topic_matches :: "bytes list \<Rightarrow> bytes list \<Rightarrow> bool" where
  "topic_matches ps ws \<longleftrightarrow> (\<exists>segs. list_all2 covers ps segs \<and> ws = concat segs)"

lemma matches_Nil [simp]: "topic_matches [] ws = (ws = [])"
  by (simp add: topic_matches_def)

lemma matches_snoc:
  "topic_matches (ps @ [p]) ws \<longleftrightarrow> (\<exists>u v. ws = u @ v \<and> topic_matches ps u \<and> covers p v)"
proof
  assume "topic_matches (ps @ [p]) ws"
  then obtain segs where s: "list_all2 covers (ps @ [p]) segs" "ws = concat segs"
    by (auto simp: topic_matches_def)
  then obtain xs y where "segs = xs @ [y]" "list_all2 covers ps xs" "covers p y"
    by (auto simp: list_all2_append1 list_all2_Cons1)
  with s(2) show "\<exists>u v. ws = u @ v \<and> topic_matches ps u \<and> covers p v"
    by (auto simp: topic_matches_def)
next
  assume "\<exists>u v. ws = u @ v \<and> topic_matches ps u \<and> covers p v"
  then obtain xs v where "list_all2 covers ps xs" "covers p v" "ws = concat xs @ v"
    by (auto simp: topic_matches_def)
  then show "topic_matches (ps @ [p]) ws"
    unfolding topic_matches_def
    by (intro exI [of _ "xs @ [v]"]) (auto intro: list_all2_appendI)
qed

lemma matches_snoc_hash:
  "topic_matches (ps @ [HASH]) (ws @ [w]) \<longleftrightarrow>
   topic_matches (ps @ [HASH]) ws \<or> topic_matches ps (ws @ [w])"
proof -
  have "(\<exists>u v. ws @ [w] = u @ v \<and> topic_matches ps u) \<longleftrightarrow>
      (\<exists>u v. ws = u @ v \<and> topic_matches ps u) \<or> topic_matches ps (ws @ [w])"
  proof
    assume "\<exists>u v. ws @ [w] = u @ v \<and> topic_matches ps u"
    then obtain u v where "ws @ [w] = u @ v" "topic_matches ps u" by blast
    then show "(\<exists>u v. ws = u @ v \<and> topic_matches ps u) \<or> topic_matches ps (ws @ [w])"
      by (cases v rule: rev_cases) auto
  next
    assume "(\<exists>u v. ws = u @ v \<and> topic_matches ps u) \<or> topic_matches ps (ws @ [w])"
    then show "\<exists>u v. ws @ [w] = u @ v \<and> topic_matches ps u"
      by (metis append.assoc append_Nil2)
  qed
  then show ?thesis by (simp add: matches_snoc covers_def)
qed

lemma matches_snoc_word:
  assumes "p \<noteq> HASH"
  shows "topic_matches (ps @ [p]) (ws @ [w]) \<longleftrightarrow> (p = STAR \<or> p = w) \<and> topic_matches ps ws"
proof -
  have "covers p v \<longleftrightarrow> (\<exists>x. v = [x] \<and> (p = STAR \<or> p = x))" for v
    using assms by (cases v; cases "tl v") (auto simp: covers_def)
  then show ?thesis by (auto simp: matches_snoc)
qed

lemma matches_empty_words:
  "ps \<noteq> [] \<Longrightarrow> hd ps \<noteq> HASH \<Longrightarrow> \<not> topic_matches ps []"
  by (cases ps) (auto simp: topic_matches_def list_all2_Cons1 covers_def)

lemma fit_matches:
  "R = [] \<or> hd R \<noteq> HASH \<Longrightarrow> i \<le> length B \<Longrightarrow> j \<le> length R \<Longrightarrow> fit B R i j = topic_matches (take j R) (take i B)"
proof (induction B R i j rule: fit.induct)
  case (2 B R j)
  then have "take (Suc j) R \<noteq> []" "hd (take (Suc j) R) \<noteq> HASH"
    by (auto simp: hd_take)
  then show ?case using matches_empty_words by simp
next
  case (4 B R i j)
  have t: "take (Suc i) B = take i B @ [B ! i]" "take (Suc j) R = take j R @ [R ! j]"
    using 4 by (simp_all add: take_Suc_conv_app_nth)
  show ?case
  proof (cases "R ! j = HASH")
    case True
    then show ?thesis using 4 matches_snoc_hash [of "take j R" "take i B" "B ! i"] by (simp add: t)
  next
    case False
    then show ?thesis using 4 matches_snoc_word [OF False, of "take j R" "take i B" "B ! i"]
      by (auto simp: t)
  qed
qed (auto simp: take_eq_Nil)

lemma fit_leading_hash: "R \<noteq> [] \<Longrightarrow> hd R = HASH \<Longrightarrow> \<not> fit B R i (Suc j)"
proof (induction B R i "Suc j" arbitrary: j rule: fit.induct)
  case (4 B R i j)
  then show ?case by (cases j) (auto simp: hd_conv_nth fit_border)
qed auto

section \<open>Bindings and routing\<close>

text \<open>Keys are distinct and every key holds exactly one queue: \<open>CreateBinding\<close> never adds a second.\<close>

definition exchange_inv :: "exchange \<Rightarrow> bool" where
  "exchange_inv e \<longleftrightarrow> distinct (map fst (m_mBindingQueues e)) \<and>
     (\<forall>(k, ql)\<in>set (m_mBindingQueues e). \<exists>q. ql = [q])"

definition bound_queues :: "exchange \<Rightarrow> addr set" where
  "bound_queues e = (\<Union>(k, ql)\<in>set (m_mBindingQueues e). set ql)"

lemma exchange_inv_new [simp]: "exchange_inv (new_Exchange n t d a)"
  by (simp add: exchange_inv_def new_Exchange_def)

lemma update_new_key: "map_of m k = None \<Longrightarrow> AList.update k v m = m @ [(k, v)]"
  by (induction m) (auto split: if_splits)

lemma CreateBinding_cases:
  "CreateBinding e k q =
     (if map_of (m_mBindingQueues e) k = None
      then e\<lparr>m_mBindingQueues := m_mBindingQueues e @ [(k, [q])]\<rparr> else e)"
  by (auto simp: CreateBinding_def update_new_key split: option.splits)

lemma exchange_inv_CreateBinding [simp]: "exchange_inv e \<Longrightarrow> exchange_inv (CreateBinding e k q)"
  by (auto simp: CreateBinding_cases exchange_inv_def map_of_eq_None_iff)

lemma bound_CreateBinding: "bound_queues (CreateBinding e k q) \<subseteq> insert q (bound_queues e)"
  by (auto simp: CreateBinding_cases bound_queues_def)

lemma delete_binding_loop_filter:
  "\<forall>(k, ql)\<in>set b. \<exists>x. ql = [x] \<Longrightarrow> delete_binding_loop q b = filter (\<lambda>(k, ql). ql \<noteq> [q]) b"
  by (induction q b rule: delete_binding_loop.induct) (auto simp: Let_def split: if_splits)

lemma exchange_inv_DeleteBindingQueue [simp]:
  "exchange_inv e \<Longrightarrow> exchange_inv (DeleteBindingQueue e q)"
  by (auto simp: exchange_inv_def DeleteBindingQueue_def delete_binding_loop_filter
      distinct_map_filter)

lemma bound_DeleteBindingQueue:
  "exchange_inv e \<Longrightarrow> bound_queues (DeleteBindingQueue e q) = bound_queues e - {q}"
  by (fastforce simp: exchange_inv_def DeleteBindingQueue_def delete_binding_loop_filter bound_queues_def)

lemma exchange_keeps [simp]:
  "ex_strExchangeName (CreateBinding e k q) = ex_strExchangeName e"
  "ex_bDurable (CreateBinding e k q) = ex_bDurable e"
  "ex_strExchangeName (DeleteBindingQueue e q) = ex_strExchangeName e"
  "ex_bDurable (DeleteBindingQueue e q) = ex_bDurable e"
  "ex_bAutoDel (DeleteBindingQueue e q) = ex_bAutoDel e"
  by (simp_all add: CreateBinding_cases DeleteBindingQueue_def)

lemma append_queues_append [simp]: "append_queues out qs = out @ qs"
  by (induction out qs rule: append_queues.induct) auto

lemma fanout_loop_concat: "fanout_loop b out = out @ concat (map snd b)"
  by (induction b out rule: fanout_loop.induct) auto

lemma topic_loop_concat:
  "topic_loop r b out = out @ concat (map snd (filter (\<lambda>(k, ql). IsFit r k) b))"
  by (induction r b out rule: topic_loop.induct) auto

lemma FindBindingQueue_bound:
  "set (snd (FindBindingQueue e r [])) \<subseteq> bound_queues e"
  by (auto simp: FindBindingQueue_def bound_queues_def fanout_loop_concat topic_loop_concat
      dest: map_of_SomeD split: option.splits)

section \<open>Properties\<close>

text \<open>C31. \<open>IsFit\<close>, for every pair of keys: the table decides whether the words of the binding key
  match the words of the routing key read as a pattern, in which \<open>*\<close> stands for one word and \<open>#\<close> for
  any number of words, except that a pattern that starts with \<open>#\<close> matches nothing at all. (The
  comment gives the wildcards their meaning without that exception.)\<close>

theorem IsFit_topic_matches:
  "IsFit r b \<longleftrightarrow> \<not> (words_of [] r \<noteq> [] \<and> hd (words_of [] r) = HASH) \<and>
     topic_matches (words_of [] r) (words_of [] b)"
proof (cases "words_of [] r \<noteq> [] \<and> hd (words_of [] r) = HASH")
  case True
  then obtain j where "length (words_of [] r) = Suc j" by (cases "words_of [] r") auto
  then show ?thesis using fit_leading_hash True by (simp add: IsFit_fit split_key_words)
next
  case False
  then show ?thesis
    using fit_matches [of "words_of [] r" "length (words_of [] b)" "words_of [] b" "length (words_of [] r)"]
    by (auto simp: IsFit_fit split_key_words)
qed

lemma matches_plain:
  "\<forall>p\<in>set ps. p \<noteq> HASH \<and> p \<noteq> STAR \<Longrightarrow> topic_matches ps ws \<longleftrightarrow> ws = ps"
proof (induction ps arbitrary: ws rule: rev_induct)
  case (snoc p ps)
  show ?case
  proof (cases ws rule: rev_cases)
    case Nil
    have "hd (ps @ [p]) \<in> set (ps @ [p])" by (rule hd_in_set) simp
    then have "hd (ps @ [p]) \<noteq> HASH" using snoc.prems by blast
    then show ?thesis using Nil matches_empty_words [of "ps @ [p]"] by simp
  next
    case (snoc us u)
    then show ?thesis using matches_snoc_word [of p ps us u] snoc.prems snoc.IH [of us] by auto
  qed
qed simp

text \<open>Wildcards in the binding key have no effect: a routing key without wildcard words fits a binding
  key exactly when the two have the same words. A queue bound with a topic pattern therefore does
  not receive the messages the pattern describes.\<close>

theorem IsFit_plain_routing_key:
  assumes "HASH \<notin> set (words_of [] r)" "STAR \<notin> set (words_of [] r)"
  shows "IsFit r b \<longleftrightarrow> words_of [] b = words_of [] r"
proof -
  have "\<not> (words_of [] r \<noteq> [] \<and> hd (words_of [] r) = HASH)"
    using assms(1) hd_in_set by metis
  moreover have "topic_matches (words_of [] r) (words_of [] b) \<longleftrightarrow> words_of [] b = words_of [] r"
    using assms by (intro matches_plain) auto
  moreover have "IsFit r b \<longleftrightarrow> \<not> (words_of [] r \<noteq> [] \<and> hd (words_of [] r) = HASH) \<and>
     topic_matches (words_of [] r) (words_of [] b)"
    using fit_matches [of "words_of [] r" "length (words_of [] b)" "words_of [] b" "length (words_of [] r)"]
      calculation(1) by (auto simp: IsFit_fit split_key_words)
  ultimately show ?thesis by blast
qed


text \<open>Binding a second queue with a key that is already bound has no effect, although
  \<open>CreateBinding\<close> always reports success: messages published with that key reach the first queue only.\<close>

theorem second_binding_lost:
  assumes "map_of (m_mBindingQueues e) k \<noteq> None"
  shows "CreateBinding e k q = e"
  using assms by (simp add: CreateBinding_cases)

text \<open>After \<open>DeleteBindingQueue\<close> no routing key reaches the queue any more, every other
  binding is kept, and the invariant still holds: no exchange keeps a pointer to a deleted queue.\<close>

theorem DeleteBindingQueue_no_dangling:
  assumes "exchange_inv e"
  shows "q \<notin> set (snd (FindBindingQueue (DeleteBindingQueue e q) r [])) \<and>
    m_mBindingQueues (DeleteBindingQueue e q) = filter (\<lambda>(k, ql). ql \<noteq> [q]) (m_mBindingQueues e) \<and>
    exchange_inv (DeleteBindingQueue e q)"
  using assms bound_DeleteBindingQueue [OF assms, of q] FindBindingQueue_bound [of "DeleteBindingQueue e q" r]
  by (auto simp: DeleteBindingQueue_def delete_binding_loop_filter exchange_inv_def
      distinct_map_filter)

section \<open>Witnesses\<close>

definition w_exchange :: exchange where
  "w_exchange = CreateBinding (CreateBinding (new_Exchange [101] EXCHANGE_TYPE_TOPIC False True)
     (bytes_of ''a.b'') 1) (bytes_of ''a.c'') 2"

lemma w_exchange_inv: "exchange_inv w_exchange"
  by (simp add: w_exchange_def)

theorem IsFit_plain_routing_key_witness: "\<not> IsFit (bytes_of ''a.b'') (bytes_of ''a.*'')"
  by (subst IsFit_plain_routing_key) (code_simp+)


theorem second_binding_lost_witness: "CreateBinding w_exchange (bytes_of ''a.b'') 7 = w_exchange"
  by (rule second_binding_lost) code_simp

theorem DeleteBindingQueue_no_dangling_witness:
  "1 \<notin> set (snd (FindBindingQueue (DeleteBindingQueue w_exchange 1) (bytes_of ''a.*'') []))"
  using DeleteBindingQueue_no_dangling [OF w_exchange_inv, of 1 "bytes_of ''a.*''"] by simp

end
