(* ===== verification/Logic_State.thy ===== *)
theory Logic_State
  imports Mq_Queue Mq_Exchange Shm_Correct
begin

text \<open>
  The state of the class \<^verbatim>\<open>LogicServer\<close> and the packets it builds for the other two
  processes. \<^verbatim>\<open>MessageQueue*\<close> pointers are addresses of the heap \<open>m_queues\<close>, since the name maps
  and the exchanges share them; \<^verbatim>\<open>Exchange*\<close> and \<^verbatim>\<open>SeverStoreMessage*\<close> pointers have one
  owner each and are values.
\<close>

section \<open>State\<close>

record logic_server =
  m_queues :: "addr \<Rightarrow> message_queue option"
  m_iNextAddr :: addr
  m_mUnSubcribeQueues :: "(bytes \<times> addr) list"
  m_mSubcribeQueues :: "(bytes \<times> addr) list"
  m_mExchanges :: "(bytes \<times> exchange) list"
  m_NeedAckMessageList :: "sever_store_message list"
  m_iAckSeq :: i32
  m_producerMsgSeqs :: "bytes list"
  m_producerLastMsgSeq :: "(i32 \<times> i32) list"
  m_pQueueToConnect :: shm_queue
  m_pQueueFromConnect :: shm_queue
  m_pQueueToPersis :: shm_queue
  m_iRecvCount :: int
  m_iSendCount :: int
  env_now :: "int \<times> int"
  env_raw :: "bytes \<Rightarrow> bytes"
  env_stack :: bytes

text \<open>
  The three \<open>env\<close> fields are the environment of a run: the time \<^verbatim>\<open>gettimeofday\<close> answers, the bytes
  behind a string's terminator (see \<open>string_bytes\<close>), and the bytes an uninitialised array starts with.
\<close>

definition ERR_LOGIC_SERVER_PROCESS :: int where "ERR_LOGIC_SERVER_PROCESS = -701"
definition ERR_LOGIC_SERVER_CREATE_EXCHANGE :: int where "ERR_LOGIC_SERVER_CREATE_EXCHANGE = -703"
definition ERR_LOGIC_SERVER_CREATE_QUEUE :: int where "ERR_LOGIC_SERVER_CREATE_QUEUE = -704"
definition ERR_LOGIC_SERVER_CREATE_BINDING :: int where "ERR_LOGIC_SERVER_CREATE_BINDING = -705"
definition ERR_LOGIC_SERVER_PUBLISH_MESSAGE :: int where "ERR_LOGIC_SERVER_PUBLISH_MESSAGE = -706"
definition ERR_LOGIC_SERVER_RECV_MESSAGE :: int where "ERR_LOGIC_SERVER_RECV_MESSAGE = -707"
definition ERR_LOGIC_SERVER_CREATE_SUBSCRIBE :: int where "ERR_LOGIC_SERVER_CREATE_SUBSCRIBE = -708"
definition ERR_LOGIC_SERVER_DELETE_EXCHANGE :: int where "ERR_LOGIC_SERVER_DELETE_EXCHANGE = -709"
definition ERR_LOGIC_SERVER_DELETE_QUEUE :: int where "ERR_LOGIC_SERVER_DELETE_QUEUE = -710"
definition ERR_LOGIC_SERVER_CANCEL_SUBSCRIBE :: int where "ERR_LOGIC_SERVER_CANCEL_SUBSCRIBE = -711"

lemmas logic_err_defs = ERR_LOGIC_SERVER_PROCESS_def ERR_LOGIC_SERVER_CREATE_EXCHANGE_def
  ERR_LOGIC_SERVER_CREATE_QUEUE_def ERR_LOGIC_SERVER_CREATE_BINDING_def
  ERR_LOGIC_SERVER_PUBLISH_MESSAGE_def ERR_LOGIC_SERVER_RECV_MESSAGE_def
  ERR_LOGIC_SERVER_CREATE_SUBSCRIBE_def ERR_LOGIC_SERVER_DELETE_EXCHANGE_def
  ERR_LOGIC_SERVER_DELETE_QUEUE_def ERR_LOGIC_SERVER_CANCEL_SUBSCRIBE_def

text \<open>The reply texts.\<close>

definition RE_CREATE_EXCHANGE_SUCCESS :: bytes where "RE_CREATE_EXCHANGE_SUCCESS = bytes_of ''Create exchange success!''"
definition RE_EXCHANGE_EXIST :: bytes where "RE_EXCHANGE_EXIST = bytes_of ''Exchange already exist! name is ''"
definition RE_CREATE_QUEUE_SUCCESS :: bytes where "RE_CREATE_QUEUE_SUCCESS = bytes_of ''Create queue success!''"
definition RE_QUEUE_EXIST :: bytes where "RE_QUEUE_EXIST = bytes_of ''Queue already exist! name is ''"
definition RE_EXCHANGE_NOT_EXIST :: bytes where "RE_EXCHANGE_NOT_EXIST = bytes_of ''Exchange not exist! name is ''"
definition RE_QUEUE_NOT_EXIST :: bytes where "RE_QUEUE_NOT_EXIST = bytes_of ''Queue not exist! name is ''"
definition RE_QUEUE_NOT_SUBSCRIBE :: bytes where "RE_QUEUE_NOT_SUBSCRIBE = bytes_of (''Queue isn'' @ [CHR 0x27] @ ''t subscribed! name is '')"
definition RE_QUEUE_IS_EMPTY :: bytes where "RE_QUEUE_IS_EMPTY = bytes_of ''Queue is empty! name is ''"
definition RE_FIT_QUEUE_NOT_EXIST :: bytes where "RE_FIT_QUEUE_NOT_EXIST = bytes_of ''Fit queue not exist! routing key is ''"
definition RE_BINDING_SUCCEED :: bytes where "RE_BINDING_SUCCEED = bytes_of ''Binding succeed! binding key is ''"
definition RE_BINDING_FAILED :: bytes where "RE_BINDING_FAILED = bytes_of ''Binding failed! binding key is ''"
definition RE_SUBSCRIBE_SUCCEED :: bytes where "RE_SUBSCRIBE_SUCCEED = bytes_of ''Subscribe succeed! queue name is ''"
definition RE_SUBSCRIBE_FAILED :: bytes where "RE_SUBSCRIBE_FAILED = bytes_of ''Subscribe failed! queue name is ''"
definition RE_DELETE_EXCHANGE_SUCCEED :: bytes where "RE_DELETE_EXCHANGE_SUCCEED = bytes_of ''Delete exchange succeed! exchange name is ''"
definition RE_DELETE_EXCHANGE_FAILED :: bytes where "RE_DELETE_EXCHANGE_FAILED = bytes_of ''Delete exchange failed! exchange name is ''"
definition RE_DELETE_QUEUE_SUCCEED :: bytes where "RE_DELETE_QUEUE_SUCCEED = bytes_of ''Delete queue succeed! queue name is ''"
definition RE_DELETE_QUEUE_FAILED :: bytes where "RE_DELETE_QUEUE_FAILED = bytes_of ''Delete queue failed! queue name is ''"
definition RE_CANCEL_SUBSCRIBE_SUCCEED :: bytes where "RE_CANCEL_SUBSCRIBE_SUCCEED = bytes_of ''Cancel subscribe succeed! queue name is ''"
definition RE_CANCEL_SUBSCRIBE_FAILED :: bytes where "RE_CANCEL_SUBSCRIBE_FAILED = bytes_of ''Cancel subscribe failed! queue name is ''"
definition RE_DURABLE_FAILED :: bytes where "RE_DURABLE_FAILED = bytes_of ''Durable failed!''"

definition new_LogicServer :: "shm_queue \<Rightarrow> shm_queue \<Rightarrow> shm_queue \<Rightarrow> logic_server" where
  "new_LogicServer toConnect fromConnect toPersis =
     \<lparr>m_queues = (\<lambda>_. None), m_iNextAddr = 0, m_mUnSubcribeQueues = [], m_mSubcribeQueues = [],
      m_mExchanges = [], m_NeedAckMessageList = [], m_iAckSeq = 0, m_producerMsgSeqs = [],
      m_producerLastMsgSeq = [], m_pQueueToConnect = toConnect, m_pQueueFromConnect = fromConnect,
      m_pQueueToPersis = toPersis, m_iRecvCount = 0, m_iSendCount = 0, env_now = (0, 0),
      env_raw = (\<lambda>_. []), env_stack = []\<rparr>"

text \<open>What every handler returns: code, reply text (empty for none), new state.\<close>

type_synonym handled = "(int \<times> bytes \<times> logic_server) option"

definition set_queue :: "addr \<Rightarrow> message_queue \<Rightarrow> logic_server \<Rightarrow> logic_server" where
  "set_queue a q s = s\<lparr>m_queues := (m_queues s)(a \<mapsto> q)\<rparr>"

definition free_queue :: "addr \<Rightarrow> logic_server \<Rightarrow> logic_server" where
  "free_queue a s = s\<lparr>m_queues := (m_queues s)(a := None)\<rparr>"

section \<open>Reading a packet\<close>

text \<open>\<^verbatim>\<open>char p[MAX_NAME_LENGTH]; ReadBuf(pTemp,p,sizeof(p)); string s(p);\<close>\<close>

definition read_name :: "bytes \<Rightarrow> nat \<Rightarrow> (nat \<times> bytes) option" where
  "read_name ipBuffer p = do {
     (n, chars) \<leftarrow> ReadBuf ipBuffer p MAX_NAME_LENGTH;
     s \<leftarrow> cstr chars;
     Some (n, s) }"

section \<open>Sending\<close>

definition pack_buffer :: bytes where
  "pack_buffer = replicate MAX_CLINT_PACKAGE_LENGTH 0"

definition to_persis :: "logic_server \<Rightarrow> bytes \<Rightarrow> int \<Rightarrow> (int \<times> logic_server) option" where
  "to_persis s pBuff iPackLen = do {
     (ret, q) \<leftarrow> Enqueue (m_pQueueToPersis s) pBuff iPackLen;
     Some (ret, s\<lparr>m_pQueueToPersis := q\<rparr>) }"

definition to_connect :: "logic_server \<Rightarrow> bytes \<Rightarrow> int \<Rightarrow> (int \<times> logic_server) option" where
  "to_connect s pBuff iPackLen = do {
     (ret, q) \<leftarrow> Enqueue (m_pQueueToConnect s) pBuff iPackLen;
     Some (ret, s\<lparr>m_pQueueToConnect := q\<rparr>) }"

text \<open>\<^verbatim>\<open>while(m_pQueueToConnect->Enqueue(..)==ERR_SHM_QUEUE_FULL){}\<close>: with no other process taking
  packets out, a full queue stays full and the loop does not end.\<close>

definition to_connect_wait :: "logic_server \<Rightarrow> bytes \<Rightarrow> int \<Rightarrow> logic_server option" where
  "to_connect_wait s pBuff iPackLen = do {
     (ret, s') \<leftarrow> to_connect s pBuff iPackLen;
     if ret = ERR_SHM_QUEUE_FULL then None else Some s' }"

text \<open>The body of a client's request with a four-byte head, for the persistence server.\<close>

definition send_repacked ::
  "logic_server \<Rightarrow> u16 \<Rightarrow> bytes \<Rightarrow> nat \<Rightarrow> int \<Rightarrow> (int \<times> logic_server) option" where
  "send_repacked s cmd ipBuffer p0 iLen = do {
     let iPackLen = (word_of_int (2 + 2 + iLen) :: u16);
     (n, b) \<leftarrow> WriteShort pack_buffer 0 iPackLen;
     let p = n;
     (n, b) \<leftarrow> WriteShort b p cmd;
     let p = p + n;
     b \<leftarrow> memcpy b (int p) ipBuffer (int p0) iLen;
     to_persis s b (uint iPackLen) }"

text \<open>The packet that says a durable message has been consumed.\<close>

definition send_consumed :: "logic_server \<Rightarrow> u16 \<Rightarrow> bytes \<Rightarrow> i32 \<Rightarrow> (int \<times> logic_server) option" where
  "send_consumed s cmd strQueueName iDurableIndex = do {
     let iPackLen = (word_of_nat (2 + 2 + MAX_NAME_LENGTH + 4) :: u16);
     (n, b) \<leftarrow> WriteShort pack_buffer 0 iPackLen;
     let p = n;
     (n, b) \<leftarrow> WriteShort b p cmd;
     let p = p + n;
     (n, b) \<leftarrow> WriteBuf b p strQueueName (length strQueueName);
     let p = p + MAX_NAME_LENGTH;
     (n, b) \<leftarrow> WriteInt b p iDurableIndex;
     to_persis s b (uint iPackLen) }"

text \<open>The packet that says an exchange or a queue has been deleted.\<close>

definition send_deleted :: "logic_server \<Rightarrow> u16 \<Rightarrow> bytes \<Rightarrow> (int \<times> logic_server) option" where
  "send_deleted s cmd name = do {
     let iPackLen = (word_of_nat (2 + 2 + length name) :: u16);
     (n, b) \<leftarrow> WriteShort pack_buffer 0 iPackLen;
     let p = n;
     (n, b) \<leftarrow> WriteShort b p cmd;
     let p = p + n;
     (n, b) \<leftarrow> WriteBuf b p name (length name);
     to_persis s b (uint iPackLen) }"

section \<open>SerializeBindingToString\<close>

definition binding_length :: "bindings \<Rightarrow> u16" where
  "binding_length bs =
     foldl (\<lambda>iLen (key, queueList).
              foldl (\<lambda>iLen q. iLen + word_of_nat MAX_NAME_LENGTH)
                (iLen + word_of_nat MAX_NAME_LENGTH + 2) queueList)
       (word_of_nat (2 + 2 + MAX_NAME_LENGTH + 2)) bs"

fun write_queue_names ::
  "logic_server \<Rightarrow> bytes \<Rightarrow> nat \<Rightarrow> addr list \<Rightarrow> (nat \<times> bytes) option" where
  "write_queue_names s b p [] = Some (p, b)"
| "write_queue_names s b p (a # as) = do {
     q \<leftarrow> m_queues s a;
     (n, b) \<leftarrow> WriteBuf b p (string_bytes (env_raw s) (mq_strQueueName q)) 32;
     write_queue_names s b (p + MAX_NAME_LENGTH) as }"

fun write_bindings :: "logic_server \<Rightarrow> bytes \<Rightarrow> nat \<Rightarrow> bindings \<Rightarrow> bytes option" where
  "write_bindings s b p [] = Some b"
| "write_bindings s b p ((key, queueList) # rest) = do {
     (n, b) \<leftarrow> WriteBuf b p (string_bytes (env_raw s) key) 32;
     let p = p + MAX_NAME_LENGTH;
     (n, b) \<leftarrow> WriteShort b p (word_of_nat (length queueList));
     let p = p + n;
     (p, b) \<leftarrow> write_queue_names s b p queueList;
     write_bindings s b p rest }"

definition SerializeBindingToString :: "logic_server \<Rightarrow> exchange \<Rightarrow> bytes \<Rightarrow> int \<Rightarrow> packed" where
  "SerializeBindingToString s e ipBuffer iBuffLen =
     (let iLen = binding_length (m_mBindingQueues e)
      in if uint iLen > iBuffLen then Some (ERROR, ipBuffer, iBuffLen)
      else do {
        (n, b) \<leftarrow> WriteShort ipBuffer 0 iLen;
        let p = n;
        (n, b) \<leftarrow> WriteShort b p CMD_CREATE_BINDING;
        let p = p + n;
        (n, b) \<leftarrow> WriteBuf b p (ex_strExchangeName e) (length (ex_strExchangeName e));
        let p = p + MAX_NAME_LENGTH;
        (n, b) \<leftarrow> WriteShort b p (word_of_nat (length (m_mBindingQueues e)));
        let p = p + n;
        b \<leftarrow> write_bindings s b p (m_mBindingQueues e);
        Some (SUCCESS, b, uint iLen) })"

text \<open>\<^verbatim>\<open>std::to_string\<close>\<close>

fun digits :: "nat \<Rightarrow> nat \<Rightarrow> bytes" where
  "digits 0 n = []"
| "digits (Suc k) n = (if n < 10 then [word_of_nat (48 + n)] else digits k (n div 10) @ [word_of_nat (48 + n mod 10)])"

definition to_string :: "i32 \<Rightarrow> bytes" where
  "to_string x =
     (let v = sint x in if v < 0 then [45] @ digits 10 (nat (- v)) else digits 10 (nat v))"

definition msg_seq_key :: "i32 \<Rightarrow> i32 \<Rightarrow> bytes" where
  "msg_seq_key iCliIndex iMsgSeq = to_string iCliIndex @ [35] @ to_string iMsgSeq"

end
