(* ===== verification/Logic_Server.thy ===== *)
theory Logic_Server
  imports Logic_State
begin

text \<open>
  The request handlers of \<^verbatim>\<open>LogicServer\<close>, each translated whole: reading the fields from the
  packet buffer \<open>ipBuffer\<close> at \<open>p0\<close> (where \<^verbatim>\<open>pTemp\<close> points after the packet head), the guards with
  their early returns, the changes of the maps and queues, and the packets to the other
  processes in the order they are sent. \<open>iLen\<close> is the length of the packet without its head.
\<close>

section \<open>Exchanges and queues\<close>

definition OnCreateExchange :: "logic_server \<Rightarrow> bytes \<Rightarrow> nat \<Rightarrow> int \<Rightarrow> handled" where
  "OnCreateExchange s ipBuffer p0 iLen = do {
     let p = p0;
     (n, strExchangeName) \<leftarrow> read_name ipBuffer p;
     let p = p + n;
     (n, iExchangeType) \<leftarrow> ReadShort ipBuffer p;
     let p = p + n;
     (n, bDurable) \<leftarrow> ReadBool ipBuffer p;
     let p = p + n;
     (n, bAutoDel) \<leftarrow> ReadBool ipBuffer p;
     if has_key (m_mExchanges s) strExchangeName
     then Some (SUCCESS, RE_EXCHANGE_EXIST @ strExchangeName, s)
     else do {
       let e = new_Exchange strExchangeName iExchangeType bDurable bAutoDel;
       let s = s\<lparr>m_mExchanges := AList.update strExchangeName e (m_mExchanges s)\<rparr>;
       if bDurable then do {
         (ret, s) \<leftarrow> send_repacked s CMD_CREATE_EXCNANGE ipBuffer p0 iLen;
         if ret \<noteq> SUCCESS then Some (ERR_LOGIC_SERVER_CREATE_EXCHANGE, RE_DURABLE_FAILED, s)
         else Some (SUCCESS, RE_CREATE_EXCHANGE_SUCCESS, s) }
       else Some (SUCCESS, RE_CREATE_EXCHANGE_SUCCESS, s) } }"

definition OnCreateQueue :: "logic_server \<Rightarrow> bytes \<Rightarrow> nat \<Rightarrow> int \<Rightarrow> handled" where
  "OnCreateQueue s ipBuffer p0 iLen = do {
     let p = p0;
     (n, strQueueName) \<leftarrow> read_name ipBuffer p;
     let p = p + n;
     (n, iPriority) \<leftarrow> ReadShort ipBuffer p;
     let p = p + n;
     (n, bDurable) \<leftarrow> ReadBool ipBuffer p;
     let p = p + n;
     (n, bAutoDel) \<leftarrow> ReadBool ipBuffer p;
     if has_key (m_mUnSubcribeQueues s) strQueueName \<or> has_key (m_mSubcribeQueues s) strQueueName
     then Some (SUCCESS, RE_QUEUE_EXIST @ strQueueName, s)
     else do {
       let a = m_iNextAddr s;
       let s = set_queue a (new_MessageQueue strQueueName iPriority bDurable bAutoDel) s;
       let s = s\<lparr>m_iNextAddr := a + 1,
                 m_mUnSubcribeQueues := AList.update strQueueName a (m_mUnSubcribeQueues s)\<rparr>;
       if bDurable then do {
         (ret, s) \<leftarrow> send_repacked s CMD_CREATE_QUEUE ipBuffer p0 iLen;
         if ret \<noteq> SUCCESS then Some (ERR_LOGIC_SERVER_CREATE_EXCHANGE, RE_DURABLE_FAILED, s)
         else Some (SUCCESS, RE_CREATE_QUEUE_SUCCESS, s) }
       else Some (SUCCESS, RE_CREATE_QUEUE_SUCCESS, s) } }"

definition OnCreateBinding :: "logic_server \<Rightarrow> bytes \<Rightarrow> nat \<Rightarrow> int \<Rightarrow> handled" where
  "OnCreateBinding s ipBuffer p0 iLen = do {
     let p = p0;
     (n, strExchangeName) \<leftarrow> read_name ipBuffer p;
     let p = p + n;
     (n, strQueueName) \<leftarrow> read_name ipBuffer p;
     let p = p + n;
     (n, strBindingKey) \<leftarrow> read_name ipBuffer p;
     let pMessageQueue =
       (case map_of (m_mUnSubcribeQueues s) strQueueName of
          Some a \<Rightarrow> Some a
        | None \<Rightarrow> map_of (m_mSubcribeQueues s) strQueueName);
     case map_of (m_mExchanges s) strExchangeName of
       None \<Rightarrow> Some (ERR_LOGIC_SERVER_CREATE_BINDING, RE_EXCHANGE_NOT_EXIST @ strExchangeName, s)
     | Some e \<Rightarrow>
         (case pMessageQueue of
            None \<Rightarrow> Some (ERR_LOGIC_SERVER_CREATE_BINDING, RE_QUEUE_NOT_EXIST @ strQueueName, s)
          | Some a \<Rightarrow> do {
              let e = CreateBinding e strBindingKey a;
              let s = s\<lparr>m_mExchanges := AList.update strExchangeName e (m_mExchanges s)\<rparr>;
              if ex_bDurable e then do {
                (_, pBuff, iPackLen) \<leftarrow>
                  SerializeBindingToString s e pack_buffer (int MAX_CLINT_PACKAGE_LENGTH);
                (ret, s) \<leftarrow> to_persis s pBuff iPackLen;
                if ret \<noteq> SUCCESS
                then Some (ERR_LOGIC_SERVER_CREATE_BINDING, RE_BINDING_FAILED @ strBindingKey, s)
                else Some (SUCCESS, RE_BINDING_SUCCEED @ strBindingKey, s) }
              else Some (SUCCESS, RE_BINDING_SUCCEED @ strBindingKey, s) }) }"

definition OnDeleteExchange :: "logic_server \<Rightarrow> bytes \<Rightarrow> nat \<Rightarrow> int \<Rightarrow> handled" where
  "OnDeleteExchange s ipBuffer p0 iLen = do {
     (n, strExchangeName) \<leftarrow> read_name ipBuffer p0;
     case map_of (m_mExchanges s) strExchangeName of
       None \<Rightarrow> Some (ERR_LOGIC_SERVER_DELETE_EXCHANGE, RE_EXCHANGE_NOT_EXIST @ strExchangeName, s)
     | Some e \<Rightarrow> do {
         (ret, s) \<leftarrow> (if ex_bDurable e
                      then send_repacked s CMD_DELETE_EXCHANGE ipBuffer p0 iLen
                      else Some (SUCCESS, s));
         if ret \<noteq> SUCCESS
         then Some (ERR_LOGIC_SERVER_DELETE_EXCHANGE, RE_DELETE_EXCHANGE_FAILED @ strExchangeName, s)
         else Some (SUCCESS, RE_DELETE_EXCHANGE_SUCCEED @ strExchangeName,
                    s\<lparr>m_mExchanges := AList.delete strExchangeName (m_mExchanges s)\<rparr>) } }"

text \<open>The walk over all exchanges that removes the bindings of a queue; an auto-delete exchange that
  becomes empty is deleted.\<close>

fun unbind_all :: "addr \<Rightarrow> (bytes \<times> exchange) list \<Rightarrow> (bytes \<times> exchange) list" where
  "unbind_all a [] = []"
| "unbind_all a ((k, e) # rest) =
     (if GetBindingSize e = 0 then (k, e) # unbind_all a rest
      else
        let e' = DeleteBindingQueue e a
        in if GetBindingSize e' = 0 \<and> ex_bAutoDel e' then unbind_all a rest
           else (k, e') # unbind_all a rest)"

definition OnDeleteQueue :: "logic_server \<Rightarrow> bytes \<Rightarrow> nat \<Rightarrow> int \<Rightarrow> handled" where
  "OnDeleteQueue s ipBuffer p0 iLen = do {
     (n, strQueueName) \<leftarrow> read_name ipBuffer p0;
     let a1 = map_of (m_mUnSubcribeQueues s) strQueueName;
     let s = s\<lparr>m_mUnSubcribeQueues := AList.delete strQueueName (m_mUnSubcribeQueues s)\<rparr>;
     let a2 = map_of (m_mSubcribeQueues s) strQueueName;
     let s = s\<lparr>m_mSubcribeQueues := AList.delete strQueueName (m_mSubcribeQueues s)\<rparr>;
     case (case a2 of Some a \<Rightarrow> Some a | None \<Rightarrow> a1) of
       None \<Rightarrow> Some (ERR_LOGIC_SERVER_DELETE_QUEUE, RE_QUEUE_NOT_EXIST @ strQueueName, s)
     | Some a \<Rightarrow> do {
         q \<leftarrow> m_queues s a;
         (ret, s) \<leftarrow> (if mq_bDurable q
                      then send_repacked s CMD_DELETE_QUEUE ipBuffer p0 iLen
                      else Some (SUCCESS, s));
         if ret \<noteq> SUCCESS
         then Some (ERR_LOGIC_SERVER_DELETE_QUEUE, RE_DELETE_QUEUE_FAILED @ strQueueName, s)
         else do {
           let s = set_queue a (ClearMessage q) s;
           let s = s\<lparr>m_mExchanges := unbind_all a (m_mExchanges s)\<rparr>;
           Some (SUCCESS, RE_DELETE_QUEUE_SUCCEED @ strQueueName, free_queue a s) } } }"

section \<open>Publishing\<close>

fun publish_loop :: "bytes \<Rightarrow> i16 \<Rightarrow> bool \<Rightarrow> addr list \<Rightarrow> logic_server \<Rightarrow> logic_server option" where
  "publish_loop strMsgBody iPriority bDurable [] s = Some s"
| "publish_loop strMsgBody iPriority bDurable (a # rest) s = do {
     q \<leftarrow> m_queues s a;
     let m = new_SeverStoreMessage strMsgBody iPriority bDurable;
     (m, q, s) \<leftarrow>
       (if bDurable \<and> mq_bDurable q then do {
          let (iDurableIndex, q) = GetNextDaurableIndex q;
          let m = m\<lparr>ssm_iDurableIndex := iDurableIndex, ssm_strQueueName := mq_strQueueName q\<rparr>;
          (_, pBuff, iPackLen) \<leftarrow> SerializeDurableToString m pack_buffer (int MAX_CLINT_PACKAGE_LENGTH);
          (_, s) \<leftarrow> to_persis s pBuff iPackLen;
          Some (m, q, s) }
        else Some (m, q, s));
     publish_loop strMsgBody iPriority bDurable rest (set_queue a (AddMessage q m) s) }"

text \<open>A single confirmation is sent at once; for a batch confirmation the latest number is kept.\<close>

definition publish_ack :: "logic_server \<Rightarrow> byte \<Rightarrow> i32 \<Rightarrow> i32 \<Rightarrow> bytes \<Rightarrow> logic_server option" where
  "publish_ack s confirmLevel iCliIndex iMsgSeq strMsgSeq = do {
     s \<leftarrow> (if confirmLevel = PRODUCER_SINGLE_ACK then do {
             (_, pAckPack, iPackLen) \<leftarrow>
               GetMessagePack (ServerAckMessage iCliIndex CMD_SERVER_ACK_MESSAGE iMsgSeq)
                 (replicate MAX_SERVER_PACKAGE_LENGTH 0) (int MAX_SERVER_PACKAGE_LENGTH);
             (_, s) \<leftarrow> to_connect s pAckPack iPackLen;
             Some (s\<lparr>m_producerMsgSeqs := List.insert strMsgSeq (m_producerMsgSeqs s)\<rparr>) }
           else Some s);
     Some (if confirmLevel = PRODUCER_MUTIL_ACK
           then s\<lparr>m_producerLastMsgSeq := AList.update iCliIndex iMsgSeq (m_producerLastMsgSeq s),
                  m_producerMsgSeqs := List.insert strMsgSeq (m_producerMsgSeqs s)\<rparr>
           else s) }"

text \<open>\<open>None\<close> also stands for the \<^verbatim>\<open>std::length_error\<close> of \<^verbatim>\<open>strMsgBody.assign(pTemp,iLen)\<close> with a
  negative length, which nothing catches.\<close>

definition OnPublishMessage :: "logic_server \<Rightarrow> bytes \<Rightarrow> nat \<Rightarrow> int \<Rightarrow> i32 \<Rightarrow> handled" where
  "OnPublishMessage s ipBuffer p0 iLen iCliIndex = do {
     let p = p0;
     (n, strExchangeName) \<leftarrow> read_name ipBuffer p;
     let p = p + n;
     let iLen = iLen - int n;
     (n, strRoutingKey) \<leftarrow> read_name ipBuffer p;
     let p = p + n;
     let iLen = iLen - int n;
     (n, iPriority) \<leftarrow> ReadShort ipBuffer p;
     let p = p + n;
     let iLen = iLen - int n;
     (n, bDurable) \<leftarrow> ReadBool ipBuffer p;
     let p = p + n;
     let iLen = iLen - int n;
     (n, iMsgSeq) \<leftarrow> ReadInt ipBuffer p;
     let strMsgSeq = msg_seq_key iCliIndex iMsgSeq;
     let p = p + n;
     let iLen = iLen - int n;
     (n, confirmLevel) \<leftarrow> ReadByte ipBuffer p;
     if confirmLevel > 0 \<and> strMsgSeq \<in> set (m_producerMsgSeqs s) then do {
       (_, pAckPack, iPackLen) \<leftarrow>
         GetMessagePack (new_ServerAckMessage iMsgSeq) (replicate MAX_SERVER_PACKAGE_LENGTH 0)
           (int MAX_SERVER_PACKAGE_LENGTH);
       (_, s) \<leftarrow> to_connect s pAckPack iPackLen;
       Some (SUCCESS, [], s) }
     else
       case map_of (m_mExchanges s) strExchangeName of
         None \<Rightarrow> Some (ERR_LOGIC_SERVER_PUBLISH_MESSAGE, RE_EXCHANGE_NOT_EXIST @ strExchangeName, s)
       | Some e \<Rightarrow> do {
           let (_, msgQueueList) = FindBindingQueue e strRoutingKey [];
           if msgQueueList = []
           then Some (ERR_LOGIC_SERVER_PUBLISH_MESSAGE, RE_FIT_QUEUE_NOT_EXIST @ strRoutingKey, s)
           else do {
             let p = p + n;
             let iLen = iLen - int n;
             strMsgBody \<leftarrow> (if iLen < 0 then None else mem_read ipBuffer p (nat iLen));
             s \<leftarrow> publish_loop strMsgBody iPriority bDurable msgQueueList s;
             s \<leftarrow> publish_ack s confirmLevel iCliIndex iMsgSeq strMsgSeq;
             Some (SUCCESS, [], s) } } }"

text \<open>\<^verbatim>\<open>SendMultiAck\<close> never advances its iterator: with an entry in the map it sends the same packet
  for ever.\<close>

partial_function (option) multi_ack_loop :: "i32 \<times> i32 \<Rightarrow> logic_server \<Rightarrow> logic_server option" where
  "multi_ack_loop itr s =
     Option.bind (GetMessagePack (ServerAckMessage (fst itr) CMD_SERVER_ACK_MESSAGE (snd itr))
        (replicate MAX_SERVER_PACKAGE_LENGTH 0) (int MAX_SERVER_PACKAGE_LENGTH))
      (\<lambda>(ret, pAckPack, iPackLen). Option.bind (to_connect s pAckPack iPackLen)
        (\<lambda>(ret, s). multi_ack_loop itr s))"

definition SendMultiAck :: "logic_server \<Rightarrow> logic_server option" where
  "SendMultiAck s = do {
     s \<leftarrow> (case m_producerLastMsgSeq s of [] \<Rightarrow> Some s | itr # rest \<Rightarrow> multi_ack_loop itr s);
     Some (s\<lparr>m_producerLastMsgSeq := []\<rparr>) }"

end
