(* ===== verification/Logic_Consume.thy ===== *)
theory Logic_Consume
  imports Logic_Server
begin

text \<open>
  The consumer side of \<^verbatim>\<open>LogicServer\<close>: pulling, subscribing, pushing, acknowledging and leaving;
  then the dispatcher \<^verbatim>\<open>ProcessRecvData\<close> and one round of \<^verbatim>\<open>Run\<close>.
\<close>

section \<open>Pulling and subscribing\<close>

text \<open>An uninitialised array of \<open>n\<close> bytes.\<close>

definition stack_bytes :: "logic_server \<Rightarrow> nat \<Rightarrow> bytes" where
  "stack_bytes s n = take n (env_stack s @ replicate n 0)"

definition OnRecvMessage :: "logic_server \<Rightarrow> bytes \<Rightarrow> nat \<Rightarrow> int \<Rightarrow> i32 \<Rightarrow> handled" where
  "OnRecvMessage s ipBuffer p0 iLen iCliIndex = do {
     let p = p0;
     (n, strQueueName) \<leftarrow> read_name ipBuffer p;
     let p = p + n;
     (n, confirmLevel) \<leftarrow> ReadByte ipBuffer p;
     case (case map_of (m_mSubcribeQueues s) strQueueName of
             Some a \<Rightarrow> Some a | None \<Rightarrow> map_of (m_mUnSubcribeQueues s) strQueueName) of
       None \<Rightarrow> Some (ERR_LOGIC_SERVER_RECV_MESSAGE, RE_QUEUE_NOT_EXIST @ strQueueName, s)
     | Some a \<Rightarrow> do {
         q \<leftarrow> m_queues s a;
         case PopFrontMsg q False of
           (None, q) \<Rightarrow> Some (ERR_LOGIC_SERVER_RECV_MESSAGE, RE_QUEUE_IS_EMPTY @ strQueueName, set_queue a q s)
         | (Some m, q) \<Rightarrow> do {
             let s = set_queue a q s;
             let m = m\<lparr>ssm_iIndex := iCliIndex\<rparr>;
             let (m, s) =
               (if confirmLevel > 0
                then (m\<lparr>ssm_iConfirmLevel := confirmLevel, ssm_iMsgSeq := m_iAckSeq s,
                        ssm_strQueueName := strQueueName\<rparr>, s\<lparr>m_iAckSeq := m_iAckSeq s + 1\<rparr>)
                else (m\<lparr>ssm_iMsgSeq := -1\<rparr>, s));
             (_, pBuffer, iPackLen) \<leftarrow>
               GetMessagePack (SeverStoreMessage m) (stack_bytes s MAX_CLINT_PACKAGE_LENGTH)
                 (int MAX_CLINT_PACKAGE_LENGTH);
             s \<leftarrow> (if confirmLevel > 0
                   then Some (s\<lparr>m_NeedAckMessageList :=
                                  m_NeedAckMessageList s @ [m\<lparr>ssm_tSaveTime := env_now s\<rparr>]\<rparr>)
                   else if ssm_bDurable m then do {
                     (_, s) \<leftarrow> send_consumed s CMD_CREATE_RECV strQueueName (ssm_iDurableIndex m);
                     Some s }
                   else Some s);
             s \<leftarrow> to_connect_wait s pBuffer iPackLen;
             Some (SUCCESS, [], s) } } }"

text \<open>A durable queue's consumers go to the persistence server.\<close>

definition send_subscribers :: "logic_server \<Rightarrow> message_queue \<Rightarrow> bool \<Rightarrow> (int \<times> logic_server) option" where
  "send_subscribers s q ibIsCreate =
     (if mq_bDurable q then do {
        (_, pBuff, iPackLen) \<leftarrow>
          SerializeSubcribeToString (env_raw s) q pack_buffer (int MAX_CLINT_PACKAGE_LENGTH) ibIsCreate;
        to_persis s pBuff iPackLen }
      else Some (SUCCESS, s))"

definition OnCreateSubscribe :: "logic_server \<Rightarrow> bytes \<Rightarrow> nat \<Rightarrow> int \<Rightarrow> i32 \<Rightarrow> handled" where
  "OnCreateSubscribe s ipBuffer p0 iLen iCliIndex = do {
     let p = p0;
     (n, strQueueName) \<leftarrow> read_name ipBuffer p;
     let p = p + n;
     (n, confirmLevel) \<leftarrow> ReadByte ipBuffer p;
     let bIsSub = \<not> has_key (m_mUnSubcribeQueues s) strQueueName;
     case (case map_of (m_mSubcribeQueues s) strQueueName of
             Some a \<Rightarrow> Some a | None \<Rightarrow> map_of (m_mUnSubcribeQueues s) strQueueName) of
       None \<Rightarrow> Some (ERR_LOGIC_SERVER_CREATE_SUBSCRIBE, RE_QUEUE_NOT_EXIST @ strQueueName, s)
     | Some a \<Rightarrow> do {
         q \<leftarrow> m_queues s a;
         let q = AddSubscribe q iCliIndex confirmLevel;
         let s = set_queue a q s;
         (ret, s) \<leftarrow> send_subscribers s q True;
         if ret \<noteq> SUCCESS
         then Some (ERR_LOGIC_SERVER_CREATE_SUBSCRIBE, RE_SUBSCRIBE_FAILED @ strQueueName,
                    set_queue a (CancelSubscribe q iCliIndex) s)
         else do {
           let s = (if \<not> bIsSub
                    then s\<lparr>m_mUnSubcribeQueues := AList.delete strQueueName (m_mUnSubcribeQueues s),
                           m_mSubcribeQueues := AList.update strQueueName a (m_mSubcribeQueues s)\<rparr>
                    else s);
           Some (SUCCESS, RE_SUBSCRIBE_SUCCEED @ strQueueName, s) } } }"

section \<open>Cancelling\<close>

text \<open>The walk over the exchanges when an auto-delete queue goes. The result tells whether a send for
  a durable exchange failed (which stops the walk here) and which entries are left.\<close>

fun unbind_notify ::
  "addr \<Rightarrow> (bytes \<times> exchange) list \<Rightarrow> logic_server \<Rightarrow>
   (bytes option \<times> (bytes \<times> exchange) list \<times> logic_server) option" where
  "unbind_notify a [] s = Some (None, [], s)"
| "unbind_notify a ((k, e) # rest) s =
     (if GetBindingSize e = 0 then do {
        (err, left, s) \<leftarrow> unbind_notify a rest s;
        Some (err, (k, e) # left, s) }
      else do {
        let e = DeleteBindingQueue e a;
        if GetBindingSize e = 0 \<and> ex_bAutoDel e then do {
          (ret, s) \<leftarrow> (if ex_bDurable e
                       then send_deleted s CMD_DELETE_EXCHANGE (ex_strExchangeName e)
                       else Some (SUCCESS, s));
          if ret \<noteq> SUCCESS then Some (Some (ex_strExchangeName e), (k, e) # rest, s)
          else unbind_notify a rest s }
        else do {
          (err, left, s) \<leftarrow> unbind_notify a rest s;
          Some (err, (k, e) # left, s) } })"

definition OnCancelSubscribe :: "logic_server \<Rightarrow> bytes \<Rightarrow> nat \<Rightarrow> int \<Rightarrow> i32 \<Rightarrow> handled" where
  "OnCancelSubscribe s ipBuffer p0 iLen iCliIndex = do {
     (n, strQueueName) \<leftarrow> read_name ipBuffer p0;
     if has_key (m_mUnSubcribeQueues s) strQueueName
     then Some (ERR_LOGIC_SERVER_CANCEL_SUBSCRIBE, RE_QUEUE_NOT_SUBSCRIBE @ strQueueName, s)
     else case map_of (m_mSubcribeQueues s) strQueueName of
       None \<Rightarrow> Some (ERR_LOGIC_SERVER_CANCEL_SUBSCRIBE, RE_QUEUE_NOT_EXIST @ strQueueName, s)
     | Some a \<Rightarrow> do {
         q \<leftarrow> m_queues s a;
         let iConfirmLevel = mq_iConfirmLevel q;
         let q = CancelSubscribe q iCliIndex;
         let s = set_queue a q s;
         (ret, s) \<leftarrow> send_subscribers s q False;
         if ret \<noteq> SUCCESS
         then Some (ERR_LOGIC_SERVER_CANCEL_SUBSCRIBE, RE_CANCEL_SUBSCRIBE_FAILED @ strQueueName,
                    set_queue a (AddSubscribe q iCliIndex iConfirmLevel) s)
         else do {
           let body = RE_CANCEL_SUBSCRIBE_SUCCEED @ strQueueName;
           let s = s\<lparr>m_mSubcribeQueues := AList.delete (mq_strQueueName q) (m_mSubcribeQueues s)\<rparr>;
           if mq_bAutoDel q \<and> \<not> IsSubscribe q then do {
             let s = set_queue a (ClearMessage q) s;
             (err, left, s) \<leftarrow> unbind_notify a (m_mExchanges s) s;
             let s = s\<lparr>m_mExchanges := left\<rparr>;
             case err of
               Some name \<Rightarrow> Some (ERR_LOGIC_SERVER_DELETE_EXCHANGE, RE_DELETE_EXCHANGE_FAILED @ name, s)
             | None \<Rightarrow> do {
                 (ret, s) \<leftarrow> (if mq_bDurable q
                              then send_deleted s CMD_DELETE_QUEUE strQueueName else Some (SUCCESS, s));
                 if ret \<noteq> SUCCESS
                 then Some (ERR_LOGIC_SERVER_DELETE_QUEUE, RE_DELETE_QUEUE_FAILED @ strQueueName, s)
                 else Some (SUCCESS, body, free_queue a s) } }
           else if \<not> IsSubscribe q
           then Some (SUCCESS, body,
                  s\<lparr>m_mUnSubcribeQueues := AList.update (mq_strQueueName q) a (m_mUnSubcribeQueues s)\<rparr>)
           else Some (SUCCESS, body, s) } } }"

section \<open>Acknowledgements\<close>

text \<open>\<^verbatim>\<open>confirmLevel==CONSUMER_AUTO_ACK||CONSUMER_SINGLE_ACK\<close>: the second operand is the constant 2, so
  the condition always holds.\<close>

definition single_ack_test :: "byte \<Rightarrow> bool" where
  "single_ack_test confirmLevel \<longleftrightarrow> confirmLevel = CONSUMER_AUTO_ACK \<or> CONSUMER_SINGLE_ACK \<noteq> 0"

definition ack_notify :: "logic_server \<Rightarrow> sever_store_message \<Rightarrow> logic_server option" where
  "ack_notify s m =
     (if ssm_bDurable m then do {
        (_, s) \<leftarrow> send_consumed s CMD_CLIENT_ACK_MESSAGE (ssm_strQueueName m) (ssm_iDurableIndex m);
        Some s }
      else Some s)"

fun single_ack_loop ::
  "i32 \<Rightarrow> sever_store_message list \<Rightarrow> logic_server \<Rightarrow> (sever_store_message list \<times> logic_server) option" where
  "single_ack_loop iAckSeq [] s = Some ([], s)"
| "single_ack_loop iAckSeq (m # ms) s =
     (if ssm_iMsgSeq m = iAckSeq then do {
        s \<leftarrow> ack_notify s m;
        Some (ms, s) }
      else do {
        (left, s) \<leftarrow> single_ack_loop iAckSeq ms s;
        Some (m # left, s) })"

fun multi_ack_walk ::
  "i32 \<Rightarrow> i32 \<Rightarrow> sever_store_message list \<Rightarrow> logic_server \<Rightarrow> (sever_store_message list \<times> logic_server) option" where
  "multi_ack_walk iCliIndex iAckSeq [] s = Some ([], s)"
| "multi_ack_walk iCliIndex iAckSeq (m # ms) s =
     (if ssm_iIndex m \<noteq> iCliIndex then do {
        (left, s) \<leftarrow> multi_ack_walk iCliIndex iAckSeq ms s;
        Some (m # left, s) }
      else if sint (ssm_iMsgSeq m) \<le> sint iAckSeq then do {
        s \<leftarrow> ack_notify s m;
        multi_ack_walk iCliIndex iAckSeq ms s }
      else Some (m # ms, s))"

definition OnClientAck :: "logic_server \<Rightarrow> bytes \<Rightarrow> nat \<Rightarrow> int \<Rightarrow> i32 \<Rightarrow> handled" where
  "OnClientAck s ipBuffer p0 iLen iCliIndex = do {
     let p = p0;
     (n, confirmLevel) \<leftarrow> ReadByte ipBuffer p;
     let p = p + n;
     (n, iAckSeq) \<leftarrow> ReadInt ipBuffer p;
     (left, s) \<leftarrow>
       (if single_ack_test confirmLevel then single_ack_loop iAckSeq (m_NeedAckMessageList s) s
        else if confirmLevel = CONSUMER_MUTIL_ACK
        then multi_ack_walk iCliIndex iAckSeq (m_NeedAckMessageList s) s
        else Some (m_NeedAckMessageList s, s));
     Some (SUCCESS, [], s\<lparr>m_NeedAckMessageList := left\<rparr>) }"

section \<open>A client leaves\<close>

text \<open>\<^verbatim>\<open>strncmp(a,b,a.size())==0\<close> on strings without NUL: the first is a prefix of the second.\<close>

fun forget_seqs :: "bytes \<Rightarrow> bytes list \<Rightarrow> bytes list" where
  "forget_seqs c [] = []"
| "forget_seqs c (x # xs) = (if prefix c x then forget_seqs c xs else x # forget_seqs c xs)"

text \<open>Unlike \<open>unbind_notify\<close>, this walk ignores failing sends.\<close>

fun unbind_exit ::
  "addr \<Rightarrow> (bytes \<times> exchange) list \<Rightarrow> logic_server \<Rightarrow> ((bytes \<times> exchange) list \<times> logic_server) option" where
  "unbind_exit a [] s = Some ([], s)"
| "unbind_exit a ((k, e) # rest) s =
     (if GetBindingSize e = 0 then do {
        (left, s) \<leftarrow> unbind_exit a rest s;
        Some ((k, e) # left, s) }
      else do {
        let e = DeleteBindingQueue e a;
        if GetBindingSize e = 0 \<and> ex_bAutoDel e then do {
          (_, s) \<leftarrow> (if ex_bDurable e
                     then send_deleted s CMD_DELETE_EXCHANGE (ex_strExchangeName e)
                     else Some (SUCCESS, s));
          unbind_exit a rest s }
        else do {
          (left, s) \<leftarrow> unbind_exit a rest s;
          Some ((k, e) # left, s) } })"

fun exit_queues :: "i32 \<Rightarrow> (bytes \<times> addr) list \<Rightarrow> logic_server \<Rightarrow> logic_server option" where
  "exit_queues c [] s = Some s"
| "exit_queues c ((k, a) # rest) s = do {
     q \<leftarrow> m_queues s a;
     let iOriNum = length (m_vSubscribeConsumers q);
     let q = CancelSubscribe q c;
     let s = set_queue a q s;
     let iNewNum = length (m_vSubscribeConsumers q);
     if iOriNum > iNewNum then do {
       (_, s) \<leftarrow> send_subscribers s q False;
       if iNewNum = 0 then do {
         let s = s\<lparr>m_mSubcribeQueues := AList.delete k (m_mSubcribeQueues s)\<rparr>;
         if mq_bAutoDel q then do {
           let s = set_queue a (ClearMessage q) s;
           (left, s) \<leftarrow> unbind_exit a (m_mExchanges s) s;
           let s = s\<lparr>m_mExchanges := left\<rparr>;
           s \<leftarrow> (if mq_bDurable q then do {
                   (_, s) \<leftarrow> send_deleted s CMD_DELETE_QUEUE (mq_strQueueName q);
                   Some s }
                 else Some s);
           exit_queues c rest (free_queue a s) }
         else
           exit_queues c rest
             (s\<lparr>m_mUnSubcribeQueues := AList.update (mq_strQueueName q) a (m_mUnSubcribeQueues s)\<rparr>) }
       else exit_queues c rest s }
     else exit_queues c rest s }"

fun requeue_loop ::
  "i32 \<Rightarrow> sever_store_message list \<Rightarrow> logic_server \<Rightarrow> (sever_store_message list \<times> logic_server) option" where
  "requeue_loop c [] s = Some ([], s)"
| "requeue_loop c (m # ms) s =
     (if ssm_iIndex m = c then
        (case (case map_of (m_mSubcribeQueues s) (ssm_strQueueName m) of
                 Some a \<Rightarrow> Some a | None \<Rightarrow> map_of (m_mUnSubcribeQueues s) (ssm_strQueueName m)) of
           None \<Rightarrow> requeue_loop c ms s
         | Some a \<Rightarrow> do {
             q \<leftarrow> m_queues s a;
             requeue_loop c ms (set_queue a (AddMessageFront q m) s) })
      else do {
        (left, s) \<leftarrow> requeue_loop c ms s;
        Some (m # left, s) })"

definition OnClientExit :: "logic_server \<Rightarrow> i32 \<Rightarrow> handled" where
  "OnClientExit s iClientIndex = do {
     let s = s\<lparr>m_producerMsgSeqs := forget_seqs (to_string iClientIndex) (m_producerMsgSeqs s)\<rparr>;
     s \<leftarrow> exit_queues iClientIndex (m_mSubcribeQueues s) s;
     (left, s) \<leftarrow> requeue_loop iClientIndex (m_NeedAckMessageList s) s;
     Some (SUCCESS, [], s\<lparr>m_NeedAckMessageList := left\<rparr>) }"

section \<open>Pushing\<close>

text \<open>One message to one subscriber.\<close>

definition push_one :: "logic_server \<Rightarrow> addr \<Rightarrow> message_queue \<Rightarrow> sever_store_message \<Rightarrow> logic_server option" where
  "push_one s a q m = do {
     let m = m\<lparr>ssm_iCmdId := CMD_SERVER_PUSH_MESSAGE\<rparr>;
     let (m, s) =
       (if mq_iConfirmLevel q > 0
        then (let m = m\<lparr>ssm_iConfirmLevel := mq_iConfirmLevel q, ssm_iMsgSeq := m_iAckSeq s,
                        ssm_strQueueName := mq_strQueueName q\<rparr>
              in (m, s\<lparr>m_iAckSeq := m_iAckSeq s + 1,
                       m_NeedAckMessageList := m_NeedAckMessageList s @ [m]\<rparr>))
        else (m\<lparr>ssm_iMsgSeq := -1\<rparr>, s));
     (_, pBuffer, iLen) \<leftarrow>
       GetMessagePack (SeverStoreMessage m) (replicate MAX_SERVER_PACKAGE_LENGTH 0)
         (int MAX_SERVER_PACKAGE_LENGTH);
     s \<leftarrow> to_connect_wait s pBuffer iLen;
     let s = s\<lparr>m_iSendCount := m_iSendCount s + 1\<rparr>;
     if mq_iConfirmLevel q = 0 \<and> ssm_bDurable m then do {
       (_, s) \<leftarrow> send_consumed s CMD_SERVER_PUSH_MESSAGE (mq_strQueueName q) (ssm_iDurableIndex m);
       Some s }
     else Some s }"

text \<open>\<^verbatim>\<open>while(!pMsgQueue->IsEmpty())\<close>; each round takes a message out, so the number of stored
  messages is fuel enough.\<close>

fun push_msgs :: "nat \<Rightarrow> addr \<Rightarrow> logic_server \<Rightarrow> logic_server option" where
  "push_msgs 0 a s = Some s"
| "push_msgs (Suc n) a s = do {
     q \<leftarrow> m_queues s a;
     if IsEmpty q then Some s
     else case PopFrontMsg q True of
       (None, q) \<Rightarrow> Some (set_queue a q s)
     | (Some m, q) \<Rightarrow> do {
         s \<leftarrow> push_one (set_queue a q s) a q m;
         push_msgs n a s } }"

text \<open>The loop over the subscribed queues. \<open>itr\<close> has already moved on when a queue without
  subscribers is found, and \<^verbatim>\<open>erase(itr++)\<close> then erases the entry behind it; at the end of the map that
  is undefined.\<close>

fun push_loop :: "(bytes \<times> addr) list \<Rightarrow> logic_server \<Rightarrow> logic_server option" where
  "push_loop [] s = Some s"
| "push_loop ((k, a) # itr) s = do {
     q \<leftarrow> m_queues s a;
     if \<not> IsSubscribe q then
       (case itr of
          [] \<Rightarrow> None
        | (k2, a2) # rest \<Rightarrow>
            push_loop rest
              (s\<lparr>m_mSubcribeQueues := AList.delete k2 (m_mSubcribeQueues s),
                 m_mUnSubcribeQueues := AList.update (mq_strQueueName q) a (m_mUnSubcribeQueues s)\<rparr>))
     else do {
       s \<leftarrow> push_msgs (length (m_msgPriQueue q) + length (m_messagesList q)) a s;
       push_loop itr s } }"

definition PushMessage :: "logic_server \<Rightarrow> logic_server option" where
  "PushMessage s = push_loop (m_mSubcribeQueues s) s"

section \<open>Resending\<close>

text \<open>\<^verbatim>\<open>iWaitTime\<close> is the waiting time in milliseconds, converted to \<^verbatim>\<open>int\<close>. The loop stops at the
  first message that is not overdue; a resent one goes to the end with the current time.\<close>

definition wait_time :: "int \<times> int \<Rightarrow> int \<times> int \<Rightarrow> int" where
  "wait_time now saved =
     cint (((fst now - fst saved) * 1000000 + (snd now - snd saved)) sdiv 1000)"

fun resend_loop :: "nat \<Rightarrow> logic_server \<Rightarrow> logic_server option" where
  "resend_loop 0 s = None"
| "resend_loop (Suc n) s =
     (case m_NeedAckMessageList s of
        [] \<Rightarrow> Some s
      | m # ms \<Rightarrow>
          if wait_time (env_now s) (ssm_tSaveTime m) \<ge> 3 * 1000 * 1000 then do {
            (_, pBuffer, iLen) \<leftarrow> GetMessagePack (SeverStoreMessage m) pack_buffer (int MAX_CLINT_PACKAGE_LENGTH);
            let s = s\<lparr>m_NeedAckMessageList := ms @ [m\<lparr>ssm_tSaveTime := env_now s\<rparr>]\<rparr>;
            (_, s) \<leftarrow> to_connect s pBuffer iLen;
            resend_loop n s }
          else Some s)"

definition ReSendMsg :: "logic_server \<Rightarrow> logic_server option" where
  "ReSendMsg s = resend_loop (length (m_NeedAckMessageList s) + 1) s"

section \<open>Dispatch\<close>

definition ProcessRecvData ::
  "logic_server \<Rightarrow> bytes \<Rightarrow> int \<Rightarrow> i32 \<Rightarrow> (int \<times> i32 \<times> bytes \<times> logic_server) option" where
  "ProcessRecvData s ipBuffer iLen opClientIndex = do {
     (n, m_iPackLen) \<leftarrow> ReadShort ipBuffer 0;
     if uint m_iPackLen > iLen then Some (ERR_LOGIC_SERVER_PROCESS, opClientIndex, [], s)
     else do {
       let p = n;
       (n, m_iClientIndex) \<leftarrow> ReadInt ipBuffer p;
       let p = p + n;
       (n, m_iCmdId) \<leftarrow> ReadShort ipBuffer p;
       let p = p + n;
       let len = iLen - 8;
       (ret, strMsgBody, s) \<leftarrow>
         (if m_iCmdId = CMD_CREATE_EXCNANGE then OnCreateExchange s ipBuffer p len
          else if m_iCmdId = CMD_CREATE_QUEUE then OnCreateQueue s ipBuffer p len
          else if m_iCmdId = CMD_CREATE_BINDING then OnCreateBinding s ipBuffer p len
          else if m_iCmdId = CMD_CREATE_PUBLISH then OnPublishMessage s ipBuffer p len m_iClientIndex
          else if m_iCmdId = CMD_CREATE_RECV then OnRecvMessage s ipBuffer p len m_iClientIndex
          else if m_iCmdId = CMD_CREATE_SUBCRIBE then OnCreateSubscribe s ipBuffer p len m_iClientIndex
          else if m_iCmdId = CMD_DELETE_EXCHANGE then OnDeleteExchange s ipBuffer p len
          else if m_iCmdId = CMD_DELETE_QUEUE then OnDeleteQueue s ipBuffer p len
          else if m_iCmdId = CMD_CANCEL_SUBCRIBE then OnCancelSubscribe s ipBuffer p len m_iClientIndex
          else if m_iCmdId = CMD_CLIENT_ACK_MESSAGE then OnClientAck s ipBuffer p len m_iClientIndex
          else if m_iCmdId = CMD_CLIENT_EXIT then OnClientExit s m_iClientIndex
          else Some (ERR_LOGIC_SERVER_PROCESS, [], s));
       Some (ret, m_iClientIndex, strMsgBody, s) } }"

section \<open>The main loop\<close>

text \<open>The reply to a request, sent when the handler left a text.\<close>

definition send_reply :: "logic_server \<Rightarrow> int \<Rightarrow> i32 \<Rightarrow> bytes \<Rightarrow> logic_server option" where
  "send_reply s ret iClientIndex strMsgBody =
     (if strMsgBody = [] then Some s
      else do {
        let iLen = length strMsgBody + 8 + 1 + 1;
        (_, pBuffer, len) \<leftarrow>
          GetMessagePack (ActReplyMessage iClientIndex CMD_SERVER_REPLY_MESSAGE (ret = SUCCESS) strMsgBody)
            (replicate iLen 0) (int iLen);
        pBuffer \<leftarrow> (if len < 1 \<or> len > int (length pBuffer) then None
                    else mem_write pBuffer (nat (len - 1)) [0]);
        (_, s) \<leftarrow> to_connect s pBuffer len;
        Some s })"

text \<open>One round of \<^verbatim>\<open>while(iDateRecvCount<800)\<close>, with the packet buffer that is reused between rounds:
  \<open>rounds\<close> is the number of rounds left. A failing \<^verbatim>\<open>Dequeue\<close> that does not consume is retried without
  counting; \<open>tries\<close> bounds the retries.\<close>

fun recv_loop :: "nat \<Rightarrow> nat \<Rightarrow> bytes \<Rightarrow> logic_server \<Rightarrow> (bytes \<times> logic_server) option" where
  "recv_loop tries 0 pBuff s = Some (pBuff, s)"
| "recv_loop 0 (Suc rounds) pBuff s = None"
| "recv_loop (Suc tries) (Suc rounds) pBuff s = do {
     (ret, pBuff, iLen, q) \<leftarrow> DequeueInto (m_pQueueFromConnect s) pBuff (int MAX_CLINT_PACKAGE_LENGTH);
     let s = s\<lparr>m_pQueueFromConnect := q\<rparr>;
     if ret = ERR_SHM_QUEUE_EMPTY then Some (pBuff, s)
     else if ret \<noteq> SUCCESS then recv_loop tries (Suc rounds) pBuff s
     else do {
       let s = s\<lparr>m_iRecvCount := m_iRecvCount s + 1\<rparr>;
       if iLen < 8 then recv_loop tries rounds pBuff s
       else do {
         (ret, iClientIndex, strMsgBody, s) \<leftarrow> ProcessRecvData s pBuff iLen (-1);
         s \<leftarrow> send_reply s ret iClientIndex strMsgBody;
         recv_loop tries rounds pBuff s } } }"

definition Run_round :: "nat \<Rightarrow> logic_server \<Rightarrow> logic_server option" where
  "Run_round tries s = do {
     s \<leftarrow> (if m_mSubcribeQueues s \<noteq> [] then PushMessage s else Some s);
     (pBuff, s) \<leftarrow> recv_loop tries 800 (replicate MAX_CLINT_PACKAGE_LENGTH 0) s;
     SendMultiAck s }"

end
