(* ===== verification/Logic_Inv.thy ===== *)
theory Logic_Inv
  imports Logic_Consume
begin

text \<open>
  The invariant of the logic server: queue names are unique over the two maps and agree with
  the queues they lead to, every exchange is well formed and all its bindings lead to live
  queues, every queue satisfies its own invariant, and the shared-memory queues are intact.
  The lemmas show that every request handler preserves it.
\<close>

section \<open>The invariant\<close>

definition core_inv ::
  "(addr \<Rightarrow> message_queue option) \<Rightarrow> addr \<Rightarrow> (bytes \<times> addr) list \<Rightarrow> (bytes \<times> addr) list \<Rightarrow>
   (bytes \<times> exchange) list \<Rightarrow> bool" where
  "core_inv h nx un su ex \<longleftrightarrow>
     distinct (map fst un) \<and> distinct (map fst su) \<and> distinct (map fst ex) \<and>
     (\<forall>n a. map_of un n = Some a \<longrightarrow> map_of su n = None \<and>
        (\<exists>q. h a = Some q \<and> mq_strQueueName q = n \<and> m_vSubscribeConsumers q = [])) \<and>
     (\<forall>n a. map_of su n = Some a \<longrightarrow> (\<exists>q. h a = Some q \<and> mq_strQueueName q = n)) \<and>
     (\<forall>n e. map_of ex n = Some e \<longrightarrow> ex_strExchangeName e = n \<and> length n < MAX_NAME_LENGTH \<and>
        exchange_inv e \<and> bound_queues e \<subseteq> dom h) \<and>
     (\<forall>a q. h a = Some q \<longrightarrow> queue_inv q \<and> length (mq_strQueueName q) < MAX_NAME_LENGTH \<and> a < nx)"

definition logic_inv :: "logic_server \<Rightarrow> bool" where
  "logic_inv s \<longleftrightarrow>
     core_inv (m_queues s) (m_iNextAddr s) (m_mUnSubcribeQueues s) (m_mSubcribeQueues s)
       (m_mExchanges s) \<and>
     shm_ok (m_pQueueToConnect s) \<and> shm_ok (m_pQueueToPersis s)"

lemma core_invD:
  assumes "core_inv h nx un su ex"
  shows "distinct (map fst un)" "distinct (map fst su)" "distinct (map fst ex)"
    "map_of un n = Some a \<Longrightarrow> map_of su n = None"
    "map_of un n = Some a \<Longrightarrow> \<exists>q. h a = Some q \<and> mq_strQueueName q = n \<and> m_vSubscribeConsumers q = []"
    "map_of su n = Some a \<Longrightarrow> \<exists>q. h a = Some q \<and> mq_strQueueName q = n"
    "map_of ex n = Some e \<Longrightarrow> ex_strExchangeName e = n \<and> length n < MAX_NAME_LENGTH \<and>
        exchange_inv e \<and> bound_queues e \<subseteq> dom h"
    "h a = Some q \<Longrightarrow> queue_inv q \<and> length (mq_strQueueName q) < MAX_NAME_LENGTH \<and> a < nx"
  using assms unfolding core_inv_def by blast+

lemma core_invI:
  assumes "distinct (map fst un)" "distinct (map fst su)" "distinct (map fst ex)"
    and "\<And>n a. map_of un n = Some a \<Longrightarrow> map_of su n = None"
    and "\<And>n a. map_of un n = Some a \<Longrightarrow>
      \<exists>q. h a = Some q \<and> mq_strQueueName q = n \<and> m_vSubscribeConsumers q = []"
    and "\<And>n a. map_of su n = Some a \<Longrightarrow> \<exists>q. h a = Some q \<and> mq_strQueueName q = n"
    and "\<And>n e. map_of ex n = Some e \<Longrightarrow> ex_strExchangeName e = n \<and> length n < MAX_NAME_LENGTH \<and>
        exchange_inv e \<and> bound_queues e \<subseteq> dom h"
    and "\<And>a q. h a = Some q \<Longrightarrow> queue_inv q \<and> length (mq_strQueueName q) < MAX_NAME_LENGTH \<and> a < nx"
  shows "core_inv h nx un su ex"
  using assms unfolding core_inv_def by simp

section \<open>Changes that keep it\<close>

lemma core_set_queue:
  assumes inv: "core_inv h nx un su ex" and q: "h a = Some q" "mq_strQueueName q' = mq_strQueueName q"
    and q': "queue_inv q'" "a \<in> ran (map_of un) \<Longrightarrow> m_vSubscribeConsumers q' = []"
  shows "core_inv (h(a \<mapsto> q')) nx un su ex"
proof (rule core_invI)
  fix n b assume b: "map_of un n = Some b"
  then show "\<exists>q2. (h(a \<mapsto> q')) b = Some q2 \<and> mq_strQueueName q2 = n \<and> m_vSubscribeConsumers q2 = []"
    using core_invD(5) [OF inv b] q q'(2) ranI [of "map_of un", OF b] by (cases "b = a") auto
next
  fix n b assume b: "map_of su n = Some b"
  then show "\<exists>q2. (h(a \<mapsto> q')) b = Some q2 \<and> mq_strQueueName q2 = n"
    using core_invD(6) [OF inv b] q by (cases "b = a") auto
next
  fix n e assume "map_of ex n = Some e"
  from core_invD(7) [OF inv this] show "ex_strExchangeName e = n \<and> length n < MAX_NAME_LENGTH \<and>
      exchange_inv e \<and> bound_queues e \<subseteq> dom (h(a \<mapsto> q'))" by auto
next
  fix b q2 assume "(h(a \<mapsto> q')) b = Some q2"
  then show "queue_inv q2 \<and> length (mq_strQueueName q2) < MAX_NAME_LENGTH \<and> b < nx"
    using core_invD(8) [OF inv, of b q2] core_invD(8) [OF inv q(1)] q(2) q'(1)
    by (cases "b = a") simp_all
qed (rule core_invD(1-3) [OF inv] distinct_fst_update distinct_fst_delete | erule core_invD(4-8) [OF inv])+

lemma core_new_queue:
  assumes inv: "core_inv h nx un su ex" and new: "map_of un n = None" "map_of su n = None"
    and q: "mq_strQueueName q = n" "queue_inv q" "m_vSubscribeConsumers q = []"
    and len: "length n < MAX_NAME_LENGTH"
  shows "core_inv (h(nx \<mapsto> q)) (nx + 1) (AList.update n nx un) su ex"
proof (rule core_invI)
  have nx: "h nx = None" using core_invD(8) [OF inv, of nx] by (cases "h nx") auto
  { fix m b assume b: "map_of (AList.update n nx un) m = Some b"
    then show "map_of su m = None" using core_invD(4) [OF inv, of m b] new by (auto split: if_splits)
    show "\<exists>q2. (h(nx \<mapsto> q)) b = Some q2 \<and> mq_strQueueName q2 = m \<and> m_vSubscribeConsumers q2 = []"
      using b core_invD(5) [OF inv, of m b] q nx by (cases "m = n") auto }
  { fix m b assume "map_of su m = Some b"
    from core_invD(6) [OF inv this] nx show "\<exists>q2. (h(nx \<mapsto> q)) b = Some q2 \<and> mq_strQueueName q2 = m"
      by auto }
  { fix m e assume "map_of ex m = Some e"
    from core_invD(7) [OF inv this] show "ex_strExchangeName e = m \<and> length m < MAX_NAME_LENGTH \<and>
        exchange_inv e \<and> bound_queues e \<subseteq> dom (h(nx \<mapsto> q))" by auto }
  { fix b q2 assume "(h(nx \<mapsto> q)) b = Some q2"
    then show "queue_inv q2 \<and> length (mq_strQueueName q2) < MAX_NAME_LENGTH \<and> b < nx + 1"
      using core_invD(8) [OF inv, of b q2] q len by (cases "b = nx") auto }
qed (rule core_invD(1-3) [OF inv] distinct_fst_update distinct_fst_delete | erule core_invD(4-8) [OF inv])+

lemma core_set_exchange:
  assumes inv: "core_inv h nx un su ex"
    and e: "ex_strExchangeName e = n" "length n < MAX_NAME_LENGTH" "exchange_inv e" "bound_queues e \<subseteq> dom h"
  shows "core_inv h nx un su (AList.update n e ex)"
proof (rule core_invI)
  fix m e2 assume "map_of (AList.update n e ex) m = Some e2"
  then show "ex_strExchangeName e2 = m \<and> length m < MAX_NAME_LENGTH \<and> exchange_inv e2 \<and>
      bound_queues e2 \<subseteq> dom h"
    using e core_invD(7) [OF inv, of m e2] by (cases "m = n") auto
qed (rule core_invD(1-3) [OF inv] distinct_fst_update distinct_fst_delete | erule core_invD(4-8) [OF inv])+

lemma core_delete_exchange:
  assumes inv: "core_inv h nx un su ex"
  shows "core_inv h nx un su (AList.delete n ex)"
proof (rule core_invI)
  fix m e2 assume "map_of (AList.delete n ex) m = Some e2"
  then have "map_of ex m = Some e2" by (auto split: if_splits)
  from core_invD(7) [OF inv this] show "ex_strExchangeName e2 = m \<and> length m < MAX_NAME_LENGTH \<and>
      exchange_inv e2 \<and> bound_queues e2 \<subseteq> dom h" .
qed (rule core_invD(1-3) [OF inv] distinct_fst_update distinct_fst_delete | erule core_invD(4-8) [OF inv])+

lemma map_of_delete_Some: "map_of (AList.delete n xs) m = Some b \<Longrightarrow> map_of xs m = Some b"
  by (auto split: if_splits)

lemma core_delete_un:
  assumes inv: "core_inv h nx un su ex"
  shows "core_inv h nx (AList.delete n un) su ex"
  by (rule core_invI)
    (rule core_invD(1-3) [OF inv] distinct_fst_delete | erule core_invD(6-8) [OF inv] |
     (drule map_of_delete_Some, erule core_invD(4,5) [OF inv]))+

lemma core_delete_su:
  assumes inv: "core_inv h nx un su ex"
  shows "core_inv h nx un (AList.delete n su) ex"
proof (rule core_invI)
  fix m b assume "map_of un m = Some b"
  from core_invD(4) [OF inv this] show "map_of (AList.delete n su) m = None" by simp
qed (rule core_invD(1-3) [OF inv] distinct_fst_delete | erule core_invD(4-8) [OF inv] |
     (drule map_of_delete_Some, erule core_invD(6) [OF inv]))+

text \<open>From the unsubscribed to the subscribed map, and back once nobody is left.\<close>

lemma core_move_sub:
  assumes inv: "core_inv h nx un su ex" and q: "h a = Some q" "mq_strQueueName q = n"
  shows "core_inv h nx (AList.delete n un) (AList.update n a su) ex"
proof (rule core_invI)
  fix m b assume b: "map_of (AList.delete n un) m = Some b"
  then have "m \<noteq> n" "map_of un m = Some b" by (auto split: if_splits)
  with core_invD(4,5) [OF inv this(2)] show "map_of (AList.update n a su) m = None"
    "\<exists>q. h b = Some q \<and> mq_strQueueName q = m \<and> m_vSubscribeConsumers q = []" by simp_all
next
  fix m b assume "map_of (AList.update n a su) m = Some b"
  then show "\<exists>q. h b = Some q \<and> mq_strQueueName q = m"
    using core_invD(6) [OF inv, of m b] q by (cases "m = n") auto
qed (rule core_invD(1-3) [OF inv] distinct_fst_update distinct_fst_delete | erule core_invD(4-8) [OF inv])+

lemma core_move_unsub:
  assumes inv: "core_inv h nx un su ex" and su: "map_of su n = None"
    and q: "h a = Some q" "mq_strQueueName q = n" "m_vSubscribeConsumers q = []"
  shows "core_inv h nx (AList.update n a un) su ex"
proof (rule core_invI)
  fix m b assume b: "map_of (AList.update n a un) m = Some b"
  show "map_of su m = None"
    using b core_invD(4) [OF inv, of m b] su by (cases "m = n") auto
  show "\<exists>q. h b = Some q \<and> mq_strQueueName q = m \<and> m_vSubscribeConsumers q = []"
    using b core_invD(5) [OF inv, of m b] q by (cases "m = n") auto
qed (rule core_invD(1-3) [OF inv] distinct_fst_update distinct_fst_delete | erule core_invD(4-8) [OF inv])+

text \<open>Deleting a queue that no name leads to, after its bindings are gone.\<close>

lemma core_free_queue:
  assumes inv: "core_inv h nx un su ex"
    and un: "a \<notin> ran (map_of un)" and su: "a \<notin> ran (map_of su)"
    and ex: "\<And>n e. map_of ex n = Some e \<Longrightarrow> a \<notin> bound_queues e"
  shows "core_inv (h(a := None)) nx un su ex"
proof (rule core_invI)
  fix m b assume b: "map_of un m = Some b"
  then have "b \<noteq> a" using un by (auto simp: ran_def)
  then show "\<exists>q. (h(a := None)) b = Some q \<and> mq_strQueueName q = m \<and> m_vSubscribeConsumers q = []"
    using core_invD(5) [OF inv b] by auto
next
  fix m b assume b: "map_of su m = Some b"
  then have "b \<noteq> a" using su by (auto simp: ran_def)
  then show "\<exists>q. (h(a := None)) b = Some q \<and> mq_strQueueName q = m"
    using core_invD(6) [OF inv b] by auto
next
  fix n e assume e: "map_of ex n = Some e"
  from core_invD(7) [OF inv e] ex [OF e] show "ex_strExchangeName e = n \<and> length n < MAX_NAME_LENGTH \<and>
      exchange_inv e \<and> bound_queues e \<subseteq> dom (h(a := None))" by auto
next
  fix b q assume "(h(a := None)) b = Some q"
  then have "h b = Some q" by (auto split: if_splits)
  from core_invD(8) [OF inv this]
  show "queue_inv q \<and> length (mq_strQueueName q) < MAX_NAME_LENGTH \<and> b < nx" .
qed (rule core_invD(1-3) [OF inv] distinct_fst_update distinct_fst_delete | erule core_invD(4-8) [OF inv])+

lemma name_owner:
  assumes inv: "core_inv h nx un su ex" and q: "h a = Some q" "mq_strQueueName q = n"
    and "map_of un n = None" "map_of su n = None"
  shows "a \<notin> ran (map_of un)" "a \<notin> ran (map_of su)"
  using core_invD(5,6) [OF inv] assms(2-) by (fastforce simp: ran_def)+

section \<open>Sending keeps it\<close>

text \<open>\<open>sent s s'\<close>: the states differ in the outgoing queues only, and those are still intact.\<close>

definition sent :: "logic_server \<Rightarrow> logic_server \<Rightarrow> bool" where
  "sent s s' \<longleftrightarrow>
     s' = s\<lparr>m_pQueueToConnect := m_pQueueToConnect s', m_pQueueToPersis := m_pQueueToPersis s'\<rparr> \<and>
     (shm_ok (m_pQueueToConnect s) \<longrightarrow> shm_ok (m_pQueueToConnect s')) \<and>
     (shm_ok (m_pQueueToPersis s) \<longrightarrow> shm_ok (m_pQueueToPersis s'))"

lemma sent_refl [simp]: "sent s s"
  by (simp add: sent_def)

lemma sent_fields:
  assumes "sent s s'"
  shows "m_queues s' = m_queues s" "m_iNextAddr s' = m_iNextAddr s"
    "m_mUnSubcribeQueues s' = m_mUnSubcribeQueues s" "m_mSubcribeQueues s' = m_mSubcribeQueues s"
    "m_mExchanges s' = m_mExchanges s" "m_NeedAckMessageList s' = m_NeedAckMessageList s"
    "m_iAckSeq s' = m_iAckSeq s" "m_producerMsgSeqs s' = m_producerMsgSeqs s"
    "m_producerLastMsgSeq s' = m_producerLastMsgSeq s" "env_raw s' = env_raw s" "env_now s' = env_now s"
proof -
  have s': "s' = s\<lparr>m_pQueueToConnect := m_pQueueToConnect s', m_pQueueToPersis := m_pQueueToPersis s'\<rparr>"
    using assms by (simp add: sent_def)
  show "m_queues s' = m_queues s" "m_iNextAddr s' = m_iNextAddr s"
    "m_mUnSubcribeQueues s' = m_mUnSubcribeQueues s" "m_mSubcribeQueues s' = m_mSubcribeQueues s"
    "m_mExchanges s' = m_mExchanges s" "m_NeedAckMessageList s' = m_NeedAckMessageList s"
    "m_iAckSeq s' = m_iAckSeq s" "m_producerMsgSeqs s' = m_producerMsgSeqs s"
    "m_producerLastMsgSeq s' = m_producerLastMsgSeq s" "env_raw s' = env_raw s" "env_now s' = env_now s"
    by (subst s', simp)+
qed

lemma sent_inv: "sent s s' \<Longrightarrow> logic_inv s \<Longrightarrow> logic_inv s'"
  by (simp add: logic_inv_def sent_fields) (simp add: sent_def)

lemma sent_trans: "sent s s1 \<Longrightarrow> sent s1 s2 \<Longrightarrow> sent s s2"
  unfolding sent_def by (cases s; cases s1; cases s2) simp

lemma to_persis_sent: "to_persis s b n = Some (r, s') \<Longrightarrow> 0 \<le> n \<Longrightarrow> n < 2 ^ 30 \<Longrightarrow> sent s s'"
  by (auto simp: to_persis_def sent_def bind_eq_Some_conv intro: Enqueue_shm_ok)

lemma to_connect_sent: "to_connect s b n = Some (r, s') \<Longrightarrow> 0 \<le> n \<Longrightarrow> n < 2 ^ 30 \<Longrightarrow> sent s s'"
  by (auto simp: to_connect_def sent_def bind_eq_Some_conv intro: Enqueue_shm_ok)

lemma to_connect_wait_sent: "to_connect_wait s b n = Some s' \<Longrightarrow> 0 \<le> n \<Longrightarrow> n < 2 ^ 30 \<Longrightarrow> sent s s'"
  by (auto simp: to_connect_wait_def bind_eq_Some_conv split: if_splits intro: to_connect_sent)

lemma uint_u16_bounds: "0 \<le> uint (w :: u16)" "uint (w :: u16) < 2 ^ 30"
  using uint_lt2p [of w] by simp_all

lemma send_sent:
  "send_repacked s c b p n = Some (r, s') \<Longrightarrow> sent s s'"
  "send_consumed s c q i = Some (r, s') \<Longrightarrow> sent s s'"
  "send_deleted s c q = Some (r, s') \<Longrightarrow> sent s s'"
  by (auto simp: send_repacked_def send_consumed_def send_deleted_def Let_def bind_eq_Some_conv
      intro!: to_persis_sent uint_u16_bounds)

text \<open>The lengths that packers report.\<close>

lemma SerializeSub_len:
  "SerializeSubcribeToString raw q b len c = Some (r, b', len') \<Longrightarrow> 0 \<le> len \<Longrightarrow> len < 2 ^ 30 \<Longrightarrow>
   0 \<le> len' \<and> len' < 2 ^ 30"
  using uint_u16_bounds
  by (auto simp: SerializeSubcribeToString_def Let_def bind_eq_Some_conv split: if_splits)

lemma SerializeBinding_len:
  "SerializeBindingToString s e b len = Some (r, b', len') \<Longrightarrow> 0 \<le> len \<Longrightarrow> len < 2 ^ 30 \<Longrightarrow>
   0 \<le> len' \<and> len' < 2 ^ 30"
  using uint_u16_bounds
  by (auto simp: SerializeBindingToString_def Let_def bind_eq_Some_conv split: if_splits)

lemma SerializeDurable_len:
  "SerializeDurableToString m b len = Some (r, b', len') \<Longrightarrow> 0 \<le> len \<Longrightarrow> len < 2 ^ 30 \<Longrightarrow>
   0 \<le> len' \<and> len' < 2 ^ 30"
  using uint_u16_bounds
  by (auto simp: SerializeDurableToString_def Let_def bind_eq_Some_conv split: if_splits)

lemma pack_len:
  "GetMessagePack (SeverStoreMessage m) b len = Some (r, b', len') \<Longrightarrow> 0 \<le> len \<Longrightarrow> len < 2 ^ 30 \<Longrightarrow>
   0 \<le> len' \<and> len' < 2 ^ 30"
  "GetMessagePack (ServerAckMessage i c q) b len = Some (r, b', len') \<Longrightarrow> 0 \<le> len \<Longrightarrow> len < 2 ^ 30 \<Longrightarrow>
   0 \<le> len' \<and> len' < 2 ^ 30"
  "GetMessagePack (ActReplyMessage i c t x) b len = Some (r, b', len') \<Longrightarrow> 0 \<le> len \<Longrightarrow> len < 2 ^ 30 \<Longrightarrow>
   0 \<le> len' \<and> len' < 2 ^ 30"
  using uint_u16_bounds
  by (auto simp: SeverStoreMessage_GetMessagePack_def ServerAckMessage_GetMessagePack_def
      ActReplyMessage_GetMessagePack_def Let_def bind_eq_Some_conv split: if_splits)

lemma pack_sizes: "0 \<le> int MAX_CLINT_PACKAGE_LENGTH" "int MAX_CLINT_PACKAGE_LENGTH < 2 ^ 30"
  "0 \<le> int MAX_SERVER_PACKAGE_LENGTH" "int MAX_SERVER_PACKAGE_LENGTH < 2 ^ 30"
  by (simp_all add: size_defs)

lemmas pack_bounds = pack_len [OF _ pack_sizes(1,2), simplified] pack_len [OF _ pack_sizes(3,4), simplified]

lemma send_subscribers_sent: "send_subscribers s q f = Some (r, s') \<Longrightarrow> sent s s'"
  by (auto simp: send_subscribers_def run_simps
      dest!: SerializeSub_len [OF _ pack_sizes(1,2)] to_persis_sent)

end
