(* ===== verification/Logic_Preserve.thy ===== *)
theory Logic_Preserve
  imports Logic_Inv
begin

text \<open>
  Every handler of the logic server preserves its invariant, for any packet whatever, and with
  them the dispatcher.
\<close>

lemma read_name_len: "read_name b p = Some (n, s) \<Longrightarrow> length s < MAX_NAME_LENGTH"
  by (auto simp: read_name_def ReadBuf_def mem_read_def bind_eq_Some_conv dest!: cstr_eq_Some split: if_splits)

lemma logic_invD: "logic_inv s \<Longrightarrow>
    core_inv (m_queues s) (m_iNextAddr s) (m_mUnSubcribeQueues s) (m_mSubcribeQueues s) (m_mExchanges s)"
  by (simp add: logic_inv_def)

lemma inv_other_fields [simp]:
  "logic_inv (s\<lparr>m_NeedAckMessageList := x\<rparr>) = logic_inv s"
  "logic_inv (s\<lparr>m_iAckSeq := y\<rparr>) = logic_inv s"
  "logic_inv (s\<lparr>m_producerMsgSeqs := z\<rparr>) = logic_inv s"
  "logic_inv (s\<lparr>m_producerLastMsgSeq := u\<rparr>) = logic_inv s"
  "logic_inv (s\<lparr>m_iRecvCount := v\<rparr>) = logic_inv s"
  "logic_inv (s\<lparr>m_iSendCount := w\<rparr>) = logic_inv s"
  by (simp_all add: logic_inv_def)

lemma inv_set_exchange:
  assumes "logic_inv s" "ex_strExchangeName e = n" "length n < MAX_NAME_LENGTH" "exchange_inv e"
    "bound_queues e \<subseteq> dom (m_queues s)"
  shows "logic_inv (s\<lparr>m_mExchanges := AList.update n e (m_mExchanges s)\<rparr>)"
  using core_set_exchange [OF logic_invD [OF assms(1)] assms(2-)] assms(1) by (simp add: logic_inv_def)

lemma inv_set_queue:
  assumes "logic_inv s" "m_queues s a = Some q" "mq_strQueueName q' = mq_strQueueName q" "queue_inv q'"
    and "a \<in> ran (map_of (m_mUnSubcribeQueues s)) \<Longrightarrow> m_vSubscribeConsumers q' = []"
  shows "logic_inv (set_queue a q' s)"
  using core_set_queue [OF logic_invD [OF assms(1)] assms(2-)] assms(1)
  by (simp add: logic_inv_def set_queue_def)

lemma inv_queue: "logic_inv s \<Longrightarrow> m_queues s a = Some q \<Longrightarrow> queue_inv q"
  using core_invD(8) [OF logic_invD] by blast

lemma OnCreateExchange_inv:
  assumes inv: "logic_inv s" and run: "OnCreateExchange s b p n = Some (r, t, s')"
  shows "logic_inv s'"
proof -
  have new: "logic_inv (s\<lparr>m_mExchanges := AList.update x (new_Exchange x ty d a) (m_mExchanges s)\<rparr>)"
    if "length x < MAX_NAME_LENGTH" for x ty d a
    using that inv by (intro inv_set_exchange) (simp_all add: new_Exchange_def bound_queues_def
        exchange_inv_def)
  show ?thesis
    using run inv unfolding OnCreateExchange_def Let_def
    by (auto simp: run_simps
        dest!: read_name_len send_sent(1) intro: new sent_inv)
qed

lemma new_MessageQueue_fields [simp]:
  "mq_strQueueName (new_MessageQueue n p d a) = n" "mq_bDurable (new_MessageQueue n p d a) = d"
  "mq_bAutoDel (new_MessageQueue n p d a) = a" "mq_iPriority (new_MessageQueue n p d a) = p"
  "m_vSubscribeConsumers (new_MessageQueue n p d a) = []"
  by (simp_all add: new_MessageQueue_def)

lemma inv_new_queue:
  assumes "logic_inv s" "\<not> has_key (m_mUnSubcribeQueues s) n" "\<not> has_key (m_mSubcribeQueues s) n"
    "length n < MAX_NAME_LENGTH"
  shows "logic_inv ((set_queue (m_iNextAddr s) (new_MessageQueue n p d a) s)
    \<lparr>m_iNextAddr := m_iNextAddr s + 1,
     m_mUnSubcribeQueues := AList.update n (m_iNextAddr s) (m_mUnSubcribeQueues s)\<rparr>)"
  using assms core_new_queue [OF logic_invD [OF assms(1)], of n "new_MessageQueue n p d a"]
  by (simp add: logic_inv_def set_queue_def)

lemma OnCreateQueue_inv:
  assumes inv: "logic_inv s" and run: "OnCreateQueue s b p n = Some (r, t, s')"
  shows "logic_inv s'"
  using run inv unfolding OnCreateQueue_def Let_def
  by (auto simp: run_simps set_queue_def
      dest!: read_name_len send_sent(1) intro: inv_new_queue [unfolded set_queue_def, simplified] sent_inv)

lemma inv_exchange:
  assumes "logic_inv s" "map_of (m_mExchanges s) n = Some e"
  shows "ex_strExchangeName e = n" "length n < MAX_NAME_LENGTH" "exchange_inv e"
    "bound_queues e \<subseteq> dom (m_queues s)"
  using core_invD(7) [OF logic_invD [OF assms(1)] assms(2)] by auto

lemma inv_names:
  assumes "logic_inv s"
  shows "map_of (m_mUnSubcribeQueues s) n = Some a \<Longrightarrow> \<exists>q. m_queues s a = Some q \<and> mq_strQueueName q = n"
    "map_of (m_mSubcribeQueues s) n = Some a \<Longrightarrow> \<exists>q. m_queues s a = Some q \<and> mq_strQueueName q = n"
  using core_invD(5,6) [OF logic_invD [OF assms]] by blast+

lemma OnCreateBinding_inv:
  assumes inv: "logic_inv s" and run: "OnCreateBinding s b p n = Some (r, t, s')"
  shows "logic_inv s'"
proof -
  have new: "logic_inv (s\<lparr>m_mExchanges := AList.update x (CreateBinding e k a) (m_mExchanges s)\<rparr>)"
    if e: "map_of (m_mExchanges s) x = Some e"
      and a: "map_of (m_mUnSubcribeQueues s) y = Some a \<or> map_of (m_mSubcribeQueues s) y = Some a" for x e k a y
  proof -
    have "a \<in> dom (m_queues s)" using a inv_names [OF inv, of y a] by auto
    then show ?thesis
      using inv_exchange [OF inv e] bound_CreateBinding [of e k a]
      by (intro inv_set_exchange [OF inv]) auto
  qed
  have send: "logic_inv s2" if "SerializeBindingToString s1 e pack_buffer (int MAX_CLINT_PACKAGE_LENGTH) = Some (c, pb, l)"
    "to_persis s1 pb l = Some (rr, s2)" "logic_inv s1" for s1 s2 e c pb l rr
    using sent_inv [OF to_persis_sent [OF that(2)] that(3)] SerializeBinding_len [OF that(1)]
    by (simp add: size_defs)
  show ?thesis
    using run inv unfolding OnCreateBinding_def Let_def
    by (auto simp: run_simps intro: new dest!: send [OF _ _ new])
qed

lemma OnDeleteExchange_inv:
  assumes inv: "logic_inv s" and run: "OnDeleteExchange s b p n = Some (r, t, s')"
  shows "logic_inv s'"
proof -
  have del: "logic_inv (s1\<lparr>m_mExchanges := AList.delete x (m_mExchanges s1)\<rparr>)" if "logic_inv s1" for x s1
    using core_delete_exchange [OF logic_invD [OF that]] that by (simp add: logic_inv_def)
  show ?thesis
    using run inv unfolding OnDeleteExchange_def Let_def
    by (auto simp: run_simps
        dest!: send_sent(1) intro: del sent_inv)
qed

section \<open>Removing a queue\<close>

text \<open>\<open>unbound a full ex ex'\<close>: \<open>ex'\<close> keeps some of the entries of \<open>ex\<close>, as they were or without the
  bindings of \<open>a\<close>; when \<open>full\<close>, all kept entries have lost them.\<close>

definition unbound :: "addr \<Rightarrow> bool \<Rightarrow> (bytes \<times> exchange) list \<Rightarrow> (bytes \<times> exchange) list \<Rightarrow> bool" where
  "unbound a full ex ex' \<longleftrightarrow>
     set (map fst ex') \<subseteq> set (map fst ex) \<and> (distinct (map fst ex) \<longrightarrow> distinct (map fst ex')) \<and>
     (\<forall>(n, e')\<in>set ex'. \<exists>e. (n, e) \<in> set ex \<and>
        (e' = DeleteBindingQueue e a \<or> e' = e \<and> (full \<longrightarrow> m_mBindingQueues e = [])))"

lemma unbound_refl: "unbound a False ex ex"
  by (auto simp: unbound_def)

lemma unbound_Nil [simp]: "unbound a f [] []"
  by (simp add: unbound_def)

lemma unbound_keep:
  "unbound a f ex ex' \<Longrightarrow> e' = DeleteBindingQueue e a \<or> e' = e \<and> (f \<longrightarrow> m_mBindingQueues e = []) \<Longrightarrow>
   unbound a f ((k, e) # ex) ((k, e') # ex')"
  unfolding unbound_def by auto

lemma unbound_drop: "unbound a f ex ex' \<Longrightarrow> unbound a f ((k, e) # ex) ex'"
  unfolding unbound_def by auto

lemma unbound_unbind_all: "unbound a True ex (unbind_all a ex)"
proof (induction a ex rule: unbind_all.induct)
  case (2 a k e rest)
  then show ?case
    by (auto simp: Let_def GetBindingSize_def intro: unbound_keep unbound_drop)
qed simp

lemma unbind_notify_unbound:
  "unbind_notify a ex s = Some (err, left, s') \<Longrightarrow> sent s s' \<and> unbound a (err = None) ex left"
proof (induction ex arbitrary: s err left s')
  case Nil
  then show ?case by simp
next
  case (Cons x rest)
  obtain k e where x: "x = (k, e)" by (cases x)
  let ?e = "DeleteBindingQueue e a"
  show ?case
  proof (cases "GetBindingSize e = 0 \<or> \<not> (GetBindingSize ?e = 0 \<and> ex_bAutoDel ?e)")
    case True
    with Cons.prems obtain er l e' where "unbind_notify a rest s = Some (er, l, s')" "left = (k, e') # l"
      "e' = (if GetBindingSize e = 0 then e else ?e)" "er = err"
      by (auto simp: x Let_def bind_eq_Some_conv split: if_split_asm)
    with Cons.IH show ?thesis
      by (auto simp: x GetBindingSize_def intro!: unbound_keep split: if_split_asm)
  next
    case False
    with Cons.prems obtain r s1 where
      s1: "(if ex_bDurable e then send_deleted s CMD_DELETE_EXCHANGE (ex_strExchangeName e)
            else Some (SUCCESS, s)) = Some (r, s1)"
      and rest: "if r \<noteq> SUCCESS then (err, left, s') = (Some (ex_strExchangeName e), (k, ?e) # rest, s1)
        else unbind_notify a rest s1 = Some (err, left, s')"
      by (auto simp: x Let_def bind_eq_Some_conv split: if_split_asm)
    have "sent s s1" using s1 send_sent(3) by (auto split: if_split_asm)
    then show ?thesis
      using rest Cons.IH [of s1] sent_trans [of s s1 s'] unbound_refl [of a rest]
      by (cases "r = SUCCESS") (auto simp: x intro!: unbound_keep [of a False] intro: unbound_drop)
  qed
qed

lemma unbind_exit_unbound:
  "unbind_exit a ex s = Some (left, s') \<Longrightarrow> sent s s' \<and> unbound a True ex left"
proof (induction ex arbitrary: s left s')
  case Nil
  then show ?case by simp
next
  case (Cons x rest)
  obtain k e where x: "x = (k, e)" by (cases x)
  let ?e = "DeleteBindingQueue e a"
  show ?case
  proof (cases "GetBindingSize e = 0 \<or> \<not> (GetBindingSize ?e = 0 \<and> ex_bAutoDel ?e)")
    case True
    with Cons.prems obtain l e' where "unbind_exit a rest s = Some (l, s')" "left = (k, e') # l"
      "e' = (if GetBindingSize e = 0 then e else ?e)"
      by (auto simp: x Let_def bind_eq_Some_conv split: if_split_asm)
    with Cons.IH show ?thesis
      by (auto simp: x GetBindingSize_def intro!: unbound_keep split: if_split_asm)
  next
    case False
    with Cons.prems obtain r s1 where
      s1: "(if ex_bDurable e then send_deleted s CMD_DELETE_EXCHANGE (ex_strExchangeName e)
            else Some (SUCCESS, s)) = Some (r, s1)"
      and rest: "unbind_exit a rest s1 = Some (left, s')"
      by (auto simp: x Let_def bind_eq_Some_conv split: if_split_asm)
    have "sent s s1" using s1 send_sent(3) by (auto split: if_split_asm)
    then show ?thesis
      using rest Cons.IH [of s1] sent_trans [of s s1 s']
      by (auto simp: x intro!: unbound_keep unbound_drop unbound_refl split: if_split_asm)
  qed
qed

lemma unbound_entry:
  assumes u: "unbound a f ex ex'" and d: "distinct (map fst ex)" and n: "map_of ex' n = Some e'"
  shows "\<exists>e. map_of ex n = Some e \<and> (e' = DeleteBindingQueue e a \<or> e' = e \<and> (f \<longrightarrow> m_mBindingQueues e = []))"
  using u map_of_SomeD [OF n] map_of_is_SomeI [OF d] by (fastforce simp: unbound_def)

lemma core_unbound:
  assumes inv: "core_inv h nx un su ex" and u: "unbound a f ex ex'"
  shows "core_inv h nx un su ex'"
proof -
  have d: "distinct (map fst ex)" by (rule core_invD(3) [OF inv])
  have d': "distinct (map fst ex')" using u d by (simp add: unbound_def)
  show ?thesis
  proof (rule core_invI)
    fix n e' assume "map_of ex' n = Some e'"
    from unbound_entry [OF u d this]
    obtain e where e: "map_of ex n = Some e" "e' = DeleteBindingQueue e a \<or> e' = e" by blast
    from core_invD(7) [OF inv e(1)] e(2) bound_DeleteBindingQueue [of e a]
    show "ex_strExchangeName e' = n \<and> length n < MAX_NAME_LENGTH \<and> exchange_inv e' \<and> bound_queues e' \<subseteq> dom h"
      by auto
  qed (rule core_invD(1-2) [OF inv] d' | erule core_invD(4-8) [OF inv])+
qed

lemma unbound_gone:
  assumes inv: "core_inv h nx un su ex" and u: "unbound a True ex ex'" and n: "map_of ex' n = Some e'"
  shows "a \<notin> bound_queues e'"
proof -
  obtain e where e: "map_of ex n = Some e"
    "e' = DeleteBindingQueue e a \<or> e' = e \<and> m_mBindingQueues e = []"
    using unbound_entry [OF u core_invD(3) [OF inv] n] by blast
  from e(2) show ?thesis
  proof
    assume "e' = DeleteBindingQueue e a"
    then show ?thesis using bound_DeleteBindingQueue core_invD(7) [OF inv e(1)] by simp
  qed (simp add: bound_queues_def)
qed

lemma inv_unbound:
  "logic_inv s \<Longrightarrow> unbound a f (m_mExchanges s) ex' \<Longrightarrow> logic_inv (s\<lparr>m_mExchanges := ex'\<rparr>)"
  using core_unbound [OF logic_invD] by (simp add: logic_inv_def)

lemma inv_free_queue:
  assumes inv: "logic_inv s" and q: "m_queues s a = Some q"
    and names: "map_of (m_mUnSubcribeQueues s) (mq_strQueueName q) = None"
      "map_of (m_mSubcribeQueues s) (mq_strQueueName q) = None"
    and ex: "\<And>n e. map_of (m_mExchanges s) n = Some e \<Longrightarrow> a \<notin> bound_queues e"
  shows "logic_inv (free_queue a s)"
  using core_free_queue [OF logic_invD [OF inv] name_owner [OF logic_invD [OF inv] q refl names] ex] inv
  by (simp add: logic_inv_def free_queue_def)

lemma set_queue_simps [simp]:
  "m_mExchanges (set_queue a q s) = m_mExchanges s"
  "m_mUnSubcribeQueues (set_queue a q s) = m_mUnSubcribeQueues s"
  "m_mSubcribeQueues (set_queue a q s) = m_mSubcribeQueues s"
  "m_queues (set_queue a q s) = (m_queues s)(a \<mapsto> q)"
  "m_NeedAckMessageList (set_queue a q s) = m_NeedAckMessageList s"
  "env_raw (set_queue a q s) = env_raw s"
  "m_iAckSeq (set_queue a q s) = m_iAckSeq s"
  "m_producerMsgSeqs (set_queue a q s) = m_producerMsgSeqs s"
  "m_producerLastMsgSeq (set_queue a q s) = m_producerLastMsgSeq s"
  by (simp_all add: set_queue_def)

lemma inv_del_un: "logic_inv s \<Longrightarrow> logic_inv (s\<lparr>m_mUnSubcribeQueues := AList.delete n (m_mUnSubcribeQueues s)\<rparr>)"
  using core_delete_un [OF logic_invD] by (simp add: logic_inv_def)

lemma inv_del_su: "logic_inv s \<Longrightarrow> logic_inv (s\<lparr>m_mSubcribeQueues := AList.delete n (m_mSubcribeQueues s)\<rparr>)"
  using core_delete_su [OF logic_invD] by (simp add: logic_inv_def)

lemma inv_drop_queue:
  assumes inv: "logic_inv s" and q: "m_queues s a = Some q"
    and names: "map_of (m_mUnSubcribeQueues s) (mq_strQueueName q) = None"
      "map_of (m_mSubcribeQueues s) (mq_strQueueName q) = None"
    and u: "unbound a True (m_mExchanges s) ex'"
  shows "logic_inv (free_queue a (s\<lparr>m_mExchanges := ex'\<rparr>))"
  using inv_free_queue [OF inv_unbound [OF inv u], of a q] q names unbound_gone [OF logic_invD [OF inv] u]
  by simp

lemma keep_names [simp]:
  "mq_strQueueName (ClearMessage q) = mq_strQueueName q" "mq_bDurable (ClearMessage q) = mq_bDurable q"
  "m_vSubscribeConsumers (ClearMessage q) = m_vSubscribeConsumers q"
  "mq_strQueueName (CancelSubscribe q c) = mq_strQueueName q" "mq_bDurable (CancelSubscribe q c) = mq_bDurable q"
  "mq_bAutoDel (CancelSubscribe q c) = mq_bAutoDel q"
  "mq_strQueueName (AddSubscribe q c l) = mq_strQueueName q" "mq_bDurable (AddSubscribe q c l) = mq_bDurable q"
  "mq_strQueueName (AddMessage q m) = mq_strQueueName q"
  "m_vSubscribeConsumers (AddMessage q m) = m_vSubscribeConsumers q"
  "mq_strQueueName (AddMessageFront q m) = mq_strQueueName q"
  "m_vSubscribeConsumers (AddMessageFront q m) = m_vSubscribeConsumers q"
  "mq_strQueueName (snd (PopFrontMsg q b)) = mq_strQueueName q"
  "m_vSubscribeConsumers (snd (PopFrontMsg q b)) = m_vSubscribeConsumers q"
  "mq_bDurable (snd (PopFrontMsg q b)) = mq_bDurable q"
  "mq_iConfirmLevel (snd (PopFrontMsg q b)) = mq_iConfirmLevel q"
  "mq_strQueueName (snd (GetNextDaurableIndex q)) = mq_strQueueName q"
  "m_vSubscribeConsumers (snd (GetNextDaurableIndex q)) = m_vSubscribeConsumers q"
  by (simp_all add: ClearMessage_def CancelSubscribe_def AddSubscribe_def AddMessage_def AddMessageFront_def
      PopFrontMsg_take_front GetNextDaurableIndex_def Let_def)

text \<open>An update that leaves a queue's name and its consumers alone.\<close>

lemma inv_same_subs:
  assumes inv: "logic_inv s" and q: "m_queues s a = Some q" "mq_strQueueName q' = mq_strQueueName q"
    "m_vSubscribeConsumers q' = m_vSubscribeConsumers q" "queue_inv q'"
  shows "logic_inv (set_queue a q' s)"
proof (rule inv_set_queue [OF inv q(1,2,4)])
  assume "a \<in> ran (map_of (m_mUnSubcribeQueues s))"
  then obtain n where "map_of (m_mUnSubcribeQueues s) n = Some a" by (auto simp: ran_def)
  from core_invD(5) [OF logic_invD [OF inv] this] q(1,3) show "m_vSubscribeConsumers q' = []" by simp
qed

lemma inv_clear: "logic_inv s \<Longrightarrow> m_queues s a = Some q \<Longrightarrow> logic_inv (set_queue a (ClearMessage q) s)"
  by (rule inv_same_subs) (simp_all add: inv_queue)

lemma OnDeleteQueue_inv:
  assumes inv: "logic_inv s" and run: "OnDeleteQueue s b p n = Some (r, t, s')"
  shows "logic_inv s'"
proof -
  let ?del = "\<lambda>x. s\<lparr>m_mUnSubcribeQueues := AList.delete x (m_mUnSubcribeQueues s),
      m_mSubcribeQueues := AList.delete x (m_mSubcribeQueues s)\<rparr>"
  have del: "logic_inv (?del x)" for x
    using inv_del_su [OF inv_del_un [OF inv]] by simp
  have drop: "logic_inv (free_queue a ((set_queue a (ClearMessage q) s2)
      \<lparr>m_mExchanges := unbind_all a (m_mExchanges s2)\<rparr>))"
    if at: "map_of (m_mUnSubcribeQueues s) x = Some a \<or> map_of (m_mSubcribeQueues s) x = Some a"
      "m_queues s a = Some q" and s2: "sent (?del x) s2" for s2 a q x
  proof -
    have "mq_strQueueName q = x" using at inv_names [OF inv, of x a] by auto
    with at inv_clear [OF sent_inv [OF s2 del], of a q] sent_fields [OF s2] show ?thesis
      by (intro inv_drop_queue [of _ _ "ClearMessage q"])
        (simp_all add: unbound_unbind_all)
  qed
  show ?thesis
    using run unfolding OnDeleteQueue_def Let_def
    by (auto simp: run_simps split: option.split_asm dest!: send_sent(1)
        intro: del sent_inv [OF _ del] drop drop [OF _ _ sent_refl, simplified])
qed

text \<open>What one step of the loop does.\<close>

lemma publish_step:
  assumes "publish_loop t pr d (a # rest) s = Some s'"
  obtains q m q' s1 where "m_queues s a = Some q" "sent s s1"
    "q' = q \<or> q' = snd (GetNextDaurableIndex q)"
    "m = (new_SeverStoreMessage t pr d)\<lparr>ssm_iDurableIndex := ssm_iDurableIndex m, ssm_strQueueName := ssm_strQueueName m\<rparr>"
    "publish_loop t pr d rest (set_queue a (AddMessage q' m) s1) = Some s'"
proof -
  obtain q where q: "m_queues s a = Some q" using assms by (auto simp: run_simps)
  show thesis
  proof (cases "d \<and> mq_bDurable q")
    case True
    with assms q obtain m s1 where "sent s s1"
      "m = (new_SeverStoreMessage t pr d)\<lparr>ssm_iDurableIndex := mq_iDurableIndex q, ssm_strQueueName := mq_strQueueName q\<rparr>"
      "publish_loop t pr d rest (set_queue a (AddMessage (snd (GetNextDaurableIndex q)) m) s1) = Some s'"
      by (auto simp: run_simps Let_def GetNextDaurableIndex_def
        dest!: SerializeDurable_len [OF _ pack_sizes(1,2)] to_persis_sent)
    with q show thesis by (intro that) auto
  next
    case False
    with assms q have "publish_loop t pr d rest (set_queue a (AddMessage q (new_SeverStoreMessage t pr d)) s) = Some s'"
      by (auto simp: run_simps)
    with q show thesis by (intro that) (auto simp: new_SeverStoreMessage_def)
  qed
qed

lemma publish_loop_inv:
  "publish_loop t pr d as s = Some s' \<Longrightarrow> logic_inv s \<Longrightarrow> logic_inv s'"
proof (induction as arbitrary: s)
  case (Cons a rest)
  from publish_step [OF Cons(2)] obtain q m q' s1 where q: "m_queues s a = Some q" and s1: "sent s s1"
    and q': "q' = q \<or> q' = snd (GetNextDaurableIndex q)"
    and rest: "publish_loop t pr d rest (set_queue a (AddMessage q' m) s1) = Some s'" by metis
  have "logic_inv (set_queue a (AddMessage q' m) s1)"
    using q' q inv_queue [OF Cons(3) q] sent_inv [OF s1 Cons(3)] sent_fields(1) [OF s1]
    by (intro inv_same_subs [of _ _ q]) auto
  with Cons(1) [OF rest] show ?case by blast
qed simp

lemma OnPublishMessage_inv:
  assumes inv: "logic_inv s" and run: "OnPublishMessage s b p n c = Some (r, t, s')"
  shows "logic_inv s'"
  using run inv unfolding OnPublishMessage_def Let_def new_ServerAckMessage_def publish_ack_def
  by (auto simp: run_simps case_prod_eq_Some
      dest!: pack_bounds to_connect_sent publish_loop_inv
      intro: sent_inv)

lemma OnRecvMessage_inv:
  assumes inv: "logic_inv s" and run: "OnRecvMessage s b p n c = Some (r, t, s')"
  shows "logic_inv s'"
proof -
  have pop: "logic_inv (set_queue a q' s)" if "m_queues s a = Some q" "PopFrontMsg q x = (m, q')" for a q x m q'
  proof -
    have q': "q' = snd (PopFrontMsg q x)" by (simp add: that(2))
    show ?thesis unfolding q' using inv_queue [OF inv that(1)]
      by (intro inv_same_subs [OF inv that(1)]) auto
  qed
  show ?thesis
    using run inv unfolding OnRecvMessage_def Let_def
    by (auto simp: run_simps case_prod_eq_Some
      dest!: pack_bounds to_connect_wait_sent send_sent(2)
      intro: pop elim!: sent_inv split: option.split_asm)
qed

text \<open>A send after a queue has changed is a send before the change.\<close>

lemma sent_set_queue:
  assumes "sent (set_queue a q s) s1"
  obtains s2 where "sent s s2" "s1 = set_queue a q s2"
proof
  have s1: "s1 = (set_queue a q s)\<lparr>m_pQueueToConnect := m_pQueueToConnect s1, m_pQueueToPersis := m_pQueueToPersis s1\<rparr>"
    using assms by (simp add: sent_def)
  show "s1 = set_queue a q (s\<lparr>m_pQueueToConnect := m_pQueueToConnect s1, m_pQueueToPersis := m_pQueueToPersis s1\<rparr>)"
    by (subst s1) (simp add: set_queue_def)
  show "sent s (s\<lparr>m_pQueueToConnect := m_pQueueToConnect s1, m_pQueueToPersis := m_pQueueToPersis s1\<rparr>)"
    using assms by (simp add: sent_def set_queue_def)
qed

lemma not_unsubscribed:
  assumes "logic_inv s" "m_queues s a = Some q" "map_of (m_mUnSubcribeQueues s) (mq_strQueueName q) = None"
  shows "a \<notin> ran (map_of (m_mUnSubcribeQueues s))"
  using inv_names(1) [OF assms(1)] assms(2,3) by (fastforce simp: ran_def)

lemma inv_subscribe:
  assumes inv: "logic_inv s" and q: "m_queues s a = Some q" "mq_strQueueName q = n"
    and q': "mq_strQueueName q' = n" "queue_inv q'"
  shows "logic_inv (set_queue a q' s
    \<lparr>m_mUnSubcribeQueues := AList.delete n (m_mUnSubcribeQueues s),
     m_mSubcribeQueues := AList.update n a (m_mSubcribeQueues s)\<rparr>)"
proof -
  let ?s = "s\<lparr>m_mUnSubcribeQueues := AList.delete n (m_mUnSubcribeQueues s),
     m_mSubcribeQueues := AList.update n a (m_mSubcribeQueues s)\<rparr>"
  have s: "logic_inv ?s"
    using core_move_sub [OF logic_invD [OF inv] q] inv by (simp add: logic_inv_def)
  have "logic_inv (set_queue a q' ?s)"
    using q q' not_unsubscribed [OF s, of a q] by (intro inv_set_queue [OF s, of a q]) simp_all
  moreover have "set_queue a q' ?s = set_queue a q' s
    \<lparr>m_mUnSubcribeQueues := AList.delete n (m_mUnSubcribeQueues s),
     m_mSubcribeQueues := AList.update n a (m_mSubcribeQueues s)\<rparr>"
    by (cases s) (simp add: set_queue_def)
  ultimately show ?thesis by simp
qed

lemma subs_Cancel_Add:
  "queue_inv q \<Longrightarrow> m_vSubscribeConsumers (CancelSubscribe (AddSubscribe q c l) c) =
    filter (\<lambda>x. x \<noteq> c) (m_vSubscribeConsumers q)"
  using subs_CancelSubscribe [OF queue_inv_AddSubscribe, of q c l c] by (simp add: AddSubscribe_def Let_def)

lemma OnCreateSubscribe_inv:
  assumes inv: "logic_inv s" and run: "OnCreateSubscribe s b p n c = Some (r, t, s')"
  shows "logic_inv s'"
proof -
  obtain k x k' l where x: "read_name b p = Some (k, x)" "ReadByte b (p + k) = Some (k', l)"
    using run by (auto simp: OnCreateSubscribe_def Let_def run_simps)
  let ?find = "case map_of (m_mSubcribeQueues s) x of Some a \<Rightarrow> Some a | None \<Rightarrow> map_of (m_mUnSubcribeQueues s) x"
  show ?thesis
  proof (cases ?find)
    case None
    with run x inv show ?thesis by (simp add: OnCreateSubscribe_def Let_def)
  next
    case (Some a)
    then have at: "map_of (m_mUnSubcribeQueues s) x = Some a \<or> map_of (m_mSubcribeQueues s) x = Some a"
      by (auto split: option.splits)
    then obtain q where q: "m_queues s a = Some q" "mq_strQueueName q = x" using inv_names [OF inv] by blast
    let ?q = "AddSubscribe q c l"
    let ?s = "set_queue a ?q s"
    obtain r1 s1 where send: "send_subscribers ?s ?q True = Some (r1, s1)"
      using run x Some q by (auto simp: OnCreateSubscribe_def Let_def run_simps)
    have rest: "(if r1 \<noteq> SUCCESS
        then Some (ERR_LOGIC_SERVER_CREATE_SUBSCRIBE, RE_SUBSCRIBE_FAILED @ x, set_queue a (CancelSubscribe ?q c) s1)
        else Some (SUCCESS, RE_SUBSCRIBE_SUCCEED @ x,
          if has_key (m_mUnSubcribeQueues s) x
          then s1\<lparr>m_mUnSubcribeQueues := AList.delete x (m_mUnSubcribeQueues s1),
                           m_mSubcribeQueues := AList.update x a (m_mSubcribeQueues s1)\<rparr> else s1)) = Some (r, t, s')"
      using run x Some q send by (cases "r1 = SUCCESS") (simp_all add: OnCreateSubscribe_def Let_def)
    note s1 = send_subscribers_sent [OF send]
    obtain s2 where s2: "sent s s2" "s1 = set_queue a ?q s2" by (rule sent_set_queue [OF s1])
    note inv2 = sent_inv [OF s2(1) inv]
    have q2: "m_queues s2 a = Some q" using q sent_fields(1) [OF s2(1)] by simp
    show ?thesis
    proof (cases "r1 \<noteq> SUCCESS")
      case True
      then have s': "s' = set_queue a (CancelSubscribe ?q c) s2" using rest s2(2) by (auto simp: set_queue_def)
      show ?thesis unfolding s'
      proof (rule inv_set_queue [OF inv2 q2])
        assume "a \<in> ran (map_of (m_mUnSubcribeQueues s2))"
        then have "m_vSubscribeConsumers q = []"
          using core_invD(5) [OF logic_invD [OF inv2]] q2 by (fastforce simp: ran_def)
        then show "m_vSubscribeConsumers (CancelSubscribe ?q c) = []"
          using subs_Cancel_Add [OF inv_queue [OF inv q(1)], of c l] by simp
      qed (use inv_queue [OF inv q(1)] in simp_all)
    next
      case ok: False
      show ?thesis
      proof (cases "has_key (m_mUnSubcribeQueues s) x")
        case True
        with rest ok s2 inv_subscribe [OF inv2 q2 q(2), of ?q] inv_queue [OF inv q(1)] q(2)
        show ?thesis by auto
      next
        case False
        then have "a \<notin> ran (map_of (m_mUnSubcribeQueues s2))"
          using not_unsubscribed [OF inv2 q2] q(2) sent_fields(3) [OF s2(1)] by simp
        with False rest ok s2 inv_set_queue [OF inv2 q2, of ?q] inv_queue [OF inv q(1)] show ?thesis by auto
      qed
    qed
  qed
qed

section \<open>Cancelling and leaving\<close>

lemma inv_unbind:
  assumes inv: "logic_inv s" and s1: "sent s s1" and u: "unbound a f (m_mExchanges s) left"
  shows "logic_inv (s1\<lparr>m_mExchanges := left\<rparr>)"
    "f = True \<Longrightarrow> map_of left n = Some e \<Longrightarrow> a \<notin> bound_queues e"
  using inv_unbound [OF sent_inv [OF s1 inv], of a f left] sent_fields(5) [OF s1] u
    unbound_gone [OF logic_invD [OF inv], of a left n e] by simp_all

lemma inv_unsubscribed:
  assumes inv: "logic_inv s" and su: "map_of (m_mSubcribeQueues s) n = None"
    and q: "m_queues s a = Some q" "mq_strQueueName q = n" "m_vSubscribeConsumers q = []"
  shows "logic_inv (s\<lparr>m_mUnSubcribeQueues := AList.update n a (m_mUnSubcribeQueues s)\<rparr>)"
  using core_move_unsub [OF logic_invD [OF inv] su q] inv by (simp add: logic_inv_def)

text \<open>The end of an auto-delete queue: its bindings, the notice, the queue itself.\<close>

lemma inv_end_of_queue:
  assumes inv: "logic_inv s" and q: "m_queues s a = Some q"
    and names: "map_of (m_mUnSubcribeQueues s) (mq_strQueueName q) = None"
      "map_of (m_mSubcribeQueues s) (mq_strQueueName q) = None"
    and s1: "sent s s1" and u: "unbound a True (m_mExchanges s) left"
    and s2: "sent (s1\<lparr>m_mExchanges := left\<rparr>) s2"
  shows "logic_inv (free_queue a s2)"
  using inv_free_queue [OF sent_inv [OF s2 inv_unbind(1) [OF inv s1 u]], of a q] q names
    sent_fields [OF s2] sent_fields [OF s1] inv_unbind(2) [OF inv s1 u]
  by simp

lemma OnCancelSubscribe_inv:
  assumes inv: "logic_inv s" and run: "OnCancelSubscribe s b p n c = Some (r, t, s')"
  shows "logic_inv s'"
proof -
  obtain k x where x: "read_name b p = Some (k, x)"
    using run by (auto simp: OnCancelSubscribe_def run_simps)
  show ?thesis
  proof (cases "has_key (m_mUnSubcribeQueues s) x \<or> map_of (m_mSubcribeQueues s) x = None")
    case True
    with run x inv show ?thesis by (auto simp: OnCancelSubscribe_def split: if_split_asm)
  next
    case False
    then obtain a where un: "map_of (m_mUnSubcribeQueues s) x = None"
      and su: "map_of (m_mSubcribeQueues s) x = Some a" by auto
    obtain q where q: "m_queues s a = Some q" "mq_strQueueName q = x" using inv_names [OF inv] su by blast
    let ?q = "CancelSubscribe q c"
    have free: "a \<notin> ran (map_of (m_mUnSubcribeQueues s))"
      using not_unsubscribed [OF inv q(1)] un q(2) by simp
    have inv1: "logic_inv (set_queue a ?q s)"
      using inv_set_queue [OF inv q(1), of ?q] free inv_queue [OF inv q(1)] by simp
    obtain r1 s1 where send: "send_subscribers (set_queue a ?q s) ?q False = Some (r1, s1)"
      using run x un su q by (auto simp: OnCancelSubscribe_def Let_def run_simps)
    note s1 = send_subscribers_sent [OF send]
    note inv2 = sent_inv [OF s1 inv1]
    have f1 [simp]: "m_queues s1 a = Some ?q" "m_mUnSubcribeQueues s1 = m_mUnSubcribeQueues s"
      "m_mSubcribeQueues s1 = m_mSubcribeQueues s"
      using sent_fields [OF s1] by simp_all
    show ?thesis
    proof (cases "r1 = SUCCESS")
      case False
      then have "s' = set_queue a (AddSubscribe ?q c (mq_iConfirmLevel q)) s1"
        using run x un su q send by (simp add: OnCancelSubscribe_def Let_def)
      then show ?thesis
        using inv_set_queue [OF inv2 f1(1)] free inv_queue [OF inv q(1)] by simp
    next
      case ok: True
      let ?s = "s1\<lparr>m_mSubcribeQueues := AList.delete x (m_mSubcribeQueues s)\<rparr>"
      have inv3: "logic_inv ?s" using inv_del_su [OF inv2, of x] by simp
      show ?thesis
      proof (cases "mq_bAutoDel q \<and> \<not> IsSubscribe ?q")
        case False
        with ok run x un su q send
        have "s' = (if \<not> IsSubscribe ?q
            then ?s\<lparr>m_mUnSubcribeQueues := AList.update x a (m_mUnSubcribeQueues s)\<rparr> else ?s)"
          by (auto simp: OnCancelSubscribe_def Let_def split: if_split_asm)
        then show ?thesis
          using inv3 inv_unsubscribed [OF inv3, of x a ?q] q(2) by (simp add: IsSubscribe_def)
      next
        case True
        let ?c = "set_queue a (ClearMessage ?q) ?s"
        have inv4: "logic_inv ?c" using inv_clear [OF inv3] by simp
        obtain err left s2 where walk: "unbind_notify a (m_mExchanges s1) ?c = Some (err, left, s2)"
          using ok run x un su q send True
          by (auto simp: OnCancelSubscribe_def Let_def run_simps split: if_split_asm)
        have u: "sent ?c s2" "unbound a (err = None) (m_mExchanges ?c) left"
          using unbind_notify_unbound [OF walk] by simp_all
        note inv5 = inv_unbind(1) [OF inv4 u]
        show ?thesis
        proof (cases err)
          case (Some name)
          with ok run x un su q send True walk inv5 show ?thesis
            by (simp add: OnCancelSubscribe_def Let_def)
        next
          case None
          obtain r3 s3 where fin: "(if mq_bDurable q then send_deleted (s2\<lparr>m_mExchanges := left\<rparr>) CMD_DELETE_QUEUE x
              else Some (SUCCESS, s2\<lparr>m_mExchanges := left\<rparr>)) = Some (r3, s3)"
            and s': "s' = (if r3 \<noteq> SUCCESS then s3 else free_queue a s3)"
            using None ok run x un su q send True walk
            by (auto simp: OnCancelSubscribe_def Let_def run_simps split: if_split_asm)
          have s3: "sent (s2\<lparr>m_mExchanges := left\<rparr>) s3" using fin send_sent(3) by (auto split: if_split_asm)
          have "logic_inv (free_queue a s3)"
            using un q(2) u None by (intro inv_end_of_queue [OF inv4 _ _ _ u(1) _ s3, where q = "ClearMessage ?q"]) simp_all
          with s' sent_inv [OF s3 inv5] show ?thesis by simp
        qed
      qed
    qed
  qed
qed

lemma ack_sent: "ack_notify s m = Some s' \<Longrightarrow> sent s s'"
  by (auto simp: ack_notify_def run_simps dest: send_sent(2))

lemma single_ack_sent: "single_ack_loop x ms s = Some (left, s') \<Longrightarrow> sent s s'"
  by (induction ms arbitrary: left) (auto simp: run_simps dest: ack_sent)

lemma multi_ack_sent: "multi_ack_walk c x ms s = Some (left, s') \<Longrightarrow> sent s s'"
  by (induction ms arbitrary: left s) (auto simp: run_simps dest!: ack_sent intro: sent_trans)

lemma OnClientAck_inv:
  assumes inv: "logic_inv s" and run: "OnClientAck s b p n c = Some (r, t, s')"
  shows "logic_inv s'"
  using run inv unfolding OnClientAck_def Let_def
  by (auto simp: run_simps dest!: single_ack_sent multi_ack_sent intro: sent_inv)

text \<open>One queue of the leaving client: it loses the client and keeps its messages, or it is deleted, and
  all other queues are left alone.\<close>

definition left_by :: "i32 \<Rightarrow> message_queue \<Rightarrow> message_queue option \<Rightarrow> bool" where
  "left_by c q oq \<longleftrightarrow> (case oq of None \<Rightarrow> mq_bAutoDel q
     | Some q' \<Rightarrow> m_vSubscribeConsumers q' = filter (\<lambda>x. x \<noteq> c) (m_vSubscribeConsumers q) \<and> stored q' = stored q \<and> mq_strQueueName q' = mq_strQueueName q)"

lemma left_by_Cancel: "queue_inv q \<Longrightarrow> left_by c q (Some (CancelSubscribe q c))"
  using subs_CancelSubscribe [of q c]
  by (simp add: left_by_def) (simp add: CancelSubscribe_def Let_def stored_def)

lemma exit_queue_step:
  assumes inv: "logic_inv s" and su: "map_of (m_mSubcribeQueues s) k = Some a"
    and run: "exit_queues c ((k, a) # rest) s = Some s'"
  obtains s1 where "logic_inv s1" "exit_queues c rest s1 = Some s'"
    "\<And>n. n \<noteq> k \<Longrightarrow> map_of (m_mSubcribeQueues s1) n = map_of (m_mSubcribeQueues s) n"
    "map_of (m_mSubcribeQueues s1) k \<in> {None, Some a}"
    "\<And>b. b \<noteq> a \<Longrightarrow> m_queues s1 b = m_queues s b" "left_by c (the (m_queues s a)) (m_queues s1 a)"
    "m_NeedAckMessageList s1 = m_NeedAckMessageList s" "m_producerMsgSeqs s1 = m_producerMsgSeqs s"
proof -
  obtain q where q: "m_queues s a = Some q" "mq_strQueueName q = k" using inv_names [OF inv] su by blast
  note left = left_by_Cancel [OF inv_queue [OF inv q(1)], of c]
  have un: "map_of (m_mUnSubcribeQueues s) k = None"
    using core_invD(4) [OF logic_invD [OF inv], of k] su by (cases "map_of (m_mUnSubcribeQueues s) k") auto
  let ?q = "CancelSubscribe q c"
  let ?s = "set_queue a ?q s"
  have inv1: "logic_inv ?s"
    using inv_set_queue [OF inv q(1), of ?q] not_unsubscribed [OF inv q(1)] un q(2) inv_queue [OF inv q(1)] by simp
  show thesis
  proof (cases "length (m_vSubscribeConsumers q) > length (m_vSubscribeConsumers ?q)")
    case False
    with run q left su show thesis by (intro that [OF inv1]) (simp_all add: Let_def)
  next
    case gone: True
    obtain r1 s1 where send: "send_subscribers ?s ?q False = Some (r1, s1)"
      using run q gone by (auto simp: Let_def run_simps)
    note s1 = send_subscribers_sent [OF send]
    note inv2 = sent_inv [OF s1 inv1]
    have f1 [simp]: "m_queues s1 a = Some ?q" "m_mUnSubcribeQueues s1 = m_mUnSubcribeQueues s"
      "m_mSubcribeQueues s1 = m_mSubcribeQueues s"
      using sent_fields [OF s1] by simp_all
    let ?s1 = "s1\<lparr>m_mSubcribeQueues := AList.delete k (m_mSubcribeQueues s)\<rparr>"
    have inv3: "logic_inv ?s1" using inv_del_su [OF inv2, of k] by simp
    show thesis
    proof (cases "m_vSubscribeConsumers ?q = []")
      case False
      with run q gone send left su sent_fields [OF s1] show thesis by (intro that [OF inv2]) (simp_all add: Let_def)
    next
      case empty: True
      show thesis
      proof (cases "mq_bAutoDel q")
        case False
        with run q gone send empty left sent_fields [OF s1] inv_unsubscribed [OF inv3, of k a ?q] show thesis
          by (intro that [of "?s1\<lparr>m_mUnSubcribeQueues := AList.update k a (m_mUnSubcribeQueues s)\<rparr>"])
            (simp_all add: Let_def)
      next
        case True
        let ?c = "set_queue a (ClearMessage ?q) ?s1"
        have inv4: "logic_inv ?c" using inv_clear [OF inv3] by simp
        obtain left s2 where walk: "unbind_exit a (m_mExchanges s1) ?c = Some (left, s2)"
          using run q gone send empty True by (auto simp: Let_def run_simps)
        have u: "sent ?c s2" "unbound a True (m_mExchanges ?c) left"
          using unbind_exit_unbound [OF walk] by simp_all
        obtain s3 where fin: "s3 = s2\<lparr>m_mExchanges := left\<rparr> \<or>
            (\<exists>r. send_deleted (s2\<lparr>m_mExchanges := left\<rparr>) CMD_DELETE_QUEUE k = Some (r, s3))"
          and rest: "exit_queues c rest (free_queue a s3) = Some s'"
          using run q gone send empty True walk by (auto simp: Let_def run_simps)
        have s3: "sent (s2\<lparr>m_mExchanges := left\<rparr>) s3" using fin send_sent(3) by auto
        have "logic_inv (free_queue a s3)"
          using un q(2) u by (intro inv_end_of_queue [OF inv4 _ _ _ u(1) _ s3, where q = "ClearMessage ?q"]) simp_all
        then show thesis
          using rest sent_fields [OF s3] sent_fields [OF u(1)] sent_fields [OF s1] q True
          by (intro that [of "free_queue a s3"]) (simp_all add: free_queue_def left_by_def)
      qed
    qed
  qed
qed

lemma exit_queues_inv:
  "exit_queues c l s = Some s' \<Longrightarrow> logic_inv s \<Longrightarrow> distinct (map fst l) \<Longrightarrow>
   (\<forall>(k, a)\<in>set l. map_of (m_mSubcribeQueues s) k = Some a) \<Longrightarrow> logic_inv s'"
proof (induction l arbitrary: s)
  case (Cons x rest)
  obtain k a where x: "x = (k, a)" by (cases x)
  have "map_of (m_mSubcribeQueues s) k = Some a" using Cons(5) x by simp
  from exit_queue_step [OF Cons(3) this Cons(2) [unfolded x]]
  obtain s1 where s1: "logic_inv s1" "exit_queues c rest s1 = Some s'"
    "\<And>n. n \<noteq> k \<Longrightarrow> map_of (m_mSubcribeQueues s1) n = map_of (m_mSubcribeQueues s) n" by metis
  have "map_of (m_mSubcribeQueues s1) n = Some b" if n: "(n, b) \<in> set rest" for n b
  proof -
    have "n \<noteq> k" using Cons(4) n x by (auto simp: rev_image_eqI)
    then show ?thesis using Cons(5) n s1(3) by auto
  qed
  moreover have "distinct (map fst rest)" using Cons(4) x by simp
  ultimately show ?case using Cons(1) [OF s1(2,1)] by blast
qed simp

lemma requeue_loop_inv:
  "requeue_loop c ms s = Some (left, s') \<Longrightarrow> logic_inv s \<Longrightarrow> logic_inv s'"
proof (induction ms arbitrary: s left)
  case (Cons m ms)
  have add: "logic_inv (set_queue a (AddMessageFront q m) s)" if "m_queues s a = Some q" for a q
    using inv_same_subs [OF Cons(3) that, of "AddMessageFront q m"] inv_queue [OF Cons(3) that] by simp
  from Cons(2) Cons(1) [OF _ Cons(3)] Cons(1) [OF _ add] show ?case
    by (auto simp: run_simps split: if_split_asm)
qed simp

lemma OnClientExit_inv:
  assumes inv: "logic_inv s" and run: "OnClientExit s c = Some (r, t, s')"
  shows "logic_inv s'"
proof -
  let ?s = "s\<lparr>m_producerMsgSeqs := forget_seqs (to_string c) (m_producerMsgSeqs s)\<rparr>"
  obtain s1 left s2 where run1: "exit_queues c (m_mSubcribeQueues s) ?s = Some s1"
    and run2: "requeue_loop c (m_NeedAckMessageList s1) s1 = Some (left, s2)"
    and s': "s' = s2\<lparr>m_NeedAckMessageList := left\<rparr>"
    using run by (auto simp: OnClientExit_def Let_def run_simps)
  have "distinct (map fst (m_mSubcribeQueues s))" by (rule core_invD(2) [OF logic_invD [OF inv]])
  then have "logic_inv s1"
    using inv by (intro exit_queues_inv [OF run1]) (auto intro: map_of_is_SomeI)
  from requeue_loop_inv [OF run2 this] s' show ?thesis by simp
qed

section \<open>The dispatcher\<close>

text \<open>\<open>Q\<close> holds after every request if it holds after every handler.\<close>

lemma ProcessRecvData_cases:
  assumes run: "ProcessRecvData s b n c = Some (r, c', t, s')"
  obtains (bad) "s' = s" "r = ERR_LOGIC_SERVER_PROCESS" "t = []"
  | (exchange) k l where "OnCreateExchange s b k l = Some (r, t, s')"
  | (queue) k l where "OnCreateQueue s b k l = Some (r, t, s')"
  | (binding) k l where "OnCreateBinding s b k l = Some (r, t, s')"
  | (publish) k l where "OnPublishMessage s b k l c' = Some (r, t, s')"
  | (recv) k l where "OnRecvMessage s b k l c' = Some (r, t, s')"
  | (subscribe) k l where "OnCreateSubscribe s b k l c' = Some (r, t, s')"
  | (del_exchange) k l where "OnDeleteExchange s b k l = Some (r, t, s')"
  | (del_queue) k l where "OnDeleteQueue s b k l = Some (r, t, s')"
  | (cancel) k l where "OnCancelSubscribe s b k l c' = Some (r, t, s')"
  | (ack) k l where "OnClientAck s b k l c' = Some (r, t, s')"
  | (exit) "OnClientExit s c' = Some (r, t, s')"
proof -
  obtain k len where "ReadShort b 0 = Some (k, len)"
    using run by (auto simp: ProcessRecvData_def bind_eq_Some_conv)
  show thesis
  proof (cases "uint len > n")
    case True
    with run \<open>ReadShort b 0 = _\<close> show thesis by (intro bad) (auto simp: ProcessRecvData_def)
  next
    case False
    from run \<open>ReadShort b 0 = _\<close> False show thesis
      by (simp add: ProcessRecvData_def Let_def bind_eq_Some_conv)
        (elim exE conjE, simp only: if_eq_Some prod.inject option.inject,
         (elim disjE conjE; hypsubst; (erule that(2-) | (rule bad; simp)))+)
  qed
qed

lemma ProcessRecvData_keeps:
  assumes inv: "logic_inv s" and run: "ProcessRecvData s b n c = Some (r, c', t, s')"
  shows "logic_inv s'"
  using run
  by (cases rule: ProcessRecvData_cases)
    (simp add: inv,
     (erule OnCreateExchange_inv [OF inv] OnCreateQueue_inv [OF inv] OnCreateBinding_inv [OF inv]
        OnPublishMessage_inv [OF inv] OnRecvMessage_inv [OF inv] OnCreateSubscribe_inv [OF inv]
        OnDeleteExchange_inv [OF inv] OnDeleteQueue_inv [OF inv] OnCancelSubscribe_inv [OF inv]
        OnClientAck_inv [OF inv] OnClientExit_inv [OF inv])+)

end
