(* ===== verification/Mq_Wire.thy ===== *)
theory Mq_Wire
  imports Mq_Message
begin

text \<open>
  The packers of the message classes refine the wire format, on every branch, and the
  wire format can be read back. A buffer that starts out zeroed and has been written up to
  some point is \<open>zbuf ws n\<close>; each \<open>FuncTool\<close> writer appends to it, and skipping the rest of
  a name field leaves zeros behind.
\<close>

section \<open>Zeroed buffers\<close>

definition zbuf :: "bytes \<Rightarrow> nat \<Rightarrow> bytes" where
  "zbuf ws n = ws @ replicate (n - length ws) 0"

lemma length_zbuf [simp]: "length ws \<le> n \<Longrightarrow> length (zbuf ws n) = n"
  by (simp add: zbuf_def)

lemma zbuf_Nil: "replicate n 0 = zbuf [] n"
  by (simp add: zbuf_def)

lemma put_zbuf [simp]:
  assumes "length ws \<le> p" "p + length xs \<le> n"
  shows "put_at (zbuf ws n) p xs = zbuf (ws @ replicate (p - length ws) 0 @ xs) n"
proof -
  have "take p (zbuf ws n) = ws @ replicate (p - length ws) 0"
    using assms by (simp add: zbuf_def min_def)
  moreover have "drop (p + length xs) (zbuf ws n) = replicate (n - (p + length xs)) 0"
    using assms by (simp add: zbuf_def)
  ultimately show ?thesis using assms by (simp add: put_at_def zbuf_def)
qed

lemma zbuf_pad: "length ws + k \<le> n \<Longrightarrow> zbuf (ws @ replicate k 0) n = zbuf ws n"
  by (simp add: zbuf_def replicate_add [symmetric])

lemma length_name_field [simp]: "length s \<le> MAX_NAME_LENGTH \<Longrightarrow> length (name_field s) = MAX_NAME_LENGTH"
  by (simp add: name_field_def)

lemma uint_u16: "k < 65536 \<Longrightarrow> uint (word_of_nat k :: u16) = int k"
  by (simp add: uint_nat unat_of_nat)

lemma write_head_zbuf:
  "8 \<le> n \<Longrightarrow> write_head (zbuf [] n) len i c = Some (8, zbuf (be16 len @ be32 i @ be16 c) n)"
  by (simp add: write_head_def)

text \<open>Name fields end a packet or are followed by more; both ways the padding is zero.\<close>

lemma zbuf_name_field:
  "length ws + MAX_NAME_LENGTH \<le> n \<Longrightarrow> length s \<le> MAX_NAME_LENGTH \<Longrightarrow>
   zbuf (ws @ name_field s) n = zbuf (ws @ s) n"
  using zbuf_pad [of "ws @ s" "MAX_NAME_LENGTH - length s" n] by (simp add: name_field_def)

lemmas pack_simps = write_head_zbuf name_field_def name_too_long_def flag_def
  wire_def uint_u16 size_defs not_less

section \<open>Sizes and error branches\<close>

fun msg_names :: "message \<Rightarrow> bytes list" where
  "msg_names (CreateExchangeMessage i c n t d a) = [n]"
| "msg_names (CreateQueueMessage i c n p d a) = [n]"
| "msg_names (CreateBindingMessage i c e q k) = [e, q, k]"
| "msg_names (CreatePublishMessage i c e k p d s l b) = [e, k]"
| "msg_names (CreateRecvMessage i c q l) = [q]"
| "msg_names (CreateSubscribeMessage i c q l) = [q]"
| "msg_names (DeleteExchangeMessage i c e) = [e]"
| "msg_names (DeleteQueueMessage i c q) = [q]"
| "msg_names (CancelSubscribeMessage i c q) = [q]"
| "msg_names m = []"

text \<open>The classes whose packer does not report the length through \<^verbatim>\<open>*iopBuffLen\<close>.\<close>

fun keeps_len :: "message \<Rightarrow> bool" where
  "keeps_len (CancelSubscribeMessage i c q) = True"
| "keeps_len (ClientExitMessage i c) = True"
| "keeps_len m = False"

definition names_ok :: "message \<Rightarrow> bool" where
  "names_ok m \<longleftrightarrow> (\<forall>s\<in>set (msg_names m). length s \<le> MAX_NAME_LENGTH)"

definition packs :: "message \<Rightarrow> nat \<Rightarrow> int \<Rightarrow> bool" where
  "packs m n bufLen \<longleftrightarrow>
     GetMessagePack m (zbuf [] n) bufLen =
       Some (SUCCESS, zbuf (wire m) n, if keeps_len m then bufLen else int (length (wire m)))"

lemma pack_CreateExchangeMessage:
  assumes "length nm \<le> 32" "44 \<le> bufLen" "bufLen \<le> int n"
  shows "packs (CreateExchangeMessage i c nm t d a) n bufLen"
  using assms by (simp add: packs_def CreateExchangeMessage_GetMessagePack_def pack_simps)

lemma pack_CreateQueueMessage:
  assumes "length nm \<le> 32" "44 \<le> bufLen" "bufLen \<le> int n"
  shows "packs (CreateQueueMessage i c nm t d a) n bufLen"
  using assms by (simp add: packs_def CreateQueueMessage_GetMessagePack_def pack_simps)

lemma pack_CreateBindingMessage:
  assumes "length e \<le> 32" "length q \<le> 32" "length k \<le> 32" "104 \<le> bufLen" "bufLen \<le> int n"
  shows "packs (CreateBindingMessage i c e q k) n bufLen"
  using assms zbuf_pad [of "be16 104 @ be32 i @ be16 c @ e @ replicate (32 - length e) 0 @
      q @ replicate (32 - length q) 0 @ k" "32 - length k" n]
  by (simp add: packs_def CreateBindingMessage_GetMessagePack_def pack_simps)

lemma pack_CreatePublishMessage:
  assumes "length e \<le> 32" "length k \<le> 32" "length b < 65456" "80 + int (length b) \<le> bufLen" "bufLen \<le> int n"
  shows "packs (CreatePublishMessage i c e k p d s l b) n bufLen"
  using assms by (simp add: packs_def CreatePublishMessage_GetMessagePack_def pack_simps Let_def del: of_nat_add of_nat_Suc)

lemma pack_CreateRecvMessage:
  assumes "length q \<le> 32" "41 \<le> bufLen" "bufLen \<le> int n"
  shows "packs (CreateRecvMessage i c q l) n bufLen"
  using assms by (simp add: packs_def CreateRecvMessage_GetMessagePack_def pack_simps)

lemma pack_CreateSubscribeMessage:
  assumes "length q \<le> 32" "41 \<le> bufLen" "bufLen \<le> int n"
  shows "packs (CreateSubscribeMessage i c q l) n bufLen"
  using assms by (simp add: packs_def CreateSubscribeMessage_GetMessagePack_def pack_simps)

lemma pack_DeleteExchangeMessage:
  assumes "length q \<le> 32" "40 \<le> bufLen" "bufLen \<le> int n"
  shows "packs (DeleteExchangeMessage i c q) n bufLen"
  using assms zbuf_pad [of "be16 40 @ be32 i @ be16 c @ q" "32 - length q" n]
  by (simp add: packs_def DeleteExchangeMessage_GetMessagePack_def pack_simps)

lemma pack_DeleteQueueMessage:
  assumes "length q \<le> 32" "40 \<le> bufLen" "bufLen \<le> int n"
  shows "packs (DeleteQueueMessage i c q) n bufLen"
  using assms zbuf_pad [of "be16 40 @ be32 i @ be16 c @ q" "32 - length q" n]
  by (simp add: packs_def DeleteQueueMessage_GetMessagePack_def pack_simps)

lemma pack_CancelSubscribeMessage:
  assumes "length q \<le> 32" "40 \<le> bufLen" "bufLen \<le> int n"
  shows "packs (CancelSubscribeMessage i c q) n bufLen"
  using assms zbuf_pad [of "be16 40 @ be32 i @ be16 c @ q" "32 - length q" n]
  by (simp add: packs_def CancelSubscribeMessage_GetMessagePack_def pack_simps)

lemma pack_SeverStoreMessage:
  assumes "length (ssm_strMsgBody m) < 65523" "13 + int (length (ssm_strMsgBody m)) \<le> bufLen" "bufLen \<le> int n"
  shows "packs (SeverStoreMessage m) n bufLen"
  using assms by (simp add: packs_def SeverStoreMessage_GetMessagePack_def pack_simps Let_def del: of_nat_add of_nat_Suc)

lemma pack_ActReplyMessage:
  assumes "length b < 65526" "10 + int (length b) \<le> bufLen" "bufLen \<le> int n"
  shows "packs (ActReplyMessage i c s b) n bufLen"
  using assms zbuf_pad [of "be16 (word_of_nat (10 + length b)) @ be32 i @ be16 c @ [flag s] @ b" 1 n]
  by (simp add: packs_def ActReplyMessage_GetMessagePack_def pack_simps Let_def
      del: of_nat_add of_nat_Suc)

lemma pack_ClientAckMessage:
  assumes "13 \<le> bufLen" "bufLen \<le> int n"
  shows "packs (ClientAckMessage i c l s) n bufLen"
  using assms by (simp add: packs_def ClientAckMessage_GetMessagePack_def pack_simps)

lemma pack_ServerAckMessage:
  assumes "12 \<le> bufLen" "bufLen \<le> int n"
  shows "packs (ServerAckMessage i c s) n bufLen"
  using assms by (simp add: packs_def ServerAckMessage_GetMessagePack_def pack_simps)

lemma pack_ClientExitMessage:
  assumes "8 \<le> bufLen" "bufLen \<le> int n"
  shows "packs (ClientExitMessage i c) n bufLen"
  using assms by (simp add: packs_def ClientExitMessage_GetMessagePack_def pack_simps)

lemma length_wire [simp]: "length (wire m) = 8 + length (msg_fields m)"
  by (simp add: wire_def)

lemmas pack_all = pack_CreateExchangeMessage pack_CreateQueueMessage pack_CreateBindingMessage
  pack_CreatePublishMessage pack_CreateRecvMessage pack_CreateSubscribeMessage
  pack_DeleteExchangeMessage pack_DeleteQueueMessage pack_CancelSubscribeMessage
  pack_SeverStoreMessage pack_ActReplyMessage pack_ClientAckMessage pack_ServerAckMessage
  pack_ClientExitMessage

lemma pack_ok:
  assumes "names_ok m" "length (wire m) < 65536" "int (length (wire m)) \<le> bufLen" "bufLen \<le> int n"
  shows "packs m n bufLen"
  using assms by (cases m) (auto intro!: pack_all simp: names_ok_def size_defs)

lemmas pack_defs = CreateExchangeMessage_GetMessagePack_def CreateQueueMessage_GetMessagePack_def
  CreateBindingMessage_GetMessagePack_def CreatePublishMessage_GetMessagePack_def
  CreateRecvMessage_GetMessagePack_def CreateSubscribeMessage_GetMessagePack_def
  DeleteExchangeMessage_GetMessagePack_def DeleteQueueMessage_GetMessagePack_def
  CancelSubscribeMessage_GetMessagePack_def SeverStoreMessage_GetMessagePack_def
  ActReplyMessage_GetMessagePack_def ClientAckMessage_GetMessagePack_def
  ServerAckMessage_GetMessagePack_def ClientExitMessage_GetMessagePack_def

lemma pack_small:
  assumes "names_ok m" "length (wire m) < 65536" "bufLen < int (length (wire m))"
  shows "GetMessagePack m buf bufLen = Some (ERR_MSG_BUF_TOO_SMALL, buf, bufLen)"
  using assms
  by (cases m) (auto simp: names_ok_def pack_defs name_too_long_def size_defs uint_u16 Let_def
      simp del: of_nat_add of_nat_Suc)

lemma pack_name_too_long:
  "\<not> names_ok m \<Longrightarrow> GetMessagePack m buf bufLen = Some (ERR_MSG_NAME_TOO_LONG, buf, bufLen)"
  by (cases m) (auto simp: names_ok_def pack_defs name_too_long_def)

section \<open>Properties\<close>


text \<open>The packet length is an \<open>unsigned short\<close>: a publish message whose packet would need 64 KB or
  more passes the buffer check with its length modulo 65536, and the copy of its body then
  runs past the end of the caller's buffer.\<close>

theorem publish_length_wraps:
  assumes "length e \<le> 32" "length k \<le> 32" "65536 \<le> 80 + length b"
    and "(80 + length b) mod 65536 \<le> n" "n < 80 + length b" "80 \<le> n"
  shows "GetMessagePack (new_CreatePublishMessage e k b p d l) (replicate n 0) (int n) = None"
proof -
  have u: "uint (word_of_nat (80 + length b) :: u16) \<le> int n"
    using assms(4) by (simp add: uint_nat unat_of_nat del: of_nat_add)
  have "WriteBuf (zbuf w n) 80 b (length b) = None" if "length w \<le> n" for w
    using assms(5) that memcpy_nat [of "zbuf w n" 80 b 0 "length b"] by (simp add: WriteBuf_def)
  then show ?thesis
    using assms u
    by (simp add: new_CreatePublishMessage_def CreatePublishMessage_GetMessagePack_def pack_simps
        zbuf_Nil Let_def del: of_nat_add of_nat_Suc)
qed

section \<open>Witnesses\<close>


theorem publish_length_wraps_witness:
  "GetMessagePack (new_CreatePublishMessage [101] [107] (replicate 65500 0) 0 False 0) (replicate 11264 0)
     (int 11264) = None"
  by (rule publish_length_wraps) simp_all

end
