(* ===== verification/Logic_Publish.thy ===== *)
theory Logic_Publish
  imports Logic_Preserve Mq_Wire
begin

text \<open>
  From a client's packet to the queues: the dispatcher decodes what the packers write, and a
  published message reaches exactly the queues that the exchange routes its key to.
\<close>

section \<open>Decoding\<close>

text \<open>A name that survives the round trip: shorter than its field and without a NUL.\<close>

definition good_name :: "bytes \<Rightarrow> bool" where
  "good_name s \<longleftrightarrow> length s < MAX_NAME_LENGTH \<and> 0 \<notin> set s"

lemma read_name_field:
  assumes "get_at b p 32 = name_field s" "p + 32 \<le> length b" "good_name s"
  shows "read_name b p = Some (32, s)"
  using assms by (simp add: read_name_def size_defs name_field_def good_name_def)

lemma length_field_of_good [simp]: "good_name s \<Longrightarrow> length (name_field s) = 32"
  by (simp add: good_name_def name_field_def size_defs)

lemma head_read:
  assumes "length (wire m) < 65536"
  shows "ReadShort (wire m @ pad) 0 = Some (2, word_of_nat (length (wire m)))"
    "ReadInt (wire m @ pad) 2 = Some (4, msg_index m)"
    "ReadShort (wire m @ pad) 6 = Some (2, msg_cmd m)"
  by (simp_all add: wire_def get_at_def)

text \<open>What the dispatcher does with a packet that a packer has made.\<close>

definition handle :: "logic_server \<Rightarrow> bytes \<Rightarrow> int \<Rightarrow> i32 \<Rightarrow> u16 \<Rightarrow> handled" where
  "handle s b len c cmd =
     (if cmd = CMD_CREATE_EXCNANGE then OnCreateExchange s b 8 len
      else if cmd = CMD_CREATE_QUEUE then OnCreateQueue s b 8 len
      else if cmd = CMD_CREATE_BINDING then OnCreateBinding s b 8 len
      else if cmd = CMD_CREATE_PUBLISH then OnPublishMessage s b 8 len c
      else if cmd = CMD_CREATE_RECV then OnRecvMessage s b 8 len c
      else if cmd = CMD_CREATE_SUBCRIBE then OnCreateSubscribe s b 8 len c
      else if cmd = CMD_DELETE_EXCHANGE then OnDeleteExchange s b 8 len
      else if cmd = CMD_DELETE_QUEUE then OnDeleteQueue s b 8 len
      else if cmd = CMD_CANCEL_SUBCRIBE then OnCancelSubscribe s b 8 len c
      else if cmd = CMD_CLIENT_ACK_MESSAGE then OnClientAck s b 8 len c
      else if cmd = CMD_CLIENT_EXIT then OnClientExit s c
      else Some (ERR_LOGIC_SERVER_PROCESS, [], s))"

lemma ProcessRecvData_wire:
  assumes "length (wire m) < 65536"
  shows "ProcessRecvData s (wire m @ pad) (int (length (wire m))) c =
    map_option (\<lambda>(r, t, s'). (r, msg_index m, t, s'))
      (handle s (wire m @ pad) (int (length (msg_fields m))) (msg_index m) (msg_cmd m))"
proof -
  have "uint (word_of_nat (length (wire m)) :: u16) = int (length (wire m))"
    using assms by (intro uint_u16)
  then have "ProcessRecvData s (wire m @ pad) (int (length (wire m))) c =
    do { (r, t, s') \<leftarrow> handle s (wire m @ pad) (int (length (msg_fields m))) (msg_index m) (msg_cmd m);
         Some (r, msg_index m, t, s') }"
    using head_read [OF assms, of pad]
    by (simp add: ProcessRecvData_def Let_def handle_def del: length_wire) (simp add: algebra_simps)
  then show ?thesis
    by (cases "handle s (wire m @ pad) (int (length (msg_fields m))) (msg_index m) (msg_cmd m)") auto
qed

abbreviation publish_packet ::
  "i32 \<Rightarrow> bytes \<Rightarrow> bytes \<Rightarrow> i16 \<Rightarrow> bool \<Rightarrow> i32 \<Rightarrow> byte \<Rightarrow> bytes \<Rightarrow> message" where
  "publish_packet c x k pr d sq lv body \<equiv> CreatePublishMessage c CMD_CREATE_PUBLISH x k pr d sq lv body"

lemma publish_read_any:
  assumes "good_name x" "good_name k"
    and b: "b = be16 v @ be32 w @ be16 cmd @ msg_fields (publish_packet c x k pr d sq lv body) @ pad"
  shows "read_name b 8 = Some (32, x)" "read_name b 40 = Some (32, k)" "ReadShort b 72 = Some (2, pr)"
    "ReadBool b 74 = Some (1, d)" "ReadInt b 75 = Some (4, sq)" "ReadByte b 79 = Some (1, lv)"
    "mem_read b 80 (length body) = Some body"
proof -
  have l: "length (name_field x) = 32" "length (name_field k) = 32" using assms(1,2) by simp_all
  show "read_name b 8 = Some (32, x)" "read_name b 40 = Some (32, k)"
    by (rule read_name_field; simp add: b l get_at_def assms(1,2))+
  show "ReadShort b 72 = Some (2, pr)" "ReadBool b 74 = Some (1, d)" "ReadInt b 75 = Some (4, sq)"
    "ReadByte b 79 = Some (1, lv)" "mem_read b 80 (length body) = Some body"
    by (simp_all add: b l get_at_def nth_append flag_def)
qed

lemma publish_read:
  assumes "good_name x" "good_name k" and b: "b = wire (publish_packet c x k pr d sq lv body) @ pad"
  shows "read_name b 8 = Some (32, x)" "read_name b 40 = Some (32, k)" "ReadShort b 72 = Some (2, pr)"
    "ReadBool b 74 = Some (1, d)" "ReadInt b 75 = Some (4, sq)" "ReadByte b 79 = Some (1, lv)"
    "mem_read b 80 (length body) = Some body"
  by (rule publish_read_any [OF assms(1,2)]; simp only: b wire_def append_assoc)+

section \<open>Sending never gets stuck\<close>

lemma to_persis_returns:
  assumes "logic_inv s" "0 \<le> n" "n \<le> int (length b)" "n < 2 ^ 30"
  shows "\<exists>r s'. to_persis s b n = Some (r, s') \<and> sent s s'"
proof -
  have "shm_ok (m_pQueueToPersis s)" using assms(1) by (simp add: logic_inv_def)
  from Enqueue_returns [OF this assms(2-)] obtain r q where "Enqueue (m_pQueueToPersis s) b n = Some (r, q)" by blast
  then have run: "to_persis s b n = Some (r, s\<lparr>m_pQueueToPersis := q\<rparr>)" by (simp add: to_persis_def)
  from run to_persis_sent [OF run assms(2,4)] show ?thesis by blast
qed

lemma to_connect_returns:
  assumes "logic_inv s" "0 \<le> n" "n \<le> int (length b)" "n < 2 ^ 30"
  shows "\<exists>r s'. to_connect s b n = Some (r, s') \<and> sent s s'"
proof -
  have "shm_ok (m_pQueueToConnect s)" using assms(1) by (simp add: logic_inv_def)
  from Enqueue_returns [OF this assms(2-)] obtain r q where "Enqueue (m_pQueueToConnect s) b n = Some (r, q)" by blast
  then have run: "to_connect s b n = Some (r, s\<lparr>m_pQueueToConnect := q\<rparr>)" by (simp add: to_connect_def)
  from run to_connect_sent [OF run assms(2,4)] show ?thesis by blast
qed

lemma server_ack_packed:
  "GetMessagePack (ServerAckMessage i c sq) (replicate MAX_SERVER_PACKAGE_LENGTH 0) (int MAX_SERVER_PACKAGE_LENGTH)
    = Some (SUCCESS, zbuf (wire (ServerAckMessage i c sq)) MAX_SERVER_PACKAGE_LENGTH, 12)"
  using pack_ServerAckMessage [of "int MAX_SERVER_PACKAGE_LENGTH" MAX_SERVER_PACKAGE_LENGTH i c sq]
  by (simp add: packs_def zbuf_Nil size_defs)

lemma durable_packed:
  assumes "length (ssm_strQueueName m) \<le> 32" "length (ssm_strMsgBody m) < 65456"
  shows "\<exists>r b l. SerializeDurableToString m pack_buffer (int MAX_CLINT_PACKAGE_LENGTH) = Some (r, b, l) \<and>
    length b = MAX_CLINT_PACKAGE_LENGTH \<and> 0 \<le> l \<and> l \<le> int MAX_CLINT_PACKAGE_LENGTH"
proof -
  let ?n = "42 + length (ssm_strMsgBody m)"
  have u: "uint (word_of_nat ?n :: u16) = int ?n" using assms(2) by (intro uint_u16) simp
  show ?thesis
  proof (cases "?n \<le> MAX_CLINT_PACKAGE_LENGTH")
    case True
    then have "\<exists>b l. SerializeDurableToString m pack_buffer (int MAX_CLINT_PACKAGE_LENGTH) = Some (SUCCESS, b, int ?n) \<and>
        length b = MAX_CLINT_PACKAGE_LENGTH"
      using u assms by (simp add: SerializeDurableToString_def pack_buffer_def size_defs Let_def del: of_nat_add)
    with True show ?thesis by fastforce
  next
    case False
    with u show ?thesis
      by (simp add: SerializeDurableToString_def pack_buffer_def size_defs Let_def del: of_nat_add)
  qed
qed

section \<open>What a publication changes\<close>

definition bodies :: "message_queue \<Rightarrow> bytes multiset" where
  "bodies q = image_mset ssm_strMsgBody (stored q)"

lemma bodies_AddMessage [simp]: "bodies (AddMessage q m) = add_mset (ssm_strMsgBody m) (bodies q)"
  by (simp add: bodies_def stored_def AddMessage_def pq_push_def cap_priority_def)

lemma bodies_next [simp]: "bodies (snd (GetNextDaurableIndex q)) = bodies q"
  by (simp add: bodies_def stored_def GetNextDaurableIndex_def)

text \<open>\<open>gains M\<close>: a queue has got the bodies \<open>M\<close> in addition, and nothing else changed that a client
  could see.\<close>

fun gains :: "bytes multiset \<Rightarrow> message_queue option \<Rightarrow> message_queue option \<Rightarrow> bool" where
  "gains M (Some q) (Some q') \<longleftrightarrow> bodies q' = bodies q + M \<and>
     mq_strQueueName q' = mq_strQueueName q \<and> m_vSubscribeConsumers q' = m_vSubscribeConsumers q"
| "gains M None None = True"
| "gains M _ _ = False"

lemma gains_refl [simp]: "gains {#} q q"
  by (cases q) simp_all

lemma gains_trans: "gains M q q' \<Longrightarrow> gains N q' r \<Longrightarrow> gains (M + N) q r"
  by (cases q; cases q'; cases r) (simp_all add: ac_simps)

text \<open>\<open>delivered body qs s s'\<close>: every queue of \<open>s\<close> has gained as many copies of \<open>body\<close> as \<open>qs\<close>
  lists it, and names, bindings and outstanding messages are the same.\<close>

definition delivered :: "bytes \<Rightarrow> addr list \<Rightarrow> logic_server \<Rightarrow> logic_server \<Rightarrow> bool" where
  "delivered body qs s s' \<longleftrightarrow>
     (\<forall>a. gains (replicate_mset (count_list qs a) body) (m_queues s a) (m_queues s' a)) \<and>
     m_mUnSubcribeQueues s' = m_mUnSubcribeQueues s \<and> m_mSubcribeQueues s' = m_mSubcribeQueues s \<and>
     m_mExchanges s' = m_mExchanges s \<and> m_NeedAckMessageList s' = m_NeedAckMessageList s"

lemma delivered_refl: "delivered body [] s s"
  by (simp add: delivered_def)

lemma delivered_sent: "delivered body qs s s1 \<Longrightarrow> sent s1 s2 \<Longrightarrow> delivered body qs s s2"
  using sent_fields [of s1 s2] by (simp add: delivered_def)

lemma delivered_step:
  assumes q: "m_queues s a = Some q" and s1: "sent s s1" and q': "gains {#body#} (Some q) (Some q')"
    and rest: "delivered body qs (set_queue a q' s1) s'"
  shows "delivered body (a # qs) s s'"
proof -
  have "gains (replicate_mset (count_list (a # qs) b) body) (m_queues s b) (m_queues s' b)" for b
  proof (cases "b = a")
    case True
    then have "gains (replicate_mset (count_list qs b) body) (Some q') (m_queues s' b)"
      using rest unfolding delivered_def by (metis fun_upd_same set_queue_simps(4))
    from gains_trans [OF q' this] True q show ?thesis by simp
  next
    case False
    then have "gains (replicate_mset (count_list qs b) body) (m_queues s1 b) (m_queues s' b)"
      using rest unfolding delivered_def by (metis fun_upd_other set_queue_simps(4))
    then show ?thesis using False sent_fields(1) [OF s1] by simp
  qed
  then show ?thesis using rest sent_fields [OF s1] by (simp add: delivered_def)
qed

lemma publish_loop_delivers:
  assumes "length body < 65456"
  shows "logic_inv s \<Longrightarrow> set as \<subseteq> dom (m_queues s) \<Longrightarrow>
    \<exists>s'. publish_loop body pr d as s = Some s' \<and> delivered body as s s' \<and> logic_inv s' \<and>
      m_producerMsgSeqs s' = m_producerMsgSeqs s \<and> m_producerLastMsgSeq s' = m_producerLastMsgSeq s"
proof (induction as arbitrary: s)
  case Nil
  then show ?case by (simp add: delivered_refl)
next
  case (Cons a rest)
  then obtain q where q: "m_queues s a = Some q" by auto
  have len: "length (mq_strQueueName q) \<le> 32"
    using core_invD(8) [OF logic_invD [OF Cons(2)] q] by (simp add: size_defs)
  obtain m q' s1 where step: "publish_loop body pr d (a # rest) s =
      publish_loop body pr d rest (set_queue a (AddMessage q' m) s1)" and s1: "sent s s1"
    and q': "q' = q \<or> q' = snd (GetNextDaurableIndex q)" and m: "ssm_strMsgBody m = body"
  proof (cases "d \<and> mq_bDurable q")
    case True
    let ?m = "(new_SeverStoreMessage body pr d)\<lparr>ssm_iDurableIndex := mq_iDurableIndex q, ssm_strQueueName := mq_strQueueName q\<rparr>"
    obtain r b l where ser: "SerializeDurableToString ?m pack_buffer (int MAX_CLINT_PACKAGE_LENGTH) = Some (r, b, l)"
      "length b = MAX_CLINT_PACKAGE_LENGTH" "0 \<le> l" "l \<le> int MAX_CLINT_PACKAGE_LENGTH"
      using durable_packed [of ?m] len assms by (auto simp: new_SeverStoreMessage_def)
    obtain r1 s1 where "to_persis s b l = Some (r1, s1)" "sent s s1"
      using to_persis_returns [OF Cons(2), of l b] ser pack_sizes(2) by auto
    with True q ser show thesis
      by (intro that [of "snd (GetNextDaurableIndex q)" ?m s1])
        (simp_all add: GetNextDaurableIndex_def Let_def new_SeverStoreMessage_def)
  next
    case False
    with q show thesis
      by (intro that [of q "new_SeverStoreMessage body pr d" s]) (auto simp: new_SeverStoreMessage_def)
  qed
  let ?s = "set_queue a (AddMessage q' m) s1"
  have inv: "logic_inv ?s"
    using q' q inv_queue [OF Cons(2) q] sent_inv [OF s1 Cons(2)] sent_fields(1) [OF s1]
    by (intro inv_same_subs [of _ _ q]) auto
  have "set rest \<subseteq> dom (m_queues ?s)" using Cons(3) sent_fields(1) [OF s1] by auto
  from Cons(1) [OF inv this] obtain s' where s': "publish_loop body pr d rest ?s = Some s'"
    "delivered body rest ?s s'" "logic_inv s'" "m_producerMsgSeqs s' = m_producerMsgSeqs ?s"
    "m_producerLastMsgSeq s' = m_producerLastMsgSeq ?s" by blast
  moreover have "delivered body (a # rest) s s'"
    using q' m by (intro delivered_step [OF q s1 _ s'(2)]) auto
  ultimately show ?case using step sent_fields [OF s1] by auto
qed

lemma same_last: "s\<lparr>m_producerMsgSeqs := X, m_producerLastMsgSeq := m_producerLastMsgSeq s\<rparr> = s\<lparr>m_producerMsgSeqs := X\<rparr>"
  by (cases s) simp

lemma same_seqs: "s\<lparr>m_producerMsgSeqs := m_producerMsgSeqs s\<rparr> = s"
  by (cases s) simp

lemma publish_ack_returns:
  assumes inv: "logic_inv s"
  shows "\<exists>s1 X Y. publish_ack s lv c sq k = Some (s1\<lparr>m_producerMsgSeqs := X, m_producerLastMsgSeq := Y\<rparr>) \<and>
    sent s s1 \<and> set X = set (m_producerMsgSeqs s) \<union>
      (if lv = PRODUCER_SINGLE_ACK \<or> lv = PRODUCER_MUTIL_ACK then {k} else {})"
proof (cases "lv = PRODUCER_SINGLE_ACK")
  case True
  let ?b = "zbuf (wire (ServerAckMessage c CMD_SERVER_ACK_MESSAGE sq)) MAX_SERVER_PACKAGE_LENGTH"
  let ?X = "List.insert k (m_producerMsgSeqs s)"
  obtain r s1 where s1: "to_connect s ?b 12 = Some (r, s1)" "sent s s1"
    using to_connect_returns [OF inv, of 12 ?b] by (auto simp: size_defs)
  have "publish_ack s lv c sq k = Some (s1\<lparr>m_producerMsgSeqs := ?X\<rparr>)"
    using True s1(1) server_ack_packed [of c CMD_SERVER_ACK_MESSAGE sq] sent_fields(8) [OF s1(2)]
    by (simp add: publish_ack_def ack_defs)
  then have "publish_ack s lv c sq k =
      Some (s1\<lparr>m_producerMsgSeqs := ?X, m_producerLastMsgSeq := m_producerLastMsgSeq s1\<rparr>)"
    by (simp only: same_last)
  moreover have "set ?X = set (m_producerMsgSeqs s) \<union> {k}" by auto
  ultimately show ?thesis using True s1(2) by fastforce
next
  case False
  show ?thesis
  proof (cases "lv = PRODUCER_MUTIL_ACK")
    case True
    let ?X = "List.insert k (m_producerMsgSeqs s)" and ?Y = "AList.update c sq (m_producerLastMsgSeq s)"
    have "publish_ack s lv c sq k = Some (s\<lparr>m_producerMsgSeqs := ?X, m_producerLastMsgSeq := ?Y\<rparr>)"
      using True by (simp add: publish_ack_def ack_defs)
    moreover have "set ?X = set (m_producerMsgSeqs s) \<union> {k}" by auto
    ultimately show ?thesis using True sent_refl by fastforce
  next
    case other: False
    have "publish_ack s lv c sq k =
        Some (s\<lparr>m_producerMsgSeqs := m_producerMsgSeqs s, m_producerLastMsgSeq := m_producerLastMsgSeq s\<rparr>)"
      using False other by (simp add: publish_ack_def same_last same_seqs)
    then show ?thesis using False other sent_refl by fastforce
  qed
qed

text \<open>The three outcomes of a publication, for the handler.\<close>

lemma OnPublishMessage_outcome:
  assumes inv: "logic_inv s" and names: "good_name x" "good_name k" and len: "length body < 65456"
    and b: "b = wire (publish_packet c x k pr d sq lv body) @ pad"
    and l: "l = int (length (msg_fields (publish_packet c x k pr d sq lv body)))"
  defines "run \<equiv> OnPublishMessage s b 8 l c" and "key \<equiv> msg_seq_key c sq"
  shows "if 0 < lv \<and> key \<in> set (m_producerMsgSeqs s) then \<exists>s'. run = Some (SUCCESS, [], s') \<and> sent s s'
    else case map_of (m_mExchanges s) x of
      None \<Rightarrow> run = Some (ERR_LOGIC_SERVER_PUBLISH_MESSAGE, RE_EXCHANGE_NOT_EXIST @ x, s)
    | Some e \<Rightarrow>
        (let qs = snd (FindBindingQueue e k [])
         in if qs = [] then run = Some (ERR_LOGIC_SERVER_PUBLISH_MESSAGE, RE_FIT_QUEUE_NOT_EXIST @ k, s)
            else \<exists>s'. run = Some (SUCCESS, [], s') \<and> delivered body qs s s' \<and> logic_inv s' \<and>
              set (m_producerMsgSeqs s') = set (m_producerMsgSeqs s) \<union>
                (if lv = PRODUCER_SINGLE_ACK \<or> lv = PRODUCER_MUTIL_ACK then {key} else {}))"
proof -
  note [simp] = publish_read [OF names b]
  have ll: "l - 32 - 32 - 2 - 1 - 4 - 1 = int (length body)" using names by (simp add: l)
  show ?thesis
  proof (cases "0 < lv \<and> key \<in> set (m_producerMsgSeqs s)")
    case True
    let ?b = "zbuf (wire (ServerAckMessage (-1) CMD_SERVER_ACK_MESSAGE sq)) MAX_SERVER_PACKAGE_LENGTH"
    obtain r s1 where "to_connect s ?b 12 = Some (r, s1)" "sent s s1"
      using to_connect_returns [OF inv, of 12 ?b] by (auto simp: size_defs)
    then show ?thesis using True server_ack_packed [of "-1" CMD_SERVER_ACK_MESSAGE sq]
      by (simp add: run_def key_def OnPublishMessage_def Let_def new_ServerAckMessage_def)
  next
    case new: False
    note [simp] = if_not_P [OF new] if_not_P [OF new [unfolded key_def]]
    show ?thesis
    proof (cases "map_of (m_mExchanges s) x")
      case None
      then show ?thesis by (simp add: run_def key_def OnPublishMessage_def Let_def)
    next
      case (Some e)
      obtain f qs where qs: "FindBindingQueue e k [] = (f, qs)" by (cases "FindBindingQueue e k []")
      show ?thesis
      proof (cases "qs = []")
        case True
        then show ?thesis using Some qs by (simp add: run_def key_def OnPublishMessage_def Let_def)
      next
        case False
        have "set qs \<subseteq> dom (m_queues s)"
          using FindBindingQueue_bound [of e k] qs inv_exchange(4) [OF inv Some] by auto
        from publish_loop_delivers [OF len inv this] obtain s1 where s1: "publish_loop body pr d qs s = Some s1"
          "delivered body qs s s1" "logic_inv s1" "m_producerMsgSeqs s1 = m_producerMsgSeqs s" by blast
        from publish_ack_returns [OF s1(3)] obtain s2 s3 X Y where s3: "publish_ack s1 lv c sq key = Some s3"
          "sent s1 s2" "s3 = s2\<lparr>m_producerMsgSeqs := X, m_producerLastMsgSeq := Y\<rparr>"
          "set X = set (m_producerMsgSeqs s1) \<union>
            (if lv = PRODUCER_SINGLE_ACK \<or> lv = PRODUCER_MUTIL_ACK then {key} else {})"
          by blast
        have "run = Some (SUCCESS, [], s3)"
          using Some qs False s1(1) s3(1) ll by (simp add: run_def key_def OnPublishMessage_def Let_def)
        moreover have "delivered body qs s s3" "logic_inv s3"
          using delivered_sent [OF s1(2) s3(2)] sent_inv [OF s3(2) s1(3)] s3(3) by (simp_all add: delivered_def)
        moreover have "set (m_producerMsgSeqs s3) = set (m_producerMsgSeqs s) \<union>
                (if lv = PRODUCER_SINGLE_ACK \<or> lv = PRODUCER_MUTIL_ACK then {key} else {})"
          using s1(4) s3(3,4) by simp
        ultimately show ?thesis using Some qs False by (simp add: Let_def)
      qed
    qed
  qed
qed

section \<open>Message numbers\<close>

definition num_of :: "bytes \<Rightarrow> nat" where
  "num_of = foldl (\<lambda>n d. 10 * n + (unat d - 48)) 0"

lemma unat_digit: "d < 10 \<Longrightarrow> unat (word_of_nat (48 + d) :: byte) = 48 + d"
  by (simp add: unat_of_nat del: of_nat_add)

lemma num_of_digits: "n < 10 ^ k \<Longrightarrow> num_of (digits k n) = n"
proof (induction k n rule: digits.induct)
  case (2 k n)
  show ?case
  proof (cases "n < 10")
    case True
    then show ?thesis using unat_digit [OF True] by (simp add: num_of_def)
  next
    case False
    have "n div 10 < 10 ^ k" using 2(2) by (simp add: less_mult_imp_div_less)
    with 2(1) [OF False] have "num_of (digits k (n div 10)) = n div 10" by simp
    moreover have "unat (word_of_nat (48 + n mod 10) :: byte) = 48 + n mod 10" by (rule unat_digit) simp
    ultimately show ?thesis using False by (simp add: num_of_def)
  qed
qed (simp add: num_of_def)

lemma digits_range: "d \<in> set (digits k n) \<Longrightarrow> 48 \<le> unat d \<and> unat d \<le> 57"
proof (induction k n rule: digits.induct)
  case (2 k n)
  have "unat (word_of_nat (48 + n mod 10) :: byte) = 48 + n mod 10" by (rule unat_digit) simp
  with 2 show ?case using unat_digit [of n] by (auto split: if_split_asm)
qed simp

lemma to_string_inject: "to_string a = to_string b \<longleftrightarrow> a = b"
proof
  assume eq: "to_string a = to_string b"
  have range: "- (2 ^ 31) \<le> sint x" "sint x < 2 ^ 31" for x :: i32
    using sint_ge [of x] sint_lt [of x] by simp_all
  have num: "num_of (digits 10 (nat \<bar>sint x\<bar>)) = nat \<bar>sint x\<bar>" for x :: i32
    using range [of x] by (intro num_of_digits) simp
  have minus: "45 \<notin> set (digits k n)" for k n using digits_range [of 45 k n] by auto
  have neg: "sint x < 0 \<longleftrightarrow> 45 \<in> set (to_string x)" for x
    using minus by (auto simp: to_string_def Let_def)
  have sign: "sint a < 0 \<longleftrightarrow> sint b < 0" by (simp only: neg eq)
  have dig: "to_string x = (if sint x < 0 then [45] else []) @ digits 10 (nat \<bar>sint x\<bar>)" for x
    by (simp add: to_string_def)
  from eq sign have "digits 10 (nat \<bar>sint a\<bar>) = digits 10 (nat \<bar>sint b\<bar>)"
    by (simp only: dig) (simp split: if_split_asm)
  then have "nat \<bar>sint a\<bar> = nat \<bar>sint b\<bar>" using num by metis
  with sign have "sint a = sint b" by linarith
  then show "a = b" by (simp add: signed_word_eqI)
qed simp

lemma takeWhile_stop: "x \<notin> set xs \<Longrightarrow> takeWhile (\<lambda>c. c \<noteq> x) (xs @ x # ys) = xs"
  by (induction xs) auto

lemma no_hash: "35 \<notin> set (to_string x)"
  using digits_range [of 35] by (auto simp: to_string_def Let_def)

lemma msg_seq_key_inject: "msg_seq_key a m = msg_seq_key b n \<longleftrightarrow> a = b \<and> m = n"
proof
  assume eq: "msg_seq_key a m = msg_seq_key b n"
  have "takeWhile (\<lambda>c. c \<noteq> 35) (msg_seq_key x y) = to_string x" for x y
    using takeWhile_stop [OF no_hash] by (simp add: msg_seq_key_def)
  with eq have "to_string a = to_string b" by metis
  then show "a = b \<and> m = n" using eq by (simp add: to_string_inject msg_seq_key_def)
qed simp

section \<open>Properties\<close>

text \<open>C6. A publish packet as the client library packs it, in any state that satisfies the invariant, always
  gets an answer from the dispatcher: a repeated numbered message changes no queue; an unknown
  exchange and a key that no queue is bound for are errors that change nothing; otherwise each
  queue that the exchange routes the key to receives the body once for every time it is listed,
  all other queues, the names and the bindings stay as they are, and the number is remembered
  when a confirmation was asked for.\<close>

theorem publish_delivers:
  assumes "logic_inv s" "good_name x" "good_name k" "length body < 65456"
    and m_def: "m = publish_packet c x k pr d sq lv body"
  shows "let run = ProcessRecvData s (wire m @ pad) (int (length (wire m))) c0 in
    if 0 < lv \<and> msg_seq_key c sq \<in> set (m_producerMsgSeqs s)
    then \<exists>s'. run = Some (SUCCESS, c, [], s') \<and> m_queues s' = m_queues s
    else case map_of (m_mExchanges s) x of
      None \<Rightarrow> run = Some (ERR_LOGIC_SERVER_PUBLISH_MESSAGE, c, RE_EXCHANGE_NOT_EXIST @ x, s)
    | Some e \<Rightarrow>
        (let qs = snd (FindBindingQueue e k [])
         in if qs = [] then run = Some (ERR_LOGIC_SERVER_PUBLISH_MESSAGE, c, RE_FIT_QUEUE_NOT_EXIST @ k, s)
            else \<exists>s'. run = Some (SUCCESS, c, [], s') \<and> delivered body qs s s' \<and> logic_inv s' \<and>
              set (m_producerMsgSeqs s') = set (m_producerMsgSeqs s) \<union>
                (if lv = PRODUCER_SINGLE_ACK \<or> lv = PRODUCER_MUTIL_ACK then {msg_seq_key c sq} else {}))"
proof -
  have len: "length (wire m) < 65536" using assms(2-4) by (simp add: m_def)
  have run: "ProcessRecvData s (wire m @ pad) (int (length (wire m))) c0 =
      map_option (\<lambda>(r, t, s'). (r, c, t, s')) (OnPublishMessage s (wire m @ pad) 8 (int (length (msg_fields m))) c)"
    using ProcessRecvData_wire [OF len] by (simp add: m_def handle_def cmd_defs)
  note out = OnPublishMessage_outcome [OF assms(1-4) refl refl, where c = c and pr = pr and d = d and sq = sq and lv = lv and pad = pad, folded m_def]
  show ?thesis
  proof (cases "0 < lv \<and> msg_seq_key c sq \<in> set (m_producerMsgSeqs s)")
    case True
    with out obtain s' where "OnPublishMessage s (wire m @ pad) 8 (int (length (msg_fields m))) c = Some (SUCCESS, [], s')"
      "sent s s'" by auto
    with True sent_fields(1) [OF this(2)] show ?thesis by (simp add: run del: length_wire)
  next
    case new: False
    note out = out [unfolded if_not_P [OF new]]
    show ?thesis
    proof (cases "map_of (m_mExchanges s) x")
      case None
      with out show ?thesis by (simp add: run Let_def if_not_P [OF new] del: length_wire)
    next
      case (Some e)
      with out show ?thesis
        by (cases "snd (FindBindingQueue e k []) = []") (auto simp: run Let_def if_not_P [OF new] simp del: length_wire)
    qed
  qed
qed


section \<open>Witnesses\<close>

definition w_server :: logic_server where
  "w_server = (new_LogicServer w_ring w_ring w_ring)
     \<lparr>m_queues := [0 \<mapsto> new_MessageQueue [113] 0 False False], m_iNextAddr := 1, m_mUnSubcribeQueues := [([113], 0)],
      m_mExchanges := [([101], (new_Exchange [101] EXCHANGE_TYPE_DIRECT False False)
         \<lparr>m_mBindingQueues := [([107], [0])]\<rparr>)]\<rparr>"

lemma w_ring_ok: "shm_ok w_ring"
  using w_ring_holds by (auto simp: shm_ok_def)

lemma w_server_inv: "logic_inv w_server"
  by (auto simp: logic_inv_def core_inv_def w_server_def new_LogicServer_def w_ring_ok new_Exchange_def size_defs
      bound_queues_def exchange_inv_def split: if_split_asm)

theorem publish_delivers_witness:
  "\<exists>s'. ProcessRecvData w_server (wire (publish_packet 3 [101] [107] 0 False 7 1 [65, 66])) 82 (-1) =
     Some (SUCCESS, 3, [], s') \<and> delivered [65, 66] [0] w_server s'"
proof -
  have g: "good_name [101]" "good_name [107]" by (simp_all add: good_name_def size_defs)
  have e: "map_of (m_mExchanges w_server) [101] = Some ((new_Exchange [101] EXCHANGE_TYPE_DIRECT False False)
         \<lparr>m_mBindingQueues := [([107], [0])]\<rparr>)" "m_producerMsgSeqs w_server = []"
    by (simp_all add: w_server_def new_LogicServer_def)
  show ?thesis
    using publish_delivers [OF w_server_inv g _ refl, where body = "[65, 66]" and c = 3 and pr = 0 and d = False and sq = 7 and lv = 1 and pad = "[]" and ?c0.0 = "-1"] g
    by (auto simp: e Let_def FindBindingQueue_def new_Exchange_def)
qed


end
