(* ===== verification/Logic_Leave.thy ===== *)
theory Logic_Leave
  imports Logic_Publish
begin

text \<open>
  Acknowledging, cancelling and leaving: what becomes of the messages that wait for a consumer's
  confirmation and of the queues he has subscribed.
\<close>

section \<open>Leaving\<close>

definition find_queue :: "logic_server \<Rightarrow> bytes \<Rightarrow> addr option" where
  "find_queue s n = (case map_of (m_mSubcribeQueues s) n of
     Some a \<Rightarrow> Some a | None \<Rightarrow> map_of (m_mUnSubcribeQueues s) n)"

lemma find_queue_cong:
  "m_mSubcribeQueues s = m_mSubcribeQueues s' \<Longrightarrow> m_mUnSubcribeQueues s = m_mUnSubcribeQueues s' \<Longrightarrow>
   find_queue s = find_queue s'"
  by (rule ext) (simp add: find_queue_def cong: option.case_cong)

lemma exit_queues_left:
  "exit_queues c l s = Some s' \<Longrightarrow> logic_inv s \<Longrightarrow> distinct (map fst l) \<Longrightarrow>
   \<forall>(k, a)\<in>set l. map_of (m_mSubcribeQueues s) k = Some a \<Longrightarrow>
   m_NeedAckMessageList s' = m_NeedAckMessageList s \<and> m_producerMsgSeqs s' = m_producerMsgSeqs s \<and>
   (\<forall>n a. map_of (m_mSubcribeQueues s') n = Some a \<longrightarrow> map_of (m_mSubcribeQueues s) n = Some a) \<and>
   (\<forall>(k, a)\<in>set l. left_by c (the (m_queues s a)) (m_queues s' a)) \<and>
   (\<forall>b. b \<notin> snd ` set l \<longrightarrow> m_queues s' b = m_queues s b)"
proof (induction l arbitrary: s)
  case (Cons x rest)
  obtain k a where x: "x = (k, a)" by (cases x)
  have ka: "map_of (m_mSubcribeQueues s) k = Some a" using Cons(5) x by simp
  from exit_queue_step [OF Cons(3) ka Cons(2) [unfolded x]]
  obtain s1 where s1: "logic_inv s1" "exit_queues c rest s1 = Some s'"
    "\<And>n. n \<noteq> k \<Longrightarrow> map_of (m_mSubcribeQueues s1) n = map_of (m_mSubcribeQueues s) n"
    "map_of (m_mSubcribeQueues s1) k \<in> {None, Some a}"
    "\<And>b. b \<noteq> a \<Longrightarrow> m_queues s1 b = m_queues s b" "left_by c (the (m_queues s a)) (m_queues s1 a)"
    "m_NeedAckMessageList s1 = m_NeedAckMessageList s" "m_producerMsgSeqs s1 = m_producerMsgSeqs s" by metis
  have rest: "n \<noteq> k" "b \<noteq> a" "map_of (m_mSubcribeQueues s1) n = Some b" if n: "(n, b) \<in> set rest" for n b
  proof -
    have nb: "map_of (m_mSubcribeQueues s) n = Some b" using Cons(5) n by auto
    show nk: "n \<noteq> k" using Cons(4) n x by (auto simp: rev_image_eqI)
    show "b \<noteq> a" using inv_names(2) [OF Cons(3)] nb ka nk by (metis option.inject)
    show "map_of (m_mSubcribeQueues s1) n = Some b" using nb nk s1(3) by simp
  qed
  have "distinct (map fst rest)" using Cons(4) x by simp
  note IH = Cons(1) [OF s1(2,1) this]
  have IH: "m_NeedAckMessageList s' = m_NeedAckMessageList s1" "m_producerMsgSeqs s' = m_producerMsgSeqs s1"
    "\<And>n b. map_of (m_mSubcribeQueues s') n = Some b \<Longrightarrow> map_of (m_mSubcribeQueues s1) n = Some b"
    "\<And>n b. (n, b) \<in> set rest \<Longrightarrow> left_by c (the (m_queues s1 b)) (m_queues s' b)"
    "\<And>b. b \<notin> snd ` set rest \<Longrightarrow> m_queues s' b = m_queues s1 b"
    using IH rest(3) by blast+
  have "map_of (m_mSubcribeQueues s) n = Some b" if "map_of (m_mSubcribeQueues s') n = Some b" for n b
    using IH(3) [OF that] s1(3) [of n] s1(4) ka by (cases "n = k") auto
  moreover have "left_by c (the (m_queues s b)) (m_queues s' b)" if "(n, b) \<in> set (x # rest)" for n b
  proof (cases "(n, b) \<in> set rest")
    case True
    then show ?thesis using IH(4) [OF True] s1(5) rest(2) [OF True] by simp
  next
    case False
    then have "b = a" using that x by simp
    moreover have "a \<notin> snd ` set rest" using rest(2) by force
    ultimately show ?thesis using IH(5) [of a] s1(6) by simp
  qed
  moreover have "m_queues s' b = m_queues s b" if "b \<notin> snd ` set (x # rest)" for b
    using IH(5) [of b] s1(5) [of b] that x by simp
  ultimately show ?case using IH(1,2) s1(7,8) by fastforce
qed simp

lemma bodies_AddMessageFront [simp]: "bodies (AddMessageFront q m) = add_mset (ssm_strMsgBody m) (bodies q)"
  by (simp add: bodies_def stored_def AddMessageFront_def pq_push_def cap_priority_def)

text \<open>The messages among \<open>ms\<close> that go back to the queue at \<open>a\<close> when client \<open>c\<close> leaves.\<close>

definition returned :: "logic_server \<Rightarrow> i32 \<Rightarrow> sever_store_message list \<Rightarrow> addr \<Rightarrow> bytes multiset" where
  "returned s c ms a = image_mset ssm_strMsgBody
     (mset (filter (\<lambda>m. ssm_iIndex m = c \<and> find_queue s (ssm_strQueueName m) = Some a) ms))"

lemma requeue_loop_effect:
  "logic_inv s \<Longrightarrow> \<exists>s'. requeue_loop c ms s = Some (filter (\<lambda>m. ssm_iIndex m \<noteq> c) ms, s') \<and>
     logic_inv s' \<and> m_mSubcribeQueues s' = m_mSubcribeQueues s \<and> m_mUnSubcribeQueues s' = m_mUnSubcribeQueues s \<and>
     m_producerMsgSeqs s' = m_producerMsgSeqs s \<and>
     (\<forall>a. gains (returned s c ms a) (m_queues s a) (m_queues s' a))"
proof (induction ms arbitrary: s)
  case Nil
  then show ?case by (auto simp: returned_def)
next
  case (Cons m ms)
  show ?case
  proof (cases "ssm_iIndex m = c")
    case False
    then have "returned s c (m # ms) = returned s c ms" by (auto simp: returned_def)
    with False Cons(1) [OF Cons(2)] show ?thesis by auto
  next
    case True
    show ?thesis
    proof (cases "find_queue s (ssm_strQueueName m)")
      case None
      then have "returned s c (m # ms) = returned s c ms" by (auto simp: returned_def)
      with True None Cons(1) [OF Cons(2)] show ?thesis by (simp add: find_queue_def)
    next
      case (Some a)
      then have "map_of (m_mSubcribeQueues s) (ssm_strQueueName m) = Some a \<or>
          map_of (m_mUnSubcribeQueues s) (ssm_strQueueName m) = Some a"
        by (auto simp: find_queue_def split: option.splits)
      then obtain q where q: "m_queues s a = Some q" using inv_names [OF Cons(2)] by blast
      let ?s = "set_queue a (AddMessageFront q m) s"
      have inv: "logic_inv ?s" using inv_queue [OF Cons(2) q] by (intro inv_same_subs [OF Cons(2) q]) auto
      have find: "find_queue ?s = find_queue s" by (rule find_queue_cong) simp_all
      have run: "requeue_loop c (m # ms) s = requeue_loop c ms ?s"
        using True Some q by (simp add: find_queue_def)
      from Cons(1) [OF inv] obtain s' where s': "requeue_loop c ms ?s = Some (filter (\<lambda>m. ssm_iIndex m \<noteq> c) ms, s')"
        "logic_inv s'" "m_mSubcribeQueues s' = m_mSubcribeQueues s" "m_mUnSubcribeQueues s' = m_mUnSubcribeQueues s"
        "m_producerMsgSeqs s' = m_producerMsgSeqs s"
        and eff: "\<And>b. gains (returned s c ms b) (m_queues ?s b) (m_queues s' b)"
        by (auto simp: returned_def find)
      have "gains (returned s c (m # ms) b) (m_queues s b) (m_queues s' b)" for b
      proof (cases "b = a")
        case True
        have "gains {#ssm_strMsgBody m#} (m_queues s a) (m_queues ?s a)" using q by simp
        from gains_trans [OF this eff [of a]] True Some \<open>ssm_iIndex m = c\<close> show ?thesis by (simp add: returned_def)
      next
        case False
        with eff [of b] Some show ?thesis by (simp add: returned_def)
      qed
      with s' run True show ?thesis by auto
    qed
  qed
qed

section \<open>Acknowledging\<close>

text \<open>Removing the first message with a number.\<close>

definition without_first :: "i32 \<Rightarrow> sever_store_message list \<Rightarrow> sever_store_message list" where
  "without_first sq ms = takeWhile (\<lambda>m. ssm_iMsgSeq m \<noteq> sq) ms @ tl (dropWhile (\<lambda>m. ssm_iMsgSeq m \<noteq> sq) ms)"

lemma send_consumed_returns:
  assumes inv: "logic_inv s" and n: "length n \<le> MAX_NAME_LENGTH"
  shows "\<exists>r s'. send_consumed s cmd n i = Some (r, s') \<and> sent s s'"
proof -
  let ?b = "put_at (put_at (put_at (put_at pack_buffer 0 (be16 40)) 2 (be16 cmd)) 4 n) 36 (be32 i)"
  have len: "length ?b = MAX_CLINT_PACKAGE_LENGTH" using n by (simp add: pack_buffer_def size_defs)
  have "send_consumed s cmd n i = to_persis s ?b 40"
    using n by (simp add: send_consumed_def Let_def pack_buffer_def size_defs)
  with to_persis_returns [OF inv, of 40 ?b] show ?thesis using len by (simp add: size_defs)
qed

lemma single_ack_removes:
  assumes "\<And>m. m \<in> set ms \<Longrightarrow> length (ssm_strQueueName m) \<le> MAX_NAME_LENGTH" "logic_inv s"
  shows "\<exists>s'. single_ack_loop sq ms s = Some (without_first sq ms, s') \<and> sent s s'"
  using assms(1)
proof (induction ms)
  case Nil
  then show ?case by (simp add: without_first_def)
next
  case (Cons m ms)
  have "\<exists>s'. ack_notify s m = Some s' \<and> sent s s'"
  proof (cases "ssm_bDurable m")
    case True
    have "length (ssm_strQueueName m) \<le> MAX_NAME_LENGTH" using Cons(2) [of m] by simp
    from send_consumed_returns [OF assms(2) this, of CMD_CLIENT_ACK_MESSAGE "ssm_iDurableIndex m"] True
    show ?thesis by (auto simp: ack_notify_def)
  qed (simp add: ack_notify_def)
  moreover have "\<exists>s'. single_ack_loop sq ms s = Some (without_first sq ms, s') \<and> sent s s'"
    using Cons by simp
  ultimately show ?case by (auto simp: without_first_def)
qed

lemma ack_read:
  assumes b: "b = wire (ClientAckMessage c CMD_CLIENT_ACK_MESSAGE lv sq) @ pad"
  shows "ReadByte b 8 = Some (1, lv)" "ReadInt b 9 = Some (4, sq)"
  by (simp_all add: b wire_def get_at_def nth_append)

section \<open>Properties\<close>


lemma sent_from: "sent s s' \<Longrightarrow> m_pQueueFromConnect s' = m_pQueueFromConnect s"
  unfolding sent_def by (elim conjE, drule arg_cong [of _ _ m_pQueueFromConnect]) simp

text \<open>A confirmation packet removes the first waiting message with the given number and no other, whatever
  its confirmation level and whichever client sends it: the condition that should select the
  batch branch is always true, so confirming many messages at once never happens.\<close>

theorem OnClientAck_removes_one:
  assumes "logic_inv s" "\<forall>m\<in>set (m_NeedAckMessageList s). length (ssm_strQueueName m) \<le> MAX_NAME_LENGTH"
  shows "\<exists>s'. ProcessRecvData s (wire (ClientAckMessage c CMD_CLIENT_ACK_MESSAGE lv sq) @ pad) 13 c0 =
      Some (SUCCESS, c, [], s') \<and> m_queues s' = m_queues s \<and> m_pQueueFromConnect s' = m_pQueueFromConnect s \<and>
      m_NeedAckMessageList s' = without_first sq (m_NeedAckMessageList s)"
proof -
  let ?m = "ClientAckMessage c CMD_CLIENT_ACK_MESSAGE lv sq"
  have "length (wire ?m) < 65536" by simp
  from ProcessRecvData_wire [OF this, of s pad c0]
  have run: "ProcessRecvData s (wire ?m @ pad) 13 c0 =
      map_option (\<lambda>(r, t, s'). (r, c, t, s')) (OnClientAck s (wire ?m @ pad) 8 5 c)"
    by (simp add: handle_def cmd_defs)
  obtain s' where "single_ack_loop sq (m_NeedAckMessageList s) s =
      Some (without_first sq (m_NeedAckMessageList s), s')" "sent s s'"
    using single_ack_removes [OF _ assms(1), of "m_NeedAckMessageList s" sq] assms(2) by blast
  moreover from this(2) have "m_pQueueFromConnect s' = m_pQueueFromConnect s" by (rule sent_from)
  ultimately show ?thesis using run sent_fields(1)
    using ack_read [OF refl, of c lv sq pad] by (simp add: OnClientAck_def Let_def single_ack_test_def ack_defs)
qed

lemma forget_seqs_filter: "forget_seqs c xs = filter (\<lambda>x. \<not> prefix c x) xs"
  by (induction xs) auto

lemma OnClientExit_seqs:
  assumes inv: "logic_inv s" and run: "OnClientExit s c = Some (r, t, s')"
  shows "m_producerMsgSeqs s' = filter (\<lambda>x. \<not> prefix (to_string c) x) (m_producerMsgSeqs s)"
proof -
  let ?s = "s\<lparr>m_producerMsgSeqs := forget_seqs (to_string c) (m_producerMsgSeqs s)\<rparr>"
  obtain s1 left s2 where run1: "exit_queues c (m_mSubcribeQueues s) ?s = Some s1"
    and run2: "requeue_loop c (m_NeedAckMessageList s1) s1 = Some (left, s2)"
    and s': "s' = s2\<lparr>m_NeedAckMessageList := left\<rparr>"
    using run by (auto simp: OnClientExit_def Let_def run_simps)
  have d: "distinct (map fst (m_mSubcribeQueues s))" by (rule core_invD(2) [OF logic_invD [OF inv]])
  have su: "\<forall>(k, a)\<in>set (m_mSubcribeQueues s). map_of (m_mSubcribeQueues ?s) k = Some a"
    using d by (auto intro: map_of_is_SomeI)
  have inv': "logic_inv ?s" using inv by simp
  note left = exit_queues_left [OF run1 inv' d su]
  have "m_producerMsgSeqs s2 = m_producerMsgSeqs s1"
    using requeue_loop_effect [OF exit_queues_inv [OF run1 inv' d su], of c "m_NeedAckMessageList s1"] run2 by auto
  then show ?thesis using left s' by (simp add: forget_seqs_filter)
qed

text \<open>When client \<open>c\<close> leaves, the server forgets the numbers of all messages that \<open>c\<close> has published, but
  also those of every client whose decimal index starts with the digits of \<open>c\<close>: the comparison is
  by prefix and does not include the separator.\<close>

theorem exit_forgets_prefix:
  assumes "logic_inv s" "OnClientExit s c = Some (r, t, s')" "prefix (to_string c) (to_string d)"
  shows "msg_seq_key d sq \<notin> set (m_producerMsgSeqs s')"
  using OnClientExit_seqs [OF assms(1,2)] assms(3) by (simp add: msg_seq_key_def)

lemma name_read:
  assumes "good_name n" "msg_fields m = name_field n"
  shows "read_name (wire m @ pad) 8 = Some (32, n)"
  using assms by (intro read_name_field) (simp_all add: wire_def get_at_def)

text \<open>Cancelling the subscription of one of several consumers of a queue makes the queue unreachable: its
  name is taken out of the map of subscribed queues and, since there is still a subscriber, is
  not put into the other one, although the queue keeps its remaining consumers and messages.\<close>

theorem cancel_loses_queue:
  assumes "logic_inv s" "good_name n" "map_of (m_mSubcribeQueues s) n = Some a" "m_queues s a = Some q"
    and "\<not> mq_bDurable q" "d \<in> set (m_vSubscribeConsumers q)" "d \<noteq> c"
  shows "\<exists>s'. ProcessRecvData s (wire (CancelSubscribeMessage c CMD_CANCEL_SUBCRIBE n) @ pad) 40 c0 =
      Some (SUCCESS, c, RE_CANCEL_SUBSCRIBE_SUCCEED @ n, s') \<and> find_queue s' n = None \<and>
      (\<exists>q'. m_queues s' a = Some q' \<and> d \<in> set (m_vSubscribeConsumers q') \<and> stored q' = stored q)"
proof -
  let ?m = "CancelSubscribeMessage c CMD_CANCEL_SUBCRIBE n" and ?q = "CancelSubscribe q c"
  have "length (wire ?m) = 40" using assms(2) by simp
  then have run: "ProcessRecvData s (wire ?m @ pad) 40 c0 =
      map_option (\<lambda>(r, t, s'). (r, c, t, s')) (OnCancelSubscribe s (wire ?m @ pad) 8 32 c)"
    using ProcessRecvData_wire [of ?m s pad c0] by (simp add: handle_def cmd_defs)
  have un: "map_of (m_mUnSubcribeQueues s) n = None"
    using core_invD(4) [OF logic_invD [OF assms(1)], of n] assms(3) by (cases "map_of (m_mUnSubcribeQueues s) n") auto
  have name: "mq_strQueueName q = n" using inv_names(2) [OF assms(1,3)] assms(4) by simp
  have subs: "d \<in> set (m_vSubscribeConsumers ?q)"
    using subs_CancelSubscribe [OF inv_queue [OF assms(1,4)], of c] assms(6,7) by simp
  then have "IsSubscribe ?q" by (auto simp: IsSubscribe_def)
  moreover have "stored ?q = stored q" by (simp add: CancelSubscribe_def Let_def stored_def)
  ultimately show ?thesis
    using run un name subs assms(3-5) name_read [OF assms(2), of ?m pad]
    by (simp add: OnCancelSubscribe_def Let_def send_subscribers_def find_queue_def)
qed


section \<open>Witnesses\<close>

definition w_msg :: "i32 \<Rightarrow> i32 \<Rightarrow> sever_store_message" where
  "w_msg c sq = (new_SeverStoreMessage [65] 0 False)\<lparr>ssm_iIndex := c, ssm_iMsgSeq := sq, ssm_strQueueName := [113]\<rparr>"

definition w_busy :: logic_server where
  "w_busy = w_server\<lparr>m_mUnSubcribeQueues := [], m_mSubcribeQueues := [([113], 0)],
     m_queues := [0 \<mapsto> (new_MessageQueue [113] 0 False False)\<lparr>m_vSubscribeConsumers := [1, 2]\<rparr>],
     m_NeedAckMessageList := [w_msg 1 5, w_msg 2 6], m_producerMsgSeqs := [msg_seq_key 10 3]\<rparr>"

lemma w_busy_fields [simp]:
  "m_mUnSubcribeQueues w_busy = []" "m_mSubcribeQueues w_busy = [([113], 0)]"
  "m_queues w_busy = [0 \<mapsto> (new_MessageQueue [113] 0 False False)\<lparr>m_vSubscribeConsumers := [1, 2]\<rparr>]"
  "m_NeedAckMessageList w_busy = [w_msg 1 5, w_msg 2 6]" "m_producerMsgSeqs w_busy = [msg_seq_key 10 3]"
  by (simp_all add: w_busy_def)

lemma w_busy_inv: "logic_inv w_busy"
  by (auto simp: logic_inv_def core_inv_def w_busy_def w_server_def new_LogicServer_def w_ring_ok new_Exchange_def
      size_defs bound_queues_def exchange_inv_def queue_inv_def new_MessageQueue_def split: if_split_asm)

lemma w_cancel: "CancelSubscribe ((new_MessageQueue [113] 0 False False)\<lparr>m_vSubscribeConsumers := [1, 2]\<rparr>) 1 =
    (new_MessageQueue [113] 0 False False)\<lparr>m_vSubscribeConsumers := [2]\<rparr>"
  by code_simp

lemma w_busy_exit: "\<exists>r t s'. OnClientExit w_busy 1 = Some (r, t, s')"
  by (simp add: OnClientExit_def Let_def w_msg_def new_SeverStoreMessage_def w_cancel send_subscribers_def)


theorem exit_forgets_prefix_witness:
  "\<exists>r t s'. OnClientExit w_busy 1 = Some (r, t, s') \<and> msg_seq_key 10 3 \<notin> set (m_producerMsgSeqs s')"
proof -
  obtain r t s' where run: "OnClientExit w_busy 1 = Some (r, t, s')" using w_busy_exit by blast
  have "prefix (to_string 1) (to_string 10)" by code_simp
  from exit_forgets_prefix [OF w_busy_inv run this, of 3] run show ?thesis by blast
qed

theorem OnClientAck_removes_one_witness:
  "\<exists>s'. ProcessRecvData w_busy (wire (ClientAckMessage 9 CMD_CLIENT_ACK_MESSAGE CONSUMER_MUTIL_ACK 6) @ []) 13 (-1) =
      Some (SUCCESS, 9, [], s') \<and> m_NeedAckMessageList s' = [w_msg 1 5]"
proof -
  have "\<forall>m\<in>set (m_NeedAckMessageList w_busy). length (ssm_strQueueName m) \<le> MAX_NAME_LENGTH"
    by (simp add: w_msg_def size_defs)
  from OnClientAck_removes_one [OF w_busy_inv this, of 9 CONSUMER_MUTIL_ACK 6 "[]" "-1"] show ?thesis
    by (auto simp: without_first_def w_msg_def)
qed

theorem cancel_loses_queue_witness:
  "\<exists>s'. ProcessRecvData w_busy (wire (CancelSubscribeMessage 1 CMD_CANCEL_SUBCRIBE [113]) @ []) 40 (-1) =
      Some (SUCCESS, 1, RE_CANCEL_SUBSCRIBE_SUCCEED @ [113], s') \<and> find_queue s' [113] = None"
proof -
  have g: "good_name [113]" by (simp add: good_name_def size_defs)
  have a: "map_of (m_mSubcribeQueues w_busy) [113] = Some 0" by simp
  have q: "m_queues w_busy 0 = Some ((new_MessageQueue [113] 0 False False)\<lparr>m_vSubscribeConsumers := [1, 2]\<rparr>)"
    by simp
  from cancel_loses_queue [OF w_busy_inv g a q, of 2 1 "[]" "-1"] show ?thesis
    by (auto simp: new_MessageQueue_def)
qed


end
