(* ===== verification/Logic_Run.thy ===== *)
theory Logic_Run
  imports Logic_Leave
begin

text \<open>
  The main loop of the logic server: the invariant over any sequence of packets, what a round of
  pushing achieves, and the places where the loop stops making progress.
\<close>

section \<open>Receiving\<close>

lemma inv_from_connect [simp]: "logic_inv (s\<lparr>m_pQueueFromConnect := q\<rparr>) = logic_inv s"
  by (simp add: logic_inv_def)

lemma uint_u16_le: "uint (word_of_nat n :: u16) \<le> int n"
  by (simp add: uint_nat unat_of_nat)

lemma reply_len:
  assumes "GetMessagePack (ActReplyMessage i c x t) b (10 + int (length t)) = Some (r, b', l)"
  shows "0 \<le> l \<and> l < 2 ^ 30"
proof -
  have "uint (word_of_nat (8 + 1 + length t + 1) :: u16) \<le> 10 + int (length t)"
    using uint_u16_le [of "8 + 1 + length t + 1"] by simp
  with assms uint_u16_bounds show ?thesis
    by (auto simp: ActReplyMessage_GetMessagePack_def Let_def bind_eq_Some_conv split: if_splits)
qed

lemma send_reply_sent: "send_reply s ret c t = Some s' \<Longrightarrow> sent s s'"
  by (auto simp: send_reply_def run_simps simp del: GetMessagePack.simps dest!: reply_len
      intro: to_connect_sent split: if_split_asm)

lemma recv_loop_keeps:
  "recv_loop tries rounds pBuff s = Some (pBuff', s') \<Longrightarrow> logic_inv s \<Longrightarrow> logic_inv s'"
proof (induction tries arbitrary: rounds pBuff s)
  case 0
  then show ?case by (cases rounds) simp_all
next
  case (Suc tries)
  show ?case
  proof (cases rounds)
    case 0
    with Suc show ?thesis by simp
  next
    case (Suc n)
    note run = Suc.prems(1) [unfolded Suc]
    obtain ret b l q where deq: "DequeueInto (m_pQueueFromConnect s) pBuff (int MAX_CLINT_PACKAGE_LENGTH) = Some (ret, b, l, q)"
      using run by (auto simp: run_simps)
    let ?s = "s\<lparr>m_pQueueFromConnect := q\<rparr>"
    let ?s1 = "?s\<lparr>m_iRecvCount := m_iRecvCount s + 1\<rparr>"
    have inv: "logic_inv ?s" "logic_inv ?s1" using Suc.prems(2) by simp_all
    consider "s' = ?s" | "recv_loop tries (Suc n) b ?s = Some (pBuff', s')" | "recv_loop tries n b ?s1 = Some (pBuff', s')"
      | r c t s2 s3 where "ProcessRecvData ?s1 b l (-1) = Some (r, c, t, s2)"
          "send_reply s2 r c t = Some s3" "recv_loop tries n b s3 = Some (pBuff', s')"
      using run deq by (auto simp: run_simps Let_def simp del: recv_loop.simps(1,2) split: if_split_asm)
    then show ?thesis
    proof cases
      case 4
      have "logic_inv s2" by (rule ProcessRecvData_keeps [OF inv(2) 4(1)])
      then have "logic_inv s3" by (rule sent_inv [OF send_reply_sent [OF 4(2)]])
      then show ?thesis by (rule Suc.IH [OF 4(3)])
    qed (use inv Suc.IH in blast)+
  qed
qed

section \<open>Confirming in batches\<close>

lemma multi_ack_no_result: "multi_ack_loop itr s = Some s' \<Longrightarrow> False"
  by (rule multi_ack_loop.raw_induct [where P = "\<lambda>_ _ _. False"]) (auto simp: bind_eq_Some_conv)

section \<open>Pushing\<close>

text \<open>What is still to be confirmed for the queue named \<open>n\<close>.\<close>

definition pending :: "bytes \<Rightarrow> sever_store_message list \<Rightarrow> bytes multiset" where
  "pending n ms = image_mset ssm_strMsgBody (mset (filter (\<lambda>m. ssm_strQueueName m = n) ms))"

lemma pending_append [simp]: "pending n (xs @ ys) = pending n xs + pending n ys"
  by (simp add: pending_def)

text \<open>One message: the queues stay, and the list of waiting messages grows when confirmation is asked for.\<close>

lemma push_one_effect:
  assumes inv: "logic_inv s" and run: "push_one s a q m = Some s'"
  shows "logic_inv s' \<and> m_queues s' = m_queues s \<and> m_mSubcribeQueues s' = m_mSubcribeQueues s \<and>
    pending n (m_NeedAckMessageList s') = pending n (m_NeedAckMessageList s) +
      (if 0 < mq_iConfirmLevel q \<and> mq_strQueueName q = n then {#ssm_strMsgBody m#} else {#})"
proof -
  obtain s1 m1 where s1: "logic_inv s1" "m_queues s1 = m_queues s" "m_mSubcribeQueues s1 = m_mSubcribeQueues s"
      "pending n (m_NeedAckMessageList s1) = pending n (m_NeedAckMessageList s) +
        (if 0 < mq_iConfirmLevel q \<and> mq_strQueueName q = n then {#ssm_strMsgBody m#} else {#})"
    and send: "do {
       (_, pBuffer, iLen) \<leftarrow>
         GetMessagePack (SeverStoreMessage m1) (replicate MAX_SERVER_PACKAGE_LENGTH 0) (int MAX_SERVER_PACKAGE_LENGTH);
       s \<leftarrow> to_connect_wait s1 pBuffer iLen;
       let s = s\<lparr>m_iSendCount := m_iSendCount s + 1\<rparr>;
       if mq_iConfirmLevel q = 0 \<and> ssm_bDurable m1 then do {
         (_, s) \<leftarrow> send_consumed s CMD_SERVER_PUSH_MESSAGE (mq_strQueueName q) (ssm_iDurableIndex m1);
         Some s }
       else Some s } = Some s'"
  proof (cases "0 < mq_iConfirmLevel q")
    case True
    with run inv show thesis
      by (intro that [of "s\<lparr>m_iAckSeq := m_iAckSeq s + 1, m_NeedAckMessageList := m_NeedAckMessageList s @
            [m\<lparr>ssm_iCmdId := CMD_SERVER_PUSH_MESSAGE, ssm_iConfirmLevel := mq_iConfirmLevel q,
               ssm_iMsgSeq := m_iAckSeq s, ssm_strQueueName := mq_strQueueName q\<rparr>]\<rparr>" "m\<lparr>ssm_iCmdId := CMD_SERVER_PUSH_MESSAGE, ssm_iConfirmLevel := mq_iConfirmLevel q,
               ssm_iMsgSeq := m_iAckSeq s, ssm_strQueueName := mq_strQueueName q\<rparr>"])
        (simp_all add: push_one_def Let_def pending_def del: GetMessagePack.simps)
  next
    case False
    with run inv show thesis
      by (intro that [of s "m\<lparr>ssm_iCmdId := CMD_SERVER_PUSH_MESSAGE, ssm_iMsgSeq := -1\<rparr>"])
        (simp_all add: push_one_def Let_def del: GetMessagePack.simps)
  qed
  obtain b l s2 where s2: "sent s1 s2"
    and fin: "s' = s2\<lparr>m_iSendCount := m_iSendCount s2 + 1\<rparr> \<or>
      (\<exists>r. send_consumed (s2\<lparr>m_iSendCount := m_iSendCount s2 + 1\<rparr>) CMD_SERVER_PUSH_MESSAGE (mq_strQueueName q)
         (ssm_iDurableIndex m1) = Some (r, s'))"
    using send by (auto simp: bind_eq_Some_conv Let_def simp del: GetMessagePack.simps split: if_split_asm
        dest!: pack_len(1) [OF _ pack_sizes(3,4)] to_connect_wait_sent)
  have "sent (s2\<lparr>m_iSendCount := m_iSendCount s2 + 1\<rparr>) s'" using fin send_sent(2) by auto
  moreover from this have "logic_inv s'" by (rule sent_inv) (use sent_inv [OF s2 s1(1)] in simp)
  ultimately show ?thesis using s1 sent_fields [OF s2] sent_fields [of "s2\<lparr>m_iSendCount := m_iSendCount s2 + 1\<rparr>" s'] by simp
qed

lemma bodies_PopFrontMsg:
  assumes "queue_inv q" "PopFrontMsg q True = (Some m, q')"
  shows "bodies q = add_mset (ssm_strMsgBody m) (bodies q')" "size (stored q) = Suc (size (stored q'))"
    "mq_iConfirmLevel q' = mq_iConfirmLevel q" "m_vSubscribeConsumers q' = m_vSubscribeConsumers q"
    "mq_strQueueName q' = mq_strQueueName q" "queue_inv q'"
proof -
  have ne: "\<not> IsEmpty q" using assms(2) by (auto simp: PopFrontMsg_take_front split: if_split_asm)
  have st: "stored (r\<lparr>m_iPushIndex := i\<rparr>) = stored r" for r i by (simp add: stored_def)
  have m: "ssm_strMsgBody m = ssm_strMsgBody (fst (take_front q))" "stored q' = stored (snd (take_front q))"
    "mq_iConfirmLevel q' = mq_iConfirmLevel q"
    using assms(2) by (auto simp: PopFrontMsg_take_front st split: if_split_asm)
  from take_front_stored [OF ne] m show "bodies q = add_mset (ssm_strMsgBody m) (bodies q')"
    "size (stored q) = Suc (size (stored q'))" "mq_iConfirmLevel q' = mq_iConfirmLevel q"
    by (simp_all add: bodies_def)
  have "q' = snd (PopFrontMsg q True)" using assms(2) by simp
  then show "m_vSubscribeConsumers q' = m_vSubscribeConsumers q"
    "mq_strQueueName q' = mq_strQueueName q" "queue_inv q'" using assms(1) by simp_all
qed

lemma push_msgs_effect:
  "push_msgs n a s = Some s' \<Longrightarrow> logic_inv s \<Longrightarrow> m_queues s a = Some q \<Longrightarrow> IsSubscribe q \<Longrightarrow>
   size (stored q) \<le> n \<Longrightarrow>
   logic_inv s' \<and> (\<exists>q'. m_queues s' a = Some q' \<and> IsEmpty q' \<and> IsSubscribe q' \<and>
      mq_strQueueName q' = mq_strQueueName q) \<and>
   (\<forall>b. b \<noteq> a \<longrightarrow> m_queues s' b = m_queues s b) \<and> m_mSubcribeQueues s' = m_mSubcribeQueues s \<and>
   pending x (m_NeedAckMessageList s') = pending x (m_NeedAckMessageList s) +
     (if 0 < mq_iConfirmLevel q \<and> mq_strQueueName q = x then bodies q else {#})"
proof (induction n arbitrary: s q)
  case 0
  then have "IsEmpty q" by (simp add: IsEmpty_stored)
  with 0 show ?case by (simp add: bodies_def IsEmpty_stored)
next
  case (Suc n)
  note qi = inv_queue [OF Suc(3,4)]
  show ?case
  proof (cases "IsEmpty q")
    case True
    with Suc show ?thesis by (simp add: bodies_def IsEmpty_stored)
  next
    case False
    then obtain m q1 where pop: "PopFrontMsg q True = (Some m, q1)"
      using Suc(5) by (auto simp: PopFrontMsg_take_front)
    note q1 = bodies_PopFrontMsg [OF qi pop]
    let ?s = "set_queue a q1 s"
    have inv: "logic_inv ?s" using q1 by (intro inv_same_subs [OF Suc(3,4)]) auto
    obtain s1 where s1: "push_one ?s a q1 m = Some s1" "push_msgs n a s1 = Some s'"
      using Suc(2,4) False pop by (auto simp: bind_eq_Some_conv)
    note one = push_one_effect [OF inv s1(1), of x]
    have "logic_inv s1" "m_queues s1 a = Some q1" using one by simp_all
    moreover have "IsSubscribe q1" "size (stored q1) \<le> n" using q1(2,4) Suc(5,6) by (auto simp: IsSubscribe_def)
    ultimately have IH: "logic_inv s' \<and> (\<exists>q'. m_queues s' a = Some q' \<and> IsEmpty q' \<and> IsSubscribe q' \<and>
          mq_strQueueName q' = mq_strQueueName q1) \<and>
       (\<forall>b. b \<noteq> a \<longrightarrow> m_queues s' b = m_queues s1 b) \<and> m_mSubcribeQueues s' = m_mSubcribeQueues s1 \<and>
       pending x (m_NeedAckMessageList s') = pending x (m_NeedAckMessageList s1) +
         (if 0 < mq_iConfirmLevel q1 \<and> mq_strQueueName q1 = x then bodies q1 else {#})"
      by (intro Suc(1) [OF s1(2)])
    with one q1(1,3,5) show ?thesis by auto
  qed
qed

text \<open>Every subscribed queue has a subscriber.\<close>

definition all_subscribed :: "logic_server \<Rightarrow> (bytes \<times> addr) list \<Rightarrow> bool" where
  "all_subscribed s l \<longleftrightarrow> (\<forall>(n, a)\<in>set l. \<exists>q. m_queues s a = Some q \<and> mq_strQueueName q = n \<and> IsSubscribe q)"

text \<open>The bodies that a round of pushing moves to the waiting list of the queue \<open>x\<close>.\<close>

definition to_confirm :: "logic_server \<Rightarrow> bytes \<Rightarrow> (bytes \<times> addr) list \<Rightarrow> bytes multiset" where
  "to_confirm s x l = (case map_of l x of None \<Rightarrow> {#}
     | Some a \<Rightarrow> let q = the (m_queues s a) in if 0 < mq_iConfirmLevel q then bodies q else {#})"

lemma size_stored: "size (stored q) = length (m_msgPriQueue q) + length (m_messagesList q)"
  by (simp add: stored_def)

lemma push_loop_effect:
  "push_loop l s = Some s' \<Longrightarrow> logic_inv s \<Longrightarrow> distinct (map fst l) \<Longrightarrow> all_subscribed s l \<Longrightarrow>
   logic_inv s' \<and> m_mSubcribeQueues s' = m_mSubcribeQueues s \<and>
   (\<forall>(n, a)\<in>set l. \<exists>q. m_queues s' a = Some q \<and> IsEmpty q) \<and>
   (\<forall>b. b \<notin> snd ` set l \<longrightarrow> m_queues s' b = m_queues s b) \<and>
   pending x (m_NeedAckMessageList s') = pending x (m_NeedAckMessageList s) + to_confirm s x l"
proof (induction l arbitrary: s)
  case Nil
  then show ?case by (simp add: to_confirm_def)
next
  case (Cons e l)
  obtain n a where e: "e = (n, a)" by (cases e)
  obtain q where q: "m_queues s a = Some q" "mq_strQueueName q = n" "IsSubscribe q"
    using Cons(5) e by (auto simp: all_subscribed_def)
  obtain s1 where s1: "push_msgs (size (stored q)) a s = Some s1" "push_loop l s1 = Some s'"
    using Cons(2) e q by (auto simp: bind_eq_Some_conv size_stored)
  from push_msgs_effect [OF s1(1) Cons(3) q(1,3) order_refl, of x]
  obtain q' where eff: "logic_inv s1" "m_queues s1 a = Some q'" "IsEmpty q'"
    "\<And>b. b \<noteq> a \<Longrightarrow> m_queues s1 b = m_queues s b" "m_mSubcribeQueues s1 = m_mSubcribeQueues s"
    "pending x (m_NeedAckMessageList s1) = pending x (m_NeedAckMessageList s) +
      (if 0 < mq_iConfirmLevel q \<and> n = x then bodies q else {#})" using q(2) by blast
  have ne: "m \<noteq> n \<and> b \<noteq> a" if mb: "(m, b) \<in> set l" for m b
  proof
    show "m \<noteq> n" using Cons(4) mb e by (auto simp: rev_image_eqI)
    then show "b \<noteq> a" using Cons(5) mb q by (auto simp: all_subscribed_def)
  qed
  have "all_subscribed s1 l" using Cons(5) ne eff(4) unfolding all_subscribed_def by fastforce
  with Cons(1) [OF s1(2) eff(1)] Cons(4) e
  have IH: "logic_inv s'" "m_mSubcribeQueues s' = m_mSubcribeQueues s1"
    "\<And>m b. (m, b) \<in> set l \<Longrightarrow> \<exists>q. m_queues s' b = Some q \<and> IsEmpty q"
    "\<And>b. b \<notin> snd ` set l \<Longrightarrow> m_queues s' b = m_queues s1 b"
    "pending x (m_NeedAckMessageList s') = pending x (m_NeedAckMessageList s1) + to_confirm s1 x l"
    by auto
  have a: "a \<notin> snd ` set l" using ne by force
  have "to_confirm s x (e # l) = (if 0 < mq_iConfirmLevel q \<and> n = x then bodies q else {#}) + to_confirm s1 x l"
  proof (cases "n = x")
    case True
    then have "map_of l x = None" using Cons(4) e by (auto simp: map_of_eq_None_iff)
    then show ?thesis using True e q by (simp add: to_confirm_def)
  next
    case False
    have "m_queues s1 b = m_queues s b" if "map_of l x = Some b" for b
      using ne map_of_SomeD [OF that] eff(4) by blast
    then show ?thesis using False e by (auto simp: to_confirm_def split: option.split)
  qed
  moreover have "\<exists>q. m_queues s' a = Some q \<and> IsEmpty q" using IH(4) [OF a] eff(2,3) by auto
  ultimately show ?case using IH eff e by (auto simp: ac_simps)
qed

section \<open>Resending\<close>

lemma wait_time_ms:
  assumes "0 \<le> d" "d < 2147483"
  shows "wait_time (t + d, u) (t, u) = d * 1000"
proof -
  have "(d * 1000000) sdiv 1000 = d * (1000 :: int)"
    using assms by (cases "d = 0") (simp_all add: signed_divide_int_def sgn_mult)
  then show ?thesis using assms by (simp add: wait_time_def)
qed

section \<open>Properties\<close>


text \<open>C9. A round of pushing, when every subscribed queue has a subscriber, empties all of them, leaves the
  other queues alone, and loses nothing: each message of a queue whose consumers confirm is
  afterwards on the list of waiting messages, under the name of its queue.\<close>

theorem PushMessage_drains:
  assumes "logic_inv s" "all_subscribed s (m_mSubcribeQueues s)" "PushMessage s = Some s'"
  shows "logic_inv s' \<and> m_mSubcribeQueues s' = m_mSubcribeQueues s \<and>
    (\<forall>(n, a)\<in>set (m_mSubcribeQueues s). \<exists>q. m_queues s' a = Some q \<and> IsEmpty q) \<and>
    (\<forall>b. b \<notin> snd ` set (m_mSubcribeQueues s) \<longrightarrow> m_queues s' b = m_queues s b) \<and>
    (\<forall>x. pending x (m_NeedAckMessageList s') =
      pending x (m_NeedAckMessageList s) + to_confirm s x (m_mSubcribeQueues s))"
  using push_loop_effect [OF assms(3) [unfolded PushMessage_def] assms(1) core_invD(2) [OF logic_invD [OF assms(1)]] assms(2)]
  by blast

text \<open>When the first subscribed queue has lost all its subscribers, the round takes the wrong name out of
  the map: the iterator has already moved on, so the next queue becomes unreachable although it
  has subscribers and messages, and the empty one stays; if there is no next queue, the erase
  is undefined.\<close>

theorem PushMessage_erases_other:
  assumes "logic_inv s" "m_mSubcribeQueues s = (n, a) # rest" "m_queues s a = Some q" "\<not> IsSubscribe q"
  shows "case rest of [] \<Rightarrow> PushMessage s = None
    | (n2, a2) # rest2 \<Rightarrow> rest2 = [] \<longrightarrow>
        (\<exists>s'. PushMessage s = Some s' \<and> find_queue s' n2 = None \<and> find_queue s' n = Some a \<and>
          m_queues s' = m_queues s)"
proof (cases rest)
  case Nil
  with assms show ?thesis by (simp add: PushMessage_def)
next
  case (Cons e rest2)
  obtain n2 a2 where e: "e = (n2, a2)" by (cases e)
  have name: "mq_strQueueName q = n" using inv_names(2) [OF assms(1), of n a] assms(2,3) by simp
  have d: "n2 \<noteq> n" using core_invD(2) [OF logic_invD [OF assms(1)]] assms(2) Cons e by auto
  have un: "map_of (m_mUnSubcribeQueues s) n2 = None"
    using core_invD(4) [OF logic_invD [OF assms(1)], of n2] assms(2) Cons e d
    by (cases "map_of (m_mUnSubcribeQueues s) n2") auto
  show ?thesis
  proof (cases rest2)
    case Nil
    then show ?thesis
      using Cons e assms name d un by (simp add: PushMessage_def find_queue_def)
  qed (use Cons e in simp)
qed

text \<open>C40. As soon as one producer has asked for a confirmation in batches, the loop that sends these
  confirmations never ends; with none it changes nothing.\<close>

theorem SendMultiAck_hangs:
  "SendMultiAck s = (if m_producerLastMsgSeq s = [] then Some s else None)"
proof (cases "m_producerLastMsgSeq s")
  case Nil
  then show ?thesis by (cases s) (simp add: SendMultiAck_def)
next
  case (Cons itr rest)
  then show ?thesis
    using multi_ack_no_result [of itr s] by (cases "multi_ack_loop itr s") (auto simp: SendMultiAck_def)
qed

text \<open>A waiting message is not sent again before 3000 seconds have passed: the waiting time is in
  milliseconds but is compared with three million.\<close>

theorem ReSendMsg_too_late:
  assumes "m_NeedAckMessageList s = m # ms" "ssm_tSaveTime m = (t, u)" "env_now s = (t + d, u)" "0 \<le> d" "d < 3000"
  shows "ReSendMsg s = Some s"
  using assms wait_time_ms [of d t u] by (simp add: ReSendMsg_def)

text \<open>A publish packet whose declared length leaves a negative length for the body, sent with a key that
  some queue is bound for, ends the server: the copy of the body throws an exception that
  nothing catches.\<close>

theorem short_publish_crashes:
  assumes "good_name x" "good_name k" "map_of (m_mExchanges s) x = Some e" "snd (FindBindingQueue e k []) \<noteq> []"
    and "8 \<le> n" "n < 80"
  shows "ProcessRecvData s (be16 (word_of_nat n) @ be32 c @ be16 CMD_CREATE_PUBLISH @
      msg_fields (publish_packet c x k pr d sq 0 body) @ pad) (int n) c0 = None"
proof -
  let ?b = "be16 (word_of_nat n) @ be32 c @ be16 CMD_CREATE_PUBLISH @
      msg_fields (publish_packet c x k pr d sq 0 body) @ pad"
  note rd = publish_read_any [OF assms(1,2) refl, of "word_of_nat n" c CMD_CREATE_PUBLISH c pr d sq 0 body pad]
  obtain f q qs where find: "FindBindingQueue e k [] = (f, q # qs)"
    using assms(4) by (cases "FindBindingQueue e k []"; cases "snd (FindBindingQueue e k [])") auto
  have "OnPublishMessage s ?b 8 (int n - 8) c = None"
    using rd assms(3,6) find by (simp add: OnPublishMessage_def Let_def)
  moreover have "uint (word_of_nat n :: u16) = int n" using assms(6) by (intro uint_u16) simp
  moreover have "ReadShort ?b 0 = Some (2, word_of_nat n)" "ReadInt ?b 2 = Some (4, c)"
    "ReadShort ?b 6 = Some (2, CMD_CREATE_PUBLISH)"
    by (simp_all add: get_at_def)
  ultimately show ?thesis by (simp add: ProcessRecvData_def Let_def cmd_defs)
qed

lemma no_round: "rounds \<noteq> 0 \<Longrightarrow> recv_loop 0 rounds b s = None"
  by (cases rounds) simp_all

text \<open>A packet that is longer than the receive buffer stops the server for good: \<open>Dequeue\<close> refuses it
  without taking it out, and the loop tries again without counting, however many tries there
  are.\<close>

theorem oversized_packet_blocks:
  assumes "holds (m_pQueueFromConnect s) (d # ds)" "MAX_CLINT_PACKAGE_LENGTH < length d" "0 < rounds"
  shows "recv_loop tries rounds pBuff s = None"
proof -
  have deq: "DequeueInto (m_pQueueFromConnect s) b (int MAX_CLINT_PACKAGE_LENGTH) =
      Some (ERR_SHM_QUEUE_BUF_SMALL, b, int (length d), m_pQueueFromConnect s)" for b
    using DequeueInto_small [OF assms(1)] assms(2) by simp
  have same: "s\<lparr>m_pQueueFromConnect := m_pQueueFromConnect s\<rparr> = s" by (cases s) simp
  obtain n where n: "rounds = Suc n" using assms(3) by (cases rounds) auto
  show ?thesis
  proof (induction tries)
    case (Suc tries)
    then show ?case using deq by (simp add: n same shm_err_defs SUCCESS_def)
  qed (simp add: n)
qed

section \<open>Witnesses\<close>


definition w_two :: logic_server where
  "w_two = w_busy\<lparr>m_mSubcribeQueues := [([113], 0), ([114], 1)],
     m_queues := [0 \<mapsto> new_MessageQueue [113] 0 False False,
                  1 \<mapsto> (new_MessageQueue [114] 0 False False)\<lparr>m_vSubscribeConsumers := [2]\<rparr>], m_iNextAddr := 2\<rparr>"

lemma w_two_inv: "logic_inv w_two"
  by (auto simp: logic_inv_def core_inv_def w_two_def w_busy_def w_server_def new_LogicServer_def w_ring_ok new_Exchange_def
      size_defs bound_queues_def exchange_inv_def queue_inv_def new_MessageQueue_def split: if_split_asm)

theorem PushMessage_erases_other_witness:
  "\<exists>s'. PushMessage w_two = Some s' \<and> find_queue s' [114] = None \<and> find_queue s' [113] = Some 0"
proof -
  have s: "m_mSubcribeQueues w_two = ([113], 0) # [([114], 1)]"
    "m_queues w_two 0 = Some (new_MessageQueue [113] 0 False False)"
    "\<not> IsSubscribe (new_MessageQueue [113] 0 False False)"
    by (simp_all add: w_two_def IsSubscribe_def)
  from PushMessage_erases_other [OF w_two_inv s] show ?thesis by auto
qed

theorem ReSendMsg_too_late_witness:
  "ReSendMsg (w_server\<lparr>m_NeedAckMessageList := [w_msg 1 5], env_now := (0 + 60, 0)\<rparr>) =
     Some (w_server\<lparr>m_NeedAckMessageList := [w_msg 1 5], env_now := (0 + 60, 0)\<rparr>)"
  by (rule ReSendMsg_too_late [of _ "w_msg 1 5" "[]" 0 0 60]) (simp_all add: w_msg_def new_SeverStoreMessage_def)

theorem short_publish_crashes_witness:
  "ProcessRecvData w_server (be16 (word_of_nat 60) @ be32 1 @ be16 CMD_CREATE_PUBLISH @
      msg_fields (publish_packet 1 [101] [107] 0 False 0 0 []) @ []) (int 60) (-1) = None"
proof -
  let ?e = "(new_Exchange [101] EXCHANGE_TYPE_DIRECT False False)\<lparr>m_mBindingQueues := [([107], [0])]\<rparr>"
  have e: "map_of (m_mExchanges w_server) [101] = Some ?e" by (simp add: w_server_def)
  show ?thesis
    by (rule short_publish_crashes [OF _ _ e])
      (simp_all add: good_name_def size_defs FindBindingQueue_def new_Exchange_def)
qed

definition w_big :: shm_queue where
  "w_big = snd (Init True ShmCreated (int 20000) ShmQueue_new)"

lemma w_big_holds: "holds w_big []" "capacity w_big = 20000"
  using Init_holds [of 20000 ShmQueue_new] by (auto simp: w_big_def)

theorem oversized_packet_blocks_witness:
  "\<exists>q. recv_loop 5 800 [] (w_server\<lparr>m_pQueueFromConnect := q\<rparr>) = None \<and>
     holds q [replicate 12000 1]"
proof -
  obtain q where q: "holds q [replicate 12000 1]"
    using Enqueue_fits [OF w_big_holds(1), of 12000 "replicate 12000 1"]
    by (auto simp: w_big_holds used_def)
  then have "holds (m_pQueueFromConnect (w_server\<lparr>m_pQueueFromConnect := q\<rparr>)) (replicate 12000 1 # [])" by simp
  from oversized_packet_blocks [OF this, of 800 5 "[]"] q show ?thesis by (auto simp: size_defs)
qed

definition w_full_queue :: message_queue where
  "w_full_queue = (new_MessageQueue [113] 0 False False)
     \<lparr>m_vSubscribeConsumers := [1, 2], mq_iConfirmLevel := 1, m_messagesList := [w_msg 0 0]\<rparr>"

definition w_push :: logic_server where
  "w_push = w_busy\<lparr>m_queues := [0 \<mapsto> w_full_queue], m_pQueueToConnect := w_big\<rparr>"

lemma w_push_inv: "logic_inv w_push"
  using w_big_holds(1) w_ring_holds(1)
  by (auto simp: logic_inv_def core_inv_def w_push_def w_full_queue_def w_busy_def w_server_def new_LogicServer_def w_ring_ok
      new_Exchange_def size_defs bound_queues_def exchange_inv_def queue_inv_def new_MessageQueue_def w_msg_def shm_ok_def
      new_SeverStoreMessage_def pri_def split: if_split_asm)

theorem PushMessage_drains_witness:
  "\<exists>s'. PushMessage w_push = Some s' \<and> pending [113] (m_NeedAckMessageList s') = {#[65], [65], [65]#}"
proof -
  obtain m q1 where pop: "PopFrontMsg w_full_queue True = (Some m, q1)" "length (ssm_strMsgBody m) = 1" "IsEmpty q1"
      "mq_iConfirmLevel q1 = 1"
    by (auto simp: PopFrontMsg_take_front w_full_queue_def new_MessageQueue_def IsSubscribe_def IsEmpty_def
        take_front_def w_msg_def new_SeverStoreMessage_def)
  let ?m = "m\<lparr>ssm_iCmdId := CMD_SERVER_PUSH_MESSAGE, ssm_iConfirmLevel := 1, ssm_iMsgSeq := m_iAckSeq w_push,
      ssm_strQueueName := mq_strQueueName q1\<rparr>"
  let ?b = "zbuf (wire (SeverStoreMessage ?m)) MAX_SERVER_PACKAGE_LENGTH"
  have pack: "GetMessagePack (SeverStoreMessage ?m) (replicate MAX_SERVER_PACKAGE_LENGTH 0)
      (int MAX_SERVER_PACKAGE_LENGTH) = Some (SUCCESS, ?b, 14)"
    using pack_SeverStoreMessage [of ?m "int MAX_SERVER_PACKAGE_LENGTH" MAX_SERVER_PACKAGE_LENGTH] pop(2)
    by (simp add: packs_def zbuf_Nil size_defs del: GetMessagePack.simps)
  obtain q where q: "Enqueue w_big ?b 14 = Some (SUCCESS, q)"
    using Enqueue_fits [OF w_big_holds(1), of 14 ?b] pop(2) by (auto simp: w_big_holds used_def size_defs)
  have f: "m_mSubcribeQueues w_push = [([113], 0)]" "m_queues w_push = [0 \<mapsto> w_full_queue]" "m_pQueueToConnect w_push = w_big"
    by (simp_all add: w_push_def)
  have sub: "IsSubscribe w_full_queue" "\<not> IsEmpty w_full_queue" "m_msgPriQueue w_full_queue = []"
    "length (m_messagesList w_full_queue) = 1"
    by (simp_all add: w_full_queue_def IsSubscribe_def IsEmpty_def new_MessageQueue_def)
  obtain s' where run: "PushMessage w_push = Some s'"
    using pop pack q f sub
    by (auto simp: PushMessage_def push_one_def Let_def to_connect_wait_def to_connect_def shm_err_defs SUCCESS_def
        set_queue_def simp del: GetMessagePack.simps)
  have "all_subscribed w_push (m_mSubcribeQueues w_push)"
    using sub by (simp add: f all_subscribed_def) (simp add: w_full_queue_def new_MessageQueue_def)
  from PushMessage_drains [OF w_push_inv this run]
  have "pending [113] (m_NeedAckMessageList s') =
      pending [113] (m_NeedAckMessageList w_push) + to_confirm w_push [113] (m_mSubcribeQueues w_push)" by blast
  moreover have "mq_iConfirmLevel w_full_queue = 1" "bodies w_full_queue = {#[65]#}"
    "pending [113] (m_NeedAckMessageList w_push) = {#[65], [65]#}"
    by (simp_all add: w_full_queue_def bodies_def stored_def new_MessageQueue_def w_push_def pending_def w_msg_def
        new_SeverStoreMessage_def)
  ultimately show ?thesis using run by (simp add: to_confirm_def f)
qed

end
