(* ===== verification/Logic_Session.thy ===== *)
theory Logic_Session
  imports Logic_Run
begin

text \<open>
  A whole session: a client creates an exchange, a queue and a binding, and publishes; the packets
  are those of the packers, processed one after the other by the dispatcher.
\<close>

section \<open>Creating\<close>

lemma create_read:
  assumes "good_name n" and m: "msg_fields m = name_field n @ be16 v @ [flag d, flag a]" and b: "b = wire m @ pad"
  shows "read_name b 8 = Some (32, n)" "ReadShort b 40 = Some (2, v)" "ReadBool b 42 = Some (1, d)"
    "ReadBool b 43 = Some (1, a)"
proof -
  have l: "length (name_field n) = 32" using assms(1) by simp
  show "read_name b 8 = Some (32, n)"
    by (rule read_name_field; simp add: b wire_def m l get_at_def assms(1))
  show "ReadShort b 40 = Some (2, v)" "ReadBool b 42 = Some (1, d)" "ReadBool b 43 = Some (1, a)"
    by (simp_all add: b wire_def m l get_at_def nth_append flag_def)
qed

lemma create_exchange_step:
  assumes n: "good_name n"
  shows "ProcessRecvData s (wire (CreateExchangeMessage c CMD_CREATE_EXCNANGE n ty False a) @ pad) 44 c0 =
    (if has_key (m_mExchanges s) n then Some (SUCCESS, c, RE_EXCHANGE_EXIST @ n, s)
     else Some (SUCCESS, c, RE_CREATE_EXCHANGE_SUCCESS,
       s\<lparr>m_mExchanges := AList.update n (new_Exchange n ty False a) (m_mExchanges s)\<rparr>))"
  using ProcessRecvData_wire [of "CreateExchangeMessage c CMD_CREATE_EXCNANGE n ty False a" s pad c0] n
    create_read [OF n _ refl, of "CreateExchangeMessage c CMD_CREATE_EXCNANGE n ty False a" ty False a pad]
  by (simp add: handle_def cmd_defs OnCreateExchange_def Let_def)

lemma create_queue_step:
  assumes n: "good_name n"
  shows "ProcessRecvData s (wire (CreateQueueMessage c CMD_CREATE_QUEUE n pr False a) @ pad) 44 c0 =
    (if find_queue s n \<noteq> None then Some (SUCCESS, c, RE_QUEUE_EXIST @ n, s)
     else Some (SUCCESS, c, RE_CREATE_QUEUE_SUCCESS, (set_queue (m_iNextAddr s) (new_MessageQueue n pr False a) s)
       \<lparr>m_iNextAddr := m_iNextAddr s + 1,
        m_mUnSubcribeQueues := AList.update n (m_iNextAddr s) (m_mUnSubcribeQueues s)\<rparr>))"
  using ProcessRecvData_wire [of "CreateQueueMessage c CMD_CREATE_QUEUE n pr False a" s pad c0] n
    create_read [OF n _ refl, of "CreateQueueMessage c CMD_CREATE_QUEUE n pr False a" pr False a pad]
  by (auto simp: handle_def cmd_defs OnCreateQueue_def Let_def find_queue_def split: option.splits)

lemma binding_read:
  assumes "good_name x" "good_name n" "good_name k"
    and b: "b = wire (CreateBindingMessage c CMD_CREATE_BINDING x n k) @ pad"
  shows "read_name b 8 = Some (32, x)" "read_name b 40 = Some (32, n)" "read_name b 72 = Some (32, k)"
proof -
  have l: "length (name_field x) = 32" "length (name_field n) = 32" "length (name_field k) = 32"
    using assms(1-3) by simp_all
  show "read_name b 8 = Some (32, x)" "read_name b 40 = Some (32, n)" "read_name b 72 = Some (32, k)"
    by (rule read_name_field; simp add: b wire_def l get_at_def assms(1-3))+
qed

lemma create_binding_step:
  assumes names: "good_name x" "good_name n" "good_name k"
    and e: "map_of (m_mExchanges s) x = Some e" "\<not> ex_bDurable e"
    and a: "map_of (m_mUnSubcribeQueues s) n = Some a"
  shows "ProcessRecvData s (wire (CreateBindingMessage c CMD_CREATE_BINDING x n k) @ pad) 104 c0 =
    Some (SUCCESS, c, RE_BINDING_SUCCEED @ k,
      s\<lparr>m_mExchanges := AList.update x (CreateBinding e k a) (m_mExchanges s)\<rparr>)"
  using ProcessRecvData_wire [of "CreateBindingMessage c CMD_CREATE_BINDING x n k" s pad c0] names
    binding_read [OF names refl, of c pad] e a
  by (simp add: handle_def cmd_defs OnCreateBinding_def Let_def)

section \<open>Sessions\<close>

text \<open>Processing a list of requests, each in a buffer of its own.\<close>

fun process_all :: "message list \<Rightarrow> logic_server \<Rightarrow> logic_server option" where
  "process_all [] s = Some s"
| "process_all (m # ms) s = do {
     (_, _, _, s) \<leftarrow> ProcessRecvData s (wire m) (int (length (wire m))) (-1);
     process_all ms s }"

text \<open>C5. A client creates a direct exchange, a queue and a binding with fresh names and publishes a message with
  the bound key: every request returns, and at the end the queue can be found under its name and
  holds exactly that message; a second request to create the queue would change nothing.\<close>

theorem session_delivers:
  assumes inv: "logic_inv s" and names: "good_name x" "good_name n" "good_name k" and len: "length body < 65456"
    and fresh: "map_of (m_mExchanges s) x = None" "find_queue s n = None"
  shows "\<exists>s' a q. process_all
      [CreateExchangeMessage c CMD_CREATE_EXCNANGE x EXCHANGE_TYPE_DIRECT False ad,
       CreateQueueMessage c CMD_CREATE_QUEUE n pr False ad,
       CreateBindingMessage c CMD_CREATE_BINDING x n k,
       publish_packet c x k p d sq PRODUCER_NO_ACK body] s = Some s' \<and>
    find_queue s' n = Some a \<and> m_queues s' a = Some q \<and> bodies q = {#body#} \<and>
    process_all [CreateQueueMessage c CMD_CREATE_QUEUE n pr False ad] s' = Some s'"
proof -
  let ?e = "new_Exchange x EXCHANGE_TYPE_DIRECT False ad" and ?a = "m_iNextAddr s"
  let ?e2 = "CreateBinding ?e k ?a"
  let ?s1 = "s\<lparr>m_mExchanges := AList.update x ?e (m_mExchanges s)\<rparr>"
  let ?s2 = "(set_queue ?a (new_MessageQueue n pr False ad) ?s1)\<lparr>m_iNextAddr := ?a + 1,
        m_mUnSubcribeQueues := AList.update n ?a (m_mUnSubcribeQueues s)\<rparr>"
  let ?s3 = "?s2\<lparr>m_mExchanges := AList.update x ?e2 (m_mExchanges ?s2)\<rparr>"
  have un: "map_of (m_mUnSubcribeQueues s) n = None" "map_of (m_mSubcribeQueues s) n = None"
    using fresh(2) by (auto simp: find_queue_def split: option.splits)
  have l: "length (wire (CreateExchangeMessage c CMD_CREATE_EXCNANGE x EXCHANGE_TYPE_DIRECT False ad)) = 44"
    "length (wire (CreateQueueMessage c CMD_CREATE_QUEUE n pr False ad)) = 44"
    "length (wire (CreateBindingMessage c CMD_CREATE_BINDING x n k)) = 104" using names by simp_all
  have p1: "ProcessRecvData s (wire (CreateExchangeMessage c CMD_CREATE_EXCNANGE x EXCHANGE_TYPE_DIRECT False ad)) 44 (-1) =
      Some (SUCCESS, c, RE_CREATE_EXCHANGE_SUCCESS, ?s1)"
    using create_exchange_step [OF names(1), of s c EXCHANGE_TYPE_DIRECT ad "[]" "-1"] fresh(1) by simp
  have p2: "ProcessRecvData ?s1 (wire (CreateQueueMessage c CMD_CREATE_QUEUE n pr False ad)) 44 (-1) =
      Some (SUCCESS, c, RE_CREATE_QUEUE_SUCCESS, ?s2)"
    using create_queue_step [OF names(2), of ?s1 c pr ad "[]" "-1"] un by (simp add: find_queue_def)
  have p3: "ProcessRecvData ?s2 (wire (CreateBindingMessage c CMD_CREATE_BINDING x n k)) 104 (-1) =
      Some (SUCCESS, c, RE_BINDING_SUCCEED @ k, ?s3)"
    using create_binding_step [OF names, of ?s2 ?e ?a c "[]" "-1"] by (simp add: new_Exchange_def)
  have inv3: "logic_inv ?s3"
    by (rule ProcessRecvData_keeps [OF ProcessRecvData_keeps [OF ProcessRecvData_keeps [OF inv p1] p2] p3])
  have e3: "map_of (m_mExchanges ?s3) x = Some ?e2" "snd (FindBindingQueue ?e2 k []) = [?a]"
    by (simp_all add: CreateBinding_def FindBindingQueue_def new_Exchange_def)
  let ?m = "publish_packet c x k p d sq PRODUCER_NO_ACK body"
  have lm: "length (wire ?m) < 65536" using len names by simp
  obtain s4 where s4: "OnPublishMessage ?s3 (wire ?m @ []) 8 (int (length (msg_fields ?m))) c = Some (SUCCESS, [], s4)"
    "delivered body [?a] ?s3 s4"
    using OnPublishMessage_outcome [OF inv3 names(1,3) len refl refl, where c = c and pr = p and d = d and sq = sq
        and lv = PRODUCER_NO_ACK and pad = "[]"] e3 by (auto simp: ack_defs Let_def)
  have p4: "ProcessRecvData ?s3 (wire ?m) (int (length (wire ?m))) (-1) = Some (SUCCESS, c, [], s4)"
    using ProcessRecvData_wire [OF lm, of ?s3 "[]" "-1"] s4(1) by (simp add: handle_def cmd_defs del: length_wire)
  have q3: "m_queues ?s3 ?a = Some (new_MessageQueue n pr False ad)" by simp
  have "gains {#body#} (m_queues ?s3 ?a) (m_queues s4 ?a)"
    using s4(2) unfolding delivered_def by (auto dest: spec [of _ ?a])
  then obtain q where q: "m_queues s4 ?a = Some q" "bodies q = {#body#}"
    unfolding q3 by (cases "m_queues s4 ?a") (auto simp: bodies_def stored_def new_MessageQueue_def)
  have find: "find_queue s4 n = Some ?a"
    using s4(2) un(2) by (simp add: delivered_def find_queue_def)
  have "process_all [CreateQueueMessage c CMD_CREATE_QUEUE n pr False ad] s4 = Some s4"
    using create_queue_step [OF names(2), of s4 c pr ad "[]" "-1"] find by (simp add: l del: length_wire)
  with p1 p2 p3 p4 q find show ?thesis by (auto simp: l simp del: length_wire)
qed

section \<open>Witnesses\<close>

theorem session_delivers_witness:
  "\<exists>s' a q. process_all
      [CreateExchangeMessage 4 CMD_CREATE_EXCNANGE [120] EXCHANGE_TYPE_DIRECT False True,
       CreateQueueMessage 4 CMD_CREATE_QUEUE [110] 9 False True,
       CreateBindingMessage 4 CMD_CREATE_BINDING [120] [110] [107],
       publish_packet 4 [120] [107] 3 False 1 PRODUCER_NO_ACK [72, 105]] w_server = Some s' \<and>
    find_queue s' [110] = Some a \<and> m_queues s' a = Some q \<and> bodies q = {#[72, 105]#}"
proof -
  have g: "good_name [120]" "good_name [110]" "good_name [107]" by (simp_all add: good_name_def size_defs)
  have f: "map_of (m_mExchanges w_server) [120] = None" "find_queue w_server [110] = None"
    by (simp_all add: w_server_def new_LogicServer_def find_queue_def)
  have b: "length [72, 105 :: byte] < 65456" by simp
  from session_delivers [OF w_server_inv g b f, of 4 True 9 3 False 1] show ?thesis by blast
qed

end
