(* ===== verification/Client_Connect.thy ===== *)
theory Client_Connect
  imports Mq_Prelude
begin

text \<open>
  The pool of client connections of \<^verbatim>\<open>connectServer/clientConnect.h\<close> and \<^verbatim>\<open>clientConnect.cpp\<close>. A
  \<^verbatim>\<open>ClientConnect *\<close> is the number of the slot of the array \<^verbatim>\<open>m_pAllClientConnect\<close> that it points to.
  A pointer into one of the two buffers of a connection says which buffer and how far into it; the
  difference of pointers into different buffers is undefined. \<^verbatim>\<open>close\<close> and \<^verbatim>\<open>epoll_ctl\<close> act on the
  kernel only and are left out.
\<close>

section \<open>Connections\<close>

datatype which_buff = RecvBuff | SendBuff

type_synonym buf_ptr = "which_buff \<times> nat"

record client_connect =
  cc_iSockfd :: int
  cc_iClientAddr :: "32 word"
  cc_tLastRecvTime :: int
  cc_bUsed :: bool
  cc_bInMap :: bool
  cc_iIndex :: int
  cc_pRecvBuff :: bytes
  cc_pRecvHead :: buf_ptr
  cc_pRecvTail :: buf_ptr
  cc_pSendBuff :: bytes
  cc_pSendHead :: buf_ptr
  cc_pSendTail :: buf_ptr

text \<open>\<^verbatim>\<open>m_pRecvEnd\<close> and \<^verbatim>\<open>m_pSendEnd\<close> are set once, in the constructor of the manager.\<close>

definition cc_pRecvEnd :: buf_ptr where "cc_pRecvEnd = (RecvBuff, SERVER_BUFFER_SIZE)"
definition cc_pSendEnd :: buf_ptr where "cc_pSendEnd = (SendBuff, SERVER_BUFFER_SIZE)"

definition ptr_diff :: "buf_ptr \<Rightarrow> buf_ptr \<Rightarrow> int option" where
  "ptr_diff a b = (if fst a = fst b then Some (int (snd a) - int (snd b)) else None)"

definition buff_of :: "client_connect \<Rightarrow> which_buff \<Rightarrow> bytes" where
  "buff_of c w = (case w of RecvBuff \<Rightarrow> cc_pRecvBuff c | SendBuff \<Rightarrow> cc_pSendBuff c)"

section \<open>The manager\<close>

record connect_manager =
  MIN_POINTER_ADDRESS :: nat
  MAX_POINTER_ADDRESS :: nat
  m_mOnlineClient :: "(int \<times> nat) list"
  m_lFreeList :: "nat list"
  m_pAllClientConnect :: "client_connect list"

text \<open>\<^verbatim>\<open>sizeof(ClientConnect)\<close> on the 64-bit host: 24 bytes of scalars with padding, eight pointers.\<close>

definition sizeof_ClientConnect :: nat where "sizeof_ClientConnect = 24 + 8 * 8"

definition slot_addr :: "connect_manager \<Rightarrow> nat \<Rightarrow> nat" where
  "slot_addr m p = MIN_POINTER_ADDRESS m + sizeof_ClientConnect * p"

text \<open>\<^verbatim>\<open>new ClientConnect[...]\<close> leaves the members it does not set with what the memory holds: \<open>junk i\<close>.\<close>

definition new_connect :: "(nat \<Rightarrow> client_connect) \<Rightarrow> nat \<Rightarrow> client_connect" where
  "new_connect junk i =
     (junk i)\<lparr>cc_bUsed := False, cc_bInMap := False, cc_iIndex := int i,
       cc_pRecvBuff := replicate SERVER_BUFFER_SIZE 0,
       cc_pRecvHead := (RecvBuff, 0), cc_pRecvTail := (RecvBuff, 0),
       cc_pSendBuff := replicate SERVER_BUFFER_SIZE 0,
       cc_pSendHead := (SendBuff, 0), cc_pSendTail := (SendBuff, 0)\<rparr>"

definition new_ClientConnectManager :: "nat \<Rightarrow> (nat \<Rightarrow> client_connect) \<Rightarrow> connect_manager" where
  "new_ClientConnectManager base junk =
     \<lparr>MIN_POINTER_ADDRESS = base,
      MAX_POINTER_ADDRESS = base + sizeof_ClientConnect * CLIENT_EPOLL_COUNT,
      m_mOnlineClient = [],
      m_lFreeList = [0..<CLIENT_EPOLL_COUNT],
      m_pAllClientConnect = map (new_connect junk) [0..<CLIENT_EPOLL_COUNT]\<rparr>"

definition IsAddrValid :: "connect_manager \<Rightarrow> nat \<Rightarrow> bool" where
  "IsAddrValid m addr \<longleftrightarrow>
     MIN_POINTER_ADDRESS m \<le> addr \<and> addr \<le> MAX_POINTER_ADDRESS m \<and>
     (addr - MIN_POINTER_ADDRESS m) mod sizeof_ClientConnect = 0"

text \<open>Access through a pointer, and the update of the object it points to.\<close>

definition connect_at :: "connect_manager \<Rightarrow> nat \<Rightarrow> client_connect option" where
  "connect_at m p =
     (if p < length (m_pAllClientConnect m) then Some (m_pAllClientConnect m ! p) else None)"

definition set_connect :: "nat \<Rightarrow> client_connect \<Rightarrow> connect_manager \<Rightarrow> connect_manager" where
  "set_connect p c m = m\<lparr>m_pAllClientConnect := (m_pAllClientConnect m)[p := c]\<rparr>"

text \<open>The outer option is the run, the inner one the pointer: \<open>Some (None, m)\<close> is \<^verbatim>\<open>NULL\<close>.\<close>

definition GetOneFreeConnect :: "connect_manager \<Rightarrow> (nat option \<times> connect_manager) option" where
  "GetOneFreeConnect m =
     (case m_lFreeList m of
        [] \<Rightarrow> Some (None, m)
      | pFront # rest \<Rightarrow>
          let m = m\<lparr>m_lFreeList := rest\<rparr>
          in if \<not> IsAddrValid m (slot_addr m pFront) then Some (None, m)
             else do {
               c \<leftarrow> connect_at m pFront;
               Some (Some pFront, set_connect pFront (c\<lparr>cc_bUsed := True\<rparr>) m) })"

definition reset_connect :: "client_connect \<Rightarrow> client_connect" where
  "reset_connect c =
     (let c = c\<lparr>cc_pRecvBuff := replicate SERVER_BUFFER_SIZE 0\<rparr>;
          c = c\<lparr>cc_pRecvHead := (RecvBuff, 0)\<rparr>;
          c = c\<lparr>cc_pRecvTail := (RecvBuff, 0)\<rparr>;
          c = c\<lparr>cc_pSendBuff := replicate SERVER_BUFFER_SIZE 0\<rparr>;
          c = c\<lparr>cc_pRecvHead := (SendBuff, 0)\<rparr>
      in c\<lparr>cc_pRecvTail := (SendBuff, 0)\<rparr>)"

definition ClientExit :: "nat option \<Rightarrow> connect_manager \<Rightarrow> connect_manager option" where
  "ClientExit ipClientConnect m =
     (case ipClientConnect of
        None \<Rightarrow> Some m
      | Some p \<Rightarrow> do {
          c \<leftarrow> connect_at m p;
          if \<not> cc_bUsed c then Some m
          else do {
            let m = (if has_key (m_mOnlineClient m) (cc_iIndex c)
                     then m\<lparr>m_mOnlineClient := AList.delete (cc_iIndex c) (m_mOnlineClient m)\<rparr> else m);
            let m = m\<lparr>m_lFreeList := m_lFreeList m @ [p]\<rparr>;
            Some (set_connect p ((reset_connect c)\<lparr>cc_bInMap := False, cc_bUsed := False\<rparr>) m) } })"

definition FindClient :: "int \<Rightarrow> connect_manager \<Rightarrow> nat option" where
  "FindClient iIndex m = map_of (m_mOnlineClient m) iIndex"

definition AddOnlineClient :: "nat option \<Rightarrow> connect_manager \<Rightarrow> (int \<times> connect_manager) option" where
  "AddOnlineClient ipClientConnect m =
     (case ipClientConnect of
        None \<Rightarrow> Some (ERROR, m)
      | Some p \<Rightarrow> do {
          c \<leftarrow> connect_at m p;
          Some (SUCCESS, m\<lparr>m_mOnlineClient := AList.update (cc_iIndex c) p (m_mOnlineClient m)\<rparr>) })"

section \<open>The invariant of the pool\<close>

text \<open>
  Every slot is in exactly one of two states: free, and then exactly once on the free list, or in use.
  The map of the clients that are online leads from the index of a used slot to that slot.
\<close>

definition used_slot :: "connect_manager \<Rightarrow> nat \<Rightarrow> bool" where
  "used_slot m p \<longleftrightarrow> (\<exists>c. connect_at m p = Some c \<and> cc_bUsed c)"

definition pool_ok :: "connect_manager \<Rightarrow> bool" where
  "pool_ok m \<longleftrightarrow>
     length (m_pAllClientConnect m) = CLIENT_EPOLL_COUNT \<and>
     MAX_POINTER_ADDRESS m = MIN_POINTER_ADDRESS m + sizeof_ClientConnect * CLIENT_EPOLL_COUNT \<and>
     (\<forall>p c. connect_at m p = Some c \<longrightarrow> cc_iIndex c = int p) \<and>
     distinct (m_lFreeList m) \<and>
     (\<forall>p. p \<in> set (m_lFreeList m) \<longleftrightarrow> p < CLIENT_EPOLL_COUNT \<and> \<not> used_slot m p) \<and>
     distinct (map fst (m_mOnlineClient m)) \<and>
     (\<forall>i p. map_of (m_mOnlineClient m) i = Some p \<longrightarrow> i = int p \<and> used_slot m p)"

lemma connect_at_set_connect [simp]:
  "connect_at (set_connect p c m) q =
     (if q = p \<and> p < length (m_pAllClientConnect m) then Some c else connect_at m q)"
  by (auto simp: connect_at_def set_connect_def)

lemma set_connect_fields [simp]:
  "m_mOnlineClient (set_connect p c m) = m_mOnlineClient m"
  "m_lFreeList (set_connect p c m) = m_lFreeList m"
  "MIN_POINTER_ADDRESS (set_connect p c m) = MIN_POINTER_ADDRESS m"
  "MAX_POINTER_ADDRESS (set_connect p c m) = MAX_POINTER_ADDRESS m"
  "length (m_pAllClientConnect (set_connect p c m)) = length (m_pAllClientConnect m)"
  by (simp_all add: set_connect_def)

lemma connect_at_cong [simp]:
  "connect_at (m\<lparr>m_mOnlineClient := x\<rparr>) = connect_at m"
  "connect_at (m\<lparr>m_lFreeList := y\<rparr>) = connect_at m"
  "used_slot (m\<lparr>m_mOnlineClient := x\<rparr>) = used_slot m"
  "used_slot (m\<lparr>m_lFreeList := y\<rparr>) = used_slot m"
  by (simp_all add: fun_eq_iff connect_at_def used_slot_def)

lemma connect_at_Some: "connect_at m p = Some c \<Longrightarrow> p < length (m_pAllClientConnect m)"
  by (simp add: connect_at_def split: if_splits)

lemma used_set_connect:
  "connect_at m p = Some d \<Longrightarrow> used_slot (set_connect p c m) q = (if q = p then cc_bUsed c else used_slot m q)"
  by (auto simp: used_slot_def dest: connect_at_Some)

lemma connect_at_less: "pool_ok m \<Longrightarrow> p < CLIENT_EPOLL_COUNT \<Longrightarrow> \<exists>c. connect_at m p = Some c"
  by (simp add: pool_ok_def connect_at_def)

lemma pool_online: "pool_ok m \<Longrightarrow> FindClient i m = Some p \<Longrightarrow> i = int p \<and> used_slot m p"
  unfolding pool_ok_def FindClient_def by blast

lemma slot_addr_valid: "pool_ok m \<Longrightarrow> IsAddrValid m (slot_addr m p) \<longleftrightarrow> p \<le> CLIENT_EPOLL_COUNT"
  by (simp add: IsAddrValid_def slot_addr_def pool_ok_def sizeof_ClientConnect_def)

lemma new_pool_ok: "pool_ok (new_ClientConnectManager base junk)"
  by (auto simp: pool_ok_def new_ClientConnectManager_def connect_at_def used_slot_def new_connect_def
      split: if_splits)

text \<open>Changes of a connection that keep its index and its use keep the invariant.\<close>

lemma pool_ok_set_connect:
  assumes "pool_ok m" "connect_at m p = Some d" "cc_iIndex c = cc_iIndex d" "cc_bUsed c = cc_bUsed d"
  shows "pool_ok (set_connect p c m)"
proof -
  have u: "used_slot (set_connect p c m) q = used_slot m q" for q
    using used_set_connect [OF assms(2), of c q] assms(2,4) by (auto simp: used_slot_def)
  show ?thesis
    using assms(1-3) unfolding pool_ok_def by (auto simp: u split: if_splits)
qed

lemma GetOneFreeConnect_cases:
  assumes "pool_ok m"
  shows "case m_lFreeList m of
      [] \<Rightarrow> GetOneFreeConnect m = Some (None, m)
    | p # rest \<Rightarrow> \<exists>c. connect_at m p = Some c \<and> \<not> cc_bUsed c \<and>
        GetOneFreeConnect m = Some (Some p, set_connect p (c\<lparr>cc_bUsed := True\<rparr>) (m\<lparr>m_lFreeList := rest\<rparr>)) \<and>
        pool_ok (set_connect p (c\<lparr>cc_bUsed := True\<rparr>) (m\<lparr>m_lFreeList := rest\<rparr>))"
proof (cases "m_lFreeList m")
  case Nil
  then show ?thesis by (simp add: GetOneFreeConnect_def)
next
  case (Cons p rest)
  have p: "p < CLIENT_EPOLL_COUNT" "\<not> used_slot m p" using assms Cons by (auto simp: pool_ok_def)
  then obtain c where c: "connect_at m p = Some c" using connect_at_less [OF assms] by blast
  with p have nu: "\<not> cc_bUsed c" by (simp add: used_slot_def)
  let ?m = "m\<lparr>m_lFreeList := rest\<rparr>"
  have valid: "IsAddrValid ?m (slot_addr ?m p)"
    using slot_addr_valid [OF assms, of p] p by (simp add: IsAddrValid_def slot_addr_def)
  have cm: "connect_at ?m p = Some c" using c by simp
  have u: "used_slot (set_connect p (c\<lparr>cc_bUsed := True\<rparr>) ?m) q \<longleftrightarrow> q = p \<or> used_slot m q" for q
    using used_set_connect [OF cm, of "c\<lparr>cc_bUsed := True\<rparr>" q] by simp
  have "pool_ok (set_connect p (c\<lparr>cc_bUsed := True\<rparr>) ?m)"
    unfolding pool_ok_def u
  proof (intro conjI allI impI)
    fix q d assume "connect_at (set_connect p (c\<lparr>cc_bUsed := True\<rparr>) ?m) q = Some d"
    then show "cc_iIndex d = int q" using assms c by (auto simp: pool_ok_def split: if_splits)
  qed (use assms Cons in \<open>auto simp: pool_ok_def\<close>)
  with c nu valid show ?thesis by (simp add: Cons GetOneFreeConnect_def Let_def)
qed

lemma ClientExit_ok:
  assumes "pool_ok m" "connect_at m p = Some c"
  shows "\<exists>m'. ClientExit (Some p) m = Some m' \<and> pool_ok m' \<and> \<not> used_slot m' p \<and> FindClient (int p) m' = None \<and>
    (\<forall>q. q \<noteq> p \<longrightarrow> connect_at m' q = connect_at m q \<and> FindClient (int q) m' = FindClient (int q) m) \<and>
    set (m_lFreeList m') = insert p (set (m_lFreeList m))"
proof (cases "cc_bUsed c")
  case False
  have "p < CLIENT_EPOLL_COUNT" using connect_at_Some [OF assms(2)] assms(1) by (simp add: pool_ok_def)
  moreover have nu: "\<not> used_slot m p" using False assms(2) by (simp add: used_slot_def)
  ultimately have "p \<in> set (m_lFreeList m)" using assms(1) by (simp add: pool_ok_def)
  moreover have "FindClient (int p) m = None"
    using pool_online [OF assms(1), of "int p"] nu by (cases "FindClient (int p) m") auto
  ultimately show ?thesis using False nu assms by (auto simp: ClientExit_def insert_absorb)
next
  case True
  let ?d = "(reset_connect c)\<lparr>cc_bInMap := False, cc_bUsed := False\<rparr>"
  let ?m = "m\<lparr>m_mOnlineClient := AList.delete (int p) (m_mOnlineClient m), m_lFreeList := m_lFreeList m @ [p]\<rparr>"
  let ?n = "set_connect p ?d ?m"
  have i: "cc_iIndex c = int p" using assms by (auto simp: pool_ok_def)
  have p: "p < CLIENT_EPOLL_COUNT" "used_slot m p" using connect_at_Some [OF assms(2)] assms True
    by (auto simp: pool_ok_def used_slot_def)
  have del: "\<not> has_key (m_mOnlineClient m) (int p) \<Longrightarrow> AList.delete (int p) (m_mOnlineClient m) = m_mOnlineClient m"
    by (simp add: delete_id map_of_eq_None_iff)
  have run: "ClientExit (Some p) m = Some ?n"
    using assms(2) True i del by (cases "has_key (m_mOnlineClient m) (int p)") (simp_all add: ClientExit_def)
  have cm: "connect_at ?m p = Some c" using assms(2) by simp
  have u: "used_slot ?n q \<longleftrightarrow> q \<noteq> p \<and> used_slot m q" for q
    using used_set_connect [OF cm, of ?d q] by simp
  have "pool_ok ?n"
    unfolding pool_ok_def u
  proof (intro conjI allI impI)
    fix q d assume "connect_at ?n q = Some d"
    then show "cc_iIndex d = int q" using assms(1) i by (auto simp: pool_ok_def reset_connect_def split: if_splits)
  next
    fix j q assume "map_of (m_mOnlineClient ?n) j = Some q"
    then show "j = int q" "q \<noteq> p" "used_slot m q" using assms(1) by (auto simp: pool_ok_def split: if_splits)
  qed (use assms(1) p in \<open>auto simp: pool_ok_def\<close>)
  with run u show ?thesis by (auto simp: FindClient_def)
qed

lemma AddOnlineClient_ok:
  assumes "pool_ok m" "used_slot m p"
  shows "\<exists>m'. AddOnlineClient (Some p) m = Some (SUCCESS, m') \<and> pool_ok m' \<and> FindClient (int p) m' = Some p \<and>
    m_pAllClientConnect m' = m_pAllClientConnect m \<and> m_lFreeList m' = m_lFreeList m \<and>
    (\<forall>q. q \<noteq> p \<longrightarrow> FindClient (int q) m' = FindClient (int q) m)"
proof -
  from assms(2) obtain c where c: "connect_at m p = Some c" by (auto simp: used_slot_def)
  with assms(1) have "cc_iIndex c = int p" by (auto simp: pool_ok_def)
  with c assms show ?thesis
    by (auto simp: AddOnlineClient_def FindClient_def pool_ok_def)
qed

end
