(* ===== verification/Connect_Split.thy ===== *)
theory Connect_Split
  imports Client_Connect Shm_Correct Mq_Wire
begin

text \<open>
  How \<^verbatim>\<open>ConnectServer\<close> (\<^verbatim>\<open>connectServer/connectServer.cpp\<close>) cuts the byte stream of a client into packets:
  \<^verbatim>\<open>GetClientPackageFromBuff\<close> and the loop of \<^verbatim>\<open>ProcessEpollData\<close> around it, with the queue to the logic
  server. The specification \<open>split_stream\<close> cuts a list of bytes; the loop refines it however the
  network chunks the stream.
\<close>

definition ERR_CONNECT_SERVER_GET_PACKAGE :: int where "ERR_CONNECT_SERVER_GET_PACKAGE = -403"

section \<open>The code\<close>

text \<open>The packet at \<open>ipBuff\<close>, an offset into the receive buffer \<open>b\<close>. With \<^const>\<open>SUCCESS\<close> come the position of the
  next packet and the length of this one, which the code returns through pointers.\<close>

definition GetClientPackageFromBuff ::
  "bytes \<Rightarrow> nat \<Rightarrow> int \<Rightarrow> i32 \<Rightarrow> (int \<times> bytes \<times> (nat \<times> int) option) option" where
  "GetClientPackageFromBuff b ipBuff ipBuffLen iClientIndex =
     (if ipBuffLen < 8 then Some (ERR_CONNECT_SERVER_GET_PACKAGE, b, None)
      else do {
        (offset, iPackLen) \<leftarrow> ReadShort b ipBuff;
        if ipBuffLen < uint iPackLen then Some (ERR_CONNECT_SERVER_GET_PACKAGE, b, None)
        else if unat iPackLen < 8 then Some (ERR_CONNECT_SERVER_GET_PACKAGE, b, None)
        else do {
          (_, b) \<leftarrow> WriteInt b (ipBuff + offset) iClientIndex;
          Some (SUCCESS, b, Some (ipBuff + unat iPackLen, uint iPackLen)) } })"

text \<open>\<^verbatim>\<open>while(m_pQueueToLogicLayer->Enqueue(..)==ERR_SHM_QUEUE_FULL){}\<close>: with no other process taking
  packets out, a full queue stays full and the loop does not end.\<close>

definition to_logic_wait :: "shm_queue \<Rightarrow> bytes \<Rightarrow> int \<Rightarrow> shm_queue option" where
  "to_logic_wait q pCurPack packLen = do {
     (ret, q') \<leftarrow> Enqueue q pCurPack packLen;
     if ret = ERR_SHM_QUEUE_FULL then None else Some q' }"

text \<open>An incomplete packet is moved to the front of the buffer.\<close>

definition move_front :: "client_connect \<Rightarrow> client_connect option" where
  "move_front c = do {
     iMoveCount \<leftarrow> ptr_diff (cc_pRecvTail c) (cc_pRecvHead c);
     b \<leftarrow> memcpy (cc_pRecvBuff c) 0 (buff_of c (fst (cc_pRecvHead c))) (int (snd (cc_pRecvHead c))) iMoveCount;
     Some (c\<lparr>cc_pRecvBuff := b, cc_pRecvHead := (RecvBuff, 0), cc_pRecvTail := (RecvBuff, nat iMoveCount)\<rparr>) }"

lemma GetClientPackage_progress:
  assumes "GetClientPackageFromBuff b p n i = Some (ret, b', Some (p', len))"
  shows "8 \<le> len \<and> len \<le> n \<and> ret = SUCCESS"
proof -
  obtain w where "\<not> n < uint w" "\<not> unat (w :: u16) < 8" "len = uint w" "ret = SUCCESS"
    using assms unfolding GetClientPackageFromBuff_def
    by (cases "ReadShort b p") (auto simp: bind_eq_Some_conv simp del: accessors_in_range split: if_split_asm)
  moreover from this have "uint w = int (unat w)" by simp
  ultimately show ?thesis by linarith
qed

function split_loop ::
  "client_connect \<Rightarrow> shm_queue \<Rightarrow> int \<Rightarrow> nat \<Rightarrow> int \<Rightarrow> (client_connect \<times> shm_queue \<times> int) option" where
  "split_loop c q iRecvCount pCurPack buffLen = do {
     (ret, b, next) \<leftarrow> GetClientPackageFromBuff (cc_pRecvBuff c) pCurPack buffLen (word_of_int (cc_iIndex c));
     case next of
       None \<Rightarrow> do { c \<leftarrow> move_front (c\<lparr>cc_pRecvBuff := b\<rparr>); Some (c, q, iRecvCount) }
     | Some (pNextPack, packLen) \<Rightarrow> do {
         q \<leftarrow> to_logic_wait q (drop pCurPack b) packLen;
         let c = c\<lparr>cc_pRecvBuff := b, cc_pRecvHead := (fst (cc_pRecvHead c), snd (cc_pRecvHead c) + nat packLen)\<rparr>;
         if buffLen > packLen then split_loop c q (iRecvCount + 1) pNextPack (buffLen - packLen)
         else Some (c\<lparr>cc_pRecvHead := (RecvBuff, 0), cc_pRecvTail := (RecvBuff, 0)\<rparr>, q, iRecvCount + 1) } }"
  by pat_completeness auto
termination split_loop
  by (relation "measure (\<lambda>(c, q, n, p, l). nat l)") (auto dest!: GetClientPackage_progress)

declare split_loop.simps [simp del]

section \<open>The specification\<close>

text \<open>The index of the client goes over the four bytes after the length.\<close>

definition stamp :: "i32 \<Rightarrow> bytes \<Rightarrow> bytes" where
  "stamp i d = take 2 d @ be32 i @ drop 6 d"

definition next_len :: "bytes \<Rightarrow> nat option" where
  "next_len xs =
     (if length xs < 8 then None
      else let n = unat (un_be16 (take 2 xs)) in if length xs < n \<or> n < 8 then None else Some n)"

lemma next_len_Some: "next_len xs = Some n \<Longrightarrow> 8 \<le> n \<and> n \<le> length xs \<and> n = unat (un_be16 (take 2 xs))"
  by (auto simp: next_len_def Let_def split: if_splits)

function split_stream :: "bytes \<Rightarrow> bytes list \<times> bytes" where
  "split_stream xs =
     (case next_len xs of
        None \<Rightarrow> ([], xs)
      | Some n \<Rightarrow> (let (ps, r) = split_stream (drop n xs) in (take n xs # ps, r)))"
  by pat_completeness auto
termination split_stream
  by (relation "measure length") (auto dest: next_len_Some)

declare split_stream.simps [simp del]

lemma split_stream_None: "next_len xs = None \<Longrightarrow> split_stream xs = ([], xs)"
  by (simp add: split_stream.simps [of xs])

lemma split_stream_Some:
  "next_len xs = Some n \<Longrightarrow>
   split_stream xs = (take n xs # fst (split_stream (drop n xs)), snd (split_stream (drop n xs)))"
  by (simp add: split_stream.simps [of xs] split_beta)

lemma split_stream_concat: "concat (fst (split_stream xs)) @ snd (split_stream xs) = xs"
proof (induction xs rule: split_stream.induct)
  case (1 xs)
  show ?case
  proof (cases "next_len xs")
    case None
    then show ?thesis by (simp add: split_stream_None)
  next
    case (Some n)
    from 1 [OF Some] Some show ?thesis by (simp add: split_stream_Some)
  qed
qed

lemma split_stream_bounds:
  "snd (split_stream xs) = r \<Longrightarrow> length r \<le> length xs"
  using split_stream_concat [of xs] by (metis length_append le_add2)

lemma next_len_append: "next_len xs = Some n \<Longrightarrow> next_len (xs @ ys) = Some n"
  by (auto simp: next_len_def Let_def split: if_splits)

lemma split_stream_append:
  "split_stream (xs @ ys) =
     (fst (split_stream xs) @ fst (split_stream (snd (split_stream xs) @ ys)),
      snd (split_stream (snd (split_stream xs) @ ys)))"
proof (induction xs rule: split_stream.induct)
  case (1 xs)
  show ?case
  proof (cases "next_len xs")
    case None
    then show ?thesis by (simp add: split_stream_None)
  next
    case (Some n)
    then have "n \<le> length xs" by (auto dest: next_len_Some)
    with 1 [OF Some] Some split_stream_Some [OF next_len_append [OF Some], of ys]
    show ?thesis by (simp add: split_stream_Some [OF Some])
  qed
qed

text \<open>A packet built by a packer is cut off whole.\<close>

lemma next_len_wire: "length (wire m) < 65536 \<Longrightarrow> next_len (wire m @ ys) = Some (length (wire m))"
  by (simp add: next_len_def wire_def unat_of_nat Let_def del: of_nat_add of_nat_Suc)

lemma split_stream_wire:
  "length (wire m) < 65536 \<Longrightarrow>
   split_stream (wire m @ ys) = (wire m # fst (split_stream ys), snd (split_stream ys))"
  by (simp add: split_stream_Some [OF next_len_wire] del: length_wire)

section \<open>The loop refines the specification\<close>

text \<open>A connection whose receive buffer holds the bytes \<open>d\<close> from its head on.\<close>

definition recv_holds :: "client_connect \<Rightarrow> nat \<Rightarrow> bytes \<Rightarrow> bool" where
  "recv_holds c h d \<longleftrightarrow>
     length (cc_pRecvBuff c) = SERVER_BUFFER_SIZE \<and> h + length d \<le> SERVER_BUFFER_SIZE \<and>
     cc_pRecvHead c = (RecvBuff, h) \<and> cc_pRecvTail c = (RecvBuff, h + length d) \<and>
     get_at (cc_pRecvBuff c) h (length d) = d"

lemma get_at_sub: "get_at b h n = d \<Longrightarrow> h + n \<le> length b \<Longrightarrow> k + j \<le> n \<Longrightarrow> get_at b (h + k) j = take j (drop k d)"
  by (auto simp: get_at_def drop_take add.commute min_def)

lemma move_front_holds:
  assumes "recv_holds c h d"
  shows "\<exists>b. move_front c = Some (c\<lparr>cc_pRecvBuff := b, cc_pRecvHead := (RecvBuff, 0), cc_pRecvTail := (RecvBuff, length d)\<rparr>)
    \<and> recv_holds (c\<lparr>cc_pRecvBuff := b, cc_pRecvHead := (RecvBuff, 0), cc_pRecvTail := (RecvBuff, length d)\<rparr>) 0 d"
proof -
  have "memcpy (cc_pRecvBuff c) 0 (cc_pRecvBuff c) (int h) (int (length d)) = Some (put_at (cc_pRecvBuff c) 0 d)"
    using assms memcpy_nat [of "cc_pRecvBuff c" 0 "cc_pRecvBuff c" h "length d"] by (simp add: recv_holds_def)
  then show ?thesis
    using assms by (intro exI [of _ "put_at (cc_pRecvBuff c) 0 d"])
      (simp add: move_front_def recv_holds_def ptr_diff_def buff_of_def get_put_same)
qed

lemma GetClientPackage_spec:
  assumes r: "recv_holds c h d"
  shows "case next_len d of
      None \<Rightarrow> \<exists>e. GetClientPackageFromBuff (cc_pRecvBuff c) h (int (length d)) i = Some (e, cc_pRecvBuff c, None)
    | Some n \<Rightarrow> GetClientPackageFromBuff (cc_pRecvBuff c) h (int (length d)) i =
        Some (SUCCESS, put_at (cc_pRecvBuff c) (h + 2) (be32 i), Some (h + n, int n))"
proof (cases "length d < 8")
  case True
  then show ?thesis by (simp add: next_len_def GetClientPackageFromBuff_def)
next
  case False
  let ?b = "cc_pRecvBuff c"
  have b: "length ?b = SERVER_BUFFER_SIZE" "h + length d \<le> SERVER_BUFFER_SIZE" "get_at ?b h (length d) = d"
    using r by (simp_all add: recv_holds_def)
  then have "get_at ?b h 2 = take 2 d" using get_at_sub [OF b(3), of 0 2] False by simp
  then have rd: "ReadShort ?b h = Some (2, un_be16 (take 2 d))" using b False by simp
  have wr: "WriteInt ?b (h + 2) i = Some (4, put_at ?b (h + 2) (be32 i))" using b False by simp
  define w where "w = un_be16 (take 2 d)"
  define n where "n = unat w"
  have u: "uint w = int n" "unat w = n" by (simp_all add: n_def)
  show ?thesis
    using False by (simp add: next_len_def GetClientPackageFromBuff_def rd wr Let_def w_def [symmetric] u
      del: add_2_eq_Suc add_2_eq_Suc')
qed

lemma drop_put_at:
  "p \<le> k \<Longrightarrow> k + length xs \<le> length b \<Longrightarrow> drop p (put_at b k xs) = put_at (drop p b) (k - p) xs"
  by (simp add: put_at_def drop_take min_def)

lemma take_stamped:
  assumes r: "recv_holds c h d" and n: "8 \<le> n" "n \<le> length d"
  shows "take n (drop h (put_at (cc_pRecvBuff c) (h + 2) (be32 i))) = stamp i (take n d)"
proof -
  let ?b = "cc_pRecvBuff c"
  have b: "length ?b = SERVER_BUFFER_SIZE" "h + length d \<le> SERVER_BUFFER_SIZE" "get_at ?b h (length d) = d"
    using r by (simp_all add: recv_holds_def)
  have t: "take k (drop j (drop h ?b)) = take k (drop j d)" if "j + k \<le> length d" for j k
    using get_at_sub [OF b(3), of j k] that b by (simp add: get_at_def add.commute)
  have "take n (put_at (drop h ?b) 2 (be32 i)) = take 2 (drop h ?b) @ be32 i @ take (n - 6) (drop 6 (drop h ?b))"
    using n b by (simp add: put_at_def min_def)
  also have "\<dots> = take 2 d @ be32 i @ take (n - 6) (drop 6 d)"
    using t [of 0 2] t [of 6 "n - 6"] n by simp
  finally show ?thesis using n b by (simp add: stamp_def drop_put_at drop_take min_def)
qed

lemma recv_holds_advance:
  assumes r: "recv_holds c h d" and n: "8 \<le> n" "n \<le> length d"
  shows "recv_holds (c\<lparr>cc_pRecvBuff := put_at (cc_pRecvBuff c) (h + 2) (be32 i), cc_pRecvHead := (RecvBuff, h + n)\<rparr>)
    (h + n) (drop n d)"
proof -
  let ?b = "cc_pRecvBuff c"
  have b: "length ?b = SERVER_BUFFER_SIZE" "h + length d \<le> SERVER_BUFFER_SIZE" "get_at ?b h (length d) = d"
    using r by (simp_all add: recv_holds_def)
  have "get_at (put_at ?b (h + 2) (be32 i)) (h + n) (length d - n) = get_at ?b (h + n) (length d - n)"
    by (rule get_put_after) (use n b in simp_all)
  also have "\<dots> = drop n d" using get_at_sub [OF b(3), of n "length d - n"] n b by simp
  finally show ?thesis using r n by (simp add: recv_holds_def)
qed

lemma used_Cons_le: "used ds + used (p # ps) \<le> cap \<Longrightarrow> used ds + (14 + length p) \<le> cap"
  by simp

lemma length_stamp [simp]: "8 \<le> length d \<Longrightarrow> length (stamp i d) = length d"
  by (simp add: stamp_def)

text \<open>What changes in the connection is its receive buffer with the two pointers.\<close>

definition same_but_recv :: "client_connect \<Rightarrow> client_connect \<Rightarrow> bool" where
  "same_but_recv c c' \<longleftrightarrow>
     (\<exists>b h t. c' = c\<lparr>cc_pRecvBuff := b, cc_pRecvHead := h, cc_pRecvTail := t\<rparr>)"

lemma same_but_recvI: "same_but_recv c (c\<lparr>cc_pRecvBuff := b, cc_pRecvHead := h, cc_pRecvTail := t\<rparr>)"
  unfolding same_but_recv_def by blast

lemma same_but_recv_step:
  assumes "same_but_recv (c\<lparr>cc_pRecvBuff := b, cc_pRecvHead := h\<rparr>) c'"
  shows "same_but_recv c c'"
proof -
  from assms obtain b' h' t' where
    "c' = c\<lparr>cc_pRecvBuff := b, cc_pRecvHead := h\<rparr>\<lparr>cc_pRecvBuff := b', cc_pRecvHead := h', cc_pRecvTail := t'\<rparr>"
    unfolding same_but_recv_def by blast
  then have "c' = c\<lparr>cc_pRecvBuff := b', cc_pRecvHead := h', cc_pRecvTail := t'\<rparr>" by simp
  then show ?thesis by (simp only: same_but_recvI)
qed

lemma split_loop_refines:
  assumes "holds q ds" "recv_holds c h d" "i = word_of_int (cc_iIndex c)"
    and "used ds + used (map (stamp i) (fst (split_stream d))) \<le> capacity q"
  shows "\<exists>c' q'. split_loop c q k h (int (length d)) = Some (c', q', k + int (length (fst (split_stream d)))) \<and>
    recv_holds c' 0 (snd (split_stream d)) \<and> same_but_recv c c' \<and>
    holds q' (ds @ map (stamp i) (fst (split_stream d))) \<and> capacity q' = capacity q"
  using assms
proof (induction "length d" arbitrary: d c q k h ds rule: less_induct)
  case less
  note q = less.prems(1) and r = less.prems(2) and i = less.prems(3) and cap = less.prems(4)
  show ?case
  proof (cases "next_len d")
    case None
    from GetClientPackage_spec [OF r, of i] None obtain e where
      g: "GetClientPackageFromBuff (cc_pRecvBuff c) h (int (length d)) i = Some (e, cc_pRecvBuff c, None)" by auto
    obtain b where "move_front c = Some (c\<lparr>cc_pRecvBuff := b, cc_pRecvHead := (RecvBuff, 0), cc_pRecvTail := (RecvBuff, length d)\<rparr>)"
      "recv_holds (c\<lparr>cc_pRecvBuff := b, cc_pRecvHead := (RecvBuff, 0), cc_pRecvTail := (RecvBuff, length d)\<rparr>) 0 d"
      using move_front_holds [OF r] by blast
    moreover have "c\<lparr>cc_pRecvBuff := cc_pRecvBuff c\<rparr> = c" by simp
    ultimately show ?thesis
      using g i q None by (simp add: split_loop.simps [of c] split_stream_None same_but_recvI)
  next
    case (Some n)
    from next_len_Some [OF Some] have n: "8 \<le> n" "n \<le> length d" by auto
    let ?b = "put_at (cc_pRecvBuff c) (h + 2) (be32 i)"
    let ?c = "c\<lparr>cc_pRecvBuff := ?b, cc_pRecvHead := (RecvBuff, h + n)\<rparr>"
    let ?p = "stamp i (take n d)"
    from GetClientPackage_spec [OF r, of i] Some have
      g: "GetClientPackageFromBuff (cc_pRecvBuff c) h (int (length d)) i = Some (SUCCESS, ?b, Some (h + n, int n))" by simp
    have hd: "cc_pRecvHead c = (RecvBuff, h)" and hn: "h + n \<le> SERVER_BUFFER_SIZE" "length (cc_pRecvBuff c) = SERVER_BUFFER_SIZE"
      using r n by (auto simp: recv_holds_def)
    have lp: "length ?p = n" using n by simp
    have "used ds + (14 + n) \<le> capacity q" using cap Some lp by (simp add: split_stream_Some)
    moreover have "n \<le> length (drop h ?b)" using hn n by simp
    ultimately obtain q1 where enq: "Enqueue q (drop h ?b) (int n) = Some (SUCCESS, q1)"
      and q1: "holds q1 (ds @ [?p])" "capacity q1 = capacity q"
      using Enqueue_fits [OF q, of n "drop h ?b"] take_stamped [OF r n, of i] by auto
    have wait: "to_logic_wait q (drop h ?b) (int n) = Some q1"
      by (simp add: to_logic_wait_def enq shm_err_defs del: add_2_eq_Suc add_2_eq_Suc')
    have adv: "recv_holds ?c (h + n) (drop n d)" by (rule recv_holds_advance [OF r n])
    show ?thesis
    proof (cases "n < length d")
      case True
      have lt: "length (drop n d) < length d" using n by simp
      have cap1: "used (ds @ [?p]) + used (map (stamp i) (fst (split_stream (drop n d)))) \<le> capacity q1"
        using cap q1(2) Some lp by (simp add: split_stream_Some)
      have i1: "i = word_of_int (cc_iIndex ?c)" using i by simp
      from less.hyps [OF lt q1(1) adv i1 cap1] obtain c' q' where
        run: "split_loop ?c q1 (k + 1) (h + n) (int (length (drop n d))) =
          Some (c', q', k + 1 + int (length (fst (split_stream (drop n d)))))"
        and res: "recv_holds c' 0 (snd (split_stream (drop n d)))" "same_but_recv ?c c'"
          "holds q' ((ds @ [?p]) @ map (stamp i) (fst (split_stream (drop n d))))" "capacity q' = capacity q1"
        by blast
      have "split_loop c q k h (int (length d)) = split_loop ?c q1 (k + 1) (h + n) (int (length d) - int n)"
        using g wait True i hd by (simp add: split_loop.simps [of c] Let_def)
      also have "int (length d) - int n = int (length (drop n d))" using n by simp
      finally show ?thesis
        using run res q1(2) Some same_but_recv_step [OF res(2)] by (simp add: split_stream_Some)
    next
      case False
      then have "n = length d" using n by simp
      then have rest: "split_stream (drop n d) = ([], [])" by (simp add: split_stream_None next_len_def)
      let ?e = "?c\<lparr>cc_pRecvHead := (RecvBuff, 0), cc_pRecvTail := (RecvBuff, 0)\<rparr>"
      have "split_loop c q k h (int (length d)) = Some (?e, q1, k + 1)"
        using g wait False i hd by (simp add: split_loop.simps [of c] Let_def)
      moreover have "recv_holds ?e 0 []" using adv by (simp add: recv_holds_def)
      moreover have "same_but_recv c ?e"
        using same_but_recvI [where c = c and b = "?b" and h = "(RecvBuff, 0)" and t = "(RecvBuff, 0)"] by simp
      ultimately show ?thesis using q1 Some rest by (simp add: split_stream_Some)
    qed
  qed
qed

end
