(* ===== verification/Srv_Timer.thy ===== *)
theory Srv_Timer
  imports Shm_Correct
begin

text \<open>
  The timers of \<^verbatim>\<open>timer/timer.h\<close> and \<^verbatim>\<open>timer.cpp\<close>. A \<^verbatim>\<open>timeval\<close> is a pair of seconds and microseconds;
  each method that calls \<^verbatim>\<open>gettimeofday\<close> takes the answer as an argument. The differences are
  computed in \<^verbatim>\<open>long\<close> and converted to \<^verbatim>\<open>int\<close> when they are stored.
\<close>

type_synonym timeval = "int \<times> int"

record base_timer =
  m_tBegainTime :: timeval
  m_tShmQueueDataDoneTime :: timeval
  m_iQueueDataTime :: int
  m_iMaxTimeForQueueData :: int

record connect_timer = base_timer +
  m_tEpollDoneTime :: timeval
  m_iEpollTime :: int

record logic_timer = base_timer +
  m_tPushDoneTime :: timeval
  m_iPushTime :: int

text \<open>\<^verbatim>\<open>((a.tv_sec-b.tv_sec)*1000000+(a.tv_usec-b.tv_usec))/1000\<close>\<close>

definition elapsed_ms :: "timeval \<Rightarrow> timeval \<Rightarrow> int" where
  "elapsed_ms a b = ((fst a - fst b) * 1000000 + (snd a - snd b)) sdiv 1000"

definition Begain :: "timeval \<Rightarrow> 'a base_timer_scheme \<Rightarrow> 'a base_timer_scheme" where
  "Begain now t = t\<lparr>m_tBegainTime := now\<rparr>"

definition EpollDown :: "timeval \<Rightarrow> connect_timer \<Rightarrow> connect_timer" where
  "EpollDown now t = t\<lparr>m_tEpollDoneTime := now, m_iEpollTime := cint (elapsed_ms now (m_tBegainTime t))\<rparr>"

definition Connect_QueueDataDown :: "timeval \<Rightarrow> connect_timer \<Rightarrow> connect_timer" where
  "Connect_QueueDataDown now t =
     t\<lparr>m_tShmQueueDataDoneTime := now, m_iQueueDataTime := cint (elapsed_ms now (m_tEpollDoneTime t))\<rparr>"

definition Connect_GetMaxTimeForQueueData :: "connect_timer \<Rightarrow> int \<times> connect_timer" where
  "Connect_GetMaxTimeForQueueData t =
     (let m = 100 - m_iEpollTime t;
          m = (if m < 50 then 100 else m)
      in (m, t\<lparr>m_iMaxTimeForQueueData := m\<rparr>))"

definition Connect_HaveTimeForQueueData :: "timeval \<Rightarrow> connect_timer \<Rightarrow> bool" where
  "Connect_HaveTimeForQueueData now t \<longleftrightarrow> elapsed_ms now (m_tEpollDoneTime t) < m_iMaxTimeForQueueData t"

definition PushMessageDown :: "timeval \<Rightarrow> logic_timer \<Rightarrow> logic_timer" where
  "PushMessageDown now t = t\<lparr>m_tPushDoneTime := now, m_iPushTime := cint (elapsed_ms now (m_tBegainTime t))\<rparr>"

definition Logic_QueueDataDown :: "timeval \<Rightarrow> logic_timer \<Rightarrow> logic_timer" where
  "Logic_QueueDataDown now t =
     t\<lparr>m_tShmQueueDataDoneTime := now, m_iQueueDataTime := cint (elapsed_ms now (m_tPushDoneTime t))\<rparr>"

definition Logic_GetMaxTimeForQueueData :: "logic_timer \<Rightarrow> int \<times> logic_timer" where
  "Logic_GetMaxTimeForQueueData t =
     (let m = 100 - m_iPushTime t;
          m = (if m < 50 then 100 else m)
      in (m, t\<lparr>m_iMaxTimeForQueueData := m\<rparr>))"

definition Logic_HaveTimeForQueueData :: "timeval \<Rightarrow> logic_timer \<Rightarrow> bool" where
  "Logic_HaveTimeForQueueData now t \<longleftrightarrow> elapsed_ms now (m_tPushDoneTime t) < m_iMaxTimeForQueueData t"

text \<open>Valid times: microseconds below a million.\<close>

definition time_ok :: "timeval \<Rightarrow> bool" where
  "time_ok t \<longleftrightarrow> 0 \<le> snd t \<and> snd t < 1000000"

definition micros :: "timeval \<Rightarrow> int" where
  "micros t = fst t * 1000000 + snd t"

lemma elapsed_ms_micros: "elapsed_ms a b = (micros a - micros b) sdiv 1000"
  by (simp add: elapsed_ms_def micros_def algebra_simps)

lemma elapsed_ms_div: "micros b \<le> micros a \<Longrightarrow> elapsed_ms a b = (micros a - micros b) div 1000"
  by (cases "micros a = micros b") (simp_all add: elapsed_ms_micros signed_divide_int_def sgn_if)

lemma div_1000_less: "(x :: int) div 1000 < m \<longleftrightarrow> x < m * 1000"
  using pos_mod_bound [of 1000 x] pos_mod_sign [of 1000 x] div_mult_mod_eq [of x 1000] by linarith



end
