(* ===== verification/Connect_Server.thy ===== *)
theory Connect_Server
  imports Connect_Split Srv_Timer
begin

text \<open>
  The connection server of \<^verbatim>\<open>connectServer/connectServer.h\<close> and \<^verbatim>\<open>connectServer.cpp\<close>: socket events, packets
  of the logic server on their way to the clients, one round of the main loop, and the start.

  What the kernel answers is part of the input: an event carries the answers of the \<^verbatim>\<open>accept\<close> or
  \<^verbatim>\<open>recv\<close> call made for it, and every call of \<^verbatim>\<open>SendDataToClient\<close> takes the next element of a list of
  answers of \<^verbatim>\<open>poll\<close> and \<^verbatim>\<open>send\<close>. What is sent is a list of pairs: the slot of the client, the bytes.
  The logger, \<^verbatim>\<open>setsockopt\<close> and \<^verbatim>\<open>epoll_ctl\<close> do not touch the state and are left out.
\<close>

definition ERR_CONNECT_SERVER_INIT :: int where "ERR_CONNECT_SERVER_INIT = -401"
definition ERR_CONNECT_SERVER_SEND_PACKAGE :: int where "ERR_CONNECT_SERVER_SEND_PACKAGE = -404"

record connect_server =
  m_iListenFd :: int
  m_pClientConnectManager :: connect_manager
  m_pQueueToLogicLayer :: shm_queue
  m_pQueueLogicToConnect :: shm_queue
  cs_iSendCount :: int
  cs_iRecvCount :: int

section \<open>Socket events\<close>

datatype recv_answer = Received bytes | RecvAgain | RecvFailed

record epoll_event =
  ev_in :: bool
  ev_ptr :: "nat option"
  ev_accept :: "int \<times> 32 word"
  ev_recv :: recv_answer
  ev_time :: int

text \<open>The packet that tells the logic server that a client is gone. A full queue is not noticed.\<close>

definition tell_exit :: "i32 \<Rightarrow> shm_queue \<Rightarrow> shm_queue option" where
  "tell_exit i q = do {
     (_, pMsgPack, iPackLen) \<leftarrow>
       GetMessagePack (new_ClientExitMessage i) (replicate MAX_CLINT_PACKAGE_LENGTH 0) (int MAX_CLINT_PACKAGE_LENGTH);
     (_, q) \<leftarrow> Enqueue q pMsgPack iPackLen;
     Some q }"

definition close_client :: "nat \<Rightarrow> connect_server \<Rightarrow> connect_server option" where
  "close_client p s = do {
     c \<leftarrow> connect_at (m_pClientConnectManager s) p;
     q \<leftarrow> tell_exit (word_of_int (cc_iIndex c)) (m_pQueueToLogicLayer s);
     m \<leftarrow> ClientExit (Some p) (m_pClientConnectManager s);
     Some (s\<lparr>m_pQueueToLogicLayer := q, m_pClientConnectManager := m\<rparr>) }"

definition accept_client :: "epoll_event \<Rightarrow> connect_server \<Rightarrow> connect_server option" where
  "accept_client ev s =
     (let (confd, addr) = ev_accept ev
      in if confd \<le> 0 then Some s
         else do {
           (p, m) \<leftarrow> GetOneFreeConnect (m_pClientConnectManager s);
           case p of
             None \<Rightarrow> Some (s\<lparr>m_pClientConnectManager := m\<rparr>)
           | Some i \<Rightarrow> do {
               c \<leftarrow> connect_at m i;
               let m = set_connect i (c\<lparr>cc_iSockfd := confd, cc_iClientAddr := addr,
                                       cc_tLastRecvTime := ev_time ev, cc_bInMap := True\<rparr>) m;
               (_, m) \<leftarrow> AddOnlineClient (Some i) m;
               Some (s\<lparr>m_pClientConnectManager := m\<rparr>) } })"

definition recv_client :: "nat \<Rightarrow> epoll_event \<Rightarrow> connect_server \<Rightarrow> connect_server option" where
  "recv_client p ev s = do {
     c \<leftarrow> connect_at (m_pClientConnectManager s) p;
     iRecvBytes \<leftarrow> ptr_diff cc_pRecvEnd (cc_pRecvTail c);
     case ev_recv ev of
       RecvAgain \<Rightarrow> Some s
     | RecvFailed \<Rightarrow> close_client p s
     | Received dat \<Rightarrow>
         if dat = [] then close_client p s
         else do {
           b \<leftarrow> mem_write (cc_pRecvBuff c) (snd (cc_pRecvTail c)) dat;
           let c = c\<lparr>cc_pRecvBuff := b, cc_tLastRecvTime := ev_time ev,
                     cc_pRecvTail := (fst (cc_pRecvTail c), snd (cc_pRecvTail c) + length dat)\<rparr>;
           buffLen \<leftarrow> ptr_diff (cc_pRecvTail c) (cc_pRecvHead c);
           (c, q, n) \<leftarrow> split_loop c (m_pQueueToLogicLayer s) (cs_iRecvCount s) (snd (cc_pRecvHead c)) buffLen;
           Some (s\<lparr>m_pClientConnectManager := set_connect p c (m_pClientConnectManager s),
                   m_pQueueToLogicLayer := q, cs_iRecvCount := n\<rparr>) } }"

definition process_event :: "epoll_event \<Rightarrow> connect_server \<Rightarrow> connect_server option" where
  "process_event ev s =
     (case ev_ptr ev of
        None \<Rightarrow> Some s
      | Some p \<Rightarrow>
          if ev_in ev then do {
            c \<leftarrow> connect_at (m_pClientConnectManager s) p;
            if cc_iSockfd c = m_iListenFd s then accept_client ev s else recv_client p ev s }
          else close_client p s)"

fun ProcessEpollData :: "epoll_event list \<Rightarrow> connect_server \<Rightarrow> connect_server option" where
  "ProcessEpollData [] s = Some s"
| "ProcessEpollData (ev # evs) s = do { s \<leftarrow> process_event ev s; ProcessEpollData evs s }"

section \<open>Sending to a client\<close>

text \<open>One return of \<^verbatim>\<open>poll\<close>: interrupted, failed, nothing, writable, or another event.\<close>

datatype poll_answer = PollAgain | PollFailed | PollNone | PollOut | PollOther

text \<open>The answers to one call: those of \<^verbatim>\<open>poll\<close>, those of \<^verbatim>\<open>send\<close> for a request of \<open>n\<close> bytes, and the time.\<close>

record send_answer =
  sa_poll :: "poll_answer list"
  sa_send :: "int \<Rightarrow> (int \<times> sock_errno) list"
  sa_time :: int

text \<open>\<open>Some True\<close>: writable; \<open>Some False\<close>: the error return; \<open>None\<close>: still waiting.\<close>

fun poll_loop :: "poll_answer list \<Rightarrow> bool option" where
  "poll_loop [] = None"
| "poll_loop (PollAgain # rest) = poll_loop rest"
| "poll_loop (PollOut # rest) = Some True"
| "poll_loop (_ # rest) = Some False"

text \<open>\<open>ipData\<close> is an offset into the send buffer of the client; the result has the bytes that went out.\<close>

definition SendDataToClient ::
  "send_answer \<Rightarrow> bytes \<Rightarrow> nat \<Rightarrow> int \<Rightarrow> client_connect \<Rightarrow> (int \<times> client_connect \<times> bytes) option" where
  "SendDataToClient a buf ipData iDataLen c =
     (if cc_iSockfd c \<le> 0 then Some (ERR_CONNECT_SERVER_SEND_PACKAGE, c, [])
      else do {
        writable \<leftarrow> poll_loop (sa_poll a);
        if \<not> writable then Some (ERR_CONNECT_SERVER_SEND_PACKAGE, c, [])
        else do {
          let c = c\<lparr>cc_tLastRecvTime := sa_time a\<rparr>;
          (iRet, out) \<leftarrow> Sendn (sa_send a iDataLen) buf ipData iDataLen;
          Some (if iRet = ERROR then ERR_CONNECT_SERVER_SEND_PACKAGE else SUCCESS, c, out) } })"

text \<open>Both places of \<^verbatim>\<open>Run\<close> that send do it like this: all between head and tail of the send buffer goes
  out; when that fails the logic server is told and the client is closed.\<close>

definition send_pending ::
  "nat \<Rightarrow> send_answer list \<Rightarrow> connect_server \<Rightarrow>
   (bool \<times> send_answer list \<times> connect_server \<times> (nat \<times> bytes) list) option" where
  "send_pending p net s = do {
     c \<leftarrow> connect_at (m_pClientConnectManager s) p;
     iSendSize \<leftarrow> ptr_diff (cc_pSendTail c) (cc_pSendHead c);
     (case net of
        [] \<Rightarrow> None
      | a # net \<Rightarrow> do {
          (ret, c, out) \<leftarrow> SendDataToClient a (cc_pSendBuff c) (snd (cc_pSendHead c)) iSendSize c;
          let s = s\<lparr>m_pClientConnectManager := set_connect p c (m_pClientConnectManager s)\<rparr>;
          if ret \<noteq> SUCCESS then do { s \<leftarrow> close_client p s; Some (False, net, s, [(p, out)]) }
          else Some (True, net, s\<lparr>m_pClientConnectManager :=
                 set_connect p (c\<lparr>cc_pSendTail := (SendBuff, 0)\<rparr>) (m_pClientConnectManager s)\<rparr>, [(p, out)]) }) }"

text \<open>The copy of a packet behind the tail of the send buffer.\<close>

definition append_packet :: "nat \<Rightarrow> bytes \<Rightarrow> int \<Rightarrow> connect_server \<Rightarrow> connect_server option" where
  "append_packet p pBuff iLen s = do {
     c \<leftarrow> connect_at (m_pClientConnectManager s) p;
     b \<leftarrow> memcpy (cc_pSendBuff c) (int (snd (cc_pSendTail c))) pBuff 0 iLen;
     Some (s\<lparr>m_pClientConnectManager := set_connect p
       (c\<lparr>cc_pSendBuff := b, cc_pSendTail := (fst (cc_pSendTail c), snd (cc_pSendTail c) + nat iLen)\<rparr>)
       (m_pClientConnectManager s)\<rparr>) }"

section \<open>The packets of the logic server\<close>

definition for_client :: "u16 \<Rightarrow> bool" where
  "for_client cmd \<longleftrightarrow> \<not> (cmd \<noteq> CMD_CLIENT_PULL_MESSAGE \<and> cmd \<noteq> CMD_SERVER_PUSH_MESSAGE \<and>
     cmd \<noteq> CMD_SERVER_REPLY_MESSAGE \<and> cmd \<noteq> CMD_SERVER_ACK_MESSAGE)"

text \<open>
  The body of the loop after a successful \<^verbatim>\<open>Dequeue\<close>. The flag in the result is false where the code
  says \<^verbatim>\<open>continue\<close> and so does not look at the clock; the list is \<^verbatim>\<open>vSendClients\<close>.
\<close>

definition deliver_packet ::
  "bytes \<Rightarrow> int \<Rightarrow> nat list \<Rightarrow> send_answer list \<Rightarrow> connect_server \<Rightarrow>
   (bool \<times> nat list \<times> send_answer list \<times> connect_server \<times> (nat \<times> bytes) list) option" where
  "deliver_packet pBuff iLen vSendClients net s =
     (if iLen < 8 then Some (False, vSendClients, net, s, [])
      else do {
        (n, _) \<leftarrow> ReadShort pBuff 0;
        let pTemp = n;
        (n, iClientIndex) \<leftarrow> ReadInt pBuff pTemp;
        (case FindClient (sint iClientIndex) (m_pClientConnectManager s) of
           None \<Rightarrow> do {
             q \<leftarrow> tell_exit iClientIndex (m_pQueueToLogicLayer s);
             Some (False, vSendClients, net, s\<lparr>m_pQueueToLogicLayer := q\<rparr>, []) }
         | Some p \<Rightarrow> do {
             let pTemp = pTemp + n;
             (_, iCmdId) \<leftarrow> ReadShort pBuff pTemp;
             if \<not> for_client iCmdId then Some (False, vSendClients, net, s, [])
             else do {
               let s = s\<lparr>cs_iSendCount := cs_iSendCount s + 1\<rparr>;
               c \<leftarrow> connect_at (m_pClientConnectManager s) p;
               iFreeSpace \<leftarrow> ptr_diff cc_pSendEnd (cc_pSendTail c);
               if iFreeSpace \<ge> iLen then do {
                 s \<leftarrow> append_packet p pBuff iLen s;
                 Some (True, vSendClients @ [p], net, s, []) }
               else do {
                 (ok, net, s, out) \<leftarrow> send_pending p net s;
                 if \<not> ok then Some (True, vSendClients, net, s, out)
                 else do {
                   s \<leftarrow> append_packet p pBuff iLen s;
                   Some (True, vSendClients @ [p], net, s, out) } } } }) })"

text \<open>
  The loop. It goes on until the queue is empty or, from the 100th packet on, the time is used up;
  \<open>clock n\<close> is the time read after packet number \<open>n\<close>. A \<^verbatim>\<open>Dequeue\<close> that fails without consuming is
  repeated for ever, which is the value \<^const>\<open>None\<close>.
\<close>

partial_function (option) deliver_loop ::
  "(int \<Rightarrow> timeval) \<Rightarrow> connect_timer \<Rightarrow> int \<Rightarrow> bytes \<Rightarrow> nat list \<Rightarrow> send_answer list \<Rightarrow> connect_server \<Rightarrow>
   (int \<times> nat list \<times> send_answer list \<times> connect_server \<times> (nat \<times> bytes) list) option" where
  "deliver_loop clock t iDateRecvCount pBuff vSendClients net s = do {
     (ret, pBuff, iLen, q) \<leftarrow> DequeueInto (m_pQueueLogicToConnect s) pBuff (int MAX_SERVER_PACKAGE_LENGTH);
     let s = s\<lparr>m_pQueueLogicToConnect := q\<rparr>;
     if ret = ERR_SHM_QUEUE_EMPTY then Some (iDateRecvCount, vSendClients, net, s, [])
     else if ret \<noteq> SUCCESS then deliver_loop clock t iDateRecvCount pBuff vSendClients net s
     else do {
       let n = iDateRecvCount + 1;
       (check, vSendClients, net, s, out) \<leftarrow> deliver_packet pBuff iLen vSendClients net s;
       if check \<and> n \<ge> 100 \<and> \<not> Connect_HaveTimeForQueueData (clock n) t
       then Some (n, vSendClients, net, s, out)
       else do {
         (n, vSendClients, net, s, out') \<leftarrow> deliver_loop clock t n pBuff vSendClients net s;
         Some (n, vSendClients, net, s, out @ out') } } }"

text \<open>The loop over \<^verbatim>\<open>vSendClients\<close> at the end of a round.\<close>

fun send_clients ::
  "nat list \<Rightarrow> send_answer list \<Rightarrow> connect_server \<Rightarrow>
   (send_answer list \<times> connect_server \<times> (nat \<times> bytes) list) option" where
  "send_clients [] net s = Some (net, s, [])"
| "send_clients (p # ps) net s = do {
     (_, net, s, out) \<leftarrow> send_pending p net s;
     (net, s, out') \<leftarrow> send_clients ps net s;
     Some (net, s, out @ out') }"

text \<open>One round of \<^verbatim>\<open>Run\<close>, with the events of \<^verbatim>\<open>epoll_wait\<close> and the readings of the clock.\<close>

record round_input =
  ri_events :: "epoll_event list"
  ri_begin :: timeval
  ri_epoll :: timeval
  ri_clock :: "int \<Rightarrow> timeval"
  ri_end :: timeval
  ri_net :: "send_answer list"

definition Connect_Run_round ::
  "round_input \<Rightarrow> connect_timer \<Rightarrow> connect_server \<Rightarrow> (connect_timer \<times> connect_server \<times> (nat \<times> bytes) list) option" where
  "Connect_Run_round ri controlTimer s = do {
     let t = Begain (ri_begin ri) controlTimer;
     s \<leftarrow> (if ri_events ri = [] then Some s else ProcessEpollData (ri_events ri) s);
     let t = EpollDown (ri_epoll ri) t;
     let (_, t) = Connect_GetMaxTimeForQueueData t;
     (_, vSendClients, net, s, out) \<leftarrow>
       deliver_loop (ri_clock ri) t 0 (replicate MAX_SERVER_PACKAGE_LENGTH 0) [] (ri_net ri) s;
     (net, s, out') \<leftarrow> send_clients vSendClients net s;
     Some (Connect_QueueDataDown (ri_end ri) t, s, out @ out') }"

section \<open>Start\<close>

text \<open>What the calls of \<^verbatim>\<open>Init\<close> return; the fresh pool lies at \<open>io_base\<close> in memory that holds \<open>io_junk\<close>.\<close>

record init_input =
  io_epoll_create :: int
  io_socket :: int
  io_nonblock :: bool
  io_setsockopt :: int
  io_bind :: int
  io_listen :: int
  io_epoll_ctl :: int
  io_base :: nat
  io_junk :: "nat \<Rightarrow> client_connect"
  io_addr :: "32 word"
  io_to_logic :: "bool \<times> shm_open"
  io_to_connect :: "bool \<times> shm_open"

definition SHM_QUEUE_SIZE :: int where "SHM_QUEUE_SIZE = 1024 * 1024 * 100"

text \<open>After an error the process ends, so there is no state.\<close>

definition Connect_Init :: "init_input \<Rightarrow> (int \<times> connect_server option) option" where
  "Connect_Init io =
     (if io_epoll_create io = -1 then Some (ERR_CONNECT_SERVER_INIT, None)
      else if io_socket io = -1 then Some (ERR_CONNECT_SERVER_INIT, None)
      else if \<not> io_nonblock io then Some (ERR_CONNECT_SERVER_INIT, None)
      else if io_setsockopt io = -1 then Some (ERR_CONNECT_SERVER_INIT, None)
      else if io_bind io < 0 then Some (ERR_CONNECT_SERVER_INIT, None)
      else if io_listen io < 0 then Some (ERR_CONNECT_SERVER_INIT, None)
      else do {
        (p, m) \<leftarrow> GetOneFreeConnect (new_ClientConnectManager (io_base io) (io_junk io));
        case p of
          None \<Rightarrow> Some (ERR_CONNECT_SERVER_INIT, None)
        | Some i \<Rightarrow> do {
            c \<leftarrow> connect_at m i;
            let m = set_connect i (c\<lparr>cc_iSockfd := io_socket io, cc_iClientAddr := io_addr io\<rparr>) m;
            if io_epoll_ctl io < 0 then Some (ERR_CONNECT_SERVER_INIT, None)
            else do {
              let (lock1, os1) = io_to_logic io;
              let (lock2, os2) = io_to_connect io;
              Some (SUCCESS, Some \<lparr>
                m_iListenFd = io_socket io,
                m_pClientConnectManager = m,
                m_pQueueToLogicLayer = snd (Init lock1 os1 SHM_QUEUE_SIZE ShmQueue_new),
                m_pQueueLogicToConnect = snd (Init lock2 os2 SHM_QUEUE_SIZE ShmQueue_new),
                cs_iSendCount = 0, cs_iRecvCount = 0\<rparr>) } } })"

end
