(* ===== verification/Connect_Stream.thy ===== *)
theory Connect_Stream
  imports Connect_Server
begin

text \<open>
  What the logic server gets to see of the byte streams of the clients: the packets of every client,
  whole, in order and marked with his index, however the network cuts the streams into chunks and
  mixes the chunks of several clients.
\<close>

section \<open>One chunk\<close>

text \<open>The event of a client that has sent the bytes \<open>d\<close>.\<close>

definition data_event :: "nat \<Rightarrow> bytes \<Rightarrow> epoll_event" where
  "data_event p d = \<lparr>ev_in = True, ev_ptr = Some p, ev_accept = (0, 0), ev_recv = Received d, ev_time = 0\<rparr>"

definition idx :: "nat \<Rightarrow> i32" where "idx p = word_of_int (int p)"

text \<open>Each of the \<open>clients\<close> is connected, and \<open>pend p\<close> is what has arrived of his next packet.\<close>

definition client_holds :: "connect_server \<Rightarrow> nat \<Rightarrow> bytes \<Rightarrow> bool" where
  "client_holds s p d \<longleftrightarrow> (\<exists>c. connect_at (m_pClientConnectManager s) p = Some c \<and> cc_iIndex c = int p \<and>
     cc_iSockfd c \<noteq> m_iListenFd s \<and> recv_holds c 0 d)"

definition server_holds :: "connect_server \<Rightarrow> nat set \<Rightarrow> (nat \<Rightarrow> bytes) \<Rightarrow> bytes list \<Rightarrow> bool" where
  "server_holds s clients pend ds \<longleftrightarrow>
     holds (m_pQueueToLogicLayer s) ds \<and> (\<forall>p\<in>clients. client_holds s p (pend p))"

text \<open>What the events do to the partial packets and to the queue.\<close>

fun spec_events :: "(nat \<times> bytes) list \<Rightarrow> (nat \<Rightarrow> bytes) \<Rightarrow> (nat \<Rightarrow> bytes) \<times> bytes list" where
  "spec_events [] pend = (pend, [])"
| "spec_events ((p, d) # evs) pend =
     (let (ps, r) = split_stream (pend p @ d); (pend', ds) = spec_events evs (pend(p := r))
      in (pend', map (stamp (idx p)) ps @ ds))"

text \<open>\<^verbatim>\<open>recv\<close> returns at least one byte of a connection that is open and at most what it was asked for.\<close>

fun recv_fits :: "(nat \<times> bytes) list \<Rightarrow> (nat \<Rightarrow> bytes) \<Rightarrow> bool" where
  "recv_fits [] pend = True"
| "recv_fits ((p, d) # evs) pend =
     (d \<noteq> [] \<and> length (pend p) + length d \<le> SERVER_BUFFER_SIZE \<and>
      recv_fits evs (pend(p := snd (split_stream (pend p @ d)))))"

lemma recv_holds_write:
  assumes r: "recv_holds c 0 d" and "length d + length x \<le> SERVER_BUFFER_SIZE"
  shows "recv_holds (c\<lparr>cc_pRecvBuff := put_at (cc_pRecvBuff c) (length d) x, cc_tLastRecvTime := t,
    cc_pRecvTail := (RecvBuff, length d + length x)\<rparr>) 0 (d @ x)"
  using assms get_at_split [of "put_at (cc_pRecvBuff c) (length d) x" 0 "length d" "length x"]
  by (auto simp: recv_holds_def get_put_before get_put_same)

lemma recv_client_refines:
  assumes q: "holds (m_pQueueToLogicLayer s) ds" and c: "connect_at (m_pClientConnectManager s) p = Some c"
    and r: "recv_holds c 0 d" and i: "cc_iIndex c = int p"
    and x: "ev_recv ev = Received x" "x \<noteq> []" "length d + length x \<le> SERVER_BUFFER_SIZE"
    and cap: "used ds + used (map (stamp (idx p)) (fst (split_stream (d @ x)))) \<le> capacity (m_pQueueToLogicLayer s)"
  shows "\<exists>s' c'. recv_client p ev s = Some s' \<and>
    m_pClientConnectManager s' = set_connect p c' (m_pClientConnectManager s) \<and> m_iListenFd s' = m_iListenFd s \<and>
    recv_holds c' 0 (snd (split_stream (d @ x))) \<and> cc_iIndex c' = int p \<and> cc_iSockfd c' = cc_iSockfd c \<and>
    holds (m_pQueueToLogicLayer s') (ds @ map (stamp (idx p)) (fst (split_stream (d @ x)))) \<and>
    capacity (m_pQueueToLogicLayer s') = capacity (m_pQueueToLogicLayer s)"
proof -
  let ?b = "put_at (cc_pRecvBuff c) (length d) x"
  let ?c = "c\<lparr>cc_pRecvBuff := ?b, cc_tLastRecvTime := ev_time ev, cc_pRecvTail := (RecvBuff, length d + length x)\<rparr>"
  have c': "recv_holds ?c 0 (d @ x)" by (rule recv_holds_write [OF r x(3)])
  have f: "cc_pRecvTail c = (RecvBuff, length d)" "cc_pRecvHead c = (RecvBuff, 0)"
    "length (cc_pRecvBuff c) = SERVER_BUFFER_SIZE" using r by (simp_all add: recv_holds_def)
  have i': "idx p = word_of_int (cc_iIndex ?c)" using i by (simp add: idx_def)
  from split_loop_refines [OF q c' i' cap, of "cs_iRecvCount s"] obtain c2 q2 where
    run: "split_loop ?c (m_pQueueToLogicLayer s) (cs_iRecvCount s) 0 (int (length (d @ x))) =
      Some (c2, q2, cs_iRecvCount s + int (length (fst (split_stream (d @ x)))))"
    and res: "recv_holds c2 0 (snd (split_stream (d @ x)))" "same_but_recv ?c c2"
      "holds q2 (ds @ map (stamp (idx p)) (fst (split_stream (d @ x))))" "capacity q2 = capacity (m_pQueueToLogicLayer s)"
    by blast
  have same: "cc_iIndex c2 = int p" "cc_iSockfd c2 = cc_iSockfd c" using res(2) i by (auto simp: same_but_recv_def)
  have "recv_client p ev s = Some (s\<lparr>m_pClientConnectManager := set_connect p c2 (m_pClientConnectManager s),
      m_pQueueToLogicLayer := q2, cs_iRecvCount := cs_iRecvCount s + int (length (fst (split_stream (d @ x))))\<rparr>)"
    using c x f run by (simp add: recv_client_def ptr_diff_def cc_pRecvEnd_def Let_def)
  then show ?thesis using res same by auto
qed

lemma data_event_refines:
  assumes s: "server_holds s clients pend ds" and p: "p \<in> clients"
    and d: "d \<noteq> []" "length (pend p) + length d \<le> SERVER_BUFFER_SIZE"
    and cap: "used ds + used (map (stamp (idx p)) (fst (split_stream (pend p @ d)))) \<le> capacity (m_pQueueToLogicLayer s)"
  shows "\<exists>s'. process_event (data_event p d) s = Some s' \<and>
    server_holds s' clients (pend(p := snd (split_stream (pend p @ d))))
      (ds @ map (stamp (idx p)) (fst (split_stream (pend p @ d)))) \<and>
    capacity (m_pQueueToLogicLayer s') = capacity (m_pQueueToLogicLayer s)"
proof -
  obtain c where c: "connect_at (m_pClientConnectManager s) p = Some c" "cc_iIndex c = int p"
    "cc_iSockfd c \<noteq> m_iListenFd s" "recv_holds c 0 (pend p)" and q: "holds (m_pQueueToLogicLayer s) ds"
    using s p by (auto simp: server_holds_def client_holds_def)
  obtain s' c' where run: "recv_client p (data_event p d) s = Some s'"
    and s': "m_pClientConnectManager s' = set_connect p c' (m_pClientConnectManager s)" "m_iListenFd s' = m_iListenFd s"
      "recv_holds c' 0 (snd (split_stream (pend p @ d)))" "cc_iIndex c' = int p" "cc_iSockfd c' = cc_iSockfd c"
      "holds (m_pQueueToLogicLayer s') (ds @ map (stamp (idx p)) (fst (split_stream (pend p @ d))))"
      "capacity (m_pQueueToLogicLayer s') = capacity (m_pQueueToLogicLayer s)"
    using recv_client_refines [OF q c(1,4,2) _ d cap, of "data_event p d"] by (auto simp: data_event_def)
  have "client_holds s' r ((pend(p := snd (split_stream (pend p @ d)))) r)" if "r \<in> clients" for r
  proof (cases "r = p")
    case True
    then show ?thesis using s' c connect_at_Some [OF c(1)] by (simp add: client_holds_def)
  next
    case False
    with that s have "client_holds s r (pend r)" by (simp add: server_holds_def)
    with False s'(1,2) show ?thesis by (auto simp: client_holds_def)
  qed
  moreover have "process_event (data_event p d) s = Some s'"
    using c run by (simp add: process_event_def data_event_def)
  ultimately show ?thesis using s' by (auto simp: server_holds_def)
qed

section \<open>Many chunks\<close>

lemma spec_events_Cons:
  "spec_events ((p, d) # evs) pend =
     (fst (spec_events evs (pend(p := snd (split_stream (pend p @ d))))),
      map (stamp (idx p)) (fst (split_stream (pend p @ d))) @
      snd (spec_events evs (pend(p := snd (split_stream (pend p @ d))))))"
  by (simp add: split_beta Let_def)

lemma events_refine:
  assumes "server_holds s clients pend ds" "set (map fst evs) \<subseteq> clients" "recv_fits evs pend"
    and "used ds + used (snd (spec_events evs pend)) \<le> capacity (m_pQueueToLogicLayer s)"
  shows "\<exists>s'. ProcessEpollData (map (\<lambda>(p, d). data_event p d) evs) s = Some s' \<and>
    server_holds s' clients (fst (spec_events evs pend)) (ds @ snd (spec_events evs pend)) \<and>
    capacity (m_pQueueToLogicLayer s') = capacity (m_pQueueToLogicLayer s)"
  using assms
proof (induction evs arbitrary: s pend ds)
  case Nil
  then show ?case by simp
next
  case (Cons e evs)
  obtain p d where e: "e = (p, d)" by (cases e)
  let ?r = "snd (split_stream (pend p @ d))" and ?ps = "map (stamp (idx p)) (fst (split_stream (pend p @ d)))"
  have spec: "spec_events (e # evs) pend = (fst (spec_events evs (pend(p := ?r))), ?ps @ snd (spec_events evs (pend(p := ?r))))"
    by (simp only: e spec_events_Cons)
  have cap: "used ds + used ?ps \<le> capacity (m_pQueueToLogicLayer s)" using Cons.prems(4) by (simp add: spec)
  from data_event_refines [OF Cons.prems(1), of p d] Cons.prems(2,3) cap obtain s1 where
    s1: "process_event (data_event p d) s = Some s1" "server_holds s1 clients (pend(p := ?r)) (ds @ ?ps)"
      "capacity (m_pQueueToLogicLayer s1) = capacity (m_pQueueToLogicLayer s)"
    by (auto simp: e)
  have "used (ds @ ?ps) + used (snd (spec_events evs (pend(p := ?r)))) \<le> capacity (m_pQueueToLogicLayer s1)"
    using Cons.prems(4) s1(3) by (simp add: spec)
  moreover have "set (map fst evs) \<subseteq> clients" "recv_fits evs (pend(p := ?r))" using Cons.prems(2,3) by (simp_all add: e)
  ultimately obtain s2 where
    "ProcessEpollData (map (\<lambda>(p, d). data_event p d) evs) s1 = Some s2"
    "server_holds s2 clients (fst (spec_events evs (pend(p := ?r)))) ((ds @ ?ps) @ snd (spec_events evs (pend(p := ?r))))"
    "capacity (m_pQueueToLogicLayer s2) = capacity (m_pQueueToLogicLayer s1)"
    using Cons.IH [OF s1(2)] by blast
  then show ?case using s1(1,3) unfolding spec by (simp add: e)
qed

text \<open>The stream of one client, and the packets of the queue that carry his index.\<close>

definition stream_of :: "nat \<Rightarrow> (nat \<times> bytes) list \<Rightarrow> bytes" where
  "stream_of p evs = concat (map snd (filter (\<lambda>(r, _). r = p) evs))"

definition pack_index :: "bytes \<Rightarrow> i32" where
  "pack_index d = un_be32 (get_at d 2 4)"

definition packets_of :: "nat \<Rightarrow> bytes list \<Rightarrow> bytes list" where
  "packets_of p ds = filter (\<lambda>d. pack_index d = idx p) ds"

lemma packets_of_append [simp]: "packets_of p (xs @ ys) = packets_of p xs @ packets_of p ys"
  by (simp add: packets_of_def)

lemma pack_index_stamp: "8 \<le> length d \<Longrightarrow> pack_index (stamp i d) = i"
  by (simp add: pack_index_def stamp_def get_at_def)

lemma split_stream_lengths: "\<forall>d\<in>set (fst (split_stream xs)). 8 \<le> length d"
proof (induction xs rule: split_stream.induct)
  case (1 xs)
  then show ?case by (cases "next_len xs") (auto simp: split_stream_None split_stream_Some dest!: next_len_Some)
qed

lemma idx_inject: "p < 2 ^ 31 \<Longrightarrow> r < 2 ^ 31 \<Longrightarrow> idx p = idx r \<longleftrightarrow> p = r"
proof -
  assume "p < 2 ^ 31" "r < 2 ^ 31"
  then have "sint (idx p) = int p" "sint (idx r) = int r"
    using sint_i32 [of "int p"] sint_i32 [of "int r"] by (simp_all add: idx_def)
  then show ?thesis by (metis of_nat_eq_iff)
qed

lemma packets_of_stamped:
  assumes "p < 2 ^ 31" "r < 2 ^ 31"
  shows "packets_of r (map (stamp (idx p)) (fst (split_stream xs))) =
    (if r = p then map (stamp (idx p)) (fst (split_stream xs)) else [])"
  using split_stream_lengths [of xs] idx_inject [OF assms]
  by (auto simp: packets_of_def filter_id_conv filter_empty_conv pack_index_stamp)

lemma next_len_rest: "next_len (snd (split_stream xs)) = None"
proof (induction xs rule: split_stream.induct)
  case (1 xs)
  then show ?case by (cases "next_len xs") (simp_all add: split_stream_None split_stream_Some)
qed

lemma stream_of_Cons: "stream_of r ((p, d) # evs) = (if r = p then d else []) @ stream_of r evs"
  by (auto simp: stream_of_def)

lemma spec_events_stream:
  assumes "\<forall>e\<in>set evs. fst e < 2 ^ 31" "r < 2 ^ 31" "next_len (pend r) = None"
  shows "packets_of r (snd (spec_events evs pend)) = map (stamp (idx r)) (fst (split_stream (pend r @ stream_of r evs))) \<and>
    fst (spec_events evs pend) r = snd (split_stream (pend r @ stream_of r evs))"
  using assms(1,3)
proof (induction evs arbitrary: pend)
  case Nil
  then show ?case by (simp add: stream_of_def packets_of_def split_stream_None)
next
  case (Cons e evs)
  obtain p d where e: "e = (p, d)" by (cases e)
  have p: "p < 2 ^ 31" using Cons.prems e by simp
  let ?pend = "pend(p := snd (split_stream (pend p @ d)))"
  have "next_len (?pend r) = None" using Cons.prems(2) next_len_rest by simp
  moreover have "\<forall>e\<in>set evs. fst e < 2 ^ 31" using Cons.prems(1) by simp
  ultimately have
    IH: "packets_of r (snd (spec_events evs ?pend)) = map (stamp (idx r)) (fst (split_stream (?pend r @ stream_of r evs)))"
      "fst (spec_events evs ?pend) r = snd (split_stream (?pend r @ stream_of r evs))"
    using Cons.IH [where pend = ?pend] by blast+
  show ?case
    unfolding e spec_events_Cons stream_of_Cons fst_conv snd_conv packets_of_append IH packets_of_stamped [OF p assms(2)]
    using split_stream_append [of "pend p @ d" "stream_of p evs"] by simp
qed

section \<open>Properties\<close>

lemma split_stream_wires:
  assumes "\<forall>m\<in>set ms. length (wire m) < 65536" "next_len part = None"
  shows "split_stream (concat (map wire ms) @ part) = (map wire ms, part)"
  using assms(1)
  by (induction ms) (simp_all add: split_stream_None assms(2) split_stream_wire del: length_wire)

text \<open>The bytes that a client sends for a message: as many as the packer reports, from a zeroed buffer.\<close>

definition packed_bytes :: "message \<Rightarrow> bytes" where
  "packed_bytes m =
     (case GetMessagePack m (replicate MAX_CLINT_PACKAGE_LENGTH 0) (int MAX_CLINT_PACKAGE_LENGTH) of
        Some (ret, b, len) \<Rightarrow> take (nat len) b
      | None \<Rightarrow> [])"

lemma packed_bytes_wire:
  assumes "names_ok m" "length (wire m) \<le> MAX_CLINT_PACKAGE_LENGTH" "\<not> keeps_len m"
  shows "packed_bytes m = wire m"
proof -
  have "length (wire m) < 65536" using assms(2) by (simp add: size_defs del: length_wire)
  then have "packs m MAX_CLINT_PACKAGE_LENGTH (int MAX_CLINT_PACKAGE_LENGTH)"
    using pack_ok [OF assms(1)] assms(2) by simp
  then show ?thesis using assms(3) by (simp add: packed_bytes_def packs_def zbuf_Nil) (simp add: zbuf_def)
qed

text \<open>C18. Packing and cutting are inverse: when the receive buffer of a client holds the packets that the
  packers make of the messages \<open>ms\<close>, followed by the beginning of another packet, the loop of the
  connection server puts exactly these packets into the queue to the logic server, in order, with the
  index of the client, and keeps the beginning of the other packet at the front of the buffer.\<close>

theorem pack_split_roundtrip:
  assumes "\<forall>m\<in>set ms. names_ok m \<and> length (wire m) \<le> MAX_CLINT_PACKAGE_LENGTH \<and> \<not> keeps_len m"
    and "next_len part = None" "recv_holds c h (concat (map packed_bytes ms) @ part)" "holds q ds"
    and "used ds + used (map packed_bytes ms) \<le> capacity q"
  shows "\<exists>c' q'. split_loop c q n h (int (length (concat (map packed_bytes ms) @ part))) =
      Some (c', q', n + int (length ms)) \<and>
    holds q' (ds @ map (\<lambda>m. stamp (word_of_int (cc_iIndex c)) (packed_bytes m)) ms) \<and> recv_holds c' 0 part"
proof -
  let ?i = "word_of_int (cc_iIndex c) :: i32"
  have eq: "map packed_bytes ms = map wire ms" using assms(1) packed_bytes_wire by simp
  have "length (wire m) < 65536" if "m \<in> set ms" for m
    using assms(1) that by (fastforce simp: size_defs simp del: length_wire)
  then have sp: "split_stream (concat (map packed_bytes ms) @ part) = (map packed_bytes ms, part)"
    unfolding eq using split_stream_wires [OF _ assms(2), of ms] by blast
  have "used (map (stamp ?i) (map wire ms)) = used (map wire ms)"
    by (induction ms) simp_all
  then have cap: "used ds + used (map (stamp ?i) (fst (split_stream (concat (map packed_bytes ms) @ part)))) \<le> capacity q"
    using assms(5) unfolding sp fst_conv unfolding eq by simp
  from split_loop_refines [OF assms(4,3) refl cap, of n] show ?thesis
    unfolding sp fst_conv snd_conv by (auto simp: comp_def)
qed

text \<open>C13. The connection server gives the logic server the packets of every client whole, in order,
  marked with his index and never mixed with another client's: for any chunks of data of any connected
  clients in any order, as long as the queue has room, handling the events returns, and what the queue
  gains with the index of a client is the stream that he has sent, cut into packets. The beginning of
  the next packet stays in his buffer.\<close>

theorem streams_to_logic:
  assumes "server_holds s clients pend ds" "\<forall>p\<in>clients. p < CLIENT_EPOLL_COUNT \<and> next_len (pend p) = None"
    and "set (map fst evs) \<subseteq> clients" "recv_fits evs pend"
    and "used ds + used (snd (spec_events evs pend)) \<le> capacity (m_pQueueToLogicLayer s)"
  shows "\<exists>s' new. ProcessEpollData (map (\<lambda>(p, d). data_event p d) evs) s = Some s' \<and>
    holds (m_pQueueToLogicLayer s') (ds @ new) \<and>
    (\<forall>p\<in>clients.
       packets_of p new = map (stamp (idx p)) (fst (split_stream (pend p @ stream_of p evs))) \<and>
       client_holds s' p (snd (split_stream (pend p @ stream_of p evs))))"
proof -
  obtain s' where s': "ProcessEpollData (map (\<lambda>(p, d). data_event p d) evs) s = Some s'"
    "server_holds s' clients (fst (spec_events evs pend)) (ds @ snd (spec_events evs pend))"
    using events_refine [OF assms(1,3,4,5)] by blast
  have "fst e < 2 ^ 31" if "e \<in> set evs" for e
    using that assms(2,3) by (force simp: size_defs)
  then have small: "\<forall>e\<in>set evs. fst e < 2 ^ 31" by blast
  have "packets_of p (snd (spec_events evs pend)) = map (stamp (idx p)) (fst (split_stream (pend p @ stream_of p evs))) \<and>
    fst (spec_events evs pend) p = snd (split_stream (pend p @ stream_of p evs))" if "p \<in> clients" for p
    by (rule spec_events_stream [OF small]) (use assms(2) that in \<open>auto simp: size_defs\<close>)
  with s' show ?thesis by (auto simp: server_holds_def)
qed

section \<open>Witnesses\<close>

text \<open>A fresh pool whose connections all have the socket 5, and an empty ring.\<close>

definition w_junk :: "nat \<Rightarrow> client_connect" where
  "w_junk i = \<lparr>cc_iSockfd = 5, cc_iClientAddr = 0, cc_tLastRecvTime = 0, cc_bUsed = True, cc_bInMap = True,
     cc_iIndex = 0, cc_pRecvBuff = [], cc_pRecvHead = (SendBuff, 0), cc_pRecvTail = (SendBuff, 0),
     cc_pSendBuff = [], cc_pSendHead = (SendBuff, 0), cc_pSendTail = (SendBuff, 0)\<rparr>"

definition w_connect :: connect_server where
  "w_connect = \<lparr>m_iListenFd = 3, m_pClientConnectManager = new_ClientConnectManager 4096 w_junk,
     m_pQueueToLogicLayer = snd (Init True ShmCreated 400 ShmQueue_new),
     m_pQueueLogicToConnect = snd (Init True ShmCreated 400 ShmQueue_new),
     cs_iSendCount = 0, cs_iRecvCount = 0\<rparr>"

definition w_ack :: bytes where "w_ack = wire (new_ClientAckMessage 2 7)"
definition w_events :: "(nat \<times> bytes) list" where
  "w_events = [(1, take 3 w_ack), (2, w_ack @ take 4 w_ack), (1, drop 3 w_ack)]"

lemma connect_at_new:
  "p < CLIENT_EPOLL_COUNT \<Longrightarrow> connect_at (new_ClientConnectManager base junk) p = Some (new_connect junk p)"
  by (simp add: connect_at_def new_ClientConnectManager_def)

lemma recv_holds_new: "recv_holds (new_connect junk p) 0 []"
  by (simp add: recv_holds_def new_connect_def)

theorem pack_split_roundtrip_witness:
  "\<exists>c' q'. split_loop ((new_connect w_junk 1)\<lparr>cc_pRecvBuff := zbuf (wire (ServerAckMessage 0 14 5) @ [0, 9]) SERVER_BUFFER_SIZE,
       cc_pRecvTail := (RecvBuff, 14)\<rparr>) (snd (Init True ShmCreated 400 ShmQueue_new)) 0 0 14 = Some (c', q', 1) \<and>
     holds q' [stamp 1 (wire (ServerAckMessage 0 14 5))] \<and> recv_holds c' 0 [0, 9]"
proof -
  let ?m = "ServerAckMessage 0 14 5"
  let ?c = "(new_connect w_junk 1)\<lparr>cc_pRecvBuff := zbuf (wire ?m @ [0, 9]) SERVER_BUFFER_SIZE, cc_pRecvTail := (RecvBuff, 14)\<rparr>"
  have ok: "names_ok ?m" "length (wire ?m) \<le> MAX_CLINT_PACKAGE_LENGTH" "\<not> keeps_len ?m"
    by (simp_all add: names_ok_def size_defs)
  have w: "packed_bytes ?m = wire ?m" "length (wire ?m) = 12"
    using packed_bytes_wire [OF ok] by simp_all
  have "recv_holds ?c 0 (concat (map packed_bytes [?m]) @ [0, 9])"
    using w(2) by (simp add: recv_holds_def w(1) new_connect_def zbuf_def get_at_def size_defs del: length_wire)
  moreover obtain "holds (snd (Init True ShmCreated 400 ShmQueue_new)) []" "capacity (snd (Init True ShmCreated 400 ShmQueue_new)) = 400"
    using Init_holds [of 400 ShmQueue_new] by auto
  ultimately show ?thesis
    using pack_split_roundtrip [of "[?m]" "[0, 9]" ?c 0 "snd (Init True ShmCreated 400 ShmQueue_new)" "[]" 0] ok w
    by (simp add: next_len_def new_connect_def del: length_wire)
qed

lemma w_connect_holds: "server_holds w_connect {1, 2} (\<lambda>_. []) []"
  using Init_holds [of 400 ShmQueue_new]
  by (auto simp: server_holds_def client_holds_def w_connect_def connect_at_new size_defs recv_holds_new)
    (simp_all add: new_connect_def w_junk_def)

lemma w_split: "split_stream (take 3 w_ack) = ([], take 3 w_ack)"
  "split_stream (w_ack @ take 4 w_ack) = ([w_ack], take 4 w_ack)" "split_stream w_ack = ([w_ack], [])"
  "length w_ack = 13"
  by code_simp+

lemma w_events_eval:
  "snd (spec_events w_events (\<lambda>_. [])) = [stamp 2 w_ack, stamp 1 w_ack]"
  "recv_fits w_events (\<lambda>_. [])"
  using w_split by (auto simp: w_events_def idx_def size_defs)

theorem streams_to_logic_witness:
  "\<exists>s' new. ProcessEpollData (map (\<lambda>(p, d). data_event p d) w_events) w_connect = Some s' \<and>
     holds (m_pQueueToLogicLayer s') new \<and> packets_of 1 new = [stamp 1 w_ack] \<and> client_holds s' 2 (take 4 w_ack)"
proof -
  have cap: "used [] + used (snd (spec_events w_events (\<lambda>_. []))) \<le> capacity (m_pQueueToLogicLayer w_connect)"
    using Init_holds [of 400 ShmQueue_new] by (auto simp: w_connect_def w_events_eval(1) w_split)
  have "set (map fst w_events) \<subseteq> {1, 2}" by (simp add: w_events_def)
  from streams_to_logic [OF w_connect_holds _ this w_events_eval(2) cap] obtain s' new where
    "ProcessEpollData (map (\<lambda>(p, d). data_event p d) w_events) w_connect = Some s'"
    "holds (m_pQueueToLogicLayer s') new"
    "packets_of 1 new = map (stamp (idx 1)) (fst (split_stream (stream_of 1 w_events)))"
    "client_holds s' 2 (snd (split_stream (stream_of 2 w_events)))"
    by (auto simp: size_defs next_len_def)
  moreover have "fst (split_stream (stream_of 1 w_events)) = [w_ack]" "idx 1 = 1"
    "snd (split_stream (stream_of 2 w_events)) = take 4 w_ack"
    by (simp_all add: stream_of_def w_events_def idx_def w_split)
  ultimately show ?thesis by auto
qed

end
