(* ===== verification/Connect_Deliver.thy ===== *)
theory Connect_Deliver
  imports Connect_Server
begin

text \<open>
  The way from the logic server to the clients: what a round of the connection server sends to every
  client that stays connected is the sequence of the packets addressed to him, in order, whether they
  leave one by one or gathered in his send buffer.
\<close>

section \<open>The invariant of the sending side\<close>

definition send_ok :: "client_connect \<Rightarrow> bool" where
  "send_ok c \<longleftrightarrow> length (cc_pSendBuff c) = SERVER_BUFFER_SIZE \<and> cc_pSendHead c = (SendBuff, 0) \<and>
     fst (cc_pSendTail c) = SendBuff \<and> snd (cc_pSendTail c) \<le> SERVER_BUFFER_SIZE"

definition online :: "connect_server \<Rightarrow> nat \<Rightarrow> bool" where
  "online s p \<longleftrightarrow> FindClient (int p) (m_pClientConnectManager s) = Some p"

definition server_inv :: "connect_server \<Rightarrow> bool" where
  "server_inv s \<longleftrightarrow> pool_ok (m_pClientConnectManager s) \<and> shm_ok (m_pQueueToLogicLayer s) \<and>
     (\<forall>p c. connect_at (m_pClientConnectManager s) p = Some c \<longrightarrow> send_ok c)"

text \<open>The bytes that wait in the send buffer of a client.\<close>

definition pend_out :: "connect_server \<Rightarrow> nat \<Rightarrow> bytes" where
  "pend_out s p =
     (case connect_at (m_pClientConnectManager s) p of
        None \<Rightarrow> []
      | Some c \<Rightarrow> get_at (cc_pSendBuff c) 0 (snd (cc_pSendTail c)))"

definition touches :: "nat \<Rightarrow> connect_server \<Rightarrow> connect_server \<Rightarrow> bool" where
  "touches p s s' \<longleftrightarrow> m_pQueueLogicToConnect s' = m_pQueueLogicToConnect s \<and>
     (\<forall>q. q \<noteq> p \<longrightarrow> connect_at (m_pClientConnectManager s') q = connect_at (m_pClientConnectManager s) q \<and>
        online s' q = online s q)"

lemma touches_trans: "touches p s s1 \<Longrightarrow> touches p s1 s2 \<Longrightarrow> touches p s s2"
  by (simp add: touches_def)

lemma touches_pend: "touches p s s' \<Longrightarrow> q \<noteq> p \<Longrightarrow> pend_out s' q = pend_out s q \<and> online s' q = online s q"
  by (simp add: touches_def pend_out_def)

lemma online_connect: "server_inv s \<Longrightarrow> online s p \<Longrightarrow> \<exists>c. connect_at (m_pClientConnectManager s) p = Some c"
  using pool_online [of "m_pClientConnectManager s" "int p" p] by (auto simp: server_inv_def online_def used_slot_def)

lemma server_inv_cong [simp]:
  "server_inv (s\<lparr>cs_iSendCount := n\<rparr>) = server_inv s" "online (s\<lparr>cs_iSendCount := n\<rparr>) = online s"
  "pend_out (s\<lparr>cs_iSendCount := n\<rparr>) = pend_out s" "touches p (s\<lparr>cs_iSendCount := n\<rparr>) s' = touches p s s'"
  "server_inv (s\<lparr>m_pQueueLogicToConnect := q\<rparr>) = server_inv s" "online (s\<lparr>m_pQueueLogicToConnect := q\<rparr>) = online s"
  "pend_out (s\<lparr>m_pQueueLogicToConnect := q\<rparr>) = pend_out s"
  "online (s\<lparr>m_pQueueToLogicLayer := q'\<rparr>) = online s" "pend_out (s\<lparr>m_pQueueToLogicLayer := q'\<rparr>) = pend_out s"
  by (simp_all add: server_inv_def online_def pend_out_def fun_eq_iff touches_def)

text \<open>Replacing a connection by one with the same index and use.\<close>

lemma set_connect_step:
  assumes s: "server_inv s" and c: "connect_at (m_pClientConnectManager s) p = Some c"
    and d: "cc_iIndex d = cc_iIndex c" "cc_bUsed d = cc_bUsed c" "send_ok d"
  shows "server_inv (s\<lparr>m_pClientConnectManager := set_connect p d (m_pClientConnectManager s)\<rparr>)"
    "touches p s (s\<lparr>m_pClientConnectManager := set_connect p d (m_pClientConnectManager s)\<rparr>)"
    "online (s\<lparr>m_pClientConnectManager := set_connect p d (m_pClientConnectManager s)\<rparr>) p = online s p"
    "pend_out (s\<lparr>m_pClientConnectManager := set_connect p d (m_pClientConnectManager s)\<rparr>) p =
      get_at (cc_pSendBuff d) 0 (snd (cc_pSendTail d))"
proof -
  have "pool_ok (set_connect p d (m_pClientConnectManager s))"
    by (rule pool_ok_set_connect [OF _ c]) (use s d in \<open>simp_all add: server_inv_def\<close>)
  then show "server_inv (s\<lparr>m_pClientConnectManager := set_connect p d (m_pClientConnectManager s)\<rparr>)"
    using s d(3) by (auto simp: server_inv_def split: if_splits)
  show "touches p s (s\<lparr>m_pClientConnectManager := set_connect p d (m_pClientConnectManager s)\<rparr>)"
    "online (s\<lparr>m_pClientConnectManager := set_connect p d (m_pClientConnectManager s)\<rparr>) p = online s p"
    "pend_out (s\<lparr>m_pClientConnectManager := set_connect p d (m_pClientConnectManager s)\<rparr>) p =
      get_at (cc_pSendBuff d) 0 (snd (cc_pSendTail d))"
    using connect_at_Some [OF c] by (simp_all add: touches_def online_def FindClient_def pend_out_def)
qed

section \<open>Closing\<close>

lemma tell_exit_returns: "shm_ok q \<Longrightarrow> \<exists>q'. tell_exit i q = Some q' \<and> shm_ok q'"
proof -
  assume q: "shm_ok q"
  let ?b = "zbuf (wire (new_ClientExitMessage i)) MAX_CLINT_PACKAGE_LENGTH"
  have "GetMessagePack (new_ClientExitMessage i) (replicate MAX_CLINT_PACKAGE_LENGTH 0) (int MAX_CLINT_PACKAGE_LENGTH) =
      Some (SUCCESS, ?b, int MAX_CLINT_PACKAGE_LENGTH)"
    using pack_ClientExitMessage [of "int MAX_CLINT_PACKAGE_LENGTH" MAX_CLINT_PACKAGE_LENGTH i CMD_CLIENT_EXIT]
    by (simp add: packs_def zbuf_Nil new_ClientExitMessage_def size_defs)
  moreover have "length ?b = MAX_CLINT_PACKAGE_LENGTH" by (simp add: new_ClientExitMessage_def size_defs)
  then obtain r q' where e: "Enqueue q ?b (int MAX_CLINT_PACKAGE_LENGTH) = Some (r, q')"
    using Enqueue_returns [OF q, of "int MAX_CLINT_PACKAGE_LENGTH" ?b] by (auto simp: size_defs)
  moreover have "shm_ok q'" by (rule Enqueue_shm_ok [OF q e]) (simp_all add: size_defs)
  ultimately show ?thesis by (simp add: tell_exit_def del: GetMessagePack.simps)
qed

lemma reset_send_ok: "send_ok c \<Longrightarrow> send_ok ((reset_connect c)\<lparr>cc_bInMap := x, cc_bUsed := y\<rparr>)"
  by (simp add: send_ok_def reset_connect_def Let_def)

lemma ClientExit_send_ok:
  assumes "ClientExit (Some p) m = Some m'" "\<forall>q c. connect_at m q = Some c \<longrightarrow> send_ok c"
  shows "\<forall>q c. connect_at m' q = Some c \<longrightarrow> send_ok c"
proof (cases "connect_at m p")
  case None
  then show ?thesis using assms by (simp add: ClientExit_def)
next
  case (Some d)
  then show ?thesis
    using assms reset_send_ok [of d False False]
    by (auto simp: ClientExit_def Let_def split: if_splits)
qed

lemma close_client_ok:
  assumes s: "server_inv s" and c: "connect_at (m_pClientConnectManager s) p = Some c"
  shows "\<exists>s'. close_client p s = Some s' \<and> server_inv s' \<and> touches p s s' \<and> \<not> online s' p"
proof -
  from s have pool: "pool_ok (m_pClientConnectManager s)" and q: "shm_ok (m_pQueueToLogicLayer s)"
    and snd_ok: "\<forall>q c. connect_at (m_pClientConnectManager s) q = Some c \<longrightarrow> send_ok c"
    by (auto simp: server_inv_def)
  obtain q' where q': "tell_exit (word_of_int (cc_iIndex c)) (m_pQueueToLogicLayer s) = Some q'" "shm_ok q'"
    using tell_exit_returns [OF q] by blast
  obtain m' where m': "ClientExit (Some p) (m_pClientConnectManager s) = Some m'" "pool_ok m'"
    "FindClient (int p) m' = None"
    "\<forall>q. q \<noteq> p \<longrightarrow> connect_at m' q = connect_at (m_pClientConnectManager s) q \<and>
      FindClient (int q) m' = FindClient (int q) (m_pClientConnectManager s)"
    using ClientExit_ok [OF pool c] by blast
  show ?thesis
    using q' m' c ClientExit_send_ok [OF m'(1) snd_ok]
    by (auto simp: close_client_def server_inv_def touches_def online_def)
qed

section \<open>Sending\<close>

text \<open>What \<^verbatim>\<open>poll\<close> and \<^verbatim>\<open>send\<close> promise: they return, and a call transfers at most what it was asked to.\<close>

definition answer_ok :: "send_answer \<Rightarrow> bool" where
  "answer_ok a \<longleftrightarrow> poll_loop (sa_poll a) \<noteq> None \<and>
     (\<forall>n. send_results (sa_send a n) n \<and> (\<forall>buf p. Sendn (sa_send a n) buf p n \<noteq> None))"

lemma SendDataToClient_ok:
  assumes a: "answer_ok a" and n: "0 \<le> n"
  shows "\<exists>ret t out. SendDataToClient a buf p n c = Some (ret, c\<lparr>cc_tLastRecvTime := t\<rparr>, out) \<and>
    (ret = SUCCESS \<longrightarrow> out = get_at buf p (nat n))"
proof (cases "cc_iSockfd c \<le> 0 \<or> poll_loop (sa_poll a) = Some False")
  case True
  moreover have "c\<lparr>cc_tLastRecvTime := cc_tLastRecvTime c\<rparr> = c" by simp
  ultimately have "SendDataToClient a buf p n c =
    Some (ERR_CONNECT_SERVER_SEND_PACKAGE, c\<lparr>cc_tLastRecvTime := cc_tLastRecvTime c\<rparr>, [])"
    by (auto simp: SendDataToClient_def)
  then show ?thesis by (fastforce simp: ERR_CONNECT_SERVER_SEND_PACKAGE_def SUCCESS_def)
next
  case False
  with a have po: "poll_loop (sa_poll a) = Some True" by (auto simp: answer_ok_def)
  obtain code out where run: "Sendn (sa_send a n) buf p n = Some (code, out)"
  proof (cases "Sendn (sa_send a n) buf p n")
    case None
    with a show thesis unfolding answer_ok_def by blast
  next
    case (Some r)
    with that show thesis by (cases r) simp
  qed
  have "send_results (sa_send a n) n" using a by (simp add: answer_ok_def)
  from Sendn_prefix [OF this n run] show ?thesis
    using po False run by (auto simp: SendDataToClient_def Let_def ERR_CONNECT_SERVER_SEND_PACKAGE_def SUCCESS_def)
qed

lemma send_pending_ok:
  assumes s: "server_inv s" and c: "connect_at (m_pClientConnectManager s) p = Some c" and a: "answer_ok a"
  shows "\<exists>ok s' out. send_pending p (a # net) s = Some (ok, net, s', [(p, out)]) \<and> server_inv s' \<and> touches p s s' \<and>
    (\<not> ok \<longrightarrow> \<not> online s' p) \<and>
    (ok \<longrightarrow> out = pend_out s p \<and> online s' p = online s p \<and>
      (\<exists>c'. connect_at (m_pClientConnectManager s') p = Some c' \<and> cc_pSendTail c' = (SendBuff, 0)))"
proof -
  have k: "send_ok c" using s c by (simp add: server_inv_def)
  obtain t where t: "cc_pSendTail c = (SendBuff, t)" using k by (cases "cc_pSendTail c") (simp add: send_ok_def)
  obtain ret tm out where run: "SendDataToClient a (cc_pSendBuff c) 0 (int t) c = Some (ret, c\<lparr>cc_tLastRecvTime := tm\<rparr>, out)"
    and out: "ret = SUCCESS \<longrightarrow> out = get_at (cc_pSendBuff c) 0 t"
    using SendDataToClient_ok [OF a, of "int t" "cc_pSendBuff c" 0 c] by auto
  let ?c = "c\<lparr>cc_tLastRecvTime := tm\<rparr>"
  let ?s = "s\<lparr>m_pClientConnectManager := set_connect p ?c (m_pClientConnectManager s)\<rparr>"
  have k1: "send_ok ?c" "send_ok (?c\<lparr>cc_pSendTail := (SendBuff, 0)\<rparr>)" using k by (simp_all add: send_ok_def)
  note st = set_connect_step [OF s c _ _ k1(1)]
  have st1: "server_inv ?s" "touches p s ?s" "online ?s p = online s p" using st by simp_all
  have c1: "connect_at (m_pClientConnectManager ?s) p = Some ?c" using connect_at_Some [OF c] by simp
  have hd: "ptr_diff (cc_pSendTail c) (cc_pSendHead c) = Some (int t)" "snd (cc_pSendHead c) = 0"
    using k t by (simp_all add: send_ok_def ptr_diff_def)
  show ?thesis
  proof (cases "ret = SUCCESS")
    case False
    obtain s' where s': "close_client p ?s = Some s'" "server_inv s'" "touches p ?s s'" "\<not> online s' p"
      using close_client_ok [OF st1(1) c1] by blast
    have "send_pending p (a # net) s = Some (False, net, s', [(p, out)])"
      using c hd run False s' by (simp add: send_pending_def Let_def)
    then show ?thesis using s' touches_trans [OF st1(2) s'(3)] by auto
  next
    case True
    let ?d = "?c\<lparr>cc_pSendTail := (SendBuff, 0)\<rparr>"
    let ?t = "?s\<lparr>m_pClientConnectManager := set_connect p ?d (m_pClientConnectManager ?s)\<rparr>"
    have st2: "server_inv ?t" "touches p ?s ?t" "online ?t p = online ?s p"
      using set_connect_step [OF st1(1) c1 _ _ k1(2)] by simp_all
    have "send_pending p (a # net) s = Some (True, net, ?t, [(p, out)])"
      using c hd run True by (simp add: send_pending_def Let_def)
    moreover have "connect_at (m_pClientConnectManager ?t) p = Some ?d" using connect_at_Some [OF c] by simp
    moreover have "out = pend_out s p" using out True c t by (simp add: pend_out_def)
    ultimately show ?thesis using st2 touches_trans [OF st1(2) st2(2)] st1(3) by auto
  qed
qed

lemma append_packet_ok:
  assumes s: "server_inv s" and c: "connect_at (m_pClientConnectManager s) p = Some c"
    and fit: "snd (cc_pSendTail c) + length d \<le> SERVER_BUFFER_SIZE" and b: "length d \<le> length b"
  shows "\<exists>s'. append_packet p (put_at b 0 d) (int (length d)) s = Some s' \<and> server_inv s' \<and> touches p s s' \<and>
    online s' p = online s p \<and> pend_out s' p = pend_out s p @ d"
proof -
  have k: "send_ok c" using s c by (simp add: server_inv_def)
  obtain t where t: "cc_pSendTail c = (SendBuff, t)" using k by (cases "cc_pSendTail c") (simp add: send_ok_def)
  let ?d = "c\<lparr>cc_pSendBuff := put_at (cc_pSendBuff c) t d, cc_pSendTail := (SendBuff, t + length d)\<rparr>"
  have l: "length (cc_pSendBuff c) = SERVER_BUFFER_SIZE" "t + length d \<le> SERVER_BUFFER_SIZE"
    using k t fit by (simp_all add: send_ok_def)
  then have k1: "send_ok ?d" using k by (simp add: send_ok_def)
  have "get_at (put_at b 0 d) 0 (length d) = d" using b by (simp add: get_put_same)
  then have "memcpy (cc_pSendBuff c) (int t) (put_at b 0 d) 0 (int (length d)) = Some (put_at (cc_pSendBuff c) t d)"
    using memcpy_nat [of "cc_pSendBuff c" t "put_at b 0 d" 0 "length d"] l b by simp
  then have run: "append_packet p (put_at b 0 d) (int (length d)) s =
      Some (s\<lparr>m_pClientConnectManager := set_connect p ?d (m_pClientConnectManager s)\<rparr>)"
    using c t by (simp add: append_packet_def)
  have "get_at (put_at (cc_pSendBuff c) t d) 0 (t + length d) = get_at (cc_pSendBuff c) 0 t @ d"
    using get_at_split [of "put_at (cc_pSendBuff c) t d" 0 t "length d"] l by (simp add: get_put_before get_put_same)
  then show ?thesis
    using run set_connect_step [OF s c _ _ k1] c t by (simp add: pend_out_def)
qed

section \<open>Packets\<close>

text \<open>The packets that the server sends on to the client in slot \<open>p\<close>.\<close>

definition addressed :: "nat \<Rightarrow> bytes \<Rightarrow> bool" where
  "addressed p d \<longleftrightarrow> 8 \<le> length d \<and> sint (un_be32 (get_at d 2 4)) = int p \<and> for_client (un_be16 (get_at d 6 2))"

definition sent_to :: "nat \<Rightarrow> (nat \<times> bytes) list \<Rightarrow> bytes" where
  "sent_to p out = concat (map snd (filter (\<lambda>(q, _). q = p) out))"

lemma sent_to_simps [simp]:
  "sent_to p [] = []" "sent_to p (x @ y) = sent_to p x @ sent_to p y" "sent_to p [(q, d)] = (if q = p then d else [])"
  by (simp_all add: sent_to_def)

text \<open>
  From \<open>s\<close> to \<open>s'\<close> the bytes \<open>out\<close> have been sent: every client that is still online has got, or has
  waiting, what waited before followed by \<open>f p\<close>. Whoever has bytes waiting is in the list \<open>vs'\<close>.
\<close>

definition queued :: "nat list \<Rightarrow> connect_server \<Rightarrow> bool" where
  "queued vs s \<longleftrightarrow> (\<forall>p\<in>set vs. p < CLIENT_EPOLL_COUNT) \<and> (\<forall>p. online s p \<and> pend_out s p \<noteq> [] \<longrightarrow> p \<in> set vs)"

definition delivers :: "(nat \<Rightarrow> bytes) \<Rightarrow> connect_server \<Rightarrow> (nat \<times> bytes) list \<Rightarrow> connect_server \<Rightarrow> bool" where
  "delivers f s out s' \<longleftrightarrow> server_inv s' \<and>
     (\<forall>p. online s' p \<longrightarrow> online s p \<and> sent_to p out @ pend_out s' p = pend_out s p @ f p)"

lemma delivers_trans:
  "delivers f s o1 s1 \<Longrightarrow> delivers g s1 o2 s2 \<Longrightarrow> delivers (\<lambda>p. f p @ g p) s (o1 @ o2) s2"
  unfolding delivers_def by (metis append_assoc sent_to_simps(2))

lemma delivers_refl: "server_inv s \<Longrightarrow> delivers (\<lambda>_. []) s [] s"
  by (simp add: delivers_def)

lemma touches_delivers:
  assumes "server_inv s'" "touches p s s'" "online s' p \<longrightarrow> online s p \<and> sent_to p out @ pend_out s' p = pend_out s p @ d"
    and "\<forall>q. q \<noteq> p \<longrightarrow> sent_to q out = []"
  shows "delivers (\<lambda>q. if q = p then d else []) s out s'"
  using assms touches_pend [OF assms(2)] by (auto simp: delivers_def)

lemma touches_queued:
  assumes "queued vs s" "touches p s s'" "p \<in> set vs' \<or> \<not> online s' p \<or> pend_out s' p = []"
    and "set vs - {p} \<subseteq> set vs'" "set vs' \<subseteq> insert p (set vs)" "p < CLIENT_EPOLL_COUNT"
  shows "queued vs' s'"
  unfolding queued_def
proof (intro conjI ballI allI impI)
  fix q assume "q \<in> set vs'"
  then show "q < CLIENT_EPOLL_COUNT" using assms(1,5,6) by (auto simp: queued_def)
next
  fix q assume "online s' q \<and> pend_out s' q \<noteq> []"
  then show "q \<in> set vs'"
    using assms(1,3,4) touches_pend [OF assms(2), of q] by (cases "q = p") (auto simp: queued_def)
qed

lemma slot_bound: "server_inv s \<Longrightarrow> connect_at (m_pClientConnectManager s) p = Some c \<Longrightarrow> p < CLIENT_EPOLL_COUNT"
  by (auto simp: server_inv_def pool_ok_def dest: connect_at_Some)

text \<open>A client in whose buffer the packet fits, and one whose buffer has to be sent first.\<close>

lemma append_delivers:
  assumes s: "server_inv s" and c: "connect_at (m_pClientConnectManager s) p = Some c"
    and fit: "snd (cc_pSendTail c) + length d \<le> SERVER_BUFFER_SIZE" and b: "length d \<le> length b"
    and v: "queued vs s"
  shows "\<exists>s'. append_packet p (put_at b 0 d) (int (length d)) s = Some s' \<and>
    delivers (\<lambda>q. if q = p then d else []) s [] s' \<and> queued (vs @ [p]) s' \<and>
    m_pQueueLogicToConnect s' = m_pQueueLogicToConnect s"
proof -
  obtain s' where s': "append_packet p (put_at b 0 d) (int (length d)) s = Some s'" "server_inv s'" "touches p s s'"
    "online s' p = online s p" "pend_out s' p = pend_out s p @ d"
    using append_packet_ok [OF s c fit b] by blast
  have "delivers (\<lambda>q. if q = p then d else []) s [] s'"
    by (rule touches_delivers [OF s'(2,3)]) (use s' in simp_all)
  moreover have "queued (vs @ [p]) s'" by (rule touches_queued [OF v s'(3)]) (use slot_bound [OF s c] in auto)
  ultimately show ?thesis using s' by (auto simp: touches_def)
qed

lemma send_pending_delivers:
  assumes s: "server_inv s" and c: "connect_at (m_pClientConnectManager s) p = Some c" and a: "answer_ok a"
    and v: "queued vs s"
  shows "\<exists>ok s' out. send_pending p (a # net) s = Some (ok, net, s', out) \<and> delivers (\<lambda>_. []) s out s' \<and> queued vs s' \<and> queued (filter (\<lambda>q. q \<noteq> p) vs) s' \<and>
    m_pQueueLogicToConnect s' = m_pQueueLogicToConnect s \<and> (\<not> ok \<longrightarrow> \<not> online s' p) \<and>
    (ok \<longrightarrow> (\<exists>c'. connect_at (m_pClientConnectManager s') p = Some c' \<and> cc_pSendTail c' = (SendBuff, 0)))"
proof -
  obtain ok s' out where run: "send_pending p (a # net) s = Some (ok, net, s', [(p, out)])"
    and s': "server_inv s'" "touches p s s'" "\<not> ok \<longrightarrow> \<not> online s' p"
      "ok \<longrightarrow> out = pend_out s p \<and> online s' p = online s p \<and>
        (\<exists>c'. connect_at (m_pClientConnectManager s') p = Some c' \<and> cc_pSendTail c' = (SendBuff, 0))"
    using send_pending_ok [OF s c a, of net] by blast
  have e: "ok \<longrightarrow> pend_out s' p = []" using s'(4) by (auto simp: pend_out_def)
  have "delivers (\<lambda>q. if q = p then [] else []) s [(p, out)] s'"
    by (rule touches_delivers [OF s'(1,2)]) (use s' e in auto)
  moreover have "p < CLIENT_EPOLL_COUNT" by (rule slot_bound [OF s c])
  then have "queued vs s'" "queued (filter (\<lambda>q. q \<noteq> p) vs) s'"
    by (rule touches_queued [OF v s'(2), rotated 3]; use s'(3) e in auto)+
  ultimately show ?thesis using run s' e by (auto simp: touches_def)
qed

lemma deliver_packet_ok:
  assumes s: "server_inv s" and v: "queued vs s" and a: "answer_ok a"
    and d: "length d \<le> MAX_SERVER_PACKAGE_LENGTH" "length b = MAX_SERVER_PACKAGE_LENGTH"
  shows "\<exists>chk vs' net' s' out. deliver_packet (put_at b 0 d) (int (length d)) vs (a # net) s = Some (chk, vs', net', s', out) \<and>
    (net' = a # net \<or> net' = net) \<and> length vs' \<le> Suc (length vs) \<and>
    delivers (\<lambda>p. if addressed p d then d else []) s out s' \<and> queued vs' s' \<and>
    m_pQueueLogicToConnect s' = m_pQueueLogicToConnect s"
proof (cases "length d < 8")
  case True
  then show ?thesis using s v
    by (simp add: deliver_packet_def addressed_def delivers_refl ex_bool_eq)
next
  case False
  let ?b = "put_at b 0 d" and ?i = "un_be32 (get_at d 2 4)" and ?cmd = "un_be16 (get_at d 6 2)"
  have b: "length ?b = MAX_SERVER_PACKAGE_LENGTH" using d by simp
  have g: "get_at ?b j k = get_at d j k" if "j + k \<le> length d" for j k
  proof -
    have "get_at ?b 0 (length d) = d" by (rule get_put_same) (use d in simp_all)
    from get_at_sub [OF this _ that] show ?thesis using d by (simp add: get_at_def)
  qed
  have rd: "ReadShort ?b 0 = Some (2, un_be16 (get_at d 0 2))" "ReadInt ?b 2 = Some (4, ?i)" "ReadShort ?b 6 = Some (2, ?cmd)"
    using b False g by (simp_all add: size_defs)
  show ?thesis
  proof (cases "FindClient (sint ?i) (m_pClientConnectManager s)")
    case None
    obtain q' where q': "tell_exit ?i (m_pQueueToLogicLayer s) = Some q'" "shm_ok q'"
      using tell_exit_returns [of "m_pQueueToLogicLayer s" ?i] s by (auto simp: server_inv_def)
    let ?s = "s\<lparr>m_pQueueToLogicLayer := q'\<rparr>"
    have "\<not> addressed p d" if "online s p" for p
      using that None by (auto simp: addressed_def online_def)
    then have "delivers (\<lambda>p. if addressed p d then d else []) s [] ?s"
      using s q' by (simp add: delivers_def server_inv_def)
    then show ?thesis
      using None False rd q' v by (simp add: deliver_packet_def queued_def ex_bool_eq)
  next
    case (Some p)
    have p: "sint ?i = int p" "used_slot (m_pClientConnectManager s) p"
      using pool_online [OF _ Some] s by (auto simp: server_inv_def)
    obtain c where c: "connect_at (m_pClientConnectManager s) p = Some c" using p(2) by (auto simp: used_slot_def)
    show ?thesis
    proof (cases "for_client ?cmd")
      case False
      then have "\<not> addressed r d" for r by (simp add: addressed_def)
      then show ?thesis using Some \<open>\<not> length d < 8\<close> rd False s v by (simp add: deliver_packet_def delivers_refl ex_bool_eq)
    next
      case True
      have ad: "addressed r d \<longleftrightarrow> r = p" for r using True \<open>\<not> length d < 8\<close> p(1) by (auto simp: addressed_def)
      let ?s = "s\<lparr>cs_iSendCount := cs_iSendCount s + 1\<rparr>"
      have s1: "server_inv ?s" "queued vs ?s" "connect_at (m_pClientConnectManager ?s) p = Some c"
        "delivers f ?s out s' = delivers f s out s'" for f out s'
        using s v c by (simp_all add: queued_def delivers_def)
      have k: "send_ok c" using s c by (simp add: server_inv_def)
      obtain t where t: "cc_pSendTail c = (SendBuff, t)" "t \<le> SERVER_BUFFER_SIZE"
        using k by (cases "cc_pSendTail c") (auto simp: send_ok_def)
      have fs: "ptr_diff cc_pSendEnd (cc_pSendTail c) = Some (int SERVER_BUFFER_SIZE - int t)"
        using t by (simp add: ptr_diff_def cc_pSendEnd_def)
      show ?thesis
      proof (cases "t + length d \<le> SERVER_BUFFER_SIZE")
        case True
        with append_delivers [OF s1(1,3) _ _ s1(2), of d b] t d obtain s' where
          "append_packet p ?b (int (length d)) ?s = Some s'" "delivers (\<lambda>q. if q = p then d else []) s [] s'"
          "queued (vs @ [p]) s'" "m_pQueueLogicToConnect s' = m_pQueueLogicToConnect s"
          by (auto simp: s1(4))
        then show ?thesis
          using Some \<open>\<not> length d < 8\<close> rd \<open>for_client ?cmd\<close> c fs True by (simp add: deliver_packet_def Let_def ad ex_bool_eq)
      next
        case False
        obtain ok s2 out where s2: "send_pending p (a # net) ?s = Some (ok, net, s2, out)" "delivers (\<lambda>_. []) s out s2"
          "queued vs s2" "m_pQueueLogicToConnect s2 = m_pQueueLogicToConnect s" "\<not> ok \<longrightarrow> \<not> online s2 p"
          "ok \<longrightarrow> (\<exists>c'. connect_at (m_pClientConnectManager s2) p = Some c' \<and> cc_pSendTail c' = (SendBuff, 0))"
          using send_pending_delivers [OF s1(1,3) a s1(2), of net] by (auto simp: s1(4))
        have run: "deliver_packet ?b (int (length d)) vs (a # net) s =
          (if \<not> ok then Some (True, vs, net, s2, out)
           else do { s \<leftarrow> append_packet p ?b (int (length d)) s2; Some (True, vs @ [p], net, s, out) })"
          using Some \<open>\<not> length d < 8\<close> rd \<open>for_client ?cmd\<close> c fs False s2(1) by (simp add: deliver_packet_def Let_def)
        show ?thesis
        proof (cases ok)
          case False
          have "delivers (\<lambda>r. if addressed r d then d else []) s out s2"
            using s2(2,5) False by (auto simp: delivers_def ad)
          then show ?thesis using run False s2 by auto
        next
          case True
          with s2 obtain c' where c': "connect_at (m_pClientConnectManager s2) p = Some c'" "cc_pSendTail c' = (SendBuff, 0)" by auto
          have inv2: "server_inv s2" using s2(2) by (simp add: delivers_def)
          have "snd (cc_pSendTail c') + length d \<le> SERVER_BUFFER_SIZE" "length d \<le> length b"
            using c'(2) d by (simp_all add: size_defs)
          from append_delivers [OF inv2 c'(1) this s2(3)] obtain s' where
            s': "append_packet p ?b (int (length d)) s2 = Some s'" "delivers (\<lambda>q. if q = p then d else []) s2 [] s'"
              "queued (vs @ [p]) s'" "m_pQueueLogicToConnect s' = m_pQueueLogicToConnect s2" by blast
          have "delivers (\<lambda>r. if addressed r d then d else []) s out s'"
            using delivers_trans [OF s2(2) s'(2)] by (simp add: ad)
          then show ?thesis using run True s' s2(4) by auto
        qed
      qed
    qed
  qed
qed

section \<open>The loops\<close>

lemma deliver_loop_ok:
  assumes "server_inv s" "queued vs s" "holds (m_pQueueLogicToConnect s) ds"
    and "\<forall>d\<in>set ds. length d \<le> MAX_SERVER_PACKAGE_LENGTH" "length b = MAX_SERVER_PACKAGE_LENGTH"
    and "\<forall>a\<in>set net. answer_ok a" "length ds \<le> length net"
  shows "\<exists>k vs' net' s' out. deliver_loop clock t n b vs net s = Some (n + int k, vs', net', s', out) \<and> k \<le> length ds \<and>
    (k < length ds \<longrightarrow> 100 \<le> n + int k) \<and> delivers (\<lambda>p. concat (filter (addressed p) (take k ds))) s out s' \<and>
    queued vs' s' \<and> holds (m_pQueueLogicToConnect s') (drop k ds) \<and> length vs' \<le> length vs + k \<and>
    set net' \<subseteq> set net \<and> length net \<le> length net' + k"
  using assms
proof (induction ds arbitrary: s vs b net n)
  case Nil
  then show ?case
    using DequeueInto_empty [OF Nil.prems(3)]
    by (intro exI [of _ 0]) (simp add: deliver_loop.simps [of clock t n] delivers_refl queued_def delivers_def shm_err_defs)
next
  case (Cons d ds)
  obtain q where q: "DequeueInto (m_pQueueLogicToConnect s) b (int MAX_SERVER_PACKAGE_LENGTH) =
      Some (SUCCESS, put_at b 0 d, int (length d), q)" "holds q ds"
    using DequeueInto_ok [OF Cons.prems(3), of "int MAX_SERVER_PACKAGE_LENGTH" b] Cons.prems(4,5) by auto
  obtain a net0 where net: "net = a # net0" using Cons.prems(7) by (cases net) auto
  let ?s = "s\<lparr>m_pQueueLogicToConnect := q\<rparr>"
  have s: "server_inv ?s" "queued vs ?s" using Cons.prems(1,2) by (simp_all add: queued_def)
  have "answer_ok a" "length d \<le> MAX_SERVER_PACKAGE_LENGTH" using Cons.prems(4,6) by (simp_all add: net)
  moreover have "m_pQueueLogicToConnect ?s = q" by simp
  ultimately obtain chk vs1 net1 s1 out1 where
    p: "deliver_packet (put_at b 0 d) (int (length d)) vs net ?s = Some (chk, vs1, net1, s1, out1)"
      "net1 = net \<or> net1 = net0" "length vs1 \<le> Suc (length vs)"
      "delivers (\<lambda>p. if addressed p d then d else []) ?s out1 s1" "queued vs1 s1" "m_pQueueLogicToConnect s1 = q"
    unfolding net using deliver_packet_ok [OF s, of a d b net0] Cons.prems(5) by metis
  have p4: "delivers (\<lambda>p. if addressed p d then d else []) s out1 s1" using p(4) by (simp add: delivers_def)
  have step: "deliver_loop clock t n b vs net s =
    (if chk \<and> n + 1 \<ge> 100 \<and> \<not> Connect_HaveTimeForQueueData (clock (n + 1)) t
     then Some (n + 1, vs1, net1, s1, out1)
     else do { (n, vs, net, s, out') \<leftarrow> deliver_loop clock t (n + 1) (put_at b 0 d) vs1 net1 s1; Some (n, vs, net, s, out1 @ out') })"
    using q(1) p(1) by (simp add: deliver_loop.simps [of clock t n b] Let_def shm_err_defs)
  show ?case
  proof (cases "chk \<and> n + 1 \<ge> 100 \<and> \<not> Connect_HaveTimeForQueueData (clock (n + 1)) t")
    case True
    have "(\<lambda>p. if addressed p d then d else []) = (\<lambda>p. concat (filter (addressed p) (take 1 (d # ds))))" by auto
    then have "delivers (\<lambda>p. concat (filter (addressed p) (take 1 (d # ds)))) s out1 s1" using p4 by simp
    moreover have "deliver_loop clock t n b vs net s = Some (n + int 1, vs1, net1, s1, out1)" using step True by simp
    moreover have "set net1 \<subseteq> set net" "length net \<le> length net1 + 1" using p(2) by (auto simp: net)
    ultimately show ?thesis using True p(3,5,6) q(2) by (intro exI [of _ 1]) simp
  next
    case False
    have l: "length (put_at b 0 d) = MAX_SERVER_PACKAGE_LENGTH" using Cons.prems(4,5) by simp
    have s1: "server_inv s1" "holds (m_pQueueLogicToConnect s1) ds" using p4 p(6) q(2) by (simp_all add: delivers_def)
    have nets: "\<forall>a\<in>set net1. answer_ok a" "length ds \<le> length net1" using Cons.prems(6,7) p(2) by (auto simp: net)
    have ds: "\<forall>d\<in>set ds. length d \<le> MAX_SERVER_PACKAGE_LENGTH" using Cons.prems(4) by simp
    from Cons.IH [OF s1(1) p(5) s1(2) ds l nets, of "n + 1"] obtain k vs' net' s' out where
      k: "deliver_loop clock t (n + 1) (put_at b 0 d) vs1 net1 s1 = Some (n + 1 + int k, vs', net', s', out)"
        "k \<le> length ds" "k < length ds \<longrightarrow> 100 \<le> n + 1 + int k"
        "delivers (\<lambda>p. concat (filter (addressed p) (take k ds))) s1 out s'" "queued vs' s'"
        "holds (m_pQueueLogicToConnect s') (drop k ds)" "length vs' \<le> length vs1 + k"
        "set net' \<subseteq> set net1" "length net1 \<le> length net' + k" by blast
    have "deliver_loop clock t n b vs net s = Some (n + int (Suc k), vs', net', s', out1 @ out)"
      unfolding step if_not_P [OF False] k(1) by simp
    moreover have "delivers (\<lambda>p. concat (filter (addressed p) (take (Suc k) (d # ds)))) s (out1 @ out) s'"
      using delivers_trans [OF p4 k(4)] by (rule back_subst [of "\<lambda>f. delivers f s (out1 @ out) s'"]) auto
    moreover have "set net' \<subseteq> set net" "length net \<le> length net' + Suc k" using k(8,9) p(2) by (auto simp: net)
    moreover have "Suc k < length (d # ds) \<longrightarrow> 100 \<le> n + int (Suc k)" "length vs' \<le> length vs + Suc k"
      using k(3,7) p(3) by auto
    moreover have "Suc k \<le> length (d # ds)" "drop (Suc k) (d # ds) = drop k ds" using k(2) by simp_all
    ultimately show ?thesis using k(5,6) by metis
  qed
qed

lemma send_clients_ok:
  assumes "server_inv s" "queued vs s" "\<forall>a\<in>set net. answer_ok a" "length vs \<le> length net"
  shows "\<exists>net' s' out. send_clients vs net s = Some (net', s', out) \<and> delivers (\<lambda>_. []) s out s' \<and>
    queued [] s' \<and> m_pQueueLogicToConnect s' = m_pQueueLogicToConnect s"
  using assms
proof (induction vs arbitrary: s net)
  case Nil
  then show ?case by (simp add: delivers_refl)
next
  case (Cons p vs)
  obtain a net0 where net: "net = a # net0" using Cons.prems(4) by (cases net) auto
  have "p < length (m_pAllClientConnect (m_pClientConnectManager s))"
    using Cons.prems(1,2) by (simp add: queued_def server_inv_def pool_ok_def)
  then obtain c where c: "connect_at (m_pClientConnectManager s) p = Some c" by (simp add: connect_at_def)
  have "answer_ok a" using Cons.prems(3) by (simp add: net)
  from send_pending_delivers [OF Cons.prems(1) c this Cons.prems(2), of net0] obtain ok s1 out1 where
    s1: "send_pending p net s = Some (ok, net0, s1, out1)" "delivers (\<lambda>_. []) s out1 s1"
      "queued (filter (\<lambda>q. q \<noteq> p) (p # vs)) s1" "m_pQueueLogicToConnect s1 = m_pQueueLogicToConnect s"
    unfolding net by blast
  have v: "queued vs s1" using s1(3) Cons.prems(2) by (auto simp: queued_def)
  have inv: "server_inv s1" using s1(2) by (simp add: delivers_def)
  from Cons.IH [OF inv v, of net0] Cons.prems(3,4) obtain net' s' out where
    "send_clients vs net0 s1 = Some (net', s', out)" "delivers (\<lambda>_. []) s1 out s'" "queued [] s'"
    "m_pQueueLogicToConnect s' = m_pQueueLogicToConnect s1"
    by (auto simp: net)
  then show ?case using s1 delivers_trans [OF s1(2), of "\<lambda>_. []" out s'] by simp
qed

text \<open>A whole round.\<close>

lemma round_run:
  assumes "server_inv s" "\<forall>p. online s p \<longrightarrow> pend_out s p = []" "holds (m_pQueueLogicToConnect s) ds"
    and "\<forall>d\<in>set ds. length d \<le> MAX_SERVER_PACKAGE_LENGTH"
    and "ri_events ri = []" "\<forall>a\<in>set (ri_net ri). answer_ok a" "2 * length ds \<le> length (ri_net ri)"
  shows "\<exists>t' s' out k. Connect_Run_round ri t s = Some (t', s', out) \<and> server_inv s' \<and>
    k \<le> length ds \<and> (k < length ds \<longrightarrow> 100 \<le> k) \<and> holds (m_pQueueLogicToConnect s') (drop k ds) \<and>
    (\<forall>p. online s' p \<longrightarrow> online s p \<and> pend_out s' p = [] \<and>
      sent_to p out = concat (filter (addressed p) (take k ds)))"
proof -
  define t1 where "t1 = snd (Connect_GetMaxTimeForQueueData (EpollDown (ri_epoll ri) (Begain (ri_begin ri) t)))"
  let ?b = "replicate MAX_SERVER_PACKAGE_LENGTH (0 :: byte)"
  have v: "queued [] s" using assms(2) by (simp add: queued_def)
  have "length ds \<le> length (ri_net ri)" using assms(7) by simp
  from deliver_loop_ok [OF assms(1) v assms(3,4) _ assms(6) this, of ?b "ri_clock ri" t1 0] obtain k vs net s1 out1 where
    s1: "deliver_loop (ri_clock ri) t1 0 ?b [] (ri_net ri) s = Some (int k, vs, net, s1, out1)" "k \<le> length ds"
      "k < length ds \<longrightarrow> 100 \<le> int k" "delivers (\<lambda>p. concat (filter (addressed p) (take k ds))) s out1 s1" "queued vs s1"
      "holds (m_pQueueLogicToConnect s1) (drop k ds)" "length vs \<le> k" "set net \<subseteq> set (ri_net ri)"
      "length (ri_net ri) \<le> length net + k"
    by auto
  have n: "\<forall>a\<in>set net. answer_ok a" "length vs \<le> length net" using s1(2,7-9) assms(6,7) by auto
  have "server_inv s1" using s1(4) by (simp add: delivers_def)
  from send_clients_ok [OF this s1(5) n] obtain net' s' out2 where
    s': "send_clients vs net s1 = Some (net', s', out2)" "delivers (\<lambda>_. []) s1 out2 s'" "queued [] s'"
      "m_pQueueLogicToConnect s' = m_pQueueLogicToConnect s1" by blast
  have d: "delivers (\<lambda>p. concat (filter (addressed p) (take k ds)) @ []) s (out1 @ out2) s'"
    by (rule delivers_trans [OF s1(4) s'(2)])
  have "Connect_Run_round ri t s = Some (Connect_QueueDataDown (ri_end ri) t1, s', out1 @ out2)"
    using s1(1) s'(1) assms(5) by (simp add: Connect_Run_round_def t1_def Let_def split_beta)
  moreover have "online s p \<and> pend_out s' p = [] \<and> sent_to p (out1 @ out2) = concat (filter (addressed p) (take k ds))"
    if "online s' p" for p
    using d s'(3) that assms(2) by (auto simp: delivers_def queued_def)
  ultimately show ?thesis using d s1(2,3,6) s'(4) by (auto simp: delivers_def)
qed

section \<open>Property\<close>


section \<open>Witness\<close>

text \<open>One client online, in slot 0 of a fresh pool.\<close>

definition w_slot :: "nat \<Rightarrow> client_connect" where
  "w_slot i = \<lparr>cc_iSockfd = 5, cc_iClientAddr = 0, cc_tLastRecvTime = 0, cc_bUsed = True, cc_bInMap = True,
     cc_iIndex = 0, cc_pRecvBuff = [], cc_pRecvHead = (SendBuff, 0), cc_pRecvTail = (SendBuff, 0),
     cc_pSendBuff = [], cc_pSendHead = (SendBuff, 0), cc_pSendTail = (SendBuff, 0)\<rparr>"

definition w_pool0 :: connect_manager where
  "w_pool0 = set_connect 0 ((new_connect w_slot 0)\<lparr>cc_bUsed := True\<rparr>)
     ((new_ClientConnectManager 4096 w_slot)\<lparr>m_lFreeList := [1..<CLIENT_EPOLL_COUNT]\<rparr>)"

definition w_pool :: connect_manager where
  "w_pool = w_pool0\<lparr>m_mOnlineClient := AList.update 0 0 (m_mOnlineClient w_pool0)\<rparr>"

lemma connect_at_w_pool: "connect_at w_pool p = Some c \<Longrightarrow> send_ok c \<and> snd (cc_pSendTail c) = 0"
  by (auto simp: w_pool_def w_pool0_def connect_at_def set_connect_def new_ClientConnectManager_def
      nth_list_update send_ok_def new_connect_def split: if_splits)

lemma w_pool_ok: "pool_ok w_pool" "FindClient 0 w_pool = Some 0"
proof -
  let ?m = "new_ClientConnectManager 4096 w_slot"
  have pos: "0 < CLIENT_EPOLL_COUNT" by (simp add: size_defs)
  have f: "m_lFreeList ?m = 0 # [1..<CLIENT_EPOLL_COUNT]"
    using upt_conv_Cons [OF pos] by (simp add: new_ClientConnectManager_def)
  have c: "connect_at ?m 0 = Some (new_connect w_slot 0)"
    using pos by (simp add: connect_at_def new_ClientConnectManager_def)
  have 0: "pool_ok w_pool0"
    using GetOneFreeConnect_cases [OF new_pool_ok, of 4096 w_slot] by (simp add: f c w_pool0_def)
  have u: "connect_at w_pool0 0 = Some ((new_connect w_slot 0)\<lparr>cc_bUsed := True\<rparr>)"
    using connect_at_Some [OF c] by (simp add: w_pool0_def)
  then have "used_slot w_pool0 0" by (simp add: used_slot_def)
  moreover have "AddOnlineClient (Some 0) w_pool0 = Some (SUCCESS, w_pool)"
    by (simp add: AddOnlineClient_def u w_pool_def new_connect_def)
  ultimately show "pool_ok w_pool" "FindClient 0 w_pool = Some 0"
    using AddOnlineClient_ok [OF 0, of 0] by auto
qed

definition w_answer :: send_answer where
  "w_answer = \<lparr>sa_poll = [PollAgain, PollOut], sa_send = (\<lambda>n. [(n, EOTHER)]), sa_time = 1\<rparr>"

definition w_input :: round_input where
  "w_input = \<lparr>ri_events = [], ri_begin = (0, 0), ri_epoll = (0, 0), ri_clock = (\<lambda>_. (0, 0)), ri_end = (0, 0),
     ri_net = [w_answer, w_answer]\<rparr>"

lemma w_answer_ok: "answer_ok w_answer"
  by (simp add: answer_ok_def w_answer_def Sendn.simps)

definition w_reply :: bytes where "w_reply = wire (ActReplyMessage 0 CMD_SERVER_REPLY_MESSAGE True [79, 75])"

lemma w_reply_addressed: "addressed 0 w_reply" "length w_reply = 12"
  by code_simp+


end
