(* ===== verification/Connect_Pool.thy ===== *)
theory Connect_Pool
  imports Connect_Stream Connect_Deliver
begin

text \<open>
  The connections over any sequence of socket events: the pool stays intact, a new client gets a slot
  that nobody uses, and what becomes of a slot that is used a second time.
\<close>

section \<open>Events keep the invariant\<close>

lemma to_logic_wait_ok:
  "to_logic_wait q d n = Some q' \<Longrightarrow> shm_ok q \<Longrightarrow> 0 \<le> n \<Longrightarrow> n < 2 ^ 30 \<Longrightarrow> shm_ok q'"
  by (auto simp: to_logic_wait_def bind_eq_Some_conv split: if_splits intro: Enqueue_shm_ok)

lemma GetClientPackage_len:
  assumes "GetClientPackageFromBuff b p n i = Some (ret, b', Some (p', len))"
  shows "0 \<le> len \<and> len < 2 ^ 30"
proof -
  obtain w where "len = uint (w :: u16)"
    using assms unfolding GetClientPackageFromBuff_def
    by (cases "ReadShort b p") (auto simp: bind_eq_Some_conv simp del: accessors_in_range split: if_split_asm)
  then show ?thesis using uint_lt2p [of w] by simp
qed

lemma split_loop_keeps:
  "split_loop c q n p l = Some (c', q', n') \<Longrightarrow> shm_ok q \<Longrightarrow> same_but_recv c c' \<and> shm_ok q'"
proof (induction c q n p l rule: split_loop.induct)
  case (1 c q n p l)
  obtain ret b nxt where g: "GetClientPackageFromBuff (cc_pRecvBuff c) p l (word_of_int (cc_iIndex c)) = Some (ret, b, nxt)"
    using 1(2) by (auto simp: split_loop.simps [of c] bind_eq_Some_conv)
  show ?case
  proof (cases nxt)
    case None
    with 1(2,3) g show ?thesis
      by (auto simp: split_loop.simps [of c] move_front_def bind_eq_Some_conv same_but_recvI)
  next
    case (Some r)
    obtain p' len where r: "r = (p', len)" by (cases r)
    let ?c = "c\<lparr>cc_pRecvBuff := b, cc_pRecvHead := (fst (cc_pRecvHead c), snd (cc_pRecvHead c) + nat len)\<rparr>"
    obtain q1 where q1: "to_logic_wait q (drop p b) len = Some q1"
      and run: "(if l > len then split_loop ?c q1 (n + 1) p' (l - len)
        else Some (?c\<lparr>cc_pRecvHead := (RecvBuff, 0), cc_pRecvTail := (RecvBuff, 0)\<rparr>, q1, n + 1)) = Some (c', q', n')"
      using 1(2) g Some r by (auto simp: split_loop.simps [of c] bind_eq_Some_conv Let_def)
    have ok: "shm_ok q1"
      using to_logic_wait_ok [OF q1 1(3)] GetClientPackage_len [OF g [unfolded Some r]] by simp
    show ?thesis
    proof (cases "l > len")
      case True
      then have "split_loop ?c q1 (n + 1) p' (l - len) = Some (c', q', n')" using run by simp
      from 1(1) [OF g refl refl Some r [symmetric] q1 refl True this ok]
      show ?thesis using same_but_recv_step by blast
    next
      case False
      then have "c' = ?c\<lparr>cc_pRecvHead := (RecvBuff, 0), cc_pRecvTail := (RecvBuff, 0)\<rparr>" "q' = q1" using run by auto
      then show ?thesis
        using ok same_but_recvI [where c = c and b = b and h = "(RecvBuff, 0)" and t = "(RecvBuff, 0)"] by simp
    qed
  qed
qed

lemma recv_client_keeps:
  assumes "recv_client p ev s = Some s'" "server_inv s"
  shows "server_inv s'"
proof -
  obtain c where c: "connect_at (m_pClientConnectManager s) p = Some c"
    using assms(1) by (auto simp: recv_client_def bind_eq_Some_conv)
  have k: "send_ok c" using assms(2) c by (simp add: server_inv_def)
  show ?thesis
  proof (cases "ev_recv ev = RecvAgain \<or> ev_recv ev = RecvFailed \<or> ev_recv ev = Received []")
    case True
    then show ?thesis
      using assms c close_client_ok [OF assms(2) c] by (auto simp: recv_client_def bind_eq_Some_conv)
  next
    case False
    then obtain dat where dat: "ev_recv ev = Received dat" "dat \<noteq> []" by (cases "ev_recv ev") auto
    obtain b l c2 q2 n2 where
      run: "split_loop (c\<lparr>cc_pRecvBuff := b, cc_tLastRecvTime := ev_time ev,
          cc_pRecvTail := (fst (cc_pRecvTail c), snd (cc_pRecvTail c) + length dat)\<rparr>) (m_pQueueToLogicLayer s)
          (cs_iRecvCount s) (snd (cc_pRecvHead c)) l = Some (c2, q2, n2)"
      and s': "s' = s\<lparr>m_pClientConnectManager := set_connect p c2 (m_pClientConnectManager s),
          m_pQueueToLogicLayer := q2, cs_iRecvCount := n2\<rparr>"
      using assms(1) dat c by (auto simp: recv_client_def bind_eq_Some_conv Let_def)
    have "shm_ok (m_pQueueToLogicLayer s)" using assms(2) by (simp add: server_inv_def)
    from split_loop_keeps [OF run this] have sb: "shm_ok q2"
      "cc_iIndex c2 = cc_iIndex c" "cc_bUsed c2 = cc_bUsed c" "send_ok c2"
      using k by (auto simp: same_but_recv_def send_ok_def)
    have "server_inv (s\<lparr>m_pClientConnectManager := set_connect p c2 (m_pClientConnectManager s)\<rparr>)"
      by (rule set_connect_step [OF assms(2) c sb(2-4)])
    then show ?thesis using s' sb(1) by (simp add: server_inv_def)
  qed
qed

text \<open>A new client: refused when no slot is free, otherwise put into the slot that has been free longest.\<close>

lemma accept_client_step:
  assumes s: "server_inv s" and confd: "0 < fst (ev_accept ev)"
  shows "case m_lFreeList (m_pClientConnectManager s) of
      [] \<Rightarrow> accept_client ev s = Some s
    | p # rest \<Rightarrow> \<exists>s' c. accept_client ev s = Some s' \<and> server_inv s' \<and> online s' p \<and>
        connect_at (m_pClientConnectManager s) p = Some c \<and> \<not> cc_bUsed c \<and>
        connect_at (m_pClientConnectManager s') p = Some (c\<lparr>cc_bUsed := True, cc_iSockfd := fst (ev_accept ev),
          cc_iClientAddr := snd (ev_accept ev), cc_tLastRecvTime := ev_time ev, cc_bInMap := True\<rparr>) \<and>
        m_lFreeList (m_pClientConnectManager s') = rest \<and> m_iListenFd s' = m_iListenFd s \<and>
        m_pQueueToLogicLayer s' = m_pQueueToLogicLayer s \<and> touches p s s'"
proof (cases "m_lFreeList (m_pClientConnectManager s)")
  case Nil
  then show ?thesis
    using confd by (simp add: accept_client_def split_beta Let_def GetOneFreeConnect_def)
next
  case (Cons p rest)
  have pool: "pool_ok (m_pClientConnectManager s)" using s by (simp add: server_inv_def)
  let ?m = "m_pClientConnectManager s"
  obtain c where c: "connect_at ?m p = Some c" "\<not> cc_bUsed c"
    and get: "GetOneFreeConnect ?m = Some (Some p, set_connect p (c\<lparr>cc_bUsed := True\<rparr>) (?m\<lparr>m_lFreeList := rest\<rparr>))"
    and pool1: "pool_ok (set_connect p (c\<lparr>cc_bUsed := True\<rparr>) (?m\<lparr>m_lFreeList := rest\<rparr>))"
    using GetOneFreeConnect_cases [OF pool] by (auto simp: Cons)
  let ?m1 = "set_connect p (c\<lparr>cc_bUsed := True\<rparr>) (?m\<lparr>m_lFreeList := rest\<rparr>)"
  let ?d = "c\<lparr>cc_bUsed := True, cc_iSockfd := fst (ev_accept ev), cc_iClientAddr := snd (ev_accept ev),
    cc_tLastRecvTime := ev_time ev, cc_bInMap := True\<rparr>"
  let ?m2 = "set_connect p ?d ?m1"
  have len: "p < length (m_pAllClientConnect ?m)" by (rule connect_at_Some [OF c(1)])
  then have c1: "connect_at ?m1 p = Some (c\<lparr>cc_bUsed := True\<rparr>)" by simp
  have pool2: "pool_ok ?m2" by (rule pool_ok_set_connect [OF pool1 c1]) simp_all
  have at2: "connect_at ?m2 q = (if q = p then Some ?d else connect_at ?m q)" for q using len by auto
  have used: "used_slot ?m2 p" using len by (simp add: used_slot_def)
  obtain m3 where m3: "AddOnlineClient (Some p) ?m2 = Some (SUCCESS, m3)" "pool_ok m3" "FindClient (int p) m3 = Some p"
    "m_pAllClientConnect m3 = m_pAllClientConnect ?m2" "m_lFreeList m3 = m_lFreeList ?m2"
    "\<forall>q. q \<noteq> p \<longrightarrow> FindClient (int q) m3 = FindClient (int q) ?m2"
    using AddOnlineClient_ok [OF pool2 used] by blast
  have at3: "connect_at m3 q = (if q = p then Some ?d else connect_at ?m q)" for q
    unfolding at2 [of q, symmetric] by (simp only: connect_at_def m3(4))
  have run: "accept_client ev s = Some (s\<lparr>m_pClientConnectManager := m3\<rparr>)"
    using confd get c1 m3(1) by (simp add: accept_client_def split_beta Let_def)
  have "send_ok ?d" using s c(1) by (simp add: server_inv_def send_ok_def)
  then have "server_inv (s\<lparr>m_pClientConnectManager := m3\<rparr>)"
    using s m3(2) by (auto simp: server_inv_def at3 split: if_splits)
  moreover have "touches p s (s\<lparr>m_pClientConnectManager := m3\<rparr>)"
    using m3(6) by (simp add: touches_def at3 online_def FindClient_def)
  ultimately show ?thesis
    using run c m3(3,5) by (simp add: Cons at3 online_def)
qed

lemma process_event_keeps:
  assumes "process_event ev s = Some s'" "server_inv s"
  shows "server_inv s'"
proof (cases "ev_ptr ev")
  case None
  with assms show ?thesis by (simp add: process_event_def)
next
  case (Some p)
  obtain c where c: "connect_at (m_pClientConnectManager s) p = Some c"
    using assms(1) Some by (auto simp: process_event_def close_client_def bind_eq_Some_conv split: if_splits)
  consider "accept_client ev s = Some s'" | "recv_client p ev s = Some s'" | "close_client p s = Some s'"
    using assms(1) Some c by (auto simp: process_event_def split: if_splits)
  then show ?thesis
  proof cases
    case 1
    show ?thesis
    proof (cases "0 < fst (ev_accept ev)")
      case True
      then show ?thesis
        using accept_client_step [OF assms(2) True] 1 assms(2)
        by (cases "m_lFreeList (m_pClientConnectManager s)") auto
    next
      case False
      with 1 assms(2) show ?thesis by (simp add: accept_client_def split_beta Let_def)
    qed
  next
    case 2
    then show ?thesis by (rule recv_client_keeps [OF _ assms(2)])
  next
    case 3
    then show ?thesis using close_client_ok [OF assms(2) c] by auto
  qed
qed

lemma ProcessEpollData_keeps: "ProcessEpollData evs s = Some s' \<Longrightarrow> server_inv s \<Longrightarrow> server_inv s'"
  by (induction evs arbitrary: s) (auto simp: bind_eq_Some_conv dest: process_event_keeps)

section \<open>Properties\<close>


text \<open>The events of a client that hangs up and of one that connects to the listening slot \<open>l\<close>.\<close>

definition leave_event :: "nat \<Rightarrow> epoll_event" where
  "leave_event p = \<lparr>ev_in = False, ev_ptr = Some p, ev_accept = (0, 0), ev_recv = RecvFailed, ev_time = 0\<rparr>"

definition enter_event :: "nat \<Rightarrow> int \<Rightarrow> epoll_event" where
  "enter_event l confd = \<lparr>ev_in = True, ev_ptr = Some l, ev_accept = (confd, 0), ev_recv = RecvFailed, ev_time = 0\<rparr>"

lemma close_client_slot:
  assumes "close_client p s = Some s'" "connect_at (m_pClientConnectManager s) p = Some c" "cc_bUsed c"
  shows "m_lFreeList (m_pClientConnectManager s') = m_lFreeList (m_pClientConnectManager s) @ [p] \<and>
    m_iListenFd s' = m_iListenFd s \<and>
    connect_at (m_pClientConnectManager s') p = Some ((reset_connect c)\<lparr>cc_bInMap := False, cc_bUsed := False\<rparr>)"
  using assms connect_at_Some [OF assms(2)] by (auto simp: close_client_def ClientExit_def bind_eq_Some_conv Let_def)

text \<open>C38. \<open>ClientExit\<close> resets the receive pointers of a connection to its send buffer and leaves the
  send pointers as they are. When the slot is used again, here because it is the only free one, the new
  client is accepted and shown as connected, and the first data that he sends is undefined behaviour:
  the room in the receive buffer is computed from pointers into two different arrays.\<close>

theorem reused_connection_undefined:
  assumes s: "server_inv s" "m_lFreeList (m_pClientConnectManager s) = []"
    and p: "connect_at (m_pClientConnectManager s) p = Some c" "cc_bUsed c"
    and l: "connect_at (m_pClientConnectManager s) l = Some lc" "cc_iSockfd lc = m_iListenFd s" "l \<noteq> p"
    and a: "0 < confd" "confd \<noteq> m_iListenFd s"
  shows "(\<exists>s'. ProcessEpollData [leave_event p, enter_event l confd] s = Some s' \<and> online s' p) \<and>
    ProcessEpollData [leave_event p, enter_event l confd, data_event p d] s = None"
proof -
  obtain s1 where s1: "close_client p s = Some s1" "server_inv s1" "touches p s s1"
    using close_client_ok [OF s(1) p(1)] by blast
  let ?r = "(reset_connect c)\<lparr>cc_bInMap := False, cc_bUsed := False\<rparr>"
  have f1: "m_lFreeList (m_pClientConnectManager s1) = [p]" "m_iListenFd s1 = m_iListenFd s"
    "connect_at (m_pClientConnectManager s1) p = Some ?r"
    using close_client_slot [OF s1(1) p] s(2) by simp_all
  have "0 < fst (ev_accept (enter_event l confd))" using a by (simp add: enter_event_def)
  from accept_client_step [OF s1(2) this] obtain s2 where
    s2: "accept_client (enter_event l confd) s1 = Some s2" "online s2 p" "m_iListenFd s2 = m_iListenFd s1"
      "connect_at (m_pClientConnectManager s2) p = Some (?r\<lparr>cc_bUsed := True,
         cc_iSockfd := fst (ev_accept (enter_event l confd)), cc_iClientAddr := snd (ev_accept (enter_event l confd)),
         cc_tLastRecvTime := ev_time (enter_event l confd), cc_bInMap := True\<rparr>)"
    by (auto simp: f1)
  have e1: "process_event (leave_event p) s = Some s1" using s1 by (simp add: process_event_def leave_event_def)
  have "connect_at (m_pClientConnectManager s1) l = Some lc" using l s1(3) by (simp add: touches_def)
  then have e2: "process_event (enter_event l confd) s1 = Some s2"
    using s2(1) l(2) f1(2) by (simp add: process_event_def enter_event_def)
  have "recv_client p (data_event p d) s2 = None"
    using s2(4) by (simp add: recv_client_def ptr_diff_def cc_pRecvEnd_def reset_connect_def)
  then have e3: "process_event (data_event p d) s2 = None"
    using s2(3,4) f1(2) a(2) by (simp add: process_event_def data_event_def enter_event_def)
  show ?thesis using e1 e2 e3 s2(2) by simp
qed

section \<open>Witnesses\<close>

definition w_init :: init_input where
  "w_init = \<lparr>io_epoll_create = 4, io_socket = 3, io_nonblock = True, io_setsockopt = 0, io_bind = 0, io_listen = 0,
     io_epoll_ctl = 0, io_base = 4096, io_junk = w_slot, io_addr = 0,
     io_to_logic = (True, ShmCreated), io_to_connect = (True, ShmCreated)\<rparr>"


text \<open>A pool in which every slot is in use and the first one listens.\<close>

definition w_full :: connect_server where
  "w_full = w_connect\<lparr>m_pClientConnectManager := (new_ClientConnectManager 4096 w_slot)
     \<lparr>m_lFreeList := [], m_pAllClientConnect := map (\<lambda>i. (new_connect w_slot i)\<lparr>cc_bUsed := True,
        cc_iSockfd := if i = 0 then 3 else 5\<rparr>) [0..<CLIENT_EPOLL_COUNT]\<rparr>\<rparr>"

lemma w_full_at: "connect_at (m_pClientConnectManager w_full) i =
  (if i < CLIENT_EPOLL_COUNT then Some ((new_connect w_slot i)\<lparr>cc_bUsed := True, cc_iSockfd := if i = 0 then 3 else 5\<rparr>) else None)"
  by (simp add: w_full_def connect_at_def)

lemma w_full_inv: "server_inv w_full"
proof -
  have "pool_ok (m_pClientConnectManager w_full)"
    unfolding pool_ok_def used_slot_def w_full_at
    by (auto simp: w_full_def new_ClientConnectManager_def new_connect_def split: if_splits)
  moreover have "shm_ok (m_pQueueToLogicLayer w_full)"
    using Init_holds [of 400 ShmQueue_new] by (auto simp: shm_ok_def w_full_def w_connect_def)
  moreover have "send_ok c" if "connect_at (m_pClientConnectManager w_full) i = Some c" for i c
    using that by (auto simp: w_full_at send_ok_def new_connect_def split: if_splits)
  ultimately show ?thesis by (simp add: server_inv_def)
qed

theorem reused_connection_undefined_witness:
  "(\<exists>s'. ProcessEpollData [leave_event 7, enter_event 0 9] w_full = Some s' \<and> online s' 7) \<and>
   ProcessEpollData [leave_event 7, enter_event 0 9, data_event 7 [1]] w_full = None"
proof (rule reused_connection_undefined [OF w_full_inv])
  show "m_lFreeList (m_pClientConnectManager w_full) = []" by (simp add: w_full_def)
  show "connect_at (m_pClientConnectManager w_full) 7 = Some ((new_connect w_slot 7)\<lparr>cc_bUsed := True, cc_iSockfd := 5\<rparr>)"
    "connect_at (m_pClientConnectManager w_full) 0 = Some ((new_connect w_slot 0)\<lparr>cc_bUsed := True, cc_iSockfd := 3\<rparr>)"
    by (simp_all add: w_full_at size_defs)
qed (simp_all add: w_full_def w_connect_def)

end
