(* ===== verification/File_Sys.thy ===== *)
theory File_Sys
  imports Logic_State
begin

text \<open>
  Files and directories: the POSIX calls that the servers make, and the routines of
  \<^verbatim>\<open>mq_util/mq_util.cpp\<close> built on them. A file system is a list of entries in the order in which
  \<^verbatim>\<open>readdir\<close> finds them; an entry is a path of names below the working directory with its content. There
  are no symbolic links, and permissions and disk space are never the reason of a failure. A path that
  leaves the working directory names nothing.
\<close>

section \<open>Paths\<close>

type_synonym path = "bytes list"

text \<open>The names between the slashes (47); empty names and \<^verbatim>\<open>.\<close> mean nothing, \<^verbatim>\<open>..\<close> goes up.\<close>

fun components :: "bytes \<Rightarrow> bytes \<Rightarrow> bytes list" where
  "components w [] = [w]"
| "components w (c # cs) = (if c = 47 then w # components [] cs else components (w @ [c]) cs)"

fun norm_path :: "path \<Rightarrow> bytes list \<Rightarrow> path option" where
  "norm_path p [] = Some p"
| "norm_path p (n # ns) =
     (if n = [] \<or> n = [46] then norm_path p ns
      else if n = [46, 46] then (if p = [] then None else norm_path (butlast p) ns)
      else norm_path (p @ [n]) ns)"

definition path_of :: "bytes \<Rightarrow> path option" where
  "path_of s = norm_path [] (components [] s)"

text \<open>A name that stands for itself as one component.\<close>

definition plain :: "bytes \<Rightarrow> bool" where
  "plain n \<longleftrightarrow> n \<noteq> [] \<and> 47 \<notin> set n \<and> n \<noteq> [46] \<and> n \<noteq> [46, 46]"

lemma components_plain: "47 \<notin> set n \<Longrightarrow> components w n = [w @ n]"
  by (induction n arbitrary: w) auto

lemma components_slash: "47 \<notin> set n \<Longrightarrow> components w (n @ 47 # s) = (w @ n) # components [] s"
  by (induction n arbitrary: w) auto

lemma norm_plain: "plain n \<Longrightarrow> norm_path p (n # ns) = norm_path (p @ [n]) ns"
  by (simp add: plain_def)

section \<open>The calls\<close>

datatype node = Dir | Reg bytes

type_synonym file_sys = "(path \<times> node) list"

definition node_at :: "file_sys \<Rightarrow> path \<Rightarrow> node option" where
  "node_at fs p = (if p = [] then Some Dir else map_of fs p)"

text \<open>\<^verbatim>\<open>stat\<close> and \<^verbatim>\<open>lstat\<close>\<close>

definition stat :: "file_sys \<Rightarrow> bytes \<Rightarrow> node option" where
  "stat fs s = (case path_of s of None \<Rightarrow> None | Some p \<Rightarrow> node_at fs p)"

text \<open>\<^verbatim>\<open>fopen\<close> with \<^verbatim>\<open>wb+\<close>, \<^verbatim>\<open>ab+\<close> and \<^verbatim>\<open>rb+\<close>; the stream is the path, \<open>None\<close> is \<^verbatim>\<open>NULL\<close>.\<close>

definition can_create :: "file_sys \<Rightarrow> path \<Rightarrow> bool" where
  "can_create fs p \<longleftrightarrow> p \<noteq> [] \<and> node_at fs p \<noteq> Some Dir \<and> node_at fs (butlast p) = Some Dir"

definition fopen_wb :: "bytes \<Rightarrow> file_sys \<Rightarrow> path option \<times> file_sys" where
  "fopen_wb s fs =
     (case path_of s of
        None \<Rightarrow> (None, fs)
      | Some p \<Rightarrow> if can_create fs p then (Some p, AList.update p (Reg []) fs) else (None, fs))"

definition fopen_ab :: "bytes \<Rightarrow> file_sys \<Rightarrow> path option \<times> file_sys" where
  "fopen_ab s fs =
     (case path_of s of
        None \<Rightarrow> (None, fs)
      | Some p \<Rightarrow>
          if can_create fs p then (Some p, if node_at fs p = None then AList.update p (Reg []) fs else fs)
          else (None, fs))"

definition fopen_rb :: "bytes \<Rightarrow> file_sys \<Rightarrow> path option" where
  "fopen_rb s fs = (case stat fs s of Some (Reg d) \<Rightarrow> path_of s | _ \<Rightarrow> None)"

text \<open>\<^verbatim>\<open>fread(b + p, n, 1, f)\<close> at the position \<open>at\<close>: the number of items read (0 or 1), the buffer, and the new position.
  A short read stores what there is. \<^verbatim>\<open>fread\<close> of items of 0 bytes reads none.\<close>

definition fread :: "bytes \<Rightarrow> nat \<Rightarrow> nat \<Rightarrow> path \<Rightarrow> nat \<Rightarrow> file_sys \<Rightarrow> (int \<times> bytes \<times> nat) option" where
  "fread b p n f at fs =
     (let d = (case node_at fs f of Some (Reg d) \<Rightarrow> get_at d at n | _ \<Rightarrow> [])
      in do {
        b \<leftarrow> mem_write b p d;
        Some (if n \<noteq> 0 \<and> length d = n then 1 else 0, b, at + length d) })"

text \<open>\<^verbatim>\<open>fwrite(b + p, n, 1, f)\<close>: all streams of the program write at the end of the file.\<close>

definition fwrite :: "bytes \<Rightarrow> nat \<Rightarrow> int \<Rightarrow> path \<Rightarrow> file_sys \<Rightarrow> file_sys option" where
  "fwrite b p n f fs =
     (if n < 0 \<or> length b < p + nat n then None
      else case map_of fs f of
        Some (Reg d) \<Rightarrow> Some (AList.update f (Reg (d @ get_at b p (nat n))) fs)
      | _ \<Rightarrow> Some fs)"

definition mkdir :: "bytes \<Rightarrow> file_sys \<Rightarrow> file_sys option" where
  "mkdir s fs =
     (case path_of s of
        None \<Rightarrow> None
      | Some p \<Rightarrow>
          if node_at fs p \<noteq> None \<or> node_at fs (butlast p) \<noteq> Some Dir then None
          else Some (AList.update p Dir fs))"

definition unlink :: "path \<Rightarrow> file_sys \<Rightarrow> file_sys" where
  "unlink p fs = AList.delete p fs"

text \<open>The names in a directory; \<^verbatim>\<open>.\<close> and \<^verbatim>\<open>..\<close>, which every reader skips, are not listed.\<close>

definition readdir :: "file_sys \<Rightarrow> path \<Rightarrow> bytes list" where
  "readdir fs p = map (last \<circ> fst) (filter (\<lambda>(q, _). q \<noteq> [] \<and> butlast q = p) fs)"

definition rmdir :: "path \<Rightarrow> file_sys \<Rightarrow> file_sys option" where
  "rmdir p fs =
     (if p = [] \<or> node_at fs p \<noteq> Some Dir \<or> readdir fs p \<noteq> [] then None else Some (AList.delete p fs))"

section \<open>FuncTool\<close>

definition IsFileExist :: "file_sys \<Rightarrow> bytes \<Rightarrow> bool" where
  "IsFileExist fs s \<longleftrightarrow> stat fs s \<noteq> None"

text \<open>An existing path and a failing \<^verbatim>\<open>mkdir\<close> give \<^verbatim>\<open>SUCCESS\<close> too.\<close>

definition CheckDir :: "bytes \<Rightarrow> file_sys \<Rightarrow> int \<times> file_sys" where
  "CheckDir s fs =
     (if stat fs s = None
      then (case mkdir s fs of Some fs' \<Rightarrow> (SUCCESS, fs') | None \<Rightarrow> (SUCCESS, fs))
      else (SUCCESS, fs))"

text \<open>\<^verbatim>\<open>szDir\<close> has 512 bytes; \<open>done\<close> are the characters copied so far.\<close>

fun make_dir_loop :: "bytes \<Rightarrow> bytes \<Rightarrow> file_sys \<Rightarrow> int \<times> file_sys" where
  "make_dir_loop copied [] fs = (SUCCESS, fs)"
| "make_dir_loop copied (c # cs) fs =
     (let szDir = copied @ [c]
      in if c = 47 \<and> copied \<noteq> [] then
           (let (ret, fs') = CheckDir szDir fs
            in if ret \<noteq> SUCCESS then (ERROR, fs') else make_dir_loop szDir cs fs')
         else make_dir_loop szDir cs fs)"

definition MakeDir :: "bytes \<Rightarrow> file_sys \<Rightarrow> (int \<times> file_sys) option" where
  "MakeDir s fs =
     (if 512 < length s then None
      else if s = [] then Some (SUCCESS, fs)
      else
        let (ret, fs1) = make_dir_loop [] s fs
        in if ret \<noteq> SUCCESS then Some (ERROR, fs1)
           else if last s \<noteq> 47 then
             (let (ret, fs2) = CheckDir s fs1 in Some (if ret \<noteq> SUCCESS then ERROR else SUCCESS, fs2))
           else Some (SUCCESS, fs1))"

text \<open>
  \<^verbatim>\<open>RemoveDir\<close> calls itself for every subdirectory. Its fuel is the depth of the tree, which is at most
  the number of entries: \<open>None\<close> says that it was too small.
\<close>

fun RemoveDir_depth :: "nat \<Rightarrow> path \<Rightarrow> file_sys \<Rightarrow> (int \<times> file_sys) option"
  and remove_entries :: "nat \<Rightarrow> path \<Rightarrow> bytes list \<Rightarrow> file_sys \<Rightarrow> (bool \<times> file_sys) option" where
  "RemoveDir_depth 0 p fs = None"
| "RemoveDir_depth (Suc n) p fs =
     (if node_at fs p \<noteq> Some Dir then Some (ERROR, fs)
      else do {
        (ok, fs) \<leftarrow> remove_entries n p (readdir fs p) fs;
        if \<not> ok then Some (ERROR, fs)
        else case rmdir p fs of None \<Rightarrow> Some (ERROR, fs) | Some fs' \<Rightarrow> Some (SUCCESS, fs') })"
| "remove_entries n p [] fs = Some (True, fs)"
| "remove_entries n p (d # ds) fs =
     (case node_at fs (p @ [d]) of
        None \<Rightarrow> remove_entries n p ds fs
      | Some Dir \<Rightarrow> do {
          (ret, fs) \<leftarrow> RemoveDir_depth n (p @ [d]) fs;
          if ret = ERROR then Some (False, fs)
          else remove_entries n p ds (case rmdir (p @ [d]) fs of None \<Rightarrow> fs | Some fs' \<Rightarrow> fs') }
      | Some (Reg _) \<Rightarrow> remove_entries n p ds (unlink (p @ [d]) fs))"

definition RemoveDir :: "bytes \<Rightarrow> file_sys \<Rightarrow> (int \<times> file_sys) option" where
  "RemoveDir s fs =
     (case path_of s of
        None \<Rightarrow> Some (ERROR, fs)
      | Some p \<Rightarrow> RemoveDir_depth (Suc (length fs)) p fs)"

definition RemoveFile :: "bytes \<Rightarrow> file_sys \<Rightarrow> (int \<times> file_sys) option" where
  "RemoveFile s fs =
     (case stat fs s of
        None \<Rightarrow> Some (SUCCESS, fs)
      | Some (Reg _) \<Rightarrow> (case path_of s of None \<Rightarrow> Some (SUCCESS, fs) | Some p \<Rightarrow> Some (SUCCESS, unlink p fs))
      | Some Dir \<Rightarrow>
          if s = [46] \<or> s = [46, 46] then Some (ERROR, fs)
          else do {
            (ret, fs) \<leftarrow> RemoveDir s fs;
            Some (if ret = ERROR then ERROR else SUCCESS, fs) })"

text \<open>\<^verbatim>\<open>open\<close>, \<^verbatim>\<open>fstat\<close> and \<^verbatim>\<open>mmap\<close> of a file for reading: its content, if it is a file and not empty.\<close>

definition map_file :: "file_sys \<Rightarrow> bytes \<Rightarrow> bytes option" where
  "map_file fs s =
     (case stat fs s of Some (Reg d) \<Rightarrow> if d = [] then None else Some d | _ \<Rightarrow> None)"

text \<open>A read of the mapping: zeros between the end of the file and the end of its last page, a fault behind it.\<close>

definition map_read :: "bytes \<Rightarrow> int \<Rightarrow> nat \<Rightarrow> bytes option" where
  "map_read d p n =
     (if 0 \<le> p \<and> nat p + n \<le> (length d + 4095) div 4096 * 4096
      then Some (take n (drop (nat p) d @ replicate n 0)) else None)"

definition map_ReadShort :: "bytes \<Rightarrow> int \<Rightarrow> (nat \<times> u16) option" where
  "map_ReadShort d p = do { x \<leftarrow> map_read d p 2; ReadShort x 0 }"

definition map_ReadInt :: "bytes \<Rightarrow> int \<Rightarrow> (nat \<times> i32) option" where
  "map_ReadInt d p = do { x \<leftarrow> map_read d p 4; ReadInt x 0 }"

lemma map_read_inside: "p + n \<le> length d \<Longrightarrow> map_read d (int p) n = Some (get_at d p n)"
proof -
  assume "p + n \<le> length d"
  moreover have "length d \<le> (length d + 4095) div 4096 * 4096" by linarith
  ultimately show ?thesis by (simp add: map_read_def get_at_def)
qed

lemma map_reads_inside:
  "p + 2 \<le> length d \<Longrightarrow> map_ReadShort d (int p) = Some (2, un_be16 (get_at d p 2))"
  "p + 4 \<le> length d \<Longrightarrow> map_ReadInt d (int p) = Some (4, un_be32 (get_at d p 4))"
  by (simp_all add: map_ReadShort_def map_ReadInt_def map_read_inside get_at_def)

text \<open>The size that \<^verbatim>\<open>stat\<close> reports; a directory has one block.\<close>

definition file_size :: "file_sys \<Rightarrow> bytes \<Rightarrow> int option" where
  "file_size fs s =
     (case stat fs s of None \<Rightarrow> None | Some (Reg d) \<Rightarrow> Some (int (length d)) | Some Dir \<Rightarrow> Some 4096)"

section \<open>Names of files\<close>

text \<open>The fixed names in the directory of a queue or exchange.\<close>

definition INFO_FILE :: bytes where "INFO_FILE = bytes_of ''/info.bin''"
definition SUBSCRIBE_FILE :: bytes where "SUBSCRIBE_FILE = bytes_of ''/subscribe.bin''"
definition BINDING_FILE :: bytes where "BINDING_FILE = bytes_of ''/binding.bin''"
definition OFFSET_FILE :: bytes where "OFFSET_FILE = bytes_of ''/write_offset.bin''"

text \<open>\<^verbatim>\<open>string::find\<close>\<close>

fun find_sub :: "bytes \<Rightarrow> bytes \<Rightarrow> nat option" where
  "find_sub pat [] = (if pat = [] then Some 0 else None)"
| "find_sub pat (c # cs) = (if prefix pat (c # cs) then Some 0 else map_option Suc (find_sub pat cs))"

text \<open>The names of the regular files in a directory up to \<^verbatim>\<open>.index\<close>. Both servers have this routine.\<close>

definition INDEX_EXT :: bytes where "INDEX_EXT = bytes_of ''.index''"
definition DATA_EXT :: bytes where "DATA_EXT = bytes_of ''.data''"
definition CONSUME_EXT :: bytes where "CONSUME_EXT = bytes_of ''.consume''"

definition FindIndexFiles :: "file_sys \<Rightarrow> bytes \<Rightarrow> bytes list" where
  "FindIndexFiles fs ipDir =
     (case path_of ipDir of
        None \<Rightarrow> []
      | Some p \<Rightarrow> List.map_filter
          (\<lambda>strName. case node_at fs (p @ [strName]) of
             Some (Reg _) \<Rightarrow> map_option (\<lambda>iPos. take iPos strName) (find_sub INDEX_EXT strName)
           | _ \<Rightarrow> None)
          (readdir fs p))"

text \<open>An index as a name of ten digits.\<close>

definition ConvertIndexToString :: "i32 \<Rightarrow> bytes" where
  "ConvertIndexToString iIndex =
     (let strIndex = to_string iIndex
      in replicate (10 - length strIndex) 48 @ strIndex)"

text \<open>The set of indices in a consume file, read by both servers with the same loop (\<open>n\<close> bounds the rounds).\<close>

fun consume_set :: "bytes \<Rightarrow> nat \<Rightarrow> nat \<Rightarrow> i32 list \<Rightarrow> i32 list option" where
  "consume_set d iPos 0 acc = Some acc"
| "consume_set d iPos (Suc n) acc =
     (if iPos < length d then do {
        (offset, iIndex) \<leftarrow> map_ReadInt d (int iPos);
        consume_set d (iPos + offset) n (List.insert iIndex acc) }
      else Some acc)"

section \<open>Looking at a changed file system\<close>

named_theorems fs_simps \<open>what is at a path after an operation\<close>

lemma node_at_update [fs_simps]: "p \<noteq> [] \<Longrightarrow> node_at (AList.update p n fs) q = (if q = p then Some n else node_at fs q)"
  by (simp add: node_at_def)

lemma node_at_delete [fs_simps]: "p \<noteq> [] \<Longrightarrow> node_at (AList.delete p fs) q = (if q = p then None else node_at fs q)"
  by (simp add: node_at_def)

text \<open>The three places where the servers keep their files.\<close>

definition DEFAULT_EXCHANGE_PATH :: bytes where "DEFAULT_EXCHANGE_PATH = bytes_of ''./exchange/''"
definition DEFAULT_QUEUE_PATH :: bytes where "DEFAULT_QUEUE_PATH = bytes_of ''./queue/''"
definition QUEUE_DIR :: bytes where "QUEUE_DIR = bytes_of ''queue''"
definition EXCHANGE_DIR :: bytes where "EXCHANGE_DIR = bytes_of ''exchange''"

lemma default_paths:
  "DEFAULT_QUEUE_PATH = 46 # 47 # QUEUE_DIR @ [47]" "DEFAULT_EXCHANGE_PATH = 46 # 47 # EXCHANGE_DIR @ [47]"
  "plain QUEUE_DIR" "plain EXCHANGE_DIR"
  by code_simp+

lemma path_queue_dir: "path_of DEFAULT_QUEUE_PATH = Some [QUEUE_DIR]"
  using default_paths(3) by (simp add: path_of_def default_paths(1) components_slash plain_def)

lemma path_queue: "plain n \<Longrightarrow> path_of (DEFAULT_QUEUE_PATH @ n) = Some [QUEUE_DIR, n]"
  using default_paths(3)
  by (simp add: path_of_def default_paths(1) components_slash components_plain plain_def)

lemma path_queue_file:
  "plain n \<Longrightarrow> plain f \<Longrightarrow> path_of (DEFAULT_QUEUE_PATH @ n @ 47 # f) = Some [QUEUE_DIR, n, f]"
  "plain n \<Longrightarrow> plain f \<Longrightarrow> path_of (DEFAULT_QUEUE_PATH @ 47 # n @ 47 # f) = Some [QUEUE_DIR, n, f]"
  "plain n \<Longrightarrow> path_of (DEFAULT_QUEUE_PATH @ 47 # n) = Some [QUEUE_DIR, n]"
  using default_paths(3)
  by (simp_all add: path_of_def default_paths(1) components_slash components_plain plain_def)

lemma path_exchange: "plain n \<Longrightarrow> path_of (DEFAULT_EXCHANGE_PATH @ n) = Some [EXCHANGE_DIR, n]"
  using default_paths(4)
  by (simp add: path_of_def default_paths(2) components_slash components_plain plain_def)

lemma path_exchange_file:
  "plain n \<Longrightarrow> plain f \<Longrightarrow> path_of (DEFAULT_EXCHANGE_PATH @ n @ 47 # f) = Some [EXCHANGE_DIR, n, f]"
  using default_paths(4)
  by (simp add: path_of_def default_paths(2) components_slash components_plain plain_def)

end
