(* ===== verification/Persis_Server.thy ===== *)
theory Persis_Server
  imports File_Sys "HOL-Library.List_Lexorder"
begin

text \<open>
  The persistence server of \<^verbatim>\<open>PersistenceServer/PersistenceServer.h\<close> and \<^verbatim>\<open>PersistenceServer.cpp\<close>: it writes
  exchanges, queues, bindings, subscriptions and messages that the logic server reports into files, and
  removes or merges files of messages that are consumed.

  The messages of a queue are in groups of three files: \<^verbatim>\<open>.data\<close> has the packets one after the other,
  \<^verbatim>\<open>.index\<close> an entry of eight bytes for each (durable index, position in the data file), and
  \<^verbatim>\<open>.consume\<close> the indices that have been consumed. The disk is part of the state. The
  logger is left out.
\<close>

definition DURABLE_MESSAGE_FILE_SIZE :: int where "DURABLE_MESSAGE_FILE_SIZE = 1024 * 1024 * 10"

text \<open>\<open>ps_junk\<close> is what an uninitialised \<^verbatim>\<open>st_size\<close> holds.\<close>

record persistence_server =
  ps_fs :: file_sys
  m_mMsgQueueTailFile :: "(bytes \<times> bytes) list"
  m_mMsgQueueIndexFile :: "(bytes \<times> (i32 \<times> bytes) list) list"
  m_mMsgQueueList :: "(bytes \<times> bytes list) list"
  ps_pQueueFromLogic :: shm_queue
  ps_junk :: int

text \<open>\<^verbatim>\<open>insert\<close> of an \<^verbatim>\<open>unordered_map\<close>, which keeps an existing entry, and \<^verbatim>\<open>operator[]\<close> for a container.\<close>

definition map_insert :: "'k \<Rightarrow> 'v \<Rightarrow> ('k \<times> 'v) list \<Rightarrow> ('k \<times> 'v) list" where
  "map_insert k v m = (if has_key m k then m else AList.update k v m)"

definition map_at :: "('k \<times> 'v list) list \<Rightarrow> 'k \<Rightarrow> 'v list" where
  "map_at m k = (case map_of m k of None \<Rightarrow> [] | Some v \<Rightarrow> v)"

type_synonym persis_result = "(int \<times> persistence_server) option"

text \<open>All handlers that rewrite a file end like this: open, write, flush, close.\<close>

definition rewrite_file :: "bytes \<Rightarrow> bytes \<Rightarrow> nat \<Rightarrow> int \<Rightarrow> persistence_server \<Rightarrow> persis_result" where
  "rewrite_file strFile ipBuffer p iLen s =
     (case fopen_wb strFile (ps_fs s) of
        (None, fs) \<Rightarrow> Some (ERROR, s\<lparr>ps_fs := fs\<rparr>)
      | (Some f, fs) \<Rightarrow> do {
          fs \<leftarrow> fwrite ipBuffer p iLen f fs;
          Some (SUCCESS, s\<lparr>ps_fs := fs\<rparr>) })"

definition make_missing_dir :: "bytes \<Rightarrow> persistence_server \<Rightarrow> persistence_server option" where
  "make_missing_dir strDir s =
     (if \<not> IsFileExist (ps_fs s) strDir then do {
        (_, fs) \<leftarrow> MakeDir strDir (ps_fs s);
        Some (s\<lparr>ps_fs := fs\<rparr>) }
      else Some s)"

definition remove_existing_dir :: "bytes \<Rightarrow> persistence_server \<Rightarrow> persistence_server option" where
  "remove_existing_dir strDir s =
     (if IsFileExist (ps_fs s) strDir then do {
        (_, fs) \<leftarrow> RemoveDir strDir (ps_fs s);
        Some (s\<lparr>ps_fs := fs\<rparr>) }
      else Some s)"

section \<open>Exchanges and queues\<close>

definition Persis_OnCreateExchange :: "bytes \<Rightarrow> nat \<Rightarrow> int \<Rightarrow> persistence_server \<Rightarrow> persis_result" where
  "Persis_OnCreateExchange ipBuffer p iLen s = do {
     (_, strExchangeName) \<leftarrow> read_name ipBuffer p;
     let strExchangeDir = DEFAULT_EXCHANGE_PATH @ strExchangeName;
     s \<leftarrow> make_missing_dir strExchangeDir s;
     rewrite_file (strExchangeDir @ INFO_FILE) ipBuffer p iLen s }"

definition Persis_OnCreateQueue :: "bytes \<Rightarrow> nat \<Rightarrow> int \<Rightarrow> persistence_server \<Rightarrow> persis_result" where
  "Persis_OnCreateQueue ipBuffer p iLen s = do {
     (_, strQueueName) \<leftarrow> read_name ipBuffer p;
     let strQueueDir = DEFAULT_QUEUE_PATH @ strQueueName;
     s \<leftarrow> make_missing_dir strQueueDir s;
     rewrite_file (strQueueDir @ INFO_FILE) ipBuffer p iLen s }"

definition Persis_OnDeleteExchange :: "bytes \<Rightarrow> nat \<Rightarrow> int \<Rightarrow> persistence_server \<Rightarrow> persis_result" where
  "Persis_OnDeleteExchange ipBuffer p iLen s = do {
     (_, strExchangeName) \<leftarrow> read_name ipBuffer p;
     s \<leftarrow> remove_existing_dir (DEFAULT_EXCHANGE_PATH @ strExchangeName) s;
     Some (SUCCESS, s) }"

text \<open>Only the name of the current file is forgotten; the other two maps keep the queue.\<close>

definition Persis_OnDeleteQueue :: "bytes \<Rightarrow> nat \<Rightarrow> int \<Rightarrow> persistence_server \<Rightarrow> persis_result" where
  "Persis_OnDeleteQueue ipBuffer p iLen s = do {
     (_, strQueueName) \<leftarrow> read_name ipBuffer p;
     s \<leftarrow> remove_existing_dir (DEFAULT_QUEUE_PATH @ strQueueName) s;
     Some (SUCCESS, if has_key (m_mMsgQueueTailFile s) strQueueName
       then s\<lparr>m_mMsgQueueTailFile := AList.delete strQueueName (m_mMsgQueueTailFile s)\<rparr> else s) }"

definition OnSubcribe :: "bytes \<Rightarrow> nat \<Rightarrow> int \<Rightarrow> persistence_server \<Rightarrow> persis_result" where
  "OnSubcribe ipBuffer p iLen s = do {
     (_, strQueueName) \<leftarrow> read_name ipBuffer p;
     let strQueueDir = DEFAULT_QUEUE_PATH @ strQueueName;
     if \<not> IsFileExist (ps_fs s) strQueueDir then Some (ERROR, s)
     else rewrite_file (strQueueDir @ SUBSCRIBE_FILE) ipBuffer p iLen s }"

definition OnBinding :: "bytes \<Rightarrow> nat \<Rightarrow> int \<Rightarrow> persistence_server \<Rightarrow> persis_result" where
  "OnBinding ipBuffer p iLen s = do {
     (_, strExchangeName) \<leftarrow> read_name ipBuffer p;
     let strExchangeDir = DEFAULT_EXCHANGE_PATH @ strExchangeName;
     if \<not> IsFileExist (ps_fs s) strExchangeDir then Some (ERROR, s)
     else rewrite_file (strExchangeDir @ BINDING_FILE) ipBuffer p iLen s }"

section \<open>Messages\<close>

text \<open>Which files a message goes to: whether they are new, the old name, and the position.\<close>

definition choose_file :: "bytes \<Rightarrow> int \<Rightarrow> persistence_server \<Rightarrow> bool \<times> bytes \<times> i32" where
  "choose_file istrQueueName iLen s =
     (case map_of (m_mMsgQueueTailFile s) istrQueueName of
        None \<Rightarrow> (True, [], 0)
      | Some strWriteFileName \<Rightarrow>
          let st = file_size (ps_fs s) (DEFAULT_QUEUE_PATH @ istrQueueName @ 47 # strWriteFileName @ DATA_EXT);
              st_size = (case st of None \<Rightarrow> ps_junk s | Some n \<Rightarrow> n)
          in if st_size + iLen > DURABLE_MESSAGE_FILE_SIZE then (True, strWriteFileName, 0)
             else (st = None, strWriteFileName, word_of_int st_size))"

definition note_message :: "bytes \<Rightarrow> i32 \<Rightarrow> bytes \<Rightarrow> persistence_server \<Rightarrow> persistence_server" where
  "note_message istrQueueName iDurableIndex strFileName s =
     s\<lparr>m_mMsgQueueIndexFile := AList.update istrQueueName
        (map_insert iDurableIndex strFileName (map_at (m_mMsgQueueIndexFile s) istrQueueName)) (m_mMsgQueueIndexFile s)\<rparr>"

definition note_new_file :: "bytes \<Rightarrow> bytes \<Rightarrow> persistence_server \<Rightarrow> persistence_server" where
  "note_new_file istrQueueName strFileName s =
     s\<lparr>m_mMsgQueueTailFile := AList.update istrQueueName strFileName (m_mMsgQueueTailFile s),
       m_mMsgQueueList := AList.update istrQueueName
        (map_at (m_mMsgQueueList s) istrQueueName @ [strFileName]) (m_mMsgQueueList s)\<rparr>"

text \<open>The writes to the three files; the position file always has the last index only.\<close>

definition append_message ::
  "bytes \<Rightarrow> bytes \<Rightarrow> bytes \<Rightarrow> int \<Rightarrow> i32 \<Rightarrow> i32 \<Rightarrow> persistence_server \<Rightarrow> persis_result" where
  "append_message strQueueDir strFileName ipBuffer iLen iDurableIndex iWritePos s =
     (let (pDataFile, fs) = fopen_ab (strQueueDir @ 47 # strFileName @ DATA_EXT) (ps_fs s);
          (pIndexFile, fs) = fopen_ab (strQueueDir @ 47 # strFileName @ INDEX_EXT) fs;
          (pOffsetFile, fs) = fopen_wb (strQueueDir @ OFFSET_FILE) fs
      in case (pDataFile, pIndexFile, pOffsetFile) of
           (Some pData, Some pIndex, Some pOffset) \<Rightarrow> do {
             fs \<leftarrow> fwrite ipBuffer 0 iLen pData fs;
             let pBuff = replicate 10 0;
             (offset, pBuff) \<leftarrow> WriteInt pBuff 0 iDurableIndex;
             (offset, pBuff) \<leftarrow> WriteInt pBuff offset iWritePos;
             fs \<leftarrow> fwrite pBuff 0 8 pIndex fs;
             (_, pIdx) \<leftarrow> WriteInt (replicate 10 0) 0 iDurableIndex;
             fs \<leftarrow> fwrite pIdx 0 4 pOffset fs;
             Some (SUCCESS, s\<lparr>ps_fs := fs\<rparr>) }
         | _ \<Rightarrow> Some (ERROR, s\<lparr>ps_fs := fs\<rparr>))"

definition Persis_OnPublishMessage ::
  "bytes \<Rightarrow> int \<Rightarrow> bytes \<Rightarrow> i32 \<Rightarrow> persistence_server \<Rightarrow> persis_result" where
  "Persis_OnPublishMessage ipBuffer iLen istrQueueName iDurableIndex s =
     (let strQueueDir = DEFAULT_QUEUE_PATH @ istrQueueName
      in if \<not> IsFileExist (ps_fs s) strQueueDir then Some (ERROR, s)
      else
        let (bNeedCreate, strWriteFileName, iWritePos) = choose_file istrQueueName iLen s;
            strFileName = (if bNeedCreate then ConvertIndexToString iDurableIndex else strWriteFileName);
            s = (if bNeedCreate then note_new_file istrQueueName strFileName s else s);
            s = note_message istrQueueName iDurableIndex strFileName s
        in append_message strQueueDir strFileName ipBuffer iLen iDurableIndex iWritePos s)"

text \<open>The end of \<open>OnConsumeMessage\<close> when all messages of a group are consumed.\<close>

definition drop_group :: "bytes \<Rightarrow> bytes \<Rightarrow> persistence_server \<Rightarrow> persistence_server option" where
  "drop_group strQueueName strFileName s = do {
     let strPath = DEFAULT_QUEUE_PATH @ strQueueName @ 47 # strFileName;
     (_, fs) \<leftarrow> RemoveFile (strPath @ DATA_EXT) (ps_fs s);
     (_, fs) \<leftarrow> RemoveFile (strPath @ INDEX_EXT) fs;
     (_, fs) \<leftarrow> RemoveFile (strPath @ CONSUME_EXT) fs;
     let s = s\<lparr>ps_fs := fs\<rparr>;
     let s = (if map_of (m_mMsgQueueTailFile s) strQueueName = Some strFileName
              then s\<lparr>m_mMsgQueueTailFile := AList.delete strQueueName (m_mMsgQueueTailFile s)\<rparr> else s);
     Some (case map_of (m_mMsgQueueList s) strQueueName of
             None \<Rightarrow> s
           | Some fileList \<Rightarrow> s\<lparr>m_mMsgQueueList :=
               AList.update strQueueName (removeAll strFileName fileList) (m_mMsgQueueList s)\<rparr>) }"

definition OnConsumeMessage :: "bytes \<Rightarrow> nat \<Rightarrow> int \<Rightarrow> persistence_server \<Rightarrow> persis_result" where
  "OnConsumeMessage ipBuffer p iLen s = do {
     (_, strQueueName) \<leftarrow> read_name ipBuffer p;
     let pTemp = p + MAX_NAME_LENGTH;
     (offset, iIndex) \<leftarrow> ReadInt ipBuffer pTemp;
     let strQueueDir = DEFAULT_QUEUE_PATH @ strQueueName;
     if \<not> IsFileExist (ps_fs s) strQueueDir then Some (ERROR, s)
     else case map_of (m_mMsgQueueIndexFile s) strQueueName of
       None \<Rightarrow> Some (ERROR, s)
     | Some indexFiles \<Rightarrow>
         (case map_of indexFiles iIndex of
            None \<Rightarrow> Some (ERROR, s)
          | Some strFileName \<Rightarrow> do {
              let strFilePath = strQueueDir @ 47 # strFileName @ CONSUME_EXT;
              let (pFile, fs) = fopen_ab strFilePath (ps_fs s);
              case pFile of
                None \<Rightarrow> Some (ERROR, s\<lparr>ps_fs := fs\<rparr>)
              | Some f \<Rightarrow> do {
                  fs \<leftarrow> fwrite ipBuffer pTemp (int offset) f fs;
                  let s = s\<lparr>ps_fs := fs\<rparr>;
                  (case file_size fs strFilePath of
                     None \<Rightarrow> Some (ERROR, s)
                   | Some n \<Rightarrow>
                       (let iConsumeNum = n div 4
                        in case file_size fs (strQueueDir @ 47 # strFileName @ INDEX_EXT) of
                             None \<Rightarrow> Some (ERROR, s)
                           | Some n \<Rightarrow>
                               (let iMsgNum = n div 8
                                in if iConsumeNum = iMsgNum then do {
                                     s \<leftarrow> drop_group strQueueName strFileName s;
                                     Some (SUCCESS, s) }
                                   else Some (SUCCESS, s)))) } }) }"

section \<open>Start\<close>

text \<open>The walk over the entries of an index file, \<open>n\<close> of them at most.\<close>

fun index_loop :: "bytes \<Rightarrow> nat \<Rightarrow> nat \<Rightarrow> bytes \<Rightarrow> bytes \<Rightarrow> persistence_server \<Rightarrow> persistence_server option" where
  "index_loop d iPos 0 q f s = Some s"
| "index_loop d iPos (Suc n) q f s =
     (if iPos < length d then do {
        (offset, iIndex) \<leftarrow> map_ReadInt d (int iPos);
        let iPos = iPos + offset;
        (offset, iDataPos) \<leftarrow> map_ReadInt d (int iPos);
        index_loop d (iPos + offset) n q f (note_message q iIndex f s) }
      else Some s)"

definition ProcessIndexFile :: "bytes \<Rightarrow> bytes \<Rightarrow> persistence_server \<Rightarrow> persis_result" where
  "ProcessIndexFile istrQueueName ipFile s =
     (case map_file (ps_fs s) (DEFAULT_QUEUE_PATH @ istrQueueName @ 47 # ipFile @ INDEX_EXT) of
        None \<Rightarrow> Some (ERROR, s)
      | Some d \<Rightarrow> do {
          s \<leftarrow> index_loop d 0 (length d) istrQueueName ipFile s;
          Some (SUCCESS, s) })"

fun init_files :: "bytes \<Rightarrow> bytes list \<Rightarrow> persistence_server \<Rightarrow> persistence_server option" where
  "init_files q [] s = Some s"
| "init_files q (f # fs) s = do {
     (_, s) \<leftarrow> ProcessIndexFile q f s;
     init_files q fs (s\<lparr>m_mMsgQueueList := AList.update q (map_at (m_mMsgQueueList s) q @ [f]) (m_mMsgQueueList s)\<rparr>) }"

fun init_dirs :: "bytes list \<Rightarrow> persistence_server \<Rightarrow> persistence_server option" where
  "init_dirs [] s = Some s"
| "init_dirs (d # ds) s =
     (let sub_path = DEFAULT_QUEUE_PATH @ 47 # d
      in if stat (ps_fs s) sub_path = Some Dir then do {
           s \<leftarrow> init_files d (sort (FindIndexFiles (ps_fs s) sub_path)) s;
           init_dirs ds s }
         else init_dirs ds s)"

definition InitFileInfo :: "persistence_server \<Rightarrow> persis_result" where
  "InitFileInfo s =
     (if \<not> IsFileExist (ps_fs s) DEFAULT_QUEUE_PATH then Some (SUCCESS, s)
      else case path_of DEFAULT_QUEUE_PATH of
        None \<Rightarrow> Some (ERROR, s)
      | Some p \<Rightarrow>
          if node_at (ps_fs s) p \<noteq> Some Dir then Some (ERROR, s)
          else do { s \<leftarrow> init_dirs (readdir (ps_fs s) p) s; Some (SUCCESS, s) })"

section \<open>Merging\<close>

text \<open>The rate of consumed messages as a fraction. A quotient of \<^verbatim>\<open>double\<close>s of integers below \<open>2 ^ 31\<close> is
  greater than 0.5 exactly if twice the numerator is greater than the denominator; this is also
  the case for the infinity of \<open>c / 0\<close>, and not for the NaN of \<open>0 / 0\<close>.\<close>

definition CalculateCondsumeRate :: "file_sys \<Rightarrow> bytes \<Rightarrow> int \<times> int" where
  "CalculateCondsumeRate fs strFile =
     (case file_size fs (strFile @ INDEX_EXT) of
        None \<Rightarrow> (0, 1)
      | Some indexFileSize \<Rightarrow>
          if indexFileSize \<le> 0 then (0, 1)
          else case file_size fs (strFile @ CONSUME_EXT) of
            None \<Rightarrow> (0, 1)
          | Some consumeFileSize \<Rightarrow>
              if consumeFileSize \<le> 0 then (0, 1) else (consumeFileSize div 4, indexFileSize div 8))"

definition above_half :: "int \<times> int \<Rightarrow> bool" where
  "above_half r \<longleftrightarrow> snd r < 2 * fst r"

text \<open>
  The loop of \<open>MergeFiles\<close> over the index entries of a group. \<open>pDataBuff\<close> is what has been copied so far into the
  array of \<open>DURABLE_MESSAGE_FILE_SIZE\<close> bytes; the stack is assumed to have room for it. Each entry is copied to the
  start of \<open>pIndexBuff\<close>. \<open>moved\<close> is the name that the second loop writes into the map.
\<close>

definition index_map_of :: "bytes \<Rightarrow> ((i32 \<times> bytes) list \<Rightarrow> (i32 \<times> bytes) list) \<Rightarrow> persistence_server \<Rightarrow> persistence_server" where
  "index_map_of q f s =
     (case map_of (m_mMsgQueueIndexFile s) q of
        None \<Rightarrow> s
      | Some m \<Rightarrow> s\<lparr>m_mMsgQueueIndexFile := AList.update q (f m) (m_mMsgQueueIndexFile s)\<rparr>)"

fun merge_loop ::
  "bytes \<Rightarrow> bytes \<Rightarrow> i32 list \<Rightarrow> bytes \<Rightarrow> bytes option \<Rightarrow> nat \<Rightarrow> nat \<Rightarrow> bytes \<Rightarrow> bytes \<Rightarrow> int \<Rightarrow> persistence_server \<Rightarrow>
   (bytes \<times> bytes \<times> int \<times> persistence_server) option" where
  "merge_loop index dat consumed q moved iPos 0 pDataBuff pIndexBuff iIndexLen s =
     Some (pDataBuff, pIndexBuff, iIndexLen, s)"
| "merge_loop index dat consumed q moved iPos (Suc n) pDataBuff pIndexBuff iIndexLen s =
     (if iPos < length index then do {
        (offset, iIndex) \<leftarrow> map_ReadInt index (int iPos);
        let iPos = iPos + offset;
        (offset, iDataPos) \<leftarrow> map_ReadInt index (int iPos);
        let iPos = iPos + offset;
        if iIndex \<in> set consumed then
          merge_loop index dat consumed q moved iPos n pDataBuff pIndexBuff iIndexLen
            (index_map_of q (AList.delete iIndex) s)
        else do {
          entry \<leftarrow> map_read index (int iPos - 4 - 4) 8;
          pIndexBuff \<leftarrow> memcpy pIndexBuff 0 entry 0 8;
          let iIndexLen = iIndexLen + 8;
          (_, iMsgLen) \<leftarrow> map_ReadShort dat (sint iDataPos);
          packet \<leftarrow> map_read dat (sint iDataPos) (unat iMsgLen);
          if DURABLE_MESSAGE_FILE_SIZE < int (length pDataBuff) + uint iMsgLen then None
          else
            merge_loop index dat consumed q moved iPos n (pDataBuff @ packet) pIndexBuff iIndexLen
              (case moved of
                 None \<Rightarrow> s
               | Some ipFileName1 \<Rightarrow> index_map_of q (AList.update iIndex ipFileName1) s) } }
      else Some (pDataBuff, pIndexBuff, iIndexLen, s))"

text \<open>The two writes after each loop, to streams opened for writing or for appending.\<close>

definition write_merged ::
  "(bytes \<Rightarrow> file_sys \<Rightarrow> path option \<times> file_sys) \<Rightarrow> bytes \<Rightarrow> bytes \<Rightarrow> bytes \<Rightarrow> int \<Rightarrow> persistence_server \<Rightarrow> persis_result" where
  "write_merged fopen strFile pDataBuff pIndexBuff iIndexLen s =
     (let (pDataFile, fs) = fopen (strFile @ DATA_EXT) (ps_fs s);
          (pIndexFile, fs) = fopen (strFile @ INDEX_EXT) fs
      in case (pDataFile, pIndexFile) of
           (Some pData, Some pIndex) \<Rightarrow> do {
             fs \<leftarrow> fwrite pDataBuff 0 (int (length pDataBuff)) pData fs;
             fs \<leftarrow> fwrite pIndexBuff 0 iIndexLen pIndex fs;
             Some (SUCCESS, s\<lparr>ps_fs := fs\<rparr>) }
         | _ \<Rightarrow> Some (ERROR, s\<lparr>ps_fs := fs\<rparr>))"

definition group_files :: "file_sys \<Rightarrow> bytes \<Rightarrow> (bytes \<times> bytes \<times> bytes) option" where
  "group_files fs strFile = do {
     index \<leftarrow> map_file fs (strFile @ INDEX_EXT);
     dat \<leftarrow> map_file fs (strFile @ DATA_EXT);
     consume \<leftarrow> map_file fs (strFile @ CONSUME_EXT);
     Some (index, dat, consume) }"

definition MergeFiles :: "bytes \<Rightarrow> bytes \<Rightarrow> bytes \<Rightarrow> persistence_server \<Rightarrow> persis_result" where
  "MergeFiles strQueueName ipFileName1 ipFileName2 s =
     (let strFile1 = DEFAULT_QUEUE_PATH @ strQueueName @ 47 # ipFileName1;
          strFile2 = DEFAULT_QUEUE_PATH @ strQueueName @ 47 # ipFileName2
      in case (group_files (ps_fs s) strFile1, group_files (ps_fs s) strFile2) of
           (Some (index1, dat1, consume1), Some (index2, dat2, consume2)) \<Rightarrow> do {
             consumed \<leftarrow> consume_set consume1 0 (length consume1) [];
             (pDataBuff, pIndexBuff, iIndexLen, s) \<leftarrow>
               merge_loop index1 dat1 consumed strQueueName None 0 (length index1) [] (replicate (length index1) 0) 0 s;
             (ret, s) \<leftarrow> write_merged fopen_wb strFile1 pDataBuff pIndexBuff iIndexLen s;
             if ret \<noteq> SUCCESS then Some (ERROR, s)
             else do {
               consumed \<leftarrow> consume_set consume2 0 (length consume2) [];
               (pDataBuff, pIndexBuff, iIndexLen, s) \<leftarrow>
                 merge_loop index2 dat2 consumed strQueueName (Some ipFileName1) 0 (length index2) []
                   (replicate (length index1) 0) 0 s;
               (ret, s) \<leftarrow> write_merged fopen_ab strFile1 pDataBuff pIndexBuff iIndexLen s;
               if ret \<noteq> SUCCESS then Some (ERROR, s)
               else do {
                 (_, fs) \<leftarrow> RemoveFile (strFile2 @ INDEX_EXT) (ps_fs s);
                 (_, fs) \<leftarrow> RemoveFile (strFile2 @ DATA_EXT) fs;
                 (_, fs) \<leftarrow> RemoveFile (strFile2 @ CONSUME_EXT) fs;
                 (_, fs) \<leftarrow> RemoveFile (strFile1 @ CONSUME_EXT) fs;
                 Some (SUCCESS, s\<lparr>ps_fs := fs\<rparr>) } } }
         | _ \<Rightarrow> Some (ERROR, s))"

text \<open>
  The list of files is a copy, so what is erased from it stays in \<open>m_mMsgQueueList\<close>. After a comparison \<open>itr2\<close> has moved on before
  \<^verbatim>\<open>strPrev = *itr2\<close> reads it: at the end of the list this is undefined.
\<close>

fun clear_loop :: "bytes \<Rightarrow> bytes \<Rightarrow> bytes list \<Rightarrow> int \<Rightarrow> persistence_server \<Rightarrow> (int \<times> persistence_server) option" where
  "clear_loop q strPrev [] oClearCount s = Some (oClearCount, s)"
| "clear_loop q strPrev (f # rest) oClearCount s =
     (if strPrev \<noteq> [] then do {
        let strPrevPath = DEFAULT_QUEUE_PATH @ q @ 47 # strPrev;
        let strCurPath = DEFAULT_QUEUE_PATH @ q @ 47 # f;
        (oClearCount, s) \<leftarrow>
          (if above_half (CalculateCondsumeRate (ps_fs s) strPrevPath) \<and>
              above_half (CalculateCondsumeRate (ps_fs s) strCurPath) then do {
             (ret, s) \<leftarrow> MergeFiles q strPrev f s;
             Some (if ret = SUCCESS then oClearCount + 1 else oClearCount, s) }
           else Some (oClearCount, s));
        (case rest of
           [] \<Rightarrow> None
         | g # rest \<Rightarrow> clear_loop q g rest oClearCount s) }
      else clear_loop q f rest oClearCount s)"

fun clear_queues :: "(bytes \<times> bytes list) list \<Rightarrow> int \<Rightarrow> persistence_server \<Rightarrow> (int \<times> persistence_server) option" where
  "clear_queues [] oClearCount s = Some (oClearCount, s)"
| "clear_queues ((q, fileList) # rest) oClearCount s =
     (if oClearCount = 0 then do {
        (oClearCount, s) \<leftarrow> clear_loop q [] fileList oClearCount s;
        clear_queues rest oClearCount s }
      else Some (oClearCount, s))"

definition ClearUpFile :: "persistence_server \<Rightarrow> (int \<times> persistence_server) option" where
  "ClearUpFile s = clear_queues (m_mMsgQueueList s) 0 s"

section \<open>The main loop\<close>

definition publish_packet :: "bytes \<Rightarrow> nat \<Rightarrow> int \<Rightarrow> persistence_server \<Rightarrow> persis_result" where
  "publish_packet pBuff pTemp iLen s = do {
     (_, strQueueName) \<leftarrow> read_name pBuff pTemp;
     let pTemp = pTemp + MAX_NAME_LENGTH;
     (_, iDurableIndex) \<leftarrow> ReadInt pBuff pTemp;
     Persis_OnPublishMessage pBuff iLen strQueueName iDurableIndex s }"

definition persis_command :: "u16 \<Rightarrow> bytes \<Rightarrow> nat \<Rightarrow> int \<Rightarrow> persistence_server \<Rightarrow> persis_result" where
  "persis_command iCmdId pBuff pTemp iLen s =
     (if iCmdId = CMD_CREATE_EXCNANGE then Persis_OnCreateExchange pBuff pTemp (iLen - 2 - 2) s
      else if iCmdId = CMD_CREATE_QUEUE then Persis_OnCreateQueue pBuff pTemp (iLen - 2 - 2) s
      else if iCmdId = CMD_DELETE_EXCHANGE then Persis_OnDeleteExchange pBuff pTemp (iLen - 2 - 2) s
      else if iCmdId = CMD_DELETE_QUEUE then Persis_OnDeleteQueue pBuff pTemp (iLen - 2 - 2) s
      else if iCmdId = CMD_CREATE_SUBCRIBE \<or> iCmdId = CMD_CANCEL_SUBCRIBE then OnSubcribe pBuff pTemp (iLen - 2 - 2) s
      else if iCmdId = CMD_CREATE_BINDING then OnBinding pBuff pTemp (iLen - 2 - 2) s
      else if iCmdId = CMD_CREATE_PUBLISH then publish_packet pBuff pTemp iLen s
      else if iCmdId = CMD_CREATE_RECV \<or> iCmdId = CMD_SERVER_PUSH_MESSAGE \<or> iCmdId = CMD_CLIENT_ACK_MESSAGE
        then OnConsumeMessage pBuff pTemp (iLen - 2 - 2) s
      else Some (SUCCESS, s))"

definition persis_packet :: "bytes \<Rightarrow> int \<Rightarrow> persistence_server \<Rightarrow> persistence_server option" where
  "persis_packet pBuff iLen s =
     (if iLen < 2 then Some s
      else do {
        (offset, iPackLen) \<leftarrow> ReadShort pBuff 0;
        if uint iPackLen \<noteq> iLen then Some s
        else do {
          let pTemp = offset;
          (offset, iCmdId) \<leftarrow> ReadShort pBuff pTemp;
          (_, s) \<leftarrow> persis_command iCmdId pBuff (pTemp + offset) iLen s;
          Some s } })"

text \<open>The inner loop: until the queue is empty. A \<^verbatim>\<open>Dequeue\<close> that fails without consuming is repeated for ever.\<close>

partial_function (option) persis_loop :: "int \<Rightarrow> persistence_server \<Rightarrow> (int \<times> persistence_server) option" where
  "persis_loop iDateRecvCount s = do {
     (ret, pBuff, iLen, q) \<leftarrow>
       DequeueInto (ps_pQueueFromLogic s) (replicate MAX_CLINT_PACKAGE_LENGTH 0) (int MAX_CLINT_PACKAGE_LENGTH);
     let s = s\<lparr>ps_pQueueFromLogic := q\<rparr>;
     if ret = ERR_SHM_QUEUE_EMPTY then Some (iDateRecvCount, s)
     else if ret \<noteq> SUCCESS then persis_loop iDateRecvCount s
     else do {
       s \<leftarrow> persis_packet pBuff iLen s;
       persis_loop (iDateRecvCount + 1) s } }"

text \<open>One round of \<^verbatim>\<open>Run\<close>.\<close>

definition Persis_Run_round :: "persistence_server \<Rightarrow> persistence_server option" where
  "Persis_Run_round s = do {
     (iDateRecvCount, s) \<leftarrow> persis_loop 0 s;
     if iDateRecvCount = 0 then do { (_, s) \<leftarrow> ClearUpFile s; Some s } else Some s }"

end
