(* ===== verification/Index_Name.thy ===== *)
theory Index_Name
  imports File_Sys "HOL-Library.List_Lexorder"
begin

text \<open>
  The names of the message files. \<open>ConvertIndexToString\<close> gives every durable index ten digits, so that the order of
  the names, in which both servers process the files after a restart, is the order of the indices.
\<close>

section \<open>Numbers with a fixed number of digits\<close>

fun fixed :: "nat \<Rightarrow> nat \<Rightarrow> bytes" where
  "fixed 0 n = []"
| "fixed (Suc k) n = fixed k (n div 10) @ [word_of_nat (48 + n mod 10)]"

lemma length_fixed [simp]: "length (fixed k n) = k"
  by (induction k arbitrary: n) auto

lemma fixed_0: "fixed k 0 = replicate k 48"
  by (induction k) (simp_all add: replicate_append_same)

lemma length_digits: "length (digits k n) \<le> k"
  by (induction k arbitrary: n) (auto simp: le_SucI)

lemma padded_digits: "n < 10 ^ k \<Longrightarrow> 0 < k \<Longrightarrow> replicate (k - length (digits k n)) 48 @ digits k n = fixed k n"
proof (induction k arbitrary: n)
  case (Suc k)
  show ?case
  proof (cases "n < 10")
    case True
    then show ?thesis by (simp add: fixed_0)
  next
    case False
    have k: "0 < k" using Suc.prems(1) False by (cases k) auto
    have "n div 10 < 10 ^ k" using Suc.prems(1) by (simp add: less_mult_imp_div_less)
    from Suc.IH [OF this k] False length_digits [of k "n div 10"] show ?thesis by (simp add: Suc_diff_le)
  qed
qed simp

lemma ConvertIndexToString_fixed: "0 \<le> sint i \<Longrightarrow> ConvertIndexToString i = fixed 10 (nat (sint i))"
proof -
  assume "0 \<le> sint i"
  moreover have "sint i < 2 ^ 31" using sint_lt [of i] by simp
  ultimately have "nat (sint i) < 10 ^ 10" by simp
  from padded_digits [OF this] \<open>0 \<le> sint i\<close> show ?thesis
    by (simp add: ConvertIndexToString_def to_string_def Let_def)
qed

section \<open>Order and injectivity\<close>

lemma less_snoc:
  "length xs = length ys \<Longrightarrow> xs @ [a] < ys @ [b] \<longleftrightarrow> xs < ys \<or> xs = ys \<and> (a :: 'a :: linorder) < b"
  by (induction xs ys rule: list_induct2) auto

lemma digit_less: "a < 10 \<Longrightarrow> b < 10 \<Longrightarrow> (word_of_nat (48 + a) :: byte) < word_of_nat (48 + b) \<longleftrightarrow> a < b"
  by (simp add: word_less_nat_alt unat_of_nat del: of_nat_add)

lemma fixed_less: "m < n \<Longrightarrow> n < 10 ^ k \<Longrightarrow> fixed k m < fixed k n"
proof (induction k arbitrary: m n)
  case (Suc k)
  have n: "n div 10 < 10 ^ k" using Suc.prems(2) by (simp add: less_mult_imp_div_less)
  consider "m div 10 < n div 10" | "m div 10 = n div 10" "m mod 10 < n mod 10"
    using Suc.prems(1) by (metis div_le_mono div_mult_mod_eq le_neq_implies_less nat_add_left_cancel_less nat_less_le)
  then show ?case
  proof cases
    case 1
    with Suc.IH [OF 1 n] show ?thesis by (simp add: less_snoc del: of_nat_add)
  next
    case 2
    then show ?thesis using digit_less [of "m mod 10" "n mod 10"] by (simp add: less_snoc del: of_nat_add)
  qed
qed simp

lemma index_name_less:
  assumes "0 \<le> sint i" "sint i < sint j"
  shows "ConvertIndexToString i < ConvertIndexToString j"
proof -
  have "sint j < 2 ^ 31" using sint_lt [of j] by simp
  then show ?thesis using assms fixed_less [of "nat (sint i)" "nat (sint j)" 10]
    by (simp add: ConvertIndexToString_fixed)
qed

lemma index_name_inj:
  assumes "0 \<le> sint i" "0 \<le> sint j" "ConvertIndexToString i = ConvertIndexToString j"
  shows "i = j"
proof (rule ccontr)
  assume "i \<noteq> j"
  then have "sint i \<noteq> sint j" by (metis word_eq_iff_signed)
  then have "sint i < sint j \<or> sint j < sint i" by linarith
  then show False using index_name_less [of i j] index_name_less [of j i] assms by auto
qed

section \<open>The files of a group\<close>

lemma set_fixed: "x \<in> set (fixed k n) \<Longrightarrow> 48 \<le> unat x \<and> unat x \<le> 57"
  by (induction k arbitrary: n) (auto simp: unat_of_nat simp del: of_nat_add)

definition digit_name :: "bytes \<Rightarrow> bool" where
  "digit_name f \<longleftrightarrow> length f = 10 \<and> (\<forall>x\<in>set f. 48 \<le> unat x \<and> unat x \<le> 57)"

lemma digit_name_Convert: "0 \<le> sint i \<Longrightarrow> digit_name (ConvertIndexToString i)"
  by (simp add: ConvertIndexToString_fixed digit_name_def) (blast dest: set_fixed)

lemma ext_bytes:
  "DATA_EXT = [46, 100, 97, 116, 97]" "INDEX_EXT = [46, 105, 110, 100, 101, 120]"
  "CONSUME_EXT = [46, 99, 111, 110, 115, 117, 109, 101]"
  by code_simp+

lemma digit_name_chars: "digit_name f \<Longrightarrow> 47 \<notin> set f \<and> 46 \<notin> set f \<and> f \<noteq> []"
  by (auto simp: digit_name_def)

lemma plain_group_file:
  "digit_name f \<Longrightarrow> plain (f @ DATA_EXT)" "digit_name f \<Longrightarrow> plain (f @ INDEX_EXT)" "digit_name f \<Longrightarrow> plain (f @ CONSUME_EXT)"
  using digit_name_chars [of f] by (auto simp: plain_def ext_bytes Cons_eq_append_conv)

lemma ext_differ [simp]:
  "f @ DATA_EXT \<noteq> g @ INDEX_EXT" "f @ DATA_EXT \<noteq> g @ CONSUME_EXT" "f @ INDEX_EXT \<noteq> g @ CONSUME_EXT"
  "g @ INDEX_EXT \<noteq> f @ DATA_EXT" "g @ CONSUME_EXT \<noteq> f @ DATA_EXT" "g @ CONSUME_EXT \<noteq> f @ INDEX_EXT"
  by (auto simp: ext_bytes dest: arg_cong [where f = last])

lemma exts_differ [simp]:
  "DATA_EXT \<noteq> INDEX_EXT" "DATA_EXT \<noteq> CONSUME_EXT" "INDEX_EXT \<noteq> CONSUME_EXT"
  "INDEX_EXT \<noteq> DATA_EXT" "CONSUME_EXT \<noteq> DATA_EXT" "CONSUME_EXT \<noteq> INDEX_EXT"
  by (simp_all add: ext_bytes)

lemma find_sub_none: "46 \<notin> set f \<Longrightarrow> find_sub (46 # pat) f = None"
  by (induction f) auto

lemma find_sub_append: "46 \<notin> set f \<Longrightarrow> find_sub (46 # pat) (f @ 46 # s) = map_option ((+) (length f)) (find_sub (46 # pat) (46 # s))"
  by (induction f) (auto simp: option.map_comp o_def)

lemma find_index_ext: "digit_name f \<Longrightarrow> find_sub INDEX_EXT (f @ INDEX_EXT) = Some 10"
  using digit_name_chars [of f] by (simp add: ext_bytes find_sub_append digit_name_def)

end
