(* ===== verification/Persis_Log.thy ===== *)
theory Persis_Log
  imports Persis_Server Index_Name
begin

text \<open>
  What the files of a queue mean. An abstract log has the groups of messages in order, each with its
  messages and the indices consumed so far; \<open>log_rel\<close> says that the disk and the maps of the
  persistence server hold this log. Publishing and consuming are then operations on the log.
\<close>

section \<open>The abstract log\<close>

type_synonym group = "bytes \<times> (i32 \<times> bytes) list \<times> i32 list"

record msg_log =
  lg_groups :: "group list"
  lg_tail :: "bytes option"
  lg_next :: int

definition empty_log :: msg_log where
  "empty_log = \<lparr>lg_groups = [], lg_tail = None, lg_next = 0\<rparr>"

abbreviation group_data :: "(i32 \<times> bytes) list \<Rightarrow> bytes" where
  "group_data ms \<equiv> concat (map snd ms)"

fun entries :: "nat \<Rightarrow> (i32 \<times> bytes) list \<Rightarrow> bytes" where
  "entries p [] = []"
| "entries p ((i, b) # ms) = be32 i @ be32 (word_of_nat p) @ entries (p + length b) ms"

definition indices :: "group list \<Rightarrow> i32 list" where
  "indices gs = concat (map (\<lambda>(f, ms, cs). map fst ms) gs)"

definition left_over :: "group \<Rightarrow> (i32 \<times> bytes) list" where
  "left_over g = (case g of (f, ms, cs) \<Rightarrow> filter (\<lambda>m. fst m \<notin> set cs) ms)"

definition unconsumed :: "msg_log \<Rightarrow> (i32 \<times> bytes) list" where
  "unconsumed L = concat (map left_over (lg_groups L))"

definition room :: "msg_log \<Rightarrow> bytes \<Rightarrow> bool" where
  "room L b \<longleftrightarrow> lg_tail L \<noteq> None \<and>
     int (length (group_data (fst (snd (last (lg_groups L))))) + length b) \<le> DURABLE_MESSAGE_FILE_SIZE"

definition log_publish :: "i32 \<Rightarrow> bytes \<Rightarrow> msg_log \<Rightarrow> msg_log" where
  "log_publish i b L =
     (if room L b
      then (case last (lg_groups L) of (f, ms, cs) \<Rightarrow>
        L\<lparr>lg_groups := butlast (lg_groups L) @ [(f, ms @ [(i, b)], cs)], lg_next := sint i + 1\<rparr>)
      else let f = ConvertIndexToString i
           in L\<lparr>lg_groups := lg_groups L @ [(f, [(i, b)], [])], lg_tail := Some f, lg_next := sint i + 1\<rparr>)"

definition consume_group :: "i32 \<Rightarrow> group \<Rightarrow> group list" where
  "consume_group i g =
     (case g of (f, ms, cs) \<Rightarrow>
        if i \<notin> fst ` set ms then [(f, ms, cs)]
        else if Suc (length cs) = length ms then [] else [(f, ms, cs @ [i])])"

definition log_consume :: "i32 \<Rightarrow> msg_log \<Rightarrow> msg_log" where
  "log_consume i L =
     (let gs = concat (map (consume_group i) (lg_groups L))
      in L\<lparr>lg_groups := gs,
           lg_tail := (case lg_tail L of None \<Rightarrow> None | Some f \<Rightarrow> if f \<in> fst ` set gs then Some f else None)\<rparr>)"

definition group_wf :: "group \<Rightarrow> bool" where
  "group_wf g = (case g of (f, ms, cs) \<Rightarrow>
     ms \<noteq> [] \<and> f = ConvertIndexToString (fst (hd ms)) \<and> set cs \<subseteq> fst ` set ms \<and> distinct cs \<and> length cs < length ms \<and>
     (\<forall>m\<in>set ms. snd m \<noteq> []) \<and> int (length (group_data ms)) \<le> DURABLE_MESSAGE_FILE_SIZE)"

definition log_wf :: "msg_log \<Rightarrow> bool" where
  "log_wf L \<longleftrightarrow> (\<forall>g\<in>set (lg_groups L). group_wf g) \<and>
     sorted_wrt (\<lambda>i j. sint i < sint j) (indices (lg_groups L)) \<and>
     (\<forall>i\<in>set (indices (lg_groups L)). 0 \<le> sint i \<and> sint i < lg_next L) \<and> 0 \<le> lg_next L \<and>
     (\<forall>f. lg_tail L = Some f \<longrightarrow> lg_groups L \<noteq> [] \<and> fst (last (lg_groups L)) = f)"

lemma log_wf_empty: "log_wf empty_log"
  by (simp add: log_wf_def empty_log_def indices_def)

lemma indices_simps [simp]:
  "indices (gs @ gs') = indices gs @ indices gs'" "indices [] = []" "indices ((f, ms, cs) # gs) = map fst ms @ indices gs"
  by (simp_all add: indices_def)

lemma tail_split:
  assumes "log_wf L" "lg_tail L = Some f"
  obtains gs ms cs where "lg_groups L = gs @ [(f, ms, cs)]"
proof -
  have "lg_groups L \<noteq> []" "fst (last (lg_groups L)) = f" using assms by (auto simp: log_wf_def)
  then have "lg_groups L = butlast (lg_groups L) @ [(f, snd (last (lg_groups L)))]"
    by (metis append_butlast_last_id prod.collapse)
  then show thesis using that by (metis prod.collapse)
qed

text \<open>Publishing adds at the end, consuming takes away.\<close>

lemma log_publish_wf:
  assumes wf: "log_wf L" and i: "lg_next L \<le> sint i" and b: "b \<noteq> []" "int (length b) \<le> DURABLE_MESSAGE_FILE_SIZE"
  shows "log_wf (log_publish i b L)" "unconsumed (log_publish i b L) = unconsumed L @ [(i, b)]"
    "lg_next (log_publish i b L) = sint i + 1"
proof -
  have less: "\<forall>j\<in>set (indices (lg_groups L)). sint j < sint i" using wf i by (auto simp: log_wf_def)
  have "log_wf (log_publish i b L) \<and> unconsumed (log_publish i b L) = unconsumed L @ [(i, b)]"
  proof (cases "room L b")
    case True
    then obtain f where f: "lg_tail L = Some f" by (auto simp: room_def)
    obtain gs ms cs where gs: "lg_groups L = gs @ [(f, ms, cs)]" by (rule tail_split [OF wf f])
    have new: "log_publish i b L = L\<lparr>lg_groups := gs @ [(f, ms @ [(i, b)], cs)], lg_next := sint i + 1\<rparr>"
      using True gs by (simp add: log_publish_def)
    have g: "group_wf (f, ms, cs)" using wf gs by (simp add: log_wf_def)
    have "i \<notin> set cs" using g less gs by (fastforce simp: group_wf_def)
    moreover have "group_wf (f, ms @ [(i, b)], cs)" using g b True gs by (auto simp: group_wf_def room_def)
    ultimately show ?thesis using wf less gs i f
      by (auto simp: new log_wf_def sorted_wrt_append unconsumed_def left_over_def intro: less_imp_le)
  next
    case False
    have g: "group_wf (ConvertIndexToString i, [(i, b)], [])" using b by (simp add: group_wf_def)
    show ?thesis using wf less g False i
      by (auto simp: log_publish_def Let_def log_wf_def sorted_wrt_append unconsumed_def left_over_def intro: less_imp_le)
  qed
  then show "log_wf (log_publish i b L)" "unconsumed (log_publish i b L) = unconsumed L @ [(i, b)]" by simp_all
  show "lg_next (log_publish i b L) = sint i + 1" by (simp add: log_publish_def Let_def split: prod.split)
qed

lemma group_head:
  assumes "group_wf g" "g \<in> set gs"
  shows "\<exists>i. i \<in> set (indices gs) \<and> fst g = ConvertIndexToString i"
proof -
  obtain f ms cs where g: "g = (f, ms, cs)" by (cases g)
  with assms(1) have "hd ms \<in> set ms" "f = ConvertIndexToString (fst (hd ms))" by (auto simp: group_wf_def)
  moreover have "set ms \<subseteq> UNIV \<and> fst ` set ms \<subseteq> set (indices gs)" using assms(2) g by (force simp: indices_def)
  ultimately show ?thesis using g by auto
qed

lemma names_less:
  "\<forall>g\<in>set gs. group_wf g \<Longrightarrow> sorted_wrt (\<lambda>i j. sint i < sint j) (indices gs) \<Longrightarrow> \<forall>i\<in>set (indices gs). 0 \<le> sint i \<Longrightarrow>
   sorted_wrt (<) (map fst gs)"
proof (induction gs)
  case (Cons g gs)
  obtain f ms cs where g: "g = (f, ms, cs)" by (cases g)
  have hd: "hd ms \<in> set ms" and f: "f = ConvertIndexToString (fst (hd ms))"
    using Cons.prems(1) g by (auto simp: group_wf_def)
  have "f < fst h" if h: "h \<in> set gs" for h
  proof -
    obtain j where j: "j \<in> set (indices gs)" "fst h = ConvertIndexToString j" using group_head [OF _ h] Cons.prems(1) h by auto
    have "sint (fst (hd ms)) < sint j" "0 \<le> sint (fst (hd ms))"
      using Cons.prems(2,3) g hd j(1) by (auto simp: sorted_wrt_append)
    from index_name_less [OF this(2,1)] show ?thesis using j(2) f by simp
  qed
  moreover have "sorted_wrt (<) (map fst gs)" using Cons g by (simp add: sorted_wrt_append)
  ultimately show ?case using g by (auto simp del: list_less_def)
qed simp

lemma log_names_less: "log_wf L \<Longrightarrow> sorted_wrt (<) (map fst (lg_groups L))"
  by (rule names_less) (auto simp: log_wf_def)

lemma log_names_distinct: "log_wf L \<Longrightarrow> distinct (map fst (lg_groups L))"
  using log_names_less strict_sorted_iff by blast

lemma consume_others: "i \<notin> set (indices gs) \<Longrightarrow> concat (map (consume_group i) gs) = gs"
  by (induction gs) (auto simp: consume_group_def)

lemma sorted_sint_distinct: "sorted_wrt (\<lambda>i j. sint i < sint j) is \<Longrightarrow> distinct is"
  by (induction "is") auto

lemma log_distinct: "log_wf L \<Longrightarrow> distinct (indices (lg_groups L))"
  using sorted_sint_distinct by (auto simp: log_wf_def)

lemma find_group:
  assumes "log_wf L" "i \<in> set (indices (lg_groups L))"
  obtains gs f ms cs gs' where "lg_groups L = gs @ (f, ms, cs) # gs'" "i \<in> fst ` set ms"
    "i \<notin> set (indices gs)" "i \<notin> set (indices gs')"
proof -
  obtain f ms cs where g: "(f, ms, cs) \<in> set (lg_groups L)" "i \<in> fst ` set ms" using assms(2) by (auto simp: indices_def)
  then obtain gs gs' where gs: "lg_groups L = gs @ (f, ms, cs) # gs'" by (meson split_list)
  with log_distinct [OF assms(1)] g(2) have "i \<notin> set (indices gs)" "i \<notin> set (indices gs')" by auto
  with gs g show thesis using that by blast
qed

lemma unconsumed_indices: "i \<in> fst ` set (unconsumed L) \<Longrightarrow> i \<in> set (indices (lg_groups L))"
  by (force simp: unconsumed_def left_over_def indices_def)

lemma unconsumed_append: "concat (map left_over (gs @ gs')) = concat (map left_over gs) @ concat (map left_over gs')"
  by simp

lemma left_over_index: "m \<in> set (concat (map left_over gs)) \<Longrightarrow> fst m \<in> set (indices gs)"
  by (force simp: left_over_def indices_def)

lemma left_over_other: "i \<notin> set (indices gs) \<Longrightarrow> filter (\<lambda>m. fst m \<noteq> i) (concat (map left_over gs)) = concat (map left_over gs)"
  by (rule filter_True) (use left_over_index in blast)

lemma left_over_consume:
  assumes "group_wf (f, ms, cs)" "i \<in> fst ` set ms" "i \<notin> set cs" "distinct (map fst ms)"
  shows "concat (map left_over (consume_group i (f, ms, cs))) = filter (\<lambda>m. fst m \<noteq> i) (left_over (f, ms, cs))"
    and "\<forall>g\<in>set (consume_group i (f, ms, cs)). group_wf g"
proof -
  have sub: "set (cs @ [i]) \<subseteq> fst ` set ms" and d: "distinct (cs @ [i])" using assms by (auto simp: group_wf_def)
  have card: "card (fst ` set ms) = length ms" using distinct_card [OF assms(4)] by simp
  have "card (set (cs @ [i])) = Suc (length cs)" using distinct_card [OF d] by simp
  then have "Suc (length cs) \<le> length ms" "Suc (length cs) = length ms \<Longrightarrow> set (cs @ [i]) = fst ` set ms"
    using card_mono [OF _ sub] card_subset_eq [OF _ sub] card by simp_all
  have eq: "filter (\<lambda>m. fst m \<noteq> i) (left_over (f, ms, cs)) = filter (\<lambda>m. fst m \<notin> set (cs @ [i])) ms"
    by (auto simp: left_over_def intro: filter_cong)
  show "concat (map left_over (consume_group i (f, ms, cs))) = filter (\<lambda>m. fst m \<noteq> i) (left_over (f, ms, cs))"
  proof (cases "Suc (length cs) = length ms")
    case True
    then have "set (cs @ [i]) = fst ` set ms" by fact
    then have "filter (\<lambda>m. fst m \<notin> set (cs @ [i])) ms = []" by (auto simp only: filter_empty_conv)
    moreover have "consume_group i (f, ms, cs) = []" using True assms(2) by (simp add: consume_group_def)
    ultimately show ?thesis unfolding eq by (simp only: list.map concat.simps)
  next
    case False
    then have "consume_group i (f, ms, cs) = [(f, ms, cs @ [i])]" using assms(2) by (simp add: consume_group_def)
    then show ?thesis unfolding eq by (simp only: list.map concat.simps append_Nil2 left_over_def prod.case)
  qed
  show "\<forall>g\<in>set (consume_group i (f, ms, cs)). group_wf g"
    using assms sub d \<open>Suc (length cs) \<le> length ms\<close> by (auto simp: consume_group_def group_wf_def)
qed

lemma log_consume_split:
  assumes wf: "log_wf L" and i: "i \<in> fst ` set (unconsumed L)"
  obtains gs f ms cs gs' where "lg_groups L = gs @ (f, ms, cs) # gs'" "i \<in> fst ` set ms" "i \<notin> set cs"
    "lg_groups (log_consume i L) = gs @ consume_group i (f, ms, cs) @ gs'"
    "i \<notin> set (indices gs)" "i \<notin> set (indices gs')"
proof -
  obtain gs f ms cs gs' where g: "lg_groups L = gs @ (f, ms, cs) # gs'" "i \<in> fst ` set ms"
    "i \<notin> set (indices gs)" "i \<notin> set (indices gs')"
    by (rule find_group [OF wf unconsumed_indices [OF i]])
  obtain m where m: "m \<in> set (unconsumed L)" "fst m = i" using i by blast
  then have "m \<notin> set (concat (map left_over gs))" "m \<notin> set (concat (map left_over gs'))"
    using left_over_index g(3,4) by blast+
  with m have "i \<in> fst ` set (left_over (f, ms, cs))" by (auto simp: unconsumed_def g(1))
  then have "i \<notin> set cs" by (auto simp: left_over_def)
  with g show thesis using that by (simp add: log_consume_def Let_def consume_others)
qed

lemma log_consume_wf:
  assumes wf: "log_wf L" and i: "i \<in> fst ` set (unconsumed L)"
  shows "log_wf (log_consume i L)" "unconsumed (log_consume i L) = filter (\<lambda>m. fst m \<noteq> i) (unconsumed L)"
    "lg_next (log_consume i L) = lg_next L"
proof -
  obtain gs f ms cs gs' where g: "lg_groups L = gs @ (f, ms, cs) # gs'" "i \<in> fst ` set ms" "i \<notin> set cs"
    "lg_groups (log_consume i L) = gs @ consume_group i (f, ms, cs) @ gs'" "i \<notin> set (indices gs)" "i \<notin> set (indices gs')"
    by (rule log_consume_split [OF wf i])
  have w: "group_wf (f, ms, cs)" using wf g by (simp add: log_wf_def)
  have d: "distinct (map fst ms)" using log_distinct [OF wf] g by simp
  note lo = left_over_consume [OF w g(2,3) d]
  show "unconsumed (log_consume i L) = filter (\<lambda>m. fst m \<noteq> i) (unconsumed L)"
    using g(5,6) lo(1) by (simp add: unconsumed_def g left_over_other)
  show "lg_next (log_consume i L) = lg_next L" by (simp add: log_consume_def Let_def)
  have sub: "subseq (indices (consume_group i (f, ms, cs))) (map fst ms)" using g(2) by (auto simp: consume_group_def)
  have names: "distinct (map fst (lg_groups L))" by (rule log_names_distinct [OF wf])
  have tail: "lg_groups (log_consume i L) \<noteq> [] \<and> fst (last (lg_groups (log_consume i L))) = t"
    if t: "lg_tail (log_consume i L) = Some t" for t
  proof -
    have "lg_tail L = Some t" and mem: "t \<in> fst ` set (gs @ consume_group i (f, ms, cs) @ gs')"
      using t g(4) by (auto simp: log_consume_def Let_def split: option.splits if_splits)
    then have l: "fst (last (lg_groups L)) = t" using wf by (simp add: log_wf_def)
    show ?thesis
    proof (cases "gs' = []")
      case True
      then have "t = f" using l g by simp
      then have "consume_group i (f, ms, cs) \<noteq> []" using mem names True g by auto
      then show ?thesis using True \<open>t = f\<close> g by (auto simp: consume_group_def split: if_splits)
    qed (use l g in simp)
  qed
  have "sorted_wrt (\<lambda>i j. sint i < sint j) (indices (lg_groups (log_consume i L)))"
    "set (indices (lg_groups (log_consume i L))) \<subseteq> set (indices (lg_groups L))"
    using wf g by (auto simp: log_wf_def sorted_wrt_append consume_group_def)
  then show "log_wf (log_consume i L)"
    using wf lo(2) tail g \<open>lg_next (log_consume i L) = lg_next L\<close> by (auto simp: log_wf_def)
qed

end
