(* ===== verification/Persis_Disk.thy ===== *)
theory Persis_Disk
  imports Persis_Log
begin

text \<open>
  The persistence server keeps the log: the disk and the maps of the server represent the abstract
  log of a queue before and after every message that is published or consumed, and the logs of all
  other queues stay.
\<close>

section \<open>Files of a queue\<close>

abbreviation queue_file :: "bytes \<Rightarrow> bytes \<Rightarrow> path" where
  "queue_file n x \<equiv> [QUEUE_DIR, n, x]"

definition OFFSET_NAME :: bytes where "OFFSET_NAME = bytes_of ''write_offset.bin''"
definition INFO_NAME :: bytes where "INFO_NAME = bytes_of ''info.bin''"
definition SUBSCRIBE_NAME :: bytes where "SUBSCRIBE_NAME = bytes_of ''subscribe.bin''"

lemma file_names: "OFFSET_FILE = 47 # OFFSET_NAME" "INFO_FILE = 47 # INFO_NAME" "SUBSCRIBE_FILE = 47 # SUBSCRIBE_NAME"
  by code_simp+

lemma name_facts:
  "plain OFFSET_NAME" "plain INFO_NAME" "plain SUBSCRIBE_NAME"
  "last OFFSET_NAME = 110" "last INFO_NAME = 110" "last SUBSCRIBE_NAME = 110"
  "find_sub INDEX_EXT OFFSET_NAME = None" "find_sub INDEX_EXT INFO_NAME = None" "find_sub INDEX_EXT SUBSCRIBE_NAME = None"
  by code_simp+

lemma names_differ [simp]:
  "OFFSET_NAME \<noteq> INFO_NAME" "OFFSET_NAME \<noteq> SUBSCRIBE_NAME" "INFO_NAME \<noteq> SUBSCRIBE_NAME"
  "INFO_NAME \<noteq> OFFSET_NAME" "SUBSCRIBE_NAME \<noteq> OFFSET_NAME" "SUBSCRIBE_NAME \<noteq> INFO_NAME"
  by code_simp+

lemma last_n_differs [simp]:
  "last x = 110 \<Longrightarrow> f @ DATA_EXT \<noteq> x" "last x = 110 \<Longrightarrow> f @ INDEX_EXT \<noteq> x" "last x = 110 \<Longrightarrow> f @ CONSUME_EXT \<noteq> x"
  "last x = 110 \<Longrightarrow> x \<noteq> f @ DATA_EXT" "last x = 110 \<Longrightarrow> x \<noteq> f @ INDEX_EXT" "last x = 110 \<Longrightarrow> x \<noteq> f @ CONSUME_EXT"
  by (auto simp: ext_bytes)

lemmas offset_differs [simp] = last_n_differs [OF name_facts(4)] last_n_differs [OF name_facts(5)] last_n_differs [OF name_facts(6)]

definition content :: "file_sys \<Rightarrow> path \<Rightarrow> bytes" where
  "content fs p = (case node_at fs p of Some (Reg d) \<Rightarrow> d | _ \<Rightarrow> [])"

definition touch :: "path \<Rightarrow> file_sys \<Rightarrow> file_sys" where
  "touch p fs = (if node_at fs p = None then AList.update p (Reg []) fs else fs)"

lemma node_at_touch [fs_simps]:
  "p \<noteq> [] \<Longrightarrow> node_at (touch p fs) q = (if q = p \<and> node_at fs p = None then Some (Reg []) else node_at fs q)"
  by (simp add: touch_def fs_simps)

lemma distinct_touch: "distinct (map fst fs) \<Longrightarrow> distinct (map fst (touch p fs))"
  by (simp add: touch_def)

lemma fopen_ab_path:
  "path_of s = Some p \<Longrightarrow> p \<noteq> [] \<Longrightarrow> node_at fs (butlast p) = Some Dir \<Longrightarrow> node_at fs p \<noteq> Some Dir \<Longrightarrow>
   fopen_ab s fs = (Some p, touch p fs)"
  by (simp add: fopen_ab_def can_create_def touch_def)

lemma fopen_wb_path:
  "path_of s = Some p \<Longrightarrow> p \<noteq> [] \<Longrightarrow> node_at fs (butlast p) = Some Dir \<Longrightarrow> node_at fs p \<noteq> Some Dir \<Longrightarrow>
   fopen_wb s fs = (Some p, AList.update p (Reg []) fs)"
  by (simp add: fopen_wb_def can_create_def)

lemma fwrite_path:
  "node_at fs p = Some (Reg d) \<Longrightarrow> p \<noteq> [] \<Longrightarrow> 0 \<le> n \<Longrightarrow> k + nat n \<le> length b \<Longrightarrow>
   fwrite b k n p fs = Some (AList.update p (Reg (d @ get_at b k (nat n))) fs)"
  by (simp add: fwrite_def node_at_def)

lemma RemoveFile_path:
  "path_of s = Some p \<Longrightarrow> node_at fs p = Some (Reg d) \<Longrightarrow> RemoveFile s fs = Some (SUCCESS, AList.delete p fs)"
  by (simp add: RemoveFile_def stat_def unlink_def)

lemma file_size_path:
  "path_of s = Some p \<Longrightarrow> node_at fs p = Some (Reg d) \<Longrightarrow> file_size fs s = Some (int (length d))"
  by (simp add: file_size_def stat_def)

section \<open>One message in the files\<close>

lemma append_message_run:
  fixes s :: persistence_server and n f :: bytes
  defines "D \<equiv> queue_file n (f @ DATA_EXT)" and "I \<equiv> queue_file n (f @ INDEX_EXT)" and "W \<equiv> queue_file n OFFSET_NAME"
  assumes n: "plain n" and f: "digit_name f" and dir: "node_at (ps_fs s) [QUEUE_DIR, n] = Some Dir"
    and files: "node_at (ps_fs s) D \<noteq> Some Dir" "node_at (ps_fs s) I \<noteq> Some Dir" "node_at (ps_fs s) W \<noteq> Some Dir"
    and len: "0 \<le> iLen" "nat iLen \<le> length b"
  shows "\<exists>fs'. append_message (DEFAULT_QUEUE_PATH @ n) f b iLen i w s = Some (SUCCESS, s\<lparr>ps_fs := fs'\<rparr>) \<and>
    (\<forall>p. node_at fs' p =
       (if p = D then Some (Reg (content (ps_fs s) D @ take (nat iLen) b))
        else if p = I then Some (Reg (content (ps_fs s) I @ be32 i @ be32 w))
        else if p = W then Some (Reg (be32 i)) else node_at (ps_fs s) p)) \<and>
    (distinct (map fst (ps_fs s)) \<longrightarrow> distinct (map fst fs'))"
proof -
  let ?fs = "ps_fs s" and ?q = "DEFAULT_QUEUE_PATH @ n"
  have paths: "path_of (?q @ 47 # f @ DATA_EXT) = Some D" "path_of (?q @ 47 # f @ INDEX_EXT) = Some I"
    "path_of (?q @ OFFSET_FILE) = Some W"
    using path_queue_file(1) [OF n] plain_group_file [OF f] name_facts(1)
    by (simp_all add: D_def I_def W_def file_names(1))
  have ne: "D \<noteq> []" "I \<noteq> []" "W \<noteq> []" "D \<noteq> I" "D \<noteq> W" "I \<noteq> W" "I \<noteq> D" "W \<noteq> D" "W \<noteq> I"
    "butlast D = [QUEUE_DIR, n]" "butlast I = [QUEUE_DIR, n]" "butlast W = [QUEUE_DIR, n]"
    "[QUEUE_DIR, n] \<noteq> D" "[QUEUE_DIR, n] \<noteq> I" "[QUEUE_DIR, n] \<noteq> W"
    by (simp_all add: D_def I_def W_def)
  let ?f1 = "touch D ?fs" let ?f2 = "touch I ?f1" let ?f3 = "AList.update W (Reg []) ?f2"
  have o: "fopen_ab (?q @ 47 # f @ DATA_EXT) ?fs = (Some D, ?f1)" "fopen_ab (?q @ 47 # f @ INDEX_EXT) ?f1 = (Some I, ?f2)"
    "fopen_wb (?q @ OFFSET_FILE) ?f2 = (Some W, ?f3)"
    by (rule fopen_ab_path fopen_wb_path, rule paths; use ne files dir in \<open>simp add: fs_simps\<close>)+
  have at: "node_at ?f3 D = Some (Reg (content ?fs D))" "node_at ?f3 I = Some (Reg (content ?fs I))" "node_at ?f3 W = Some (Reg [])"
    using ne files by (auto simp: fs_simps content_def split: option.split node.split)
  let ?f4 = "AList.update D (Reg (content ?fs D @ get_at b 0 (nat iLen))) ?f3"
  have w1: "fwrite b 0 iLen D ?f3 = Some ?f4" using fwrite_path [OF at(1) ne(1) len(1), of 0 b] len by simp
  let ?b = "put_at (put_at (replicate 10 0) 0 (be32 i)) 4 (be32 w)"
  have b: "get_at ?b 0 8 = be32 i @ be32 w" using put_put_append [of 0 "be32 i" "be32 w" "replicate 10 0"] by (simp add: buf_simps)
  let ?f5 = "AList.update I (Reg (content ?fs I @ be32 i @ be32 w)) ?f4"
  have w2: "fwrite ?b 0 8 I ?f4 = Some ?f5"
    using fwrite_path [of ?f4 I "content ?fs I" 8 0 ?b] at ne b by (simp add: fs_simps)
  let ?f6 = "AList.update W (Reg (be32 i)) ?f5"
  have w3: "fwrite (put_at (replicate 10 0) 0 (be32 i)) 0 4 W ?f5 = Some ?f6"
    using fwrite_path [of ?f5 W "[]" 4 0 "put_at (replicate 10 0) 0 (be32 i)"] at ne by (simp add: fs_simps buf_simps)
  have "append_message ?q f b iLen i w s = Some (SUCCESS, s\<lparr>ps_fs := ?f6\<rparr>)"
    unfolding append_message_def using o w1 w2 w3 by (simp add: Let_def)
  moreover have "node_at ?f6 p = (if p = D then Some (Reg (content ?fs D @ take (nat iLen) b))
      else if p = I then Some (Reg (content ?fs I @ be32 i @ be32 w))
      else if p = W then Some (Reg (be32 i)) else node_at ?fs p)" for p
    using ne by (auto simp: fs_simps get_at_def)
  moreover have "distinct (map fst ?fs) \<longrightarrow> distinct (map fst ?f6)" by (simp add: distinct_touch)
  ultimately show ?thesis by blast
qed

section \<open>The log on the disk\<close>

definition group_disk :: "file_sys \<Rightarrow> bytes \<Rightarrow> group \<Rightarrow> bool" where
  "group_disk fs n g = (case g of (f, ms, cs) \<Rightarrow>
     node_at fs (queue_file n (f @ DATA_EXT)) = Some (Reg (group_data ms)) \<and>
     node_at fs (queue_file n (f @ INDEX_EXT)) = Some (Reg (entries 0 ms)) \<and>
     node_at fs (queue_file n (f @ CONSUME_EXT)) =
       (if cs = [] then None else Some (Reg (concat (map be32 cs)))))"

text \<open>The directory of the queue, its message files, and no other index file.\<close>

definition disk_rel :: "bytes \<Rightarrow> file_sys \<Rightarrow> group list \<Rightarrow> bool" where
  "disk_rel n fs gs \<longleftrightarrow> plain n \<and> distinct (map fst fs) \<and>
     node_at fs [QUEUE_DIR] = Some Dir \<and> node_at fs [QUEUE_DIR, n] = Some Dir \<and>
     node_at fs (queue_file n OFFSET_NAME) \<noteq> Some Dir \<and>
     (\<forall>g\<in>set gs. group_disk fs n g) \<and>
     (\<forall>f. digit_name f \<and> f \<notin> fst ` set gs \<longrightarrow>
        node_at fs (queue_file n (f @ DATA_EXT)) = None \<and> node_at fs (queue_file n (f @ CONSUME_EXT)) = None) \<and>
     (\<forall>x p. find_sub INDEX_EXT x = Some p \<and> x \<notin> (\<lambda>g. fst g @ INDEX_EXT) ` set gs \<longrightarrow> node_at fs (queue_file n x) = None)"

definition map_rel :: "bytes \<Rightarrow> persistence_server \<Rightarrow> msg_log \<Rightarrow> bool" where
  "map_rel n s L \<longleftrightarrow>
     map_of (m_mMsgQueueTailFile s) n = lg_tail L \<and>
     map_at (m_mMsgQueueList s) n = map fst (lg_groups L) \<and>
     (\<forall>(f, ms, cs)\<in>set (lg_groups L). \<forall>i\<in>fst ` set ms. map_of (map_at (m_mMsgQueueIndexFile s) n) i = Some f) \<and>
     (\<forall>i. has_key (map_at (m_mMsgQueueIndexFile s) n) i \<longrightarrow> sint i < lg_next L)"

definition log_rel :: "bytes \<Rightarrow> persistence_server \<Rightarrow> msg_log \<Rightarrow> bool" where
  "log_rel n s L \<longleftrightarrow> log_wf L \<and> disk_rel n (ps_fs s) (lg_groups L) \<and> map_rel n s L"

text \<open>What an operation on the queue \<open>n\<close> leaves alone.\<close>

definition same_elsewhere :: "bytes \<Rightarrow> persistence_server \<Rightarrow> persistence_server \<Rightarrow> bool" where
  "same_elsewhere n s s' \<longleftrightarrow>
     (\<forall>p. take 2 p \<noteq> [QUEUE_DIR, n] \<or> p = [QUEUE_DIR, n] \<or> p = queue_file n INFO_NAME \<or> p = queue_file n SUBSCRIBE_NAME \<longrightarrow> node_at (ps_fs s') p = node_at (ps_fs s) p) \<and>
     (distinct (map fst (ps_fs s)) \<longrightarrow> distinct (map fst (ps_fs s'))) \<and>
     (\<forall>m. m \<noteq> n \<longrightarrow> map_of (m_mMsgQueueTailFile s') m = map_of (m_mMsgQueueTailFile s) m \<and>
        map_of (m_mMsgQueueList s') m = map_of (m_mMsgQueueList s) m \<and>
        map_of (m_mMsgQueueIndexFile s') m = map_of (m_mMsgQueueIndexFile s) m) \<and>
     ps_pQueueFromLogic s' = ps_pQueueFromLogic s"

lemma log_rel_elsewhere:
  assumes "log_rel m s L" "same_elsewhere n s s'" "m \<noteq> n"
  shows "log_rel m s' L"
proof -
  have "node_at (ps_fs s') [QUEUE_DIR] = node_at (ps_fs s) [QUEUE_DIR]"
    "node_at (ps_fs s') [QUEUE_DIR, m] = node_at (ps_fs s) [QUEUE_DIR, m]"
    "\<And>x. node_at (ps_fs s') (queue_file m x) = node_at (ps_fs s) (queue_file m x)"
    using assms(2,3) by (simp_all add: same_elsewhere_def)
  moreover have "map_at (m_mMsgQueueList s') m = map_at (m_mMsgQueueList s) m"
    "map_at (m_mMsgQueueIndexFile s') m = map_at (m_mMsgQueueIndexFile s) m"
    "map_of (m_mMsgQueueTailFile s') m = map_of (m_mMsgQueueTailFile s) m"
    "distinct (map fst (ps_fs s)) \<longrightarrow> distinct (map fst (ps_fs s'))"
    using assms(2,3) by (simp_all add: same_elsewhere_def map_at_def)
  ultimately show ?thesis using assms(1) by (auto simp: log_rel_def disk_rel_def map_rel_def group_disk_def)
qed

lemma map_at_update [simp]: "map_at (AList.update k v m) k' = (if k' = k then v else map_at m k')"
  by (simp add: map_at_def)

lemma map_of_map_insert: "map_of (map_insert k v m) k' = (if k' = k \<and> map_of m k = None then Some v else map_of m k')"
  by (simp add: map_insert_def)

lemma group_of_name:
  assumes "log_wf L" "f \<in> fst ` set (lg_groups L)"
  shows "digit_name f"
proof -
  obtain g where g: "g \<in> set (lg_groups L)" "f = fst g" using assms(2) by blast
  with assms(1) obtain i where "i \<in> set (indices (lg_groups L))" "f = ConvertIndexToString i"
    using group_head [of g "lg_groups L"] by (auto simp: log_wf_def)
  then show ?thesis using assms(1) digit_name_Convert [of i] by (auto simp: log_wf_def)
qed

lemma new_name:
  assumes "log_wf L" "lg_next L \<le> sint i"
  shows "ConvertIndexToString i \<notin> fst ` set (lg_groups L)" "digit_name (ConvertIndexToString i)"
proof -
  have "0 \<le> sint i" using assms by (simp add: log_wf_def)
  then show "digit_name (ConvertIndexToString i)" by (rule digit_name_Convert)
  show "ConvertIndexToString i \<notin> fst ` set (lg_groups L)"
  proof
    assume "ConvertIndexToString i \<in> fst ` set (lg_groups L)"
    then obtain g where g: "g \<in> set (lg_groups L)" "ConvertIndexToString i = fst g" by blast
    with assms(1) obtain j where "j \<in> set (indices (lg_groups L))" "fst g = ConvertIndexToString j"
      using group_head [of g "lg_groups L"] by (auto simp: log_wf_def)
    moreover from this have "0 \<le> sint j" "sint j < sint i" using assms by (auto simp: log_wf_def)
    ultimately show False using index_name_inj [of i j] \<open>0 \<le> sint i\<close> g by auto
  qed
qed

lemma entries_snoc: "entries p (ms @ [(i, b)]) = entries p ms @ be32 i @ be32 (word_of_nat (p + length (group_data ms)))"
  by (induction p ms rule: entries.induct) (simp_all add: add.assoc)

lemma entries_Nil_iff: "entries p ms = [] \<longleftrightarrow> ms = []"
  by (cases ms) (auto simp: be32_def le32_def)

lemma length_entries: "length (entries p ms) = 8 * length ms"
  by (induction p ms rule: entries.induct) simp_all

end
