(* ===== verification/Persis_Keeps.thy ===== *)
theory Persis_Keeps
  imports Persis_Disk
begin

text \<open>
  Publishing and consuming on the disk are publishing and consuming on the abstract log.
\<close>

section \<open>Publishing\<close>

lemma queue_file_inject [simp]: "f @ e = g @ e \<longleftrightarrow> f = (g :: bytes)"
  by simp

lemma disk_rel_append:
  assumes d: "disk_rel n fs (gs @ old)" and old: "old = [(f, ms, cs)] \<or> old = [] \<and> ms = [] \<and> cs = []"
    and f: "digit_name f" "f \<notin> fst ` set gs" and dist: "distinct (map fst fs')"
    and fs': "\<And>p. node_at fs' p =
       (if p = queue_file n (f @ DATA_EXT) then Some (Reg (group_data ms @ pkt))
        else if p = queue_file n (f @ INDEX_EXT) then Some (Reg (entries 0 ms @ be32 i @ be32 (word_of_nat (length (group_data ms)))))
        else if p = queue_file n OFFSET_NAME then Some (Reg (be32 i)) else node_at fs p)"
  shows "disk_rel n fs' (gs @ [(f, ms @ [(i, pkt)], cs)])"
proof -
  note d' = d [unfolded disk_rel_def]
  have gs: "group_disk fs n g" if "g \<in> set gs" for g using d' that by simp
  have old_disk: "group_disk fs' n g" if g: "g \<in> set gs" for g
  proof -
    have "fst g \<noteq> f" using f(2) g by blast
    then show ?thesis using gs [OF g] by (cases g) (simp add: group_disk_def fs')
  qed
  have "node_at fs (queue_file n (f @ CONSUME_EXT)) = (if cs = [] then None else Some (Reg (concat (map be32 cs))))"
    using old
  proof
    assume "old = [(f, ms, cs)]"
    then have "group_disk fs n (f, ms, cs)" using d' by simp
    then show ?thesis by (simp add: group_disk_def)
  next
    assume o: "old = [] \<and> ms = [] \<and> cs = []"
    then have "f \<notin> fst ` set (gs @ old)" using f(2) by simp
    then show ?thesis using d' f(1) o by simp
  qed
  then have new_disk: "group_disk fs' n (f, ms @ [(i, pkt)], cs)" by (simp add: group_disk_def fs' entries_snoc)
  have names: "fst ` set (gs @ old) \<subseteq> fst ` set (gs @ [(f, ms @ [(i, pkt)], cs)])" using old by auto
  have index: "node_at fs' (queue_file n x) = None"
    if x: "find_sub INDEX_EXT x = Some p" "x \<notin> (\<lambda>g. fst g @ INDEX_EXT) ` set (gs @ [(f, ms @ [(i, pkt)], cs)])" for x p
  proof -
    have "find_sub INDEX_EXT (f @ DATA_EXT) = None"
      using digit_name_chars [OF f(1)] by (simp add: ext_bytes find_sub_append)
    then have "x \<noteq> f @ DATA_EXT" "x \<noteq> f @ INDEX_EXT" "x \<noteq> OFFSET_NAME" using x name_facts(7) by auto
    moreover have "x \<notin> (\<lambda>g. fst g @ INDEX_EXT) ` set (gs @ old)" using x(2) names by auto
    then have "node_at fs (queue_file n x) = None" using d' x(1) by blast
    ultimately show ?thesis by (simp add: fs')
  qed
  have other: "node_at fs' (queue_file n (h @ DATA_EXT)) = None \<and> node_at fs' (queue_file n (h @ CONSUME_EXT)) = None"
    if h: "digit_name h" "h \<notin> fst ` set (gs @ [(f, ms @ [(i, pkt)], cs)])" for h
  proof -
    have "h \<noteq> f" "h \<notin> fst ` set (gs @ old)" using h(2) names by auto
    then show ?thesis using d' h(1) by (simp add: fs')
  qed
  show ?thesis unfolding disk_rel_def
    using d' dist old_disk new_disk index other by (simp add: fs')
qed

lemma choose_file_log:
  assumes rel: "log_rel n s L" and len: "0 \<le> iLen" "length pkt = nat iLen"
  shows "choose_file n iLen s =
    (if room L pkt then (False, the (lg_tail L), word_of_nat (length (group_data (fst (snd (last (lg_groups L)))))))
     else (True, (case lg_tail L of None \<Rightarrow> [] | Some f \<Rightarrow> f), 0))"
proof (cases "lg_tail L")
  case None
  then show ?thesis using rel by (simp add: choose_file_def log_rel_def map_rel_def room_def)
next
  case (Some f)
  have wf: "log_wf L" and d: "disk_rel n (ps_fs s) (lg_groups L)" using rel by (simp_all add: log_rel_def)
  obtain gs ms cs where gs: "lg_groups L = gs @ [(f, ms, cs)]" by (rule tail_split [OF wf Some])
  have "digit_name f" using group_of_name [OF wf] gs by simp
  then have "path_of (DEFAULT_QUEUE_PATH @ n @ 47 # f @ DATA_EXT) = Some (queue_file n (f @ DATA_EXT))"
    using path_queue_file(1) [of n "f @ DATA_EXT"] plain_group_file d by (simp add: disk_rel_def)
  moreover have "node_at (ps_fs s) (queue_file n (f @ DATA_EXT)) = Some (Reg (group_data ms))"
    using d gs by (simp add: disk_rel_def group_disk_def)
  ultimately have "file_size (ps_fs s) (DEFAULT_QUEUE_PATH @ n @ 47 # f @ DATA_EXT) = Some (int (length (group_data ms)))"
    by (rule file_size_path)
  then show ?thesis using Some rel len gs
    by (simp add: choose_file_def log_rel_def map_rel_def room_def Let_def)
qed

lemma publish_refines:
  assumes rel: "log_rel n s L" and i: "lg_next L \<le> sint i"
    and len: "0 < iLen" "nat iLen \<le> length b" "iLen \<le> DURABLE_MESSAGE_FILE_SIZE"
  shows "\<exists>s'. Persis_OnPublishMessage b iLen n i s = Some (SUCCESS, s') \<and>
    log_rel n s' (log_publish i (take (nat iLen) b) L) \<and> same_elsewhere n s s' \<and>
    node_at (ps_fs s') (queue_file n OFFSET_NAME) = Some (Reg (be32 i))"
proof -
  let ?pkt = "take (nat iLen) b"
  have wf: "log_wf L" and d: "disk_rel n (ps_fs s) (lg_groups L)" and m: "map_rel n s L"
    using rel by (simp_all add: log_rel_def)
  have pkt: "?pkt \<noteq> []" "int (length ?pkt) \<le> DURABLE_MESSAGE_FILE_SIZE" "length ?pkt = nat iLen" using len by auto
  note wf' = log_publish_wf [OF wf i pkt(1,2)]
  have n: "plain n" "IsFileExist (ps_fs s) (DEFAULT_QUEUE_PATH @ n)"
    using d by (simp_all add: disk_rel_def IsFileExist_def stat_def path_queue)
  define f where "f = (if room L ?pkt then the (lg_tail L) else ConvertIndexToString i)"
  obtain gs old ms cs where g: "lg_groups L = gs @ old" "old = [(f, ms, cs)] \<or> old = [] \<and> ms = [] \<and> cs = []"
    "room L ?pkt \<longleftrightarrow> old \<noteq> []" "digit_name f" "f \<notin> fst ` set gs"
    "lg_groups (log_publish i ?pkt L) = gs @ [(f, ms @ [(i, ?pkt)], cs)]" "lg_tail (log_publish i ?pkt L) = Some f"
    "old \<noteq> [] \<Longrightarrow> lg_tail L = Some f"
  proof (cases "room L ?pkt")
    case True
    then obtain t where t: "lg_tail L = Some t" by (auto simp: room_def)
    then have "f = t" using True by (simp add: f_def)
    with tail_split [OF wf t] obtain gs ms cs where gs: "lg_groups L = gs @ [(f, ms, cs)]" by metis
    show thesis
      by (rule that [of gs "[(f, ms, cs)]" ms cs])
        (use gs True t \<open>f = t\<close> group_of_name [OF wf, of f] log_names_distinct [OF wf] in \<open>auto simp: log_publish_def\<close>)
  next
    case False
    then have "f = ConvertIndexToString i" by (simp add: f_def)
    then show thesis
      by (intro that [of "lg_groups L" "[]" "[]" "[]"])
        (use False new_name [OF wf i] in \<open>auto simp: log_publish_def Let_def\<close>)
  qed
  let ?w = "word_of_nat (length (group_data ms)) :: i32"
  have choose: "choose_file n iLen s = (old = [], if old = [] then (case lg_tail L of None \<Rightarrow> [] | Some f \<Rightarrow> f) else f, ?w)"
  proof (cases "old = []")
    case True
    then show ?thesis using choose_file_log [OF rel _ pkt(3)] len(1) g(2,3) by simp
  next
    case False
    then show ?thesis using choose_file_log [OF rel _ pkt(3)] len(1) g(1,2,3) g(8) [OF False] by auto
  qed
  define s1 where "s1 = note_message n i f (if old = [] then note_new_file n f s else s)"
  have s1: "ps_fs s1 = ps_fs s" by (simp add: s1_def note_message_def note_new_file_def)
  have run: "Persis_OnPublishMessage b iLen n i s = append_message (DEFAULT_QUEUE_PATH @ n) f b iLen i ?w s1"
  proof -
    have "old = [] \<Longrightarrow> ConvertIndexToString i = f" using g(3) by (simp add: f_def)
    then show ?thesis using n(2) choose by (simp add: Persis_OnPublishMessage_def Let_def s1_def)
  qed
  have files: "content (ps_fs s) (queue_file n (f @ DATA_EXT)) = group_data ms"
    "content (ps_fs s) (queue_file n (f @ INDEX_EXT)) = entries 0 ms"
    "node_at (ps_fs s) (queue_file n (f @ DATA_EXT)) \<noteq> Some Dir" "node_at (ps_fs s) (queue_file n (f @ INDEX_EXT)) \<noteq> Some Dir"
    "node_at (ps_fs s) (queue_file n OFFSET_NAME) \<noteq> Some Dir" "node_at (ps_fs s) [QUEUE_DIR, n] = Some Dir"
    "distinct (map fst (ps_fs s))"
    using d g(1,2,4,5) find_index_ext [OF g(4)] unfolding disk_rel_def
    by (auto simp: group_disk_def content_def)
  from append_message_run [OF n(1) g(4), of s1 iLen b i ?w, unfolded s1 files(1,2), OF files(6,3,4,5)] len
  obtain fs' where fs': "append_message (DEFAULT_QUEUE_PATH @ n) f b iLen i ?w s1 = Some (SUCCESS, s1\<lparr>ps_fs := fs'\<rparr>)"
    "\<And>p. node_at fs' p =
       (if p = queue_file n (f @ DATA_EXT) then Some (Reg (group_data ms @ ?pkt))
        else if p = queue_file n (f @ INDEX_EXT) then Some (Reg (entries 0 ms @ be32 i @ be32 ?w))
        else if p = queue_file n OFFSET_NAME then Some (Reg (be32 i)) else node_at (ps_fs s) p)" "distinct (map fst fs')"
    using files(7) by auto
  let ?s = "s1\<lparr>ps_fs := fs'\<rparr>"
  have "disk_rel n fs' (lg_groups (log_publish i ?pkt L))"
    unfolding g(6) by (rule disk_rel_append [OF d [unfolded g(1)] g(2,4,5) fs'(3,2)])
  moreover have "map_rel n ?s (log_publish i ?pkt L)"
  proof -
    have bound: "\<And>j. has_key (map_at (m_mMsgQueueIndexFile s) n) j \<Longrightarrow> sint j < lg_next L"
      and known: "\<forall>(f, ms, cs)\<in>set (lg_groups L). \<forall>j\<in>fst ` set ms. map_of (map_at (m_mMsgQueueIndexFile s) n) j = Some f"
      using m by (simp_all add: map_rel_def)
    have fresh: "map_of (map_at (m_mMsgQueueIndexFile s) n) i = None" using bound [of i] i by force
    have ix: "map_of (map_at (m_mMsgQueueIndexFile ?s) n) j = (if j = i then Some f else map_of (map_at (m_mMsgQueueIndexFile s) n) j)" for j
      using fresh by (simp add: s1_def note_message_def note_new_file_def map_of_map_insert)
    have "map_of (m_mMsgQueueTailFile ?s) n = Some f" "map_at (m_mMsgQueueList ?s) n = map fst gs @ [f]"
      using m g(1,2,8) unfolding map_rel_def s1_def by (auto simp: note_message_def note_new_file_def)
    moreover have "sint j < sint i + 1" if "has_key (map_at (m_mMsgQueueIndexFile ?s) n) j" for j
      using that bound [of j] i unfolding ix by (cases "j = i") auto
    moreover have "map_of (map_at (m_mMsgQueueIndexFile ?s) n) j = Some h"
      if g': "(h, ks, ds) \<in> set (gs @ [(f, ms @ [(i, ?pkt)], cs)])" and j: "j \<in> fst ` set ks" for h ks ds j
    proof (cases "j = i")
      case True
      then have "(h, ks, ds) \<notin> set gs" using j g' g(1) wf i by (force simp: log_wf_def indices_def)
      then show ?thesis using True g' ix [of i] by simp
    next
      case False
      consider "(h, ks, ds) \<in> set gs" | "h = f" "j \<in> set (map fst ms)" using g' j False by (auto simp del: set_map simp flip: set_map)
      then have "map_of (map_at (m_mMsgQueueIndexFile s) n) j = Some h"
      proof cases
        case 1
        then have "(h, ks, ds) \<in> set (lg_groups L)" using g' g(1) by simp
        with known j show ?thesis by blast
      next
        case 2
        then have "(f, ms, cs) \<in> set (lg_groups L)" using g(1,2) by auto
        with known 2 show ?thesis by (auto simp del: set_map simp flip: set_map)
      qed
      then show ?thesis using False ix [of j] by simp
    qed
    ultimately show ?thesis unfolding map_rel_def g(6,7) wf'(3) by (fastforce simp del: set_append)
  qed
  moreover have "same_elsewhere n s ?s"
    using fs'(2,3) by (auto simp: same_elsewhere_def s1_def note_message_def note_new_file_def)
  moreover have "node_at (ps_fs ?s) (queue_file n OFFSET_NAME) = Some (Reg (be32 i))" using fs'(2) by simp
  ultimately show ?thesis using wf'(1) run fs'(1) unfolding log_rel_def by auto
qed

section \<open>Consuming\<close>

lemma disk_rel_consume:
  assumes d: "disk_rel n fs (gs @ (f, ms, cs) # gs')" and f: "digit_name f" "f \<notin> fst ` set gs" "f \<notin> fst ` set gs'"
    and dist: "distinct (map fst fs')"
    and fs': "\<And>p. node_at fs' p = (if p = queue_file n (f @ CONSUME_EXT) then Some (Reg (concat (map be32 (cs @ [i])))) else node_at fs p)"
  shows "disk_rel n fs' (gs @ (f, ms, cs @ [i]) # gs')"
proof -
  note d' = d [unfolded disk_rel_def]
  have gs: "group_disk fs n g" if "g \<in> set (gs @ (f, ms, cs) # gs')" for g using d' that by blast
  have disk: "group_disk fs' n g" if g: "g \<in> set gs \<union> set gs'" for g
  proof -
    have "fst g \<noteq> f" using f(2,3) g by blast
    then show ?thesis using gs [of g] g by (cases g) (simp add: group_disk_def fs')
  qed
  have "group_disk fs' n (f, ms, cs @ [i])" using gs [of "(f, ms, cs)"] by (simp add: group_disk_def fs')
  moreover have "find_sub INDEX_EXT (f @ CONSUME_EXT) = None" using digit_name_chars [OF f(1)] by (simp add: ext_bytes find_sub_append)
  then have "node_at fs' (queue_file n x) = None" if "find_sub INDEX_EXT x = Some p" "node_at fs (queue_file n x) = None" for x p
    using that by (auto simp: fs')
  moreover have "fst ` set (gs @ (f, ms, cs @ [i]) # gs') = fst ` set (gs @ (f, ms, cs) # gs')"
    "(\<lambda>g. fst g @ INDEX_EXT) ` set (gs @ (f, ms, cs @ [i]) # gs') = (\<lambda>g. fst g @ INDEX_EXT) ` set (gs @ (f, ms, cs) # gs')" by simp_all
  ultimately show ?thesis using d' dist disk unfolding disk_rel_def by (simp add: fs')
qed

lemma disk_rel_drop:
  assumes d: "disk_rel n fs (gs @ (f, ms, cs) # gs')" and f: "digit_name f" "f \<notin> fst ` set gs" "f \<notin> fst ` set gs'"
    and dist: "distinct (map fst fs')"
    and fs': "\<And>p. node_at fs' p = (if p = queue_file n (f @ DATA_EXT) \<or> p = queue_file n (f @ INDEX_EXT) \<or>
        p = queue_file n (f @ CONSUME_EXT) then None else node_at fs p)"
  shows "disk_rel n fs' (gs @ gs')"
proof -
  note d' = d [unfolded disk_rel_def]
  have gs: "group_disk fs n g" if "g \<in> set (gs @ (f, ms, cs) # gs')" for g using d' that by blast
  have disk: "group_disk fs' n g" if g: "g \<in> set gs \<union> set gs'" for g
  proof -
    have "fst g \<noteq> f" using f(2,3) g by blast
    then show ?thesis using gs [of g] g by (cases g) (simp add: group_disk_def fs')
  qed
  have "node_at fs' (queue_file n (h @ DATA_EXT)) = None \<and> node_at fs' (queue_file n (h @ CONSUME_EXT)) = None"
    if h: "digit_name h" "h \<notin> fst ` set (gs @ gs')" for h
  proof (cases "h = f")
    case False
    then have "h \<notin> fst ` set (gs @ (f, ms, cs) # gs')" using h(2) by simp
    then show ?thesis using d' h(1) False by (simp add: fs')
  qed (simp add: fs')
  moreover have "node_at fs' (queue_file n x) = None"
    if x: "find_sub INDEX_EXT x = Some p" "x \<notin> (\<lambda>g. fst g @ INDEX_EXT) ` set (gs @ gs')" for x p
  proof (cases "x = f @ INDEX_EXT")
    case False
    then have "x \<notin> (\<lambda>g. fst g @ INDEX_EXT) ` set (gs @ (f, ms, cs) # gs')" using x(2) by simp
    then have "node_at fs (queue_file n x) = None" using d' x(1) by blast
    then show ?thesis by (simp add: fs')
  qed (simp add: fs')
  ultimately show ?thesis using d' dist disk unfolding disk_rel_def by (simp add: fs')
qed

lemma ReadInt_Some: "ReadInt b p = Some (k, i) \<Longrightarrow> k = 4 \<and> p + 4 \<le> length b \<and> get_at b p 4 = be32 i"
  by (auto simp: ReadInt_def ReadInt_ord_def mem_read_def bind_eq_Some_conv split: if_splits)

text \<open>What the maps forget with a group.\<close>

definition forget_group :: "bytes \<Rightarrow> bytes \<Rightarrow> persistence_server \<Rightarrow> persistence_server" where
  "forget_group n f s = s\<lparr>
     m_mMsgQueueTailFile := (if map_of (m_mMsgQueueTailFile s) n = Some f then AList.delete n (m_mMsgQueueTailFile s) else m_mMsgQueueTailFile s),
     m_mMsgQueueList := (case map_of (m_mMsgQueueList s) n of None \<Rightarrow> m_mMsgQueueList s
       | Some l \<Rightarrow> AList.update n (removeAll f l) (m_mMsgQueueList s))\<rparr>"

text \<open>The end: the three files go when the last message of the group has been consumed.\<close>

lemma drop_group_run:
  fixes s :: persistence_server
  assumes n: "plain n" and f: "digit_name f"
    and files: "node_at (ps_fs s) (queue_file n (f @ DATA_EXT)) = Some (Reg d)"
      "node_at (ps_fs s) (queue_file n (f @ INDEX_EXT)) = Some (Reg d')" "node_at (ps_fs s) (queue_file n (f @ CONSUME_EXT)) = Some (Reg d'')"
  shows "\<exists>fs'. drop_group n f s = Some (forget_group n f (s\<lparr>ps_fs := fs'\<rparr>)) \<and>
    (\<forall>p. node_at fs' p = (if p = queue_file n (f @ DATA_EXT) \<or> p = queue_file n (f @ INDEX_EXT) \<or>
        p = queue_file n (f @ CONSUME_EXT) then None else node_at (ps_fs s) p)) \<and>
    (distinct (map fst (ps_fs s)) \<longrightarrow> distinct (map fst fs'))"
proof -
  let ?q = "DEFAULT_QUEUE_PATH @ n @ 47 # f" and ?fs = "ps_fs s"
  let ?D = "queue_file n (f @ DATA_EXT)" and ?I = "queue_file n (f @ INDEX_EXT)" and ?C = "queue_file n (f @ CONSUME_EXT)"
  have paths: "path_of (?q @ DATA_EXT) = Some ?D" "path_of (?q @ INDEX_EXT) = Some ?I" "path_of (?q @ CONSUME_EXT) = Some ?C"
    using path_queue_file(1) [OF n] plain_group_file [OF f] by simp_all
  let ?f1 = "AList.delete ?D ?fs" let ?f2 = "AList.delete ?I ?f1" let ?f3 = "AList.delete ?C ?f2"
  have "RemoveFile (?q @ DATA_EXT) ?fs = Some (SUCCESS, ?f1)" "RemoveFile (?q @ INDEX_EXT) ?f1 = Some (SUCCESS, ?f2)"
    "RemoveFile (?q @ CONSUME_EXT) ?f2 = Some (SUCCESS, ?f3)"
    by (rule RemoveFile_path, rule paths, simp add: fs_simps files)+
  then have "drop_group n f s = Some (forget_group n f (s\<lparr>ps_fs := ?f3\<rparr>))"
    by (simp add: drop_group_def Let_def forget_group_def split: option.split)
  moreover have "\<forall>p. node_at ?f3 p = (if p = ?D \<or> p = ?I \<or> p = ?C then None else node_at ?fs p)" by (simp add: fs_simps)
  moreover have "distinct (map fst ?fs) \<longrightarrow> distinct (map fst ?f3)" by simp
  ultimately show ?thesis by blast
qed

lemma length_be32s: "length (concat (map be32 is)) = 4 * length is"
  by (induction "is") simp_all

lemma consume_refines:
  assumes rel: "log_rel n s L" and i: "i \<in> fst ` set (unconsumed L)"
    and name: "read_name b p = Some (k, n)" and idx: "ReadInt b (p + MAX_NAME_LENGTH) = Some (k', i)"
  shows "\<exists>s'. OnConsumeMessage b p iLen s = Some (SUCCESS, s') \<and> log_rel n s' (log_consume i L) \<and> same_elsewhere n s s' \<and>
    node_at (ps_fs s') (queue_file n OFFSET_NAME) = node_at (ps_fs s) (queue_file n OFFSET_NAME)"
proof -
  have wf: "log_wf L" and d: "disk_rel n (ps_fs s) (lg_groups L)" and m: "map_rel n s L"
    using rel by (simp_all add: log_rel_def)
  obtain gs f ms cs gs' where g: "lg_groups L = gs @ (f, ms, cs) # gs'" "i \<in> fst ` set ms" "i \<notin> set cs"
    "lg_groups (log_consume i L) = gs @ consume_group i (f, ms, cs) @ gs'"
    by (rule log_consume_split [OF wf i]) blast
  note wf' = log_consume_wf [OF wf i]
  let ?fs = "ps_fs s" and ?q = "DEFAULT_QUEUE_PATH @ n" and ?C = "queue_file n (f @ CONSUME_EXT)"
  have n: "plain n" "IsFileExist ?fs ?q" using d by (simp_all add: disk_rel_def IsFileExist_def stat_def path_queue)
  have f: "digit_name f" using group_of_name [OF wf, of f] g(1) by simp
  have fn: "f \<notin> fst ` set gs" "f \<notin> fst ` set gs'" using log_names_distinct [OF wf] g(1) by auto
  have disk: "group_disk ?fs n (f, ms, cs)" using d g(1) by (simp add: disk_rel_def)
  have paths: "path_of (?q @ 47 # f @ CONSUME_EXT) = Some ?C" "path_of (?q @ 47 # f @ INDEX_EXT) = Some (queue_file n (f @ INDEX_EXT))"
    using path_queue_file(1) [OF n(1)] plain_group_file [OF f] by simp_all
  have b: "k' = 4" "p + MAX_NAME_LENGTH + 4 \<le> length b" "get_at b (p + MAX_NAME_LENGTH) 4 = be32 i"
    using ReadInt_Some [OF idx] by simp_all
  let ?f1 = "touch ?C ?fs" let ?f2 = "AList.update ?C (Reg (concat (map be32 (cs @ [i])))) ?f1"
  have opn: "fopen_ab (?q @ 47 # f @ CONSUME_EXT) ?fs = (Some ?C, ?f1)"
    by (rule fopen_ab_path [OF paths(1)]) (use d disk in \<open>auto simp: disk_rel_def group_disk_def\<close>)
  have "node_at ?f1 ?C = Some (Reg (concat (map be32 cs)))" using disk by (simp add: fs_simps group_disk_def)
  from fwrite_path [OF this, of "int k'" "p + MAX_NAME_LENGTH" b] b
  have wrt: "fwrite b (p + MAX_NAME_LENGTH) (int k') ?C ?f1 = Some ?f2" by simp
  have f2: "\<And>q. node_at ?f2 q = (if q = ?C then Some (Reg (concat (map be32 (cs @ [i])))) else node_at ?fs q)" "distinct (map fst ?f2)"
    using d by (simp_all add: fs_simps disk_rel_def distinct_touch)
  have d2: "disk_rel n ?f2 (gs @ (f, ms, cs @ [i]) # gs')" by (rule disk_rel_consume [OF d [unfolded g(1)] f fn f2(2,1)])
  have sizes: "file_size ?f2 (?q @ 47 # f @ CONSUME_EXT) = Some (4 * int (Suc (length cs)))"
    "file_size ?f2 (?q @ 47 # f @ INDEX_EXT) = Some (8 * int (length ms))"
    using file_size_path [OF paths(1), of ?f2] file_size_path [OF paths(2), of ?f2 "entries 0 ms"] disk
    by (simp_all add: fs_simps length_be32s length_entries group_disk_def)
  have ix: "\<exists>m. map_of (m_mMsgQueueIndexFile s) n = Some m \<and> map_of m i = Some f"
    using m g(1,2) unfolding map_rel_def by (fastforce simp: map_at_def split: option.splits)
  let ?s = "s\<lparr>ps_fs := ?f2\<rparr>"
  have run: "OnConsumeMessage b p iLen s =
      (if Suc (length cs) = length ms then do { s \<leftarrow> drop_group n f ?s; Some (SUCCESS, s) } else Some (SUCCESS, ?s))"
    using ix name idx n(2) opn wrt sizes b(1) by (auto simp: OnConsumeMessage_def Let_def)
  have same: "same_elsewhere n s ?s" using f2 by (simp add: same_elsewhere_def)
  have tail: "lg_tail (log_consume i L) = (case lg_tail L of None \<Rightarrow> None
      | Some t \<Rightarrow> if t \<in> fst ` set (lg_groups (log_consume i L)) then Some t else None)" by (simp add: log_consume_def Let_def split: option.split)
  have tail_in: "t \<in> fst ` set gs \<or> t = f \<or> t \<in> fst ` set gs'" if "lg_tail L = Some t" for t
  proof -
    have "last (lg_groups L) \<in> set (lg_groups L)" "fst (last (lg_groups L)) = t" using wf that by (auto simp: log_wf_def)
    then have "t \<in> fst ` set (lg_groups L)" by blast
    then show ?thesis using g(1) by auto
  qed
  show ?thesis
  proof (cases "Suc (length cs) = length ms")
    case False
    then have g': "lg_groups (log_consume i L) = gs @ (f, ms, cs @ [i]) # gs'" using g(2,4) by (simp add: consume_group_def)
    have "lg_tail (log_consume i L) = lg_tail L"
      using tail_in tail g' by (auto split: option.split)
    then have "map_rel n ?s (log_consume i L)" using m g(1) unfolding map_rel_def g' wf'(3) by auto
    then show ?thesis using run False same wf'(1) d2 g' by (auto simp: log_rel_def fs_simps)
  next
    case True
    then have g': "lg_groups (log_consume i L) = gs @ gs'" using g(2,4) by (simp add: consume_group_def)
    have files: "node_at (ps_fs ?s) (queue_file n (f @ DATA_EXT)) = Some (Reg (group_data ms))"
      "node_at (ps_fs ?s) (queue_file n (f @ INDEX_EXT)) = Some (Reg (entries 0 ms))"
      "node_at (ps_fs ?s) ?C = Some (Reg (concat (map be32 (cs @ [i]))))"
      using disk by (simp_all add: f2(1) group_disk_def del: concat.simps map_append)
    obtain fs' where fs': "drop_group n f ?s = Some (forget_group n f (?s\<lparr>ps_fs := fs'\<rparr>))"
      "\<And>p. node_at fs' p = (if p = queue_file n (f @ DATA_EXT) \<or> p = queue_file n (f @ INDEX_EXT) \<or> p = ?C then None else node_at ?f2 p)"
      "distinct (map fst fs')"
      using drop_group_run [OF n(1) f files] f2(2) by auto
    let ?s' = "forget_group n f (?s\<lparr>ps_fs := fs'\<rparr>)"
    have "disk_rel n fs' (gs @ gs')" by (rule disk_rel_drop [OF d2 f fn fs'(3,2)])
    moreover have "map_rel n ?s' (log_consume i L)"
    proof -
      have "lg_tail (log_consume i L) = (if lg_tail L = Some f then None else lg_tail L)"
        using tail_in tail g' fn by (auto split: option.split)
      moreover have l: "map_at (m_mMsgQueueList s) n = map fst gs @ f # map fst gs'" using m g(1) by (simp add: map_rel_def)
      then have "map_of (m_mMsgQueueList s) n = Some (map fst gs @ f # map fst gs')" by (simp add: map_at_def split: option.splits)
      moreover have "removeAll f (map fst gs @ f # map fst gs') = map fst gs @ map fst gs'"
        using fn by (simp add: removeAll_id)
      ultimately show ?thesis using m g(1) unfolding map_rel_def g' wf'(3) forget_group_def by auto
    qed
    moreover have "same_elsewhere n s ?s'"
      using fs'(2,3) f2 by (auto simp: same_elsewhere_def forget_group_def split: option.split)
    moreover have "ps_fs ?s' = fs'" by (simp add: forget_group_def)
    moreover have "node_at fs' (queue_file n OFFSET_NAME) = node_at ?fs (queue_file n OFFSET_NAME)" using fs'(2) f2(1) by simp
    ultimately show ?thesis using run True fs'(1) wf'(1) g' by (simp add: log_rel_def)
  qed
qed

end
