(* ===== verification/Logic_Recover.thy ===== *)
theory Logic_Recover
  imports Logic_Server File_Sys "HOL-Library.List_Lexorder"
begin

text \<open>
  What the logic server does before its main loop: it reads queues, exchanges and messages from the files of
  the persistence server (\<open>OnInit\<close> of \<^verbatim>\<open>logicServer.cpp\<close>). The disk is an argument, as it only reads.
  \<open>FindMessageFileName\<close>, \<open>FindPosInIndexFile\<close> and \<open>ProcessDataFile\<close> are members that nothing calls.
\<close>

definition ERR_LOGIC_SERVER_QUEUE_NOT_EXIST :: int where "ERR_LOGIC_SERVER_QUEUE_NOT_EXIST = -712"
definition MAX_RDWR_FILE_BUFF_SIZE :: nat where "MAX_RDWR_FILE_BUFF_SIZE = 1024"

definition SetNextDaurableIndex :: "i32 \<Rightarrow> message_queue \<Rightarrow> message_queue" where
  "SetNextDaurableIndex iIndex q = q\<lparr>mq_iDurableIndex := iIndex\<rparr>"

definition SetConfirmLevel :: "byte \<Rightarrow> message_queue \<Rightarrow> message_queue" where
  "SetConfirmLevel l q = q\<lparr>mq_iConfirmLevel := l\<rparr>"

section \<open>Queues\<close>

definition file_buffer :: bytes where "file_buffer = replicate MAX_RDWR_FILE_BUFF_SIZE 0"

definition as_unsubscribed :: "bytes \<Rightarrow> addr \<Rightarrow> logic_server \<Rightarrow> logic_server" where
  "as_unsubscribed name a s = s\<lparr>m_mUnSubcribeQueues := AList.update name a (m_mUnSubcribeQueues s)\<rparr>"

text \<open>The loop over the subscribers reads the same four bytes in every round.\<close>

fun add_subscribers :: "nat \<Rightarrow> bytes \<Rightarrow> nat \<Rightarrow> byte \<Rightarrow> message_queue \<Rightarrow> message_queue option" where
  "add_subscribers 0 b pTemp iConfirmLevel q = Some q"
| "add_subscribers (Suc k) b pTemp iConfirmLevel q = do {
     (_, iIndex) \<leftarrow> ReadInt b pTemp;
     add_subscribers k b pTemp iConfirmLevel (AddSubscribe q iIndex iConfirmLevel) }"

text \<open>The subscriptions of the queue at \<open>a\<close>, whose directory and whose name are given.\<close>

definition restore_subscribers :: "file_sys \<Rightarrow> bytes \<Rightarrow> bytes \<Rightarrow> addr \<Rightarrow> message_queue \<Rightarrow> logic_server \<Rightarrow> logic_server option" where
  "restore_subscribers fs sub_path strQueueName a q s =
     (let strSubscribeFile = sub_path @ SUBSCRIBE_FILE
      in if \<not> IsFileExist fs strSubscribeFile then Some (as_unsubscribed strQueueName a s)
      else case fopen_rb strSubscribeFile fs of
        None \<Rightarrow> Some (as_unsubscribed strQueueName a s)
      | Some pQueueFile \<Rightarrow> do {
          (iRet, b, pos) \<leftarrow> fread file_buffer 0 (MAX_NAME_LENGTH + 1 + 2) pQueueFile 0 fs;
          if iRet = 0 then Some (as_unsubscribed strQueueName a s)
          else do {
            (n, pQueueName) \<leftarrow> ReadBuf b 0 MAX_NAME_LENGTH;
            let pTemp = n;
            (n, iConfirmLevel) \<leftarrow> ReadByte b pTemp;
            let pTemp = pTemp + n;
            let q = SetConfirmLevel iConfirmLevel q;
            let s = set_queue a q s;
            (n, iSubscribeNum) \<leftarrow> ReadShort b pTemp;
            let pTemp = pTemp + n;
            if iSubscribeNum = 0 then do { name \<leftarrow> cstr pQueueName; Some (as_unsubscribed name a s) }
            else do {
              (iRet, b, pos) \<leftarrow> fread b pTemp (unat iSubscribeNum * 4) pQueueFile pos fs;
              if iRet = 0 then do { name \<leftarrow> cstr pQueueName; Some (as_unsubscribed name a s) }
              else do {
                q \<leftarrow> add_subscribers (unat iSubscribeNum) b pTemp iConfirmLevel q;
                Some (set_queue a q (s\<lparr>m_mSubcribeQueues := AList.update strQueueName a (m_mSubcribeQueues s)\<rparr>)) } } } })"

text \<open>One directory. A queue for which no position file can be read is allocated and then dropped.\<close>

definition restore_queue :: "file_sys \<Rightarrow> bytes \<Rightarrow> logic_server \<Rightarrow> logic_server option" where
  "restore_queue fs sub_path s =
     (let strInfoFile = sub_path @ INFO_FILE
      in if \<not> IsFileExist fs strInfoFile then Some s
      else case fopen_rb strInfoFile fs of
        None \<Rightarrow> Some s
      | Some pQueueFile \<Rightarrow> do {
          (iRet, b, _) \<leftarrow> fread file_buffer 0 (MAX_NAME_LENGTH + 2 + 1 + 1) pQueueFile 0 fs;
          if iRet = 0 then Some s
          else do {
            (n, strQueueName) \<leftarrow> read_name b 0;
            let pTemp = n;
            (n, iPriority) \<leftarrow> ReadShort b pTemp;
            let pTemp = pTemp + n;
            (n, bDurable) \<leftarrow> ReadBool b pTemp;
            let pTemp = pTemp + n;
            (n, bAutoDel) \<leftarrow> ReadBool b pTemp;
            let q = new_MessageQueue strQueueName iPriority bDurable bAutoDel;
            let a = m_iNextAddr s;
            let s = (set_queue a q s)\<lparr>m_iNextAddr := a + 1\<rparr>;
            (case fopen_rb (sub_path @ OFFSET_FILE) fs of
               None \<Rightarrow> Some s
             | Some pOffsetFile \<Rightarrow> do {
                 (iRet, pIndex, _) \<leftarrow> fread (replicate 10 0) 0 4 pOffsetFile 0 fs;
                 (_, iIndex) \<leftarrow> ReadInt pIndex 0;
                 if iRet = 0 then Some s
                 else do {
                   let q = SetNextDaurableIndex (iIndex + 1) q;
                   restore_subscribers fs sub_path strQueueName a q (set_queue a q s) } }) } })"

text \<open>The walk over the directories in a directory.\<close>

fun each_dir :: "(bytes \<Rightarrow> logic_server \<Rightarrow> logic_server option) \<Rightarrow> file_sys \<Rightarrow> bytes \<Rightarrow> bytes list \<Rightarrow> logic_server \<Rightarrow> logic_server option" where
  "each_dir f fs strDir [] s = Some s"
| "each_dir f fs strDir (d # ds) s =
     (let sub_path = strDir @ 47 # d
      in do {
        s \<leftarrow> (if stat fs sub_path = Some Dir then f sub_path s else Some s);
        each_dir f fs strDir ds s })"

definition walk_dirs ::
  "(bytes \<Rightarrow> logic_server \<Rightarrow> logic_server option) \<Rightarrow> file_sys \<Rightarrow> bytes \<Rightarrow> logic_server \<Rightarrow> (int \<times> logic_server) option" where
  "walk_dirs f fs strDir s =
     (if \<not> IsFileExist fs strDir then Some (ERROR, s)
      else case path_of strDir of
        None \<Rightarrow> Some (ERROR, s)
      | Some p \<Rightarrow>
          if node_at fs p \<noteq> Some Dir then Some (ERROR, s)
          else do { s \<leftarrow> each_dir f fs strDir (readdir fs p) s; Some (SUCCESS, s) })"

definition OnInitQueue :: "file_sys \<Rightarrow> logic_server \<Rightarrow> (int \<times> logic_server) option" where
  "OnInitQueue fs s = walk_dirs (restore_queue fs) fs DEFAULT_QUEUE_PATH s"

section \<open>Exchanges\<close>

text \<open>A name leads to the subscribed queue if both maps have it.\<close>

definition known_queue :: "logic_server \<Rightarrow> bytes \<Rightarrow> addr option" where
  "known_queue s strQueueName =
     (case map_of (m_mSubcribeQueues s) strQueueName of
        Some a \<Rightarrow> Some a
      | None \<Rightarrow> map_of (m_mUnSubcribeQueues s) strQueueName)"

fun restore_bound :: "logic_server \<Rightarrow> nat \<Rightarrow> bytes \<Rightarrow> nat \<Rightarrow> bytes \<Rightarrow> exchange \<Rightarrow> (nat \<times> exchange) option" where
  "restore_bound s 0 b pTemp strBindingKey e = Some (pTemp, e)"
| "restore_bound s (Suc k) b pTemp strBindingKey e = do {
     (n, strQueueName) \<leftarrow> read_name b pTemp;
     restore_bound s k b (pTemp + n) strBindingKey
       (case known_queue s strQueueName of None \<Rightarrow> e | Some a \<Rightarrow> CreateBinding e strBindingKey a) }"

text \<open>\<open>pTemp\<close> is never set back, so all binding keys and names share the 1024 bytes of the buffer.\<close>

fun restore_bindings ::
  "file_sys \<Rightarrow> logic_server \<Rightarrow> path \<Rightarrow> nat \<Rightarrow> nat \<Rightarrow> bytes \<Rightarrow> nat \<Rightarrow> exchange \<Rightarrow> exchange option" where
  "restore_bindings fs s pExFile pos 0 b pTemp e = Some e"
| "restore_bindings fs s pExFile pos (Suc k) b pTemp e = do {
     (iRet, b, pos) \<leftarrow> fread b pTemp (MAX_NAME_LENGTH + 2) pExFile pos fs;
     if iRet = 0 then Some e
     else do {
       (n, strBindingKey) \<leftarrow> read_name b pTemp;
       let pTemp = pTemp + n;
       (n, iSubBindingNum) \<leftarrow> ReadShort b pTemp;
       let pTemp = pTemp + n;
       (iRet, b, pos) \<leftarrow> fread b pTemp (MAX_NAME_LENGTH * unat iSubBindingNum) pExFile pos fs;
       if iRet = 0 then Some e
       else do {
         (pTemp, e) \<leftarrow> restore_bound s (unat iSubBindingNum) b pTemp strBindingKey e;
         restore_bindings fs s pExFile pos k b pTemp e } } }"

definition restore_exchange :: "file_sys \<Rightarrow> bytes \<Rightarrow> logic_server \<Rightarrow> logic_server option" where
  "restore_exchange fs sub_path s =
     (let strInfoFile = sub_path @ INFO_FILE
      in if \<not> IsFileExist fs strInfoFile then Some s
      else case fopen_rb strInfoFile fs of
        None \<Rightarrow> Some s
      | Some pExFile \<Rightarrow> do {
          (iRet, b, _) \<leftarrow> fread file_buffer 0 (MAX_NAME_LENGTH + 2 + 1 + 1) pExFile 0 fs;
          if iRet = 0 then Some s
          else do {
            (n, strExchangeName) \<leftarrow> read_name b 0;
            let pTemp = n;
            (n, iExchangeType) \<leftarrow> ReadShort b pTemp;
            let pTemp = pTemp + n;
            (n, bDurable) \<leftarrow> ReadBool b pTemp;
            let pTemp = pTemp + n;
            (n, bAutoDel) \<leftarrow> ReadBool b pTemp;
            let e = new_Exchange strExchangeName iExchangeType bDurable bAutoDel;
            let put = (\<lambda>e s. s\<lparr>m_mExchanges := AList.update strExchangeName e (m_mExchanges s)\<rparr>);
            let s = put e s;
            let strBindingFile = sub_path @ BINDING_FILE;
            if \<not> IsFileExist fs strBindingFile then Some s
            else case fopen_rb strBindingFile fs of
              None \<Rightarrow> Some s
            | Some pExFile \<Rightarrow> do {
                (iRet, b, pos) \<leftarrow> fread file_buffer 0 (MAX_NAME_LENGTH + 2) pExFile 0 fs;
                if iRet = 0 then Some s
                else do {
                  (n, _) \<leftarrow> ReadBuf b 0 MAX_NAME_LENGTH;
                  let pTemp = n;
                  (n, iBindingNum) \<leftarrow> ReadShort b pTemp;
                  let pTemp = pTemp + n;
                  if iBindingNum = 0 then Some s
                  else do {
                    e \<leftarrow> restore_bindings fs s pExFile pos (unat iBindingNum) b pTemp e;
                    Some (put e s) } } } } })"

definition OnInitExchange :: "file_sys \<Rightarrow> logic_server \<Rightarrow> (int \<times> logic_server) option" where
  "OnInitExchange fs s = walk_dirs (restore_exchange fs) fs DEFAULT_EXCHANGE_PATH s"

section \<open>Messages\<close>

text \<open>
  A stored packet at \<open>iPos\<close> of a data file becomes a message of its queue; the second component is the index in the
  packet. The body is a C string, so it ends at its first NUL. \<open>Inl\<close> says that the queue is unknown.
\<close>

definition restore_message :: "bytes \<Rightarrow> int \<Rightarrow> logic_server \<Rightarrow> (unit + i32 \<times> u16 \<times> logic_server) option" where
  "restore_message dat iPos s = do {
     (n, iPackLen) \<leftarrow> map_ReadShort dat iPos;
     let pBuff = iPos + int n;
     let iLen = iPackLen - word_of_nat n;
     (n, iCmdId) \<leftarrow> map_ReadShort dat pBuff;
     let pBuff = pBuff + int n;
     let iLen = iLen - word_of_nat n;
     name \<leftarrow> map_read dat pBuff MAX_NAME_LENGTH;
     strQueueName \<leftarrow> cstr name;
     case known_queue s strQueueName of
       None \<Rightarrow> Some (Inl ())
     | Some a \<Rightarrow> do {
         let pBuff = pBuff + int MAX_NAME_LENGTH;
         let iLen = iLen - word_of_nat MAX_NAME_LENGTH;
         (n, iDurableIndex) \<leftarrow> map_ReadInt dat pBuff;
         let pBuff = pBuff + int n;
         let iLen = iLen - word_of_nat n;
         (n, iPriority) \<leftarrow> map_ReadShort dat pBuff;
         let pBuff = pBuff + int n;
         let iLen = iLen - word_of_nat n;
         body \<leftarrow> map_read dat pBuff (unat iLen);
         pMsgBody \<leftarrow> mem_write (replicate MAX_CLINT_PACKAGE_LENGTH 0) 0 body;
         strMsgBody \<leftarrow> cstr pMsgBody;
         q \<leftarrow> m_queues s a;
         let pMsg = (new_SeverStoreMessage strMsgBody iPriority True)\<lparr>ssm_iDurableIndex := iDurableIndex\<rparr>;
         Some (Inr (iDurableIndex, iPackLen, set_queue a (AddMessage q pMsg) s)) } }"

fun restore_loop :: "bytes \<Rightarrow> bytes \<Rightarrow> i32 list \<Rightarrow> nat \<Rightarrow> nat \<Rightarrow> logic_server \<Rightarrow> (int \<times> logic_server) option" where
  "restore_loop index dat consumed iPos 0 s = Some (SUCCESS, s)"
| "restore_loop index dat consumed iPos (Suc k) s =
     (if iPos < length index then do {
        (offset, iIndex) \<leftarrow> map_ReadInt index (int iPos);
        let iPos = iPos + offset;
        (offset, iDataPos) \<leftarrow> map_ReadInt index (int iPos);
        let iPos = iPos + offset;
        if iIndex \<in> set consumed then restore_loop index dat consumed iPos k s
        else do {
          r \<leftarrow> restore_message dat (sint iDataPos) s;
          (case r of
             Inl _ \<Rightarrow> Some (ERR_LOGIC_SERVER_QUEUE_NOT_EXIST, s)
           | Inr (_, _, s) \<Rightarrow> restore_loop index dat consumed iPos k s) } }
      else Some (SUCCESS, s))"

definition ProcessDurableMsgFile :: "file_sys \<Rightarrow> bytes \<Rightarrow> logic_server \<Rightarrow> (int \<times> logic_server) option" where
  "ProcessDurableMsgFile fs strFile s =
     (case map_file fs (strFile @ INDEX_EXT) of
        None \<Rightarrow> Some (ERROR, s)
      | Some index \<Rightarrow>
          (case map_file fs (strFile @ DATA_EXT) of
             None \<Rightarrow> Some (ERROR, s)
           | Some dat \<Rightarrow> do {
               consumeIndexSet \<leftarrow>
                 (case map_file fs (strFile @ CONSUME_EXT) of
                    None \<Rightarrow> Some []
                  | Some consume \<Rightarrow> consume_set consume 0 (length consume) []);
               restore_loop index dat consumeIndexSet 0 (length index) s }))"

fun restore_files :: "file_sys \<Rightarrow> bytes \<Rightarrow> bytes list \<Rightarrow> logic_server \<Rightarrow> logic_server option" where
  "restore_files fs sub_path [] s = Some s"
| "restore_files fs sub_path (f # rest) s = do {
     (ret, s) \<leftarrow> ProcessDurableMsgFile fs (sub_path @ 47 # f) s;
     if ret = ERR_LOGIC_SERVER_QUEUE_NOT_EXIST then Some s else restore_files fs sub_path rest s }"

definition OnInitMsg :: "file_sys \<Rightarrow> logic_server \<Rightarrow> (int \<times> logic_server) option" where
  "OnInitMsg fs s =
     walk_dirs (\<lambda>sub_path. restore_files fs sub_path (sort (FindIndexFiles fs sub_path))) fs DEFAULT_QUEUE_PATH s"

definition OnInit :: "file_sys \<Rightarrow> logic_server \<Rightarrow> (int \<times> logic_server) option" where
  "OnInit fs s = do {
     (_, s) \<leftarrow> OnInitQueue fs s;
     (_, s) \<leftarrow> OnInitExchange fs s;
     (_, s) \<leftarrow> OnInitMsg fs s;
     Some (SUCCESS, s) }"

section \<open>Members without callers\<close>

definition FindMessageFileName :: "file_sys \<Rightarrow> i32 \<Rightarrow> bytes \<Rightarrow> bytes" where
  "FindMessageFileName fs iMsgIndex ipPath =
     (let strIndexName = ConvertIndexToString iMsgIndex
      in case stat fs ipPath of
           Some Dir \<Rightarrow>
             foldl (\<lambda>strRes strName. if strName \<le> strIndexName \<and> strRes < strName then strName else strRes)
               (replicate 10 48) (FindIndexFiles fs ipPath)
         | _ \<Rightarrow> [])"

text \<open>The binary search. \<open>hi\<close> starts one behind the last entry.\<close>

function search_index :: "bytes \<Rightarrow> i32 \<Rightarrow> nat \<Rightarrow> nat \<Rightarrow> nat \<times> i32 \<Rightarrow> (nat \<times> i32) option" where
  "search_index d iMsgIndex lo hi (mid, iIndex) =
     (if lo < hi then do {
        let mid = lo + (hi - lo) div 2;
        (_, iIndex) \<leftarrow> map_ReadInt d (int (mid * 8));
        if iMsgIndex = iIndex then Some (mid, iIndex)
        else if sint iMsgIndex > sint iIndex then search_index d iMsgIndex (mid + 1) hi (mid, iIndex)
        else search_index d iMsgIndex lo mid (mid, iIndex) }
      else Some (mid, iIndex))"
  by pat_completeness auto
termination search_index by (relation "measure (\<lambda>(d, i, lo, hi, _). hi - lo)") auto

definition FindPosInIndexFile :: "file_sys \<Rightarrow> i32 \<Rightarrow> bytes \<Rightarrow> int option" where
  "FindPosInIndexFile fs iMsgIndex ipFile =
     (case map_file fs ipFile of
        None \<Rightarrow> Some (-1)
      | Some d \<Rightarrow> do {
          (mid, iIndex) \<leftarrow> search_index d iMsgIndex 0 (length d div 8 + 1) (0, 0);
          if iIndex \<noteq> iMsgIndex then Some (-1)
          else do { (_, iPos) \<leftarrow> map_ReadInt d (int (mid * 8 + 4)); Some (sint iPos) } })"

text \<open>A packet has at least 42 bytes: with a smaller length field the length of the body wraps to more than the buffer holds.\<close>

fun data_loop :: "bytes \<Rightarrow> int \<Rightarrow> i32 \<Rightarrow> nat \<Rightarrow> logic_server \<Rightarrow> (int \<times> i32 \<times> logic_server) option" where
  "data_loop d iStartPos oLastIndex 0 s = Some (SUCCESS, oLastIndex, s)"
| "data_loop d iStartPos oLastIndex (Suc k) s =
     (if iStartPos < int (length d) then do {
        r \<leftarrow> restore_message d iStartPos s;
        (case r of
           Inl _ \<Rightarrow> Some (ERROR, oLastIndex, s)
         | Inr (iDurableIndex, iPackLen, s) \<Rightarrow> data_loop d (iStartPos + uint iPackLen) iDurableIndex k s) }
      else Some (SUCCESS, oLastIndex, s))"

definition ProcessDataFile :: "file_sys \<Rightarrow> bytes \<Rightarrow> i32 \<Rightarrow> int \<Rightarrow> logic_server \<Rightarrow> (int \<times> i32 \<times> logic_server) option" where
  "ProcessDataFile fs ipFile oLastIndex iStartPos s =
     (case map_file fs ipFile of
        None \<Rightarrow> Some (ERROR, oLastIndex, s)
      | Some d \<Rightarrow> data_loop d iStartPos oLastIndex (length d) s)"

end
