(* ===== verification/Recover_Msg.thy ===== *)
theory Recover_Msg
  imports Persis_Keeps Logic_Recover Logic_Publish
begin

text \<open>
  What the logic server reads back is what was written: from one packet in a data file, over a group of
  files, to the whole directory of queues.
\<close>

section \<open>A packet\<close>

definition durable_wire :: "bytes \<Rightarrow> i32 \<Rightarrow> i16 \<Rightarrow> bytes \<Rightarrow> bytes" where
  "durable_wire q i p body =
     be16 (word_of_nat (42 + length body)) @ be16 CMD_CREATE_PUBLISH @ name_field q @ be32 i @ be16 p @ body"

text \<open>A stored message: durable index, priority, body.\<close>

type_synonym stored_msg = "i32 \<times> i16 \<times> bytes"

definition packet_of :: "bytes \<Rightarrow> stored_msg \<Rightarrow> i32 \<times> bytes" where
  "packet_of q m = (case m of (i, p, body) \<Rightarrow> (i, durable_wire q i p body))"

definition fits :: "stored_msg \<Rightarrow> bool" where
  "fits m \<longleftrightarrow> 42 + length (snd (snd m)) \<le> MAX_CLINT_PACKAGE_LENGTH"

text \<open>The message that the logic server makes of it.\<close>

definition restored :: "stored_msg \<Rightarrow> sever_store_message" where
  "restored m = (case m of (i, p, body) \<Rightarrow>
     (new_SeverStoreMessage (takeWhile (\<lambda>c. c \<noteq> 0) body) p True)\<lparr>ssm_iDurableIndex := i\<rparr>)"

lemma length_durable_wire: "good_name q \<Longrightarrow> length (durable_wire q i p body) = 42 + length body"
  by (simp add: durable_wire_def)

lemma get_at_after: "get_at (xs @ ys) (length xs + k) n = get_at ys k n"
  by (simp add: get_at_def)

lemma map_get_after:
  assumes "k + n \<le> length ys"
  shows "map_read (xs @ ys @ zs) (int (length xs) + int k) n = Some (get_at ys k n)"
proof -
  have "map_read (xs @ ys @ zs) (int (length xs + k)) n = Some (get_at (xs @ ys @ zs) (length xs + k) n)"
    by (rule map_read_inside) (use assms in simp)
  then show ?thesis using assms by (simp add: get_at_after) (simp add: get_at_def)
qed

lemma cstr_name_field: "good_name q \<Longrightarrow> cstr (name_field q) = Some q"
  by (simp add: name_field_def good_name_def size_defs)

lemma cstr_padded:
  assumes "length body < n"
  shows "cstr (put_at (replicate n 0) 0 body) = Some (takeWhile (\<lambda>c. c \<noteq> 0) body)"
proof -
  have b: "put_at (replicate n 0) 0 body = body @ replicate (n - length body) 0" using assms by (simp add: put_at_def)
  moreover have "takeWhile (\<lambda>c. c \<noteq> 0) (body @ replicate k 0) = takeWhile (\<lambda>c. c \<noteq> (0 :: byte)) body" for k
    by (induction body) (simp_all add: takeWhile_replicate)
  moreover have "0 \<in> set (body @ replicate (n - length body) 0)" using assms by simp
  ultimately show ?thesis by (simp only: cstr_def if_True)
qed

lemma get_be: "get_at (be16 v) 0 2 = be16 v" "get_at (be32 w) 0 4 = be32 w"
  by (simp_all add: get_at_def)

lemma restore_packet:
  assumes q: "good_name q" and m: "fits (i, p, body)" and known: "known_queue s q = Some a" "m_queues s a = Some mq"
  shows "restore_message (xs @ durable_wire q i p body @ zs) (int (length xs)) s =
    Some (Inr (i, word_of_nat (42 + length body), set_queue a (AddMessage mq (restored (i, p, body))) s))"
proof -
  let ?w = "durable_wire q i p body" and ?d = "xs @ durable_wire q i p body @ zs" and ?x = "int (length xs)"
  have nf: "length (name_field q) = 32" using q by simp
  have r: "map_read ?d (?x + int k) n = Some (get_at ?w k n)" if "k + n \<le> 42 + length body" for k n
    by (rule map_get_after) (use that q in \<open>simp add: length_durable_wire\<close>)
  have parts: "get_at ?w 0 2 = be16 (word_of_nat (42 + length body))" "get_at ?w 2 2 = be16 CMD_CREATE_PUBLISH"
    "get_at ?w 4 32 = name_field q" "get_at ?w 36 4 = be32 i" "get_at ?w 40 2 = be16 p" "get_at ?w 42 (length body) = body"
    using nf by (simp_all add: durable_wire_def get_at_def)
  have reads: "map_ReadShort ?d ?x = Some (2, word_of_nat (42 + length body))" "map_ReadShort ?d (?x + 2) = Some (2, CMD_CREATE_PUBLISH)"
    "map_read ?d (?x + 4) 32 = Some (name_field q)" "map_ReadInt ?d (?x + 36) = Some (4, i)" "map_ReadShort ?d (?x + 40) = Some (2, p)"
    "map_read ?d (?x + 42) (length body) = Some body"
    using r [of 0 2] r [of 2 2] r [of 4 32] r [of 36 4] r [of 40 2] r [of 42 "length body"] parts
    by (simp_all add: map_ReadShort_def map_ReadInt_def get_be del: of_nat_add)
  have "length body < 65536" using m by (simp add: fits_def size_defs)
  then have l: "unat (word_of_nat (42 + length body) - 2 - 2 - 32 - 4 - 2 :: u16) = length body"
    by (simp add: unat_of_nat)
  have body: "mem_write (replicate MAX_CLINT_PACKAGE_LENGTH 0) 0 body = Some (put_at (replicate MAX_CLINT_PACKAGE_LENGTH 0) 0 body)"
    "length body < MAX_CLINT_PACKAGE_LENGTH" using m by (simp_all add: fits_def)
  show ?thesis unfolding restore_message_def
    using reads l body known cstr_name_field [OF q] cstr_padded [OF body(2)]
    by (simp add: Let_def MAX_NAME_LENGTH_def add.assoc restored_def del: of_nat_add)
qed

section \<open>A group of files\<close>

lemma set_queue_reads [simp]:
  "m_queues s a = Some q \<Longrightarrow> set_queue a q s = s" "set_queue a q' (set_queue a q s) = set_queue a q' s"
  "known_queue (set_queue a q s) n = known_queue s n" "m_queues (set_queue a q s) b = (if b = a then Some q else m_queues s b)"
  by (simp_all add: set_queue_def known_queue_def fun_upd_idem split: option.split)

lemma entries_append: "entries p (ms @ ns) = entries p ms @ entries (p + length (group_data ms)) ns"
  by (induction p ms rule: entries.induct) (simp_all add: add.assoc)

lemma packet_of_simps [simp]: "fst (packet_of q m) = fst m" "packet_of q (i, p, body) = (i, durable_wire q i p body)"
  by (simp_all add: packet_of_def split: prod.split)

lemma sint_small: "n < 2 ^ 31 \<Longrightarrow> sint (word_of_nat n :: i32) = int n"
  by (simp add: signed_of_nat signed_take_bit_int_eq_self)

lemma restore_loop_group:
  assumes q: "good_name q" and fit: "\<forall>m\<in>set (ds @ ms). fits m"
    and index: "index = entries 0 (map (packet_of q) (ds @ ms))" and dat: "dat = group_data (map (packet_of q) (ds @ ms))"
    and len: "length dat < 2 ^ 31" and known: "known_queue s q = Some a" "m_queues s a = Some mq" and k: "length ms \<le> k"
  shows "restore_loop index dat cs (8 * length ds) k s =
    Some (SUCCESS, set_queue a (foldl AddMessage mq (map restored (filter (\<lambda>m. fst m \<notin> set cs) ms))) s)"
  using assms
proof (induction ms arbitrary: ds k s mq)
  case Nil
  then show ?case by (cases k) (simp_all add: length_entries)
next
  case (Cons m ms)
  obtain i p body where m: "m = (i, p, body)" by (cases m)
  obtain k' where k': "k = Suc k'" "length ms \<le> k'" using Cons.prems(8) by (cases k) auto
  let ?xs = "group_data (map (packet_of q) ds)" and ?w = "durable_wire q i p body" and ?zs = "group_data (map (packet_of q) ms)"
  let ?e = "be32 i @ be32 (word_of_nat (length ?xs))"
  have dat: "dat = ?xs @ ?w @ ?zs" using Cons.prems(4) m by simp
  have ix: "index = entries 0 (map (packet_of q) ds) @ ?e @ entries (length ?xs + length ?w) (map (packet_of q) ms)"
    using Cons.prems(3) m by (simp add: entries_append)
  have l: "length (entries 0 (map (packet_of q) ds)) = 8 * length ds" by (simp add: length_entries)
  have r: "map_read index (int (8 * length ds) + int j) n = Some (get_at ?e j n)" if "j + n \<le> 8" for j n
    unfolding ix using map_get_after [of j n ?e "entries 0 (map (packet_of q) ds)"] l that by simp
  have "get_at ?e 0 4 = be32 i" "get_at ?e 4 4 = be32 (word_of_nat (length ?xs))" by (simp_all add: get_at_def)
  then have reads: "map_ReadInt index (int (8 * length ds)) = Some (4, i)"
    "map_ReadInt index (int (8 * length ds) + 4) = Some (4, word_of_nat (length ?xs))"
    using r [of 0 4] r [of 4 4] by (simp_all add: map_ReadInt_def get_be)
  have pos: "8 * length ds < length index" unfolding ix by (simp add: l)
  have sx: "sint (word_of_nat (length ?xs) :: i32) = int (length ?xs)" by (rule sint_small) (use Cons.prems(5) dat in simp)
  have fit: "\<forall>m\<in>set ((ds @ [m]) @ ms). fits m" and split: "(ds @ [m]) @ ms = ds @ m # ms" using Cons.prems(2) by auto
  note IH = Cons.IH [of "ds @ [m]", unfolded split, OF q Cons.prems(2-5) _ _ k'(2)]
  have step: "8 * length ds + 4 + 4 = 8 * length (ds @ [m])" by simp
  show ?case
  proof (cases "i \<in> set cs")
    case True
    have "restore_loop index dat cs (8 * length ds) k s = restore_loop index dat cs (8 * length (ds @ [m])) k' s"
      using pos reads True unfolding k'(1) by (simp add: ac_simps)
    with IH [OF Cons.prems(6,7)] True m show ?thesis by simp
  next
    case False
    let ?s = "set_queue a (AddMessage mq (restored m)) s"
    have "fits (i, p, body)" using fit m by simp
    from restore_packet [OF q this Cons.prems(6,7), of ?xs ?zs]
    have "restore_message dat (int (length ?xs)) s = Some (Inr (i, word_of_nat (42 + length body), ?s))" unfolding dat m .
    then have "restore_loop index dat cs (8 * length ds) k s = restore_loop index dat cs (8 * length (ds @ [m])) k' ?s"
      using pos reads False sx unfolding k'(1) by (simp add: ac_simps)
    with IH [of ?s "AddMessage mq (restored m)"] Cons.prems(6) False m show ?thesis by simp
  qed
qed

lemma consume_set_all:
  "length cs \<le> k \<Longrightarrow> \<exists>r. consume_set (concat (map be32 (ds @ cs))) (4 * length ds) k acc = Some r \<and> set r = set acc \<union> set cs"
proof (induction cs arbitrary: ds k acc)
  case Nil
  then show ?case by (cases k) (simp_all add: length_be32s)
next
  case (Cons c cs)
  obtain k' where k': "k = Suc k'" "length cs \<le> k'" using Cons.prems by (cases k) auto
  let ?d = "concat (map be32 (ds @ c # cs))"
  have "map_read ?d (int (length (concat (map be32 ds))) + int 0) 4 = Some (get_at (be32 c) 0 4)"
    using map_get_after [of 0 4 "be32 c" "concat (map be32 ds)" "concat (map be32 cs)"] by simp
  then have "map_ReadInt ?d (int (4 * length ds)) = Some (4, c)" by (simp add: map_ReadInt_def get_be length_be32s)
  moreover have "4 * length ds < length ?d" by (simp add: length_be32s)
  ultimately have step: "consume_set ?d (4 * length ds) k acc = consume_set (concat (map be32 ((ds @ [c]) @ cs))) (4 * length (ds @ [c])) k' (List.insert c acc)"
    by (simp add: k'(1) ac_simps)
  show ?case unfolding step using Cons.IH [OF k'(2), of "ds @ [c]" "List.insert c acc"] by auto
qed

text \<open>A packet in the log, read back.\<close>

definition stored_of :: "i32 \<times> bytes \<Rightarrow> stored_msg" where
  "stored_of m = (fst m, un_be16 (get_at (snd m) 40 2), drop 42 (snd m))"

definition good_packet :: "bytes \<Rightarrow> i32 \<times> bytes \<Rightarrow> bool" where
  "good_packet q m \<longleftrightarrow> packet_of q (stored_of m) = m \<and> fits (stored_of m)"

lemma stored_of_packet: "good_name q \<Longrightarrow> stored_of (packet_of q m) = m"
  by (cases m) (simp add: stored_of_def durable_wire_def get_at_def)

lemma good_packet_of: "good_name q \<Longrightarrow> fits m \<Longrightarrow> good_packet q (packet_of q m)"
  by (simp add: good_packet_def stored_of_packet)

definition restored_group :: "(i32 \<times> bytes) list \<Rightarrow> sever_store_message list" where
  "restored_group ms = map (restored \<circ> stored_of) ms"

lemma map_file_path:
  "path_of s = Some p \<Longrightarrow> node_at fs p = Some (Reg d) \<Longrightarrow> d \<noteq> [] \<Longrightarrow> map_file fs s = Some d"
  "path_of s = Some p \<Longrightarrow> node_at fs p = None \<Longrightarrow> map_file fs s = None"
  by (simp_all add: map_file_def stat_def)

lemma restore_group:
  assumes q: "good_name n" "plain n" and g: "group_wf g" "group_disk fs n g" "digit_name (fst g)"
    and good: "\<forall>m\<in>set (fst (snd g)). good_packet n m"
    and known: "known_queue s n = Some a" "m_queues s a = Some mq"
  shows "ProcessDurableMsgFile fs (DEFAULT_QUEUE_PATH @ 47 # n @ 47 # fst g) s =
    Some (SUCCESS, set_queue a (foldl AddMessage mq (restored_group (left_over g))) s)"
proof -
  obtain f ms cs where gg: "g = (f, ms, cs)" by (cases g)
  let ?p = "DEFAULT_QUEUE_PATH @ 47 # n @ 47 # f"
  have paths: "path_of (?p @ DATA_EXT) = Some (queue_file n (f @ DATA_EXT))" "path_of (?p @ INDEX_EXT) = Some (queue_file n (f @ INDEX_EXT))"
    "path_of (?p @ CONSUME_EXT) = Some (queue_file n (f @ CONSUME_EXT))"
    using path_queue_file(2) [OF q(2)] plain_group_file g(3) gg by simp_all
  have disk: "node_at fs (queue_file n (f @ DATA_EXT)) = Some (Reg (group_data ms))" "node_at fs (queue_file n (f @ INDEX_EXT)) = Some (Reg (entries 0 ms))"
    "node_at fs (queue_file n (f @ CONSUME_EXT)) = (if cs = [] then None else Some (Reg (concat (map be32 cs))))"
    using g(2) gg by (simp_all add: group_disk_def)
  have wf: "ms \<noteq> []" "\<forall>m\<in>set ms. snd m \<noteq> []" "int (length (group_data ms)) \<le> DURABLE_MESSAGE_FILE_SIZE"
    using g(1) gg by (auto simp: group_wf_def)
  have data: "map_file fs (?p @ DATA_EXT) = Some (group_data ms)"
    by (rule map_file_path(1) [OF paths(1) disk(1)]) (use wf in \<open>cases ms; auto\<close>)
  have index: "map_file fs (?p @ INDEX_EXT) = Some (entries 0 ms)"
    by (rule map_file_path(1) [OF paths(2) disk(2)]) (use wf in \<open>simp add: entries_Nil_iff\<close>)
  obtain r where r: "(case map_file fs (?p @ CONSUME_EXT) of None \<Rightarrow> Some []
      | Some consume \<Rightarrow> consume_set consume 0 (length consume) []) = Some r" "set r = set cs"
  proof (cases "cs = []")
    case True
    then show thesis using that [of "[]"] map_file_path(2) [OF paths(3)] disk(3) by simp
  next
    case False
    then have "map_file fs (?p @ CONSUME_EXT) = Some (concat (map be32 cs))"
      using map_file_path(1) [OF paths(3)] disk(3) by (cases cs) (auto simp: be32_def le32_def)
    then show thesis using that consume_set_all [of cs "length (concat (map be32 cs))" "[]" "[]"] by (auto simp: length_be32s)
  qed
  let ?ss = "map stored_of ms"
  have ms: "map (packet_of n) ?ss = ms" using good gg by (simp add: good_packet_def map_idI)
  have "restore_loop (entries 0 ms) (group_data ms) r (8 * length ([] :: stored_msg list)) (length (entries 0 ms)) s =
      Some (SUCCESS, set_queue a (foldl AddMessage mq (map restored (filter (\<lambda>m. fst m \<notin> set r) ?ss))) s)"
    by (rule restore_loop_group [OF q(1)])
      (use good gg ms wf known in \<open>simp_all add: good_packet_def length_entries DURABLE_MESSAGE_FILE_SIZE_def\<close>)
  moreover have "map restored (filter (\<lambda>m. fst m \<notin> set r) ?ss) = restored_group (left_over g)"
    by (simp add: gg left_over_def restored_group_def filter_map o_def r(2) stored_of_def)
  ultimately show ?thesis using data index r(1) gg by (simp add: ProcessDurableMsgFile_def)
qed

lemma restore_groups:
  assumes "good_name n" "plain n" "\<forall>g\<in>set gs. group_wf g \<and> group_disk fs n g \<and> digit_name (fst g) \<and> (\<forall>m\<in>set (fst (snd g)). good_packet n m)"
    "known_queue s n = Some a" "m_queues s a = Some mq"
  shows "restore_files fs (DEFAULT_QUEUE_PATH @ 47 # n) (map fst gs) s =
    Some (set_queue a (foldl AddMessage mq (restored_group (concat (map left_over gs)))) s)"
  using assms(3-)
proof (induction gs arbitrary: s mq)
  case Nil
  then show ?case by (simp add: restored_group_def)
next
  case (Cons g gs)
  let ?mq = "foldl AddMessage mq (restored_group (left_over g))"
  have "ProcessDurableMsgFile fs (DEFAULT_QUEUE_PATH @ 47 # n @ 47 # fst g) s = Some (SUCCESS, set_queue a ?mq s)"
    by (rule restore_group [OF assms(1,2)]) (use Cons.prems in auto)
  moreover have "restore_files fs (DEFAULT_QUEUE_PATH @ 47 # n) (map fst gs) (set_queue a ?mq s) =
      Some (set_queue a (foldl AddMessage ?mq (restored_group (concat (map left_over gs)))) (set_queue a ?mq s))"
    by (rule Cons.IH) (use Cons.prems in simp_all)
  ultimately show ?case by (simp add: restored_group_def SUCCESS_def ERR_LOGIC_SERVER_QUEUE_NOT_EXIST_def)
qed

end
