(* ===== verification/Recover_Disk.thy ===== *)
theory Recover_Disk
  imports Recover_Msg
begin

text \<open>
  The start of the logic server on the directory of all queues: which index files it finds, in which order, and
  what becomes of the queues and their messages.
\<close>

section \<open>Finding the index files\<close>

lemma readdir_iff: "x \<in> set (readdir fs p) \<longleftrightarrow> node_at fs (p @ [x]) \<noteq> None"
proof
  assume "x \<in> set (readdir fs p)"
  then obtain q nd where q: "(q, nd) \<in> set fs" "q \<noteq> []" "butlast q = p" "last q = x" by (auto simp: readdir_def)
  then have "q = p @ [x]" by (metis append_butlast_last_id)
  then show "node_at fs (p @ [x]) \<noteq> None" using q(1) by (auto simp: node_at_def weak_map_of_SomeI)
next
  assume "node_at fs (p @ [x]) \<noteq> None"
  then obtain nd where "(p @ [x], nd) \<in> set fs" by (auto simp: node_at_def dest: map_of_SomeD)
  then show "x \<in> set (readdir fs p)" by (force simp: readdir_def)
qed

lemma distinct_readdir: "distinct (map fst fs) \<Longrightarrow> distinct (readdir fs p)"
proof -
  assume d: "distinct (map fst fs)"
  let ?fs = "filter (\<lambda>(q, _). q \<noteq> [] \<and> butlast q = p) fs"
  have "inj_on last (set (map fst ?fs))"
    by (rule inj_onI) (auto, metis append_butlast_last_id)
  moreover have "distinct (map fst ?fs)" using d by (rule distinct_map_filter)
  ultimately show ?thesis by (simp only: readdir_def distinct_map [of last] flip: map_map)
qed

lemma in_map_filter: "b \<in> set (List.map_filter f xs) \<longleftrightarrow> (\<exists>x\<in>set xs. f x = Some b)"
  by (induction xs) (auto simp: map_filter_simps split: option.split)

lemma distinct_map_filter_option:
  assumes "distinct xs" "\<And>x y b. x \<in> set xs \<Longrightarrow> y \<in> set xs \<Longrightarrow> f x = Some b \<Longrightarrow> f y = Some b \<Longrightarrow> x = y"
  shows "distinct (List.map_filter f xs)"
  using assms by (induction xs) (auto simp: map_filter_simps in_map_filter split: option.split)

lemma found_index_files:
  assumes d: "disk_rel n fs gs" and names: "sorted_wrt (<) (map fst gs)" and digits: "\<forall>g\<in>set gs. digit_name (fst g)"
  shows "sort (FindIndexFiles fs (DEFAULT_QUEUE_PATH @ 47 # n)) = map fst gs"
proof -
  note d' = d [unfolded disk_rel_def]
  have p: "path_of (DEFAULT_QUEUE_PATH @ 47 # n) = Some [QUEUE_DIR, n]" using path_queue_file(3) d' by simp
  let ?f = "\<lambda>x. case node_at fs (queue_file n x) of
      Some (Reg _) \<Rightarrow> map_option (\<lambda>iPos. take iPos x) (find_sub INDEX_EXT x) | _ \<Rightarrow> None"
  have files: "FindIndexFiles fs (DEFAULT_QUEUE_PATH @ 47 # n) = List.map_filter ?f (readdir fs [QUEUE_DIR, n])"
    unfolding FindIndexFiles_def p by simp
  have some: "\<exists>g\<in>set gs. x = fst g @ INDEX_EXT \<and> b = fst g" if x: "?f x = Some b" for x b
  proof -
    obtain k where k: "find_sub INDEX_EXT x = Some k" "b = take k x" "node_at fs (queue_file n x) \<noteq> None"
      using x by (auto split: option.splits node.splits)
    have "x \<notin> (\<lambda>g. fst g @ INDEX_EXT) ` set gs \<Longrightarrow> node_at fs (queue_file n x) = None" using d' k(1) by simp
    with k(3) have "x \<in> (\<lambda>g. fst g @ INDEX_EXT) ` set gs" by metis
    then obtain g where g: "g \<in> set gs" "x = fst g @ INDEX_EXT" by blast
    then have "k = 10" "length (fst g) = 10" using find_index_ext [of "fst g"] digits k(1) by (auto simp: digit_name_def)
    then show ?thesis using g k(2) by auto
  qed
  have all: "?f (fst g @ INDEX_EXT) = Some (fst g)" "fst g @ INDEX_EXT \<in> set (readdir fs [QUEUE_DIR, n])" if g: "g \<in> set gs" for g
  proof -
    have "group_disk fs n g" "digit_name (fst g)" using d' digits g by auto
    then show "?f (fst g @ INDEX_EXT) = Some (fst g)" "fst g @ INDEX_EXT \<in> set (readdir fs [QUEUE_DIR, n])"
      using find_index_ext [of "fst g"] by (cases g; simp add: group_disk_def digit_name_def readdir_iff)+
  qed
  have "set (FindIndexFiles fs (DEFAULT_QUEUE_PATH @ 47 # n)) = set (map fst gs)"
  proof (intro equalityI subsetI)
    fix b assume "b \<in> set (FindIndexFiles fs (DEFAULT_QUEUE_PATH @ 47 # n))"
    then obtain x where "?f x = Some b" unfolding files in_map_filter by blast
    from some [OF this] show "b \<in> set (map fst gs)" by auto
  next
    fix b assume "b \<in> set (map fst gs)"
    then obtain g where "g \<in> set gs" "b = fst g" by auto
    with all [OF this(1)] show "b \<in> set (FindIndexFiles fs (DEFAULT_QUEUE_PATH @ 47 # n))"
      unfolding files in_map_filter by (intro bexI [of _ "fst g @ INDEX_EXT"]) simp_all
  qed
  moreover have "distinct (FindIndexFiles fs (DEFAULT_QUEUE_PATH @ 47 # n))"
    unfolding files
    by (rule distinct_map_filter_option [OF distinct_readdir]) (use d' some in blast)+
  moreover have "sorted (map fst gs)" "distinct (map fst gs)" using names strict_sorted_iff by blast+
  ultimately show ?thesis by (metis sorted_distinct_set_unique sorted_sort distinct_sort set_sort)
qed

section \<open>A queue on the disk\<close>

text \<open>What is to be remembered of a queue: its attributes, the next durable index, the messages not yet consumed.\<close>

record queue_entry =
  qe_iPriority :: i16
  qe_bDurable :: bool
  qe_bAutoDel :: bool
  qe_next :: int
  qe_live :: "stored_msg list"

definition info_wire :: "bytes \<Rightarrow> queue_entry \<Rightarrow> bytes" where
  "info_wire n e = name_field n @ be16 (qe_iPriority e) @ [flag (qe_bDurable e), flag (qe_bAutoDel e)]"

definition disk_queue :: "file_sys \<Rightarrow> bytes \<Rightarrow> queue_entry \<Rightarrow> msg_log \<Rightarrow> bool" where
  "disk_queue fs n e L \<longleftrightarrow> good_name n \<and> disk_rel n fs (lg_groups L) \<and> log_wf L \<and>
     node_at fs (queue_file n INFO_NAME) = Some (Reg (info_wire n e)) \<and>
     node_at fs (queue_file n SUBSCRIBE_NAME) = None \<and>
     node_at fs (queue_file n OFFSET_NAME) = (if qe_next e = 0 then None else Some (Reg (be32 (word_of_int (qe_next e - 1))))) \<and>
     (\<forall>g\<in>set (lg_groups L). \<forall>m\<in>set (fst (snd g)). good_packet n m) \<and>
     map stored_of (unconsumed L) = qe_live e \<and> lg_next L = qe_next e"

text \<open>The queue that comes back, before and with its messages.\<close>

definition base_queue :: "bytes \<Rightarrow> queue_entry \<Rightarrow> message_queue" where
  "base_queue n e = SetNextDaurableIndex (word_of_int (qe_next e))
     (new_MessageQueue n (qe_iPriority e) (qe_bDurable e) (qe_bAutoDel e))"

definition full_queue :: "bytes \<Rightarrow> queue_entry \<Rightarrow> message_queue" where
  "full_queue n e = foldl AddMessage (base_queue n e) (map restored (qe_live e))"

lemma set_queue_next: "(set_queue a q s)\<lparr>m_iNextAddr := k\<rparr> = set_queue a q (s\<lparr>m_iNextAddr := k\<rparr>)"
  by (simp add: set_queue_def)

lemma fopen_rb_path: "path_of s = Some p \<Longrightarrow> node_at fs p = Some (Reg d) \<Longrightarrow> fopen_rb s fs = Some p"
  "path_of s = Some p \<Longrightarrow> node_at fs p = None \<Longrightarrow> fopen_rb s fs = None"
  by (simp_all add: fopen_rb_def stat_def)

lemma fread_all:
  assumes "node_at fs p = Some (Reg d)" "length d = n" "0 < n" "n \<le> length b"
  shows "fread b 0 n p 0 fs = Some (1, put_at b 0 d, n)"
  using assms by (simp add: fread_def get_at_def)

lemma read_info:
  assumes "good_name n"
  shows "read_name (put_at file_buffer 0 (info_wire n e)) 0 = Some (32, n)"
    "ReadShort (put_at file_buffer 0 (info_wire n e)) 32 = Some (2, qe_iPriority e)"
    "ReadBool (put_at file_buffer 0 (info_wire n e)) 34 = Some (1, qe_bDurable e)"
    "ReadBool (put_at file_buffer 0 (info_wire n e)) 35 = Some (1, qe_bAutoDel e)"
proof -
  have l: "length (name_field n) = 32" "length (info_wire n e) = 36" using assms by (simp_all add: info_wire_def)
  let ?b = "put_at file_buffer 0 (info_wire n e)"
  have b: "?b = info_wire n e @ replicate 988 0" using l
    by (simp add: put_at_def file_buffer_def MAX_RDWR_FILE_BUFF_SIZE_def)
  have g: "get_at ?b k m = get_at (info_wire n e) k m" if "k + m \<le> 36" for k m
    unfolding b using l that by (simp add: get_at_def)
  have lb: "length ?b = 1024" unfolding b using l by simp
  have parts: "get_at (info_wire n e) 0 32 = name_field n" "get_at (info_wire n e) 32 2 = be16 (qe_iPriority e)"
    "info_wire n e ! 34 = flag (qe_bDurable e)" "info_wire n e ! 35 = flag (qe_bAutoDel e)"
    using l(1) by (simp_all add: info_wire_def get_at_def nth_append)
  show "read_name ?b 0 = Some (32, n)" by (rule read_name_field [OF _ _ assms]) (use g [of 0 32] parts lb in simp_all)
  show "ReadShort ?b 32 = Some (2, qe_iPriority e)" using g [of 32 2] parts lb by simp
  have "?b ! 34 = flag (qe_bDurable e)" "?b ! 35 = flag (qe_bAutoDel e)" using parts l unfolding b by (simp_all add: nth_append)
  then show "ReadBool ?b 34 = Some (1, qe_bDurable e)" "ReadBool ?b 35 = Some (1, qe_bAutoDel e)"
    using lb by (simp_all add: flag_def)
qed

lemma restore_queue_run:
  fixes s :: logic_server
  assumes dq: "disk_queue fs n e L"
  defines "a \<equiv> m_iNextAddr s"
  shows "restore_queue fs (DEFAULT_QUEUE_PATH @ 47 # n) s = Some
    (if qe_next e = 0 then set_queue a (new_MessageQueue n (qe_iPriority e) (qe_bDurable e) (qe_bAutoDel e)) (s\<lparr>m_iNextAddr := a + 1\<rparr>)
     else as_unsubscribed n a (set_queue a (base_queue n e) (s\<lparr>m_iNextAddr := a + 1\<rparr>)))"
proof -
  let ?p = "DEFAULT_QUEUE_PATH @ 47 # n"
  note d = dq [unfolded disk_queue_def disk_rel_def]
  have n: "good_name n" "plain n" using d by simp_all
  have paths: "path_of (?p @ INFO_FILE) = Some (queue_file n INFO_NAME)" "path_of (?p @ OFFSET_FILE) = Some (queue_file n OFFSET_NAME)"
    "path_of (?p @ SUBSCRIBE_FILE) = Some (queue_file n SUBSCRIBE_NAME)"
    using path_queue_file(2) [OF n(2)] name_facts(1-3) by (simp_all add: file_names)
  have info: "node_at fs (queue_file n INFO_NAME) = Some (Reg (info_wire n e))" using d by simp
  have len: "length (info_wire n e) = 36" using n(1) by (simp add: info_wire_def)
  have "fread file_buffer 0 36 (queue_file n INFO_NAME) 0 fs = Some (1, put_at file_buffer 0 (info_wire n e), 36)"
    by (rule fread_all [OF info len]) (simp_all add: file_buffer_def MAX_RDWR_FILE_BUFF_SIZE_def)
  note info_reads = this read_info [OF n(1), of e] fopen_rb_path(1) [OF paths(1) info]
  have exist: "IsFileExist fs (?p @ INFO_FILE)" using info paths(1) by (simp add: IsFileExist_def stat_def)
  show ?thesis
  proof (cases "qe_next e = 0")
    case True
    then have "fopen_rb (?p @ OFFSET_FILE) fs = None" using d fopen_rb_path(2) [OF paths(2)] by simp
    then show ?thesis using True info_reads exist
      by (simp add: restore_queue_def Let_def MAX_NAME_LENGTH_def set_queue_next a_def)
  next
    case False
    let ?i = "word_of_int (qe_next e - 1) :: i32"
    have off: "node_at fs (queue_file n OFFSET_NAME) = Some (Reg (be32 ?i))" using d False by simp
    have "fread (replicate 10 0) 0 4 (queue_file n OFFSET_NAME) 0 fs = Some (1, put_at (replicate 10 0) 0 (be32 ?i), 4)"
      by (rule fread_all [OF off]) simp_all
    moreover have "ReadInt (put_at (replicate 10 0) 0 (be32 ?i)) 0 = Some (4, ?i)" by (simp add: buf_simps)
    moreover have "\<not> IsFileExist fs (?p @ SUBSCRIBE_FILE)" using d paths(3) by (simp add: IsFileExist_def stat_def)
    moreover have "?i + 1 = word_of_int (qe_next e)" by simp
    ultimately show ?thesis using False info_reads exist fopen_rb_path(1) [OF paths(2) off]
      by (simp add: restore_queue_def restore_subscribers_def Let_def MAX_NAME_LENGTH_def set_queue_next a_def base_queue_def
          del: of_int_diff)
  qed
qed

section \<open>The start of the logic server\<close>

definition store_disk :: "file_sys \<Rightarrow> (bytes \<rightharpoonup> queue_entry) \<Rightarrow> bool" where
  "store_disk fs M \<longleftrightarrow> distinct (map fst fs) \<and> node_at fs [EXCHANGE_DIR] = None \<and>
     (node_at fs [QUEUE_DIR] = Some Dir \<or> node_at fs [QUEUE_DIR] = None) \<and>
     (\<forall>n. node_at fs [QUEUE_DIR, n] \<noteq> None \<longleftrightarrow> M n \<noteq> None) \<and>
     (\<forall>n e. M n = Some e \<longrightarrow> (\<exists>L. disk_queue fs n e L))"

text \<open>The server has the queues of \<open>M\<close> among \<open>D\<close> that have had a message, with the contents \<open>Q\<close>, and no others.\<close>

definition serves :: "(bytes \<Rightarrow> queue_entry \<Rightarrow> message_queue) \<Rightarrow> bytes set \<Rightarrow> (bytes \<rightharpoonup> queue_entry) \<Rightarrow> logic_server \<Rightarrow> bool" where
  "serves Q D M s \<longleftrightarrow> m_mSubcribeQueues s = [] \<and>
     (\<forall>n a. map_of (m_mUnSubcribeQueues s) n = Some a \<longrightarrow> a < m_iNextAddr s \<and> n \<in> D \<and>
        (\<exists>e. M n = Some e \<and> qe_next e \<noteq> 0 \<and> m_queues s a = Some (Q n e))) \<and>
     (\<forall>n\<in>D. \<forall>e. M n = Some e \<and> qe_next e \<noteq> 0 \<longrightarrow> map_of (m_mUnSubcribeQueues s) n \<noteq> None) \<and>
     (\<forall>m n a. map_of (m_mUnSubcribeQueues s) m = Some a \<and> map_of (m_mUnSubcribeQueues s) n = Some a \<longrightarrow> m = n)"

lemma serves_new_address:
  assumes "serves Q D M s"
  shows "serves Q D M (set_queue (m_iNextAddr s) q (s\<lparr>m_iNextAddr := m_iNextAddr s + 1\<rparr>))"
  using assms unfolding serves_def set_queue_def by (auto, (force dest: less_SucI)+)

lemma serves_new_queue:
  assumes s: "serves Q D M s" and n: "n \<notin> D" "M n = Some e" "qe_next e \<noteq> 0"
  shows "serves Q (insert n D) M (as_unsubscribed n (m_iNextAddr s) (set_queue (m_iNextAddr s) (Q n e) (s\<lparr>m_iNextAddr := m_iNextAddr s + 1\<rparr>)))"
    (is "serves Q _ M ?s")
proof -
  note s' = s [unfolded serves_def]
  have m: "map_of (m_mUnSubcribeQueues ?s) k = (if k = n then Some (m_iNextAddr s) else map_of (m_mUnSubcribeQueues s) k)" for k
    by (simp add: as_unsubscribed_def set_queue_def)
  have old: "a < m_iNextAddr s \<and> k \<in> D \<and> (\<exists>e. M k = Some e \<and> qe_next e \<noteq> 0 \<and> m_queues s a = Some (Q k e))"
    if "map_of (m_mUnSubcribeQueues s) k = Some a" for k a using s' that by simp
  have q: "m_queues ?s a = (if a = m_iNextAddr s then Some (Q n e) else m_queues s a)" "m_iNextAddr ?s = m_iNextAddr s + 1"
    "m_mSubcribeQueues ?s = []" for a
    using s' by (simp_all add: as_unsubscribed_def set_queue_def)
  show ?thesis unfolding serves_def
  proof (intro conjI allI impI ballI)
    show "m_mSubcribeQueues ?s = []" by (rule q)
  next
    fix k a assume a: "map_of (m_mUnSubcribeQueues ?s) k = Some a"
    show "a < m_iNextAddr ?s" using a old [of k a] unfolding m q by (auto split: if_splits)
    show "k \<in> insert n D" using a old [of k a] unfolding m by (auto split: if_splits)
    show "\<exists>e. M k = Some e \<and> qe_next e \<noteq> 0 \<and> m_queues ?s a = Some (Q k e)"
      using a old [of k a] n unfolding m q by (cases "k = n") auto
  next
    fix k e' assume "k \<in> insert n D" "M k = Some e' \<and> qe_next e' \<noteq> 0"
    then show "map_of (m_mUnSubcribeQueues ?s) k \<noteq> None" using s' unfolding m by auto
  next
    fix k l a assume "map_of (m_mUnSubcribeQueues ?s) k = Some a \<and> map_of (m_mUnSubcribeQueues ?s) l = Some a"
    then show "k = l" using s' old [of k a] old [of l a] unfolding m by (auto split: if_splits)
  qed
qed

lemma serves_skip: "serves Q D M s \<Longrightarrow> M n = Some e \<Longrightarrow> qe_next e = 0 \<Longrightarrow> serves Q (insert n D) M s"
  unfolding serves_def by auto

lemma dir_of_queue: "disk_queue fs n e L \<Longrightarrow> stat fs (DEFAULT_QUEUE_PATH @ 47 # n) = Some Dir"
  using path_queue_file(3) [of n] by (simp add: disk_queue_def disk_rel_def stat_def)

lemma init_queues:
  assumes "distinct ds" "serves base_queue D M s" "\<forall>d\<in>set ds. d \<notin> D \<and> (\<exists>e L. M d = Some e \<and> disk_queue fs d e L)"
  shows "\<exists>s'. each_dir (restore_queue fs) fs DEFAULT_QUEUE_PATH ds s = Some s' \<and> serves base_queue (D \<union> set ds) M s' \<and>
    m_mExchanges s' = m_mExchanges s"
  using assms
proof (induction ds arbitrary: D s)
  case (Cons d ds)
  obtain e L where d: "M d = Some e" "disk_queue fs d e L" "d \<notin> D" using Cons.prems(3) by auto
  obtain s1 where s1: "restore_queue fs (DEFAULT_QUEUE_PATH @ 47 # d) s = Some s1" "serves base_queue (insert d D) M s1"
    "m_mExchanges s1 = m_mExchanges s"
    using restore_queue_run [OF d(2), of s] serves_skip [OF serves_new_address [OF Cons.prems(2)] d(1)]
      serves_new_queue [OF Cons.prems(2) d(3,1)]
    by (cases "qe_next e = 0") (auto simp: as_unsubscribed_def set_queue_def)
  have "\<exists>s'. each_dir (restore_queue fs) fs DEFAULT_QUEUE_PATH ds s1 = Some s' \<and> serves base_queue (insert d D \<union> set ds) M s' \<and>
      m_mExchanges s' = m_mExchanges s1"
    by (rule Cons.IH) (use Cons.prems s1 in auto)
  then show ?case using s1 dir_of_queue [OF d(2)] by auto
qed simp

text \<open>The queues in \<open>P\<close> have their messages already.\<close>

definition partly :: "bytes set \<Rightarrow> bytes \<Rightarrow> queue_entry \<Rightarrow> message_queue" where
  "partly P n e = (if n \<in> P then full_queue n e else base_queue n e)"

lemma restored_unconsumed:
  assumes "disk_queue fs n e L"
  shows "restored_group (concat (map left_over (lg_groups L))) = map restored (qe_live e)"
proof -
  have "map stored_of (concat (map left_over (lg_groups L))) = qe_live e"
    using assms unfolding disk_queue_def unconsumed_def by blast
  then show ?thesis unfolding restored_group_def by (metis map_map)
qed

lemma no_groups:
  assumes d: "disk_queue fs n e L" "qe_next e = 0"
  shows "lg_groups L = []"
proof (rule ccontr)
  assume "lg_groups L \<noteq> []"
  then have g: "hd (lg_groups L) \<in> set (lg_groups L)" by simp
  have wf: "log_wf L" "lg_next L = 0" using d unfolding disk_queue_def by auto
  then have "group_wf (hd (lg_groups L))" using g by (simp add: log_wf_def)
  from group_head [OF this g] obtain i where "i \<in> set (indices (lg_groups L))" by blast
  then have "0 \<le> sint i \<and> sint i < lg_next L" using wf(1) unfolding log_wf_def by blast
  then show False using wf(2) by linarith
qed

lemma serves_fill:
  assumes s: "serves (partly P) D M s" and n: "M n = Some e" "map_of (m_mUnSubcribeQueues s) n = Some a"
  shows "serves (partly (insert n P)) D M (set_queue a (full_queue n e) s)"
proof -
  note s' = s [unfolded serves_def]
  have "\<exists>e'. M k = Some e' \<and> qe_next e' \<noteq> 0 \<and> m_queues (set_queue a (full_queue n e) s) b = Some (partly (insert n P) k e')"
    if k: "map_of (m_mUnSubcribeQueues s) k = Some b" for k b
  proof -
    obtain e' where e': "M k = Some e'" "qe_next e' \<noteq> 0" "m_queues s b = Some (partly P k e')" using s' k by blast
    show ?thesis
    proof (cases "k = n")
      case True
      then show ?thesis using e' n k by (simp add: partly_def)
    next
      case False
      then have "b \<noteq> a" using s' k n(2) by blast
      then show ?thesis using e' False by (simp add: partly_def)
    qed
  qed
  moreover have "m_mUnSubcribeQueues (set_queue a (full_queue n e) s) = m_mUnSubcribeQueues s"
    "m_iNextAddr (set_queue a (full_queue n e) s) = m_iNextAddr s"
    "m_mSubcribeQueues (set_queue a (full_queue n e) s) = m_mSubcribeQueues s" by (simp_all add: set_queue_def)
  ultimately show ?thesis using s' unfolding serves_def by (simp del: set_queue_reads)
qed

lemma restore_queue_msgs:
  assumes d: "disk_queue fs n e L" and s: "serves (partly P) D M s" and n: "M n = Some e" "n \<in> D" "n \<notin> P"
  shows "\<exists>s'. restore_files fs (DEFAULT_QUEUE_PATH @ 47 # n) (sort (FindIndexFiles fs (DEFAULT_QUEUE_PATH @ 47 # n))) s = Some s' \<and>
    serves (partly (insert n P)) D M s' \<and> m_mExchanges s' = m_mExchanges s"
proof -
  note dq = d [unfolded disk_queue_def]
  have wf: "log_wf L" and good: "good_name n" "plain n" using dq by (simp_all add: disk_rel_def)
  have digits: "\<forall>g\<in>set (lg_groups L). digit_name (fst g)" using group_of_name [OF wf] by auto
  have sorted: "sort (FindIndexFiles fs (DEFAULT_QUEUE_PATH @ 47 # n)) = map fst (lg_groups L)"
    using found_index_files [OF _ log_names_less [OF wf] digits] dq by simp
  show ?thesis
  proof (cases "qe_next e = 0")
    case True
    then have "serves (partly (insert n P)) D M s" using s n unfolding serves_def partly_def by fastforce
    then show ?thesis unfolding sorted no_groups [OF d True] by simp
  next
    case False
    note s' = s [unfolded serves_def]
    obtain a where a: "map_of (m_mUnSubcribeQueues s) n = Some a" using s' n False by auto
    then obtain e' where "M n = Some e'" "m_queues s a = Some (partly P n e')" using s' by blast
    then have q: "m_queues s a = Some (base_queue n e)" using n by (simp add: partly_def)
    have "known_queue s n = Some a" using s' a by (simp add: known_queue_def)
    moreover have "\<forall>g\<in>set (lg_groups L). group_wf g \<and> group_disk fs n g \<and> digit_name (fst g) \<and> (\<forall>m\<in>set (fst (snd g)). good_packet n m)"
      using wf digits dq by (simp add: log_wf_def disk_rel_def)
    ultimately have "restore_files fs (DEFAULT_QUEUE_PATH @ 47 # n) (map fst (lg_groups L)) s = Some (set_queue a (full_queue n e) s)"
      using restore_groups [OF good _ _ q] restored_unconsumed [OF d] by (simp add: full_queue_def)
    moreover have "serves (partly (insert n P)) D M (set_queue a (full_queue n e) s)"
      by (rule serves_fill [OF s n(1) a])
    moreover have "m_mExchanges (set_queue a (full_queue n e) s) = m_mExchanges s" by (simp add: set_queue_def)
    ultimately show ?thesis unfolding sorted by blast
  qed
qed

lemma init_msgs:
  assumes "distinct ds" "serves (partly P) D M s" "\<forall>d\<in>set ds. d \<notin> P \<and> d \<in> D \<and> (\<exists>e L. M d = Some e \<and> disk_queue fs d e L)"
  shows "\<exists>s'. each_dir (\<lambda>sub_path. restore_files fs sub_path (sort (FindIndexFiles fs sub_path))) fs DEFAULT_QUEUE_PATH ds s = Some s' \<and>
    serves (partly (P \<union> set ds)) D M s' \<and> m_mExchanges s' = m_mExchanges s"
  using assms
proof (induction ds arbitrary: P s)
  case (Cons d ds)
  obtain e L where d: "M d = Some e" "disk_queue fs d e L" "d \<notin> P" "d \<in> D" using Cons.prems(3) by auto
  obtain s1 where s1: "restore_files fs (DEFAULT_QUEUE_PATH @ 47 # d) (sort (FindIndexFiles fs (DEFAULT_QUEUE_PATH @ 47 # d))) s = Some s1"
    "serves (partly (insert d P)) D M s1" "m_mExchanges s1 = m_mExchanges s"
    using restore_queue_msgs [OF d(2) Cons.prems(2) d(1,4,3)] by blast
  have "\<exists>s'. each_dir (\<lambda>sub_path. restore_files fs sub_path (sort (FindIndexFiles fs sub_path))) fs DEFAULT_QUEUE_PATH ds s1 = Some s' \<and>
      serves (partly (insert d P \<union> set ds)) D M s' \<and> m_mExchanges s' = m_mExchanges s1"
    by (rule Cons.IH) (use Cons.prems s1 in auto)
  then show ?case using s1 dir_of_queue [OF d(2)] by auto
qed simp

lemma exchange_path: "path_of DEFAULT_EXCHANGE_PATH = Some [EXCHANGE_DIR]"
  using default_paths(4) by (simp add: path_of_def default_paths(2) components_slash plain_def)

lemma serves_cong: "(\<And>n e. M n = Some e \<Longrightarrow> Q n e = Q' n e) \<Longrightarrow> serves Q D M s = serves Q' D M s"
  unfolding serves_def by (simp cong: conj_cong)

lemma no_queue_dir:
  assumes d: "store_disk fs M" and none: "node_at fs [QUEUE_DIR] = None"
  shows "{n. M n \<noteq> None} = {}"
proof -
  have False if m: "M n = Some e" for n e
  proof -
    obtain L where "disk_queue fs n e L" using d m unfolding store_disk_def by blast
    then show False using none by (simp add: disk_queue_def disk_rel_def)
  qed
  then show ?thesis by blast
qed

lemma serves_none: "serves Q {} M (new_LogicServer t f p)"
  by (simp add: serves_def new_LogicServer_def)

text \<open>All queues that have had a message come back with the messages that have not been consumed.\<close>

lemma OnInit_restores:
  assumes "store_disk fs M"
  shows "\<exists>s'. OnInit fs (new_LogicServer t f p) = Some (SUCCESS, s') \<and>
    serves full_queue {n. M n \<noteq> None} M s' \<and> m_mExchanges s' = []"
proof -
  let ?s = "new_LogicServer t f p" and ?ds = "readdir fs [QUEUE_DIR]" and ?D = "{n. M n \<noteq> None}"
  note d = assms [unfolded store_disk_def]
  have kind: "node_at fs [QUEUE_DIR] = Some Dir \<or> node_at fs [QUEUE_DIR] = None" using d by (elim conjE)
  have ds: "set ?ds = ?D" using d by (auto simp: readdir_iff)
  have dist: "distinct ?ds" using d by (simp add: distinct_readdir)
  have queues: "\<forall>d\<in>set ?ds. \<exists>e L. M d = Some e \<and> disk_queue fs d e L" using d ds by auto
  obtain r1 s1 where s1: "OnInitQueue fs ?s = Some (r1, s1)" "serves base_queue ?D M s1" "m_mExchanges s1 = []"
  proof (cases "node_at fs [QUEUE_DIR] = None")
    case True
    then have "OnInitQueue fs ?s = Some (ERROR, ?s)"
      by (simp add: OnInitQueue_def walk_dirs_def IsFileExist_def stat_def path_queue_dir)
    moreover have "?D = {}" by (rule no_queue_dir [OF assms True])
    ultimately show thesis using that serves_none [of base_queue M] by (simp add: new_LogicServer_def)
  next
    case False
    then have dir: "node_at fs [QUEUE_DIR] = Some Dir" using kind by (elim disjE) simp_all
    have "\<exists>s'. each_dir (restore_queue fs) fs DEFAULT_QUEUE_PATH ?ds ?s = Some s' \<and> serves base_queue ({} \<union> set ?ds) M s' \<and>
        m_mExchanges s' = m_mExchanges ?s"
      by (rule init_queues [OF dist serves_none]) (use queues in auto)
    then show thesis using that dir ds
      by (auto simp: OnInitQueue_def walk_dirs_def IsFileExist_def stat_def path_queue_dir new_LogicServer_def)
  qed
  have ex: "OnInitExchange fs s1 = Some (ERROR, s1)"
    using d by (simp add: OnInitExchange_def walk_dirs_def IsFileExist_def stat_def exchange_path)
  have none: "partly {} = base_queue" by (simp add: partly_def fun_eq_iff)
  obtain r2 s2 where s2: "OnInitMsg fs s1 = Some (r2, s2)" "serves (partly ?D) ?D M s2" "m_mExchanges s2 = []"
  proof (cases "node_at fs [QUEUE_DIR] = None")
    case True
    then have "OnInitMsg fs s1 = Some (ERROR, s1)" by (simp add: OnInitMsg_def walk_dirs_def IsFileExist_def stat_def path_queue_dir)
    moreover have "?ds = []" using no_queue_dir [OF assms True] ds by simp
    ultimately show thesis using that s1 ds none by simp
  next
    case False
    then have dir: "node_at fs [QUEUE_DIR] = Some Dir" using kind by (elim disjE) simp_all
    have "\<exists>s'. each_dir (\<lambda>sub_path. restore_files fs sub_path (sort (FindIndexFiles fs sub_path))) fs DEFAULT_QUEUE_PATH ?ds s1 = Some s' \<and>
        serves (partly ({} \<union> set ?ds)) ?D M s' \<and> m_mExchanges s' = m_mExchanges s1"
      by (rule init_msgs [OF dist]) (use s1(2) queues ds none in auto)
    then show thesis using that dir ds s1(3)
      by (auto simp: OnInitMsg_def walk_dirs_def IsFileExist_def stat_def path_queue_dir)
  qed
  have "serves full_queue ?D M s2"
    using s2(2) serves_cong [of M "partly ?D" full_queue] by (simp add: partly_def)
  then show ?thesis using s1(1) ex s2 by (simp add: OnInit_def)
qed

end
