(* ===== verification/Persis_Ops.thy ===== *)
theory Persis_Ops
  imports Recover_Disk
begin

text \<open>
  The packets that the logic server sends to the persistence server for a durable queue, as operations on
  what is to be remembered; the server performs each of them on its files.
\<close>

section \<open>Runs\<close>

fun run_all :: "('o \<Rightarrow> 's \<Rightarrow> 's option) \<Rightarrow> 'o list \<Rightarrow> 's \<Rightarrow> 's option" where
  "run_all exec [] s = Some s"
| "run_all exec (x # xs) s = do { s \<leftarrow> exec x s; run_all exec xs s }"

fun all_ok :: "('o \<Rightarrow> 'a \<Rightarrow> bool) \<Rightarrow> ('o \<Rightarrow> 'a \<Rightarrow> 'a) \<Rightarrow> 'o list \<Rightarrow> 'a \<Rightarrow> bool" where
  "all_ok ok spec [] a = True"
| "all_ok ok spec (x # xs) a \<longleftrightarrow> ok x a \<and> all_ok ok spec xs (spec x a)"

locale run_refinement =
  fixes exec :: "'o \<Rightarrow> 's \<Rightarrow> 's option" and ok :: "'o \<Rightarrow> 'a \<Rightarrow> bool" and spec :: "'o \<Rightarrow> 'a \<Rightarrow> 'a" and rel :: "'s \<Rightarrow> 'a \<Rightarrow> bool"
  assumes step: "rel s a \<Longrightarrow> ok x a \<Longrightarrow> \<exists>s'. exec x s = Some s' \<and> rel s' (spec x a)"
begin

lemma run: "rel s a \<Longrightarrow> all_ok ok spec xs a \<Longrightarrow> \<exists>s'. run_all exec xs s = Some s' \<and> rel s' (fold spec xs a)"
proof (induction xs arbitrary: s a)
  case (Cons x xs)
  have "ok x a" using Cons.prems(2) by simp
  from step [OF Cons.prems(1) this] obtain s' where s': "exec x s = Some s'" "rel s' (spec x a)" by blast
  from Cons.IH [OF this(2)] Cons.prems s'(1) show ?case by auto
qed simp

end

section \<open>The operations\<close>

datatype persis_op =
    CreateQ bytes i16 bool bool
  | Publish bytes stored_msg
  | Consume u16 bytes i32

fun op_wire :: "persis_op \<Rightarrow> bytes" where
  "op_wire (CreateQ n p d a) = be16 40 @ be16 CMD_CREATE_QUEUE @ name_field n @ be16 p @ [flag d, flag a]"
| "op_wire (Publish n (i, p, body)) = durable_wire n i p body"
| "op_wire (Consume c n i) = be16 40 @ be16 c @ name_field n @ be32 i"

text \<open>The buffer of the main loop with a packet in it.\<close>

definition packet_buffer :: "bytes \<Rightarrow> bytes" where
  "packet_buffer w = put_at (replicate MAX_CLINT_PACKAGE_LENGTH 0) 0 w"

definition perform :: "persis_op \<Rightarrow> persistence_server \<Rightarrow> persistence_server option" where
  "perform x s = persis_packet (packet_buffer (op_wire x)) (int (length (op_wire x))) s"

type_synonym store = "bytes \<rightharpoonup> queue_entry"

fun op_ok :: "persis_op \<Rightarrow> store \<Rightarrow> bool" where
  "op_ok (CreateQ n p d a) M \<longleftrightarrow> good_name n \<and> plain n \<and> M n = None"
| "op_ok (Publish n m) M \<longleftrightarrow> (case M n of None \<Rightarrow> False | Some e \<Rightarrow> qe_next e \<le> sint (fst m) \<and> fits m)"
| "op_ok (Consume c n i) M \<longleftrightarrow> c \<in> {CMD_CREATE_RECV, CMD_SERVER_PUSH_MESSAGE, CMD_CLIENT_ACK_MESSAGE} \<and>
     (case M n of None \<Rightarrow> False | Some e \<Rightarrow> i \<in> fst ` set (qe_live e))"

definition new_entry :: "i16 \<Rightarrow> bool \<Rightarrow> bool \<Rightarrow> queue_entry" where
  "new_entry p d a = \<lparr>qe_iPriority = p, qe_bDurable = d, qe_bAutoDel = a, qe_next = 0, qe_live = []\<rparr>"

fun op_spec :: "persis_op \<Rightarrow> store \<Rightarrow> store" where
  "op_spec (CreateQ n p d a) M = M(n \<mapsto> new_entry p d a)"
| "op_spec (Publish n m) M =
     M(n := map_option (\<lambda>e. e\<lparr>qe_next := sint (fst m) + 1, qe_live := qe_live e @ [m]\<rparr>) (M n))"
| "op_spec (Consume c n i) M =
     M(n := map_option (\<lambda>e. e\<lparr>qe_live := filter (\<lambda>m. fst m \<noteq> i) (qe_live e)\<rparr>) (M n))"

section \<open>The relation\<close>

definition queue_rel :: "persistence_server \<Rightarrow> bytes \<Rightarrow> queue_entry \<Rightarrow> bool" where
  "queue_rel s n e \<longleftrightarrow> (\<exists>L. disk_queue (ps_fs s) n e L \<and> map_rel n s L)"

definition no_queue :: "persistence_server \<Rightarrow> bytes \<Rightarrow> bool" where
  "no_queue s n \<longleftrightarrow> node_at (ps_fs s) [QUEUE_DIR, n] = None \<and> (\<forall>x. node_at (ps_fs s) (queue_file n x) = None) \<and>
     map_of (m_mMsgQueueTailFile s) n = None \<and> map_at (m_mMsgQueueList s) n = [] \<and> map_at (m_mMsgQueueIndexFile s) n = []"

definition store_rel :: "persistence_server \<Rightarrow> store \<Rightarrow> bool" where
  "store_rel s M \<longleftrightarrow> distinct (map fst (ps_fs s)) \<and> node_at (ps_fs s) [EXCHANGE_DIR] = None \<and>
     (node_at (ps_fs s) [QUEUE_DIR] = Some Dir \<or> node_at (ps_fs s) [QUEUE_DIR] = None) \<and>
     (\<forall>n. case M n of None \<Rightarrow> no_queue s n | Some e \<Rightarrow> queue_rel s n e)"

lemma queue_rel_dir: "queue_rel s n e \<Longrightarrow> node_at (ps_fs s) [QUEUE_DIR] = Some Dir \<and> node_at (ps_fs s) [QUEUE_DIR, n] = Some Dir"
  by (auto simp: queue_rel_def disk_queue_def disk_rel_def)

lemma store_rel_at:
  assumes "store_rel s M"
  shows "M n = None \<Longrightarrow> no_queue s n" "M n = Some e \<Longrightarrow> queue_rel s n e"
proof -
  have "case M n of None \<Rightarrow> no_queue s n | Some e \<Rightarrow> queue_rel s n e" using assms unfolding store_rel_def by blast
  then show "M n = None \<Longrightarrow> no_queue s n" "M n = Some e \<Longrightarrow> queue_rel s n e" by simp_all
qed

lemma store_rel_disk:
  assumes r: "store_rel s M"
  shows "store_disk (ps_fs s) M"
proof -
  have "node_at (ps_fs s) [QUEUE_DIR, n] \<noteq> None \<longleftrightarrow> M n \<noteq> None" for n
    using store_rel_at [OF r, of n] queue_rel_dir [of s n] by (cases "M n") (simp_all add: no_queue_def)
  moreover have "\<exists>L. disk_queue (ps_fs s) n e L" if "M n = Some e" for n e
    using store_rel_at(2) [OF r that] unfolding queue_rel_def by blast
  ultimately show ?thesis using r unfolding store_disk_def store_rel_def
    by (elim conjE) (intro conjI allI impI; simp)
qed

text \<open>A queue is represented by its part of the disk and of the maps.\<close>

definition same_part :: "bytes \<Rightarrow> persistence_server \<Rightarrow> persistence_server \<Rightarrow> bool" where
  "same_part n s s' \<longleftrightarrow> distinct (map fst (ps_fs s')) \<and>
     node_at (ps_fs s') [QUEUE_DIR, n] = node_at (ps_fs s) [QUEUE_DIR, n] \<and>
     (\<forall>x. node_at (ps_fs s') (queue_file n x) = node_at (ps_fs s) (queue_file n x)) \<and>
     map_of (m_mMsgQueueTailFile s') n = map_of (m_mMsgQueueTailFile s) n \<and>
     map_at (m_mMsgQueueList s') n = map_at (m_mMsgQueueList s) n \<and>
     map_at (m_mMsgQueueIndexFile s') n = map_at (m_mMsgQueueIndexFile s) n"

lemma queue_rel_part: "queue_rel s n e \<Longrightarrow> same_part n s s' \<Longrightarrow> node_at (ps_fs s') [QUEUE_DIR] = Some Dir \<Longrightarrow> queue_rel s' n e"
  unfolding queue_rel_def disk_queue_def disk_rel_def map_rel_def group_disk_def same_part_def by simp

lemma no_queue_part: "no_queue s n \<Longrightarrow> same_part n s s' \<Longrightarrow> no_queue s' n"
  unfolding no_queue_def same_part_def by simp

lemma store_rel_step:
  assumes r: "store_rel s M" and new: "queue_rel s' n e" and other: "\<And>m. m \<noteq> n \<Longrightarrow> same_part m s s'"
    and ex: "node_at (ps_fs s') [EXCHANGE_DIR] = None" and dist: "distinct (map fst (ps_fs s'))"
  shows "store_rel s' (M(n \<mapsto> e))"
proof -
  have dir: "node_at (ps_fs s') [QUEUE_DIR] = Some Dir" using queue_rel_dir [OF new] by simp
  have "case M m of None \<Rightarrow> no_queue s' m | Some e \<Rightarrow> queue_rel s' m e" if "m \<noteq> n" for m
    using store_rel_at [OF r, of m] no_queue_part [OF _ other [OF that]] queue_rel_part [OF _ other [OF that] dir]
    by (cases "M m") simp_all
  then show ?thesis using new dir ex dist by (simp add: store_rel_def)
qed

lemma same_elsewhere_part: "same_elsewhere n s s' \<Longrightarrow> m \<noteq> n \<Longrightarrow> distinct (map fst (ps_fs s)) \<Longrightarrow> same_part m s s'"
  by (simp add: same_elsewhere_def same_part_def map_at_def)

lemma same_elsewhere_exchange: "same_elsewhere n s s' \<Longrightarrow> node_at (ps_fs s') [EXCHANGE_DIR] = node_at (ps_fs s) [EXCHANGE_DIR]"
  by (simp add: same_elsewhere_def)

section \<open>The main loop finds the handler\<close>

lemma packet_read:
  assumes "length w \<le> MAX_CLINT_PACKAGE_LENGTH"
  shows "length (packet_buffer w) = MAX_CLINT_PACKAGE_LENGTH"
    "k + m \<le> length w \<Longrightarrow> get_at (packet_buffer w) k m = get_at w k m"
    "take (length w) (packet_buffer w) = w"
  using assms by (simp_all add: packet_buffer_def put_at_def get_at_def)

lemma packet_head:
  assumes w: "w = be16 (word_of_nat (length w)) @ be16 c @ rest" and len: "length w \<le> MAX_CLINT_PACKAGE_LENGTH"
  shows "persis_packet (packet_buffer w) (int (length w)) s =
    map_option snd (persis_command c (packet_buffer w) 4 (int (length w)) s)"
proof -
  have l: "4 \<le> length w" by (subst w) simp
  have "get_at w 0 2 = be16 (word_of_nat (length w))" "get_at w 2 2 = be16 c"
    by (subst w, simp add: get_at_def)+
  then have "ReadShort (packet_buffer w) 0 = Some (2, word_of_nat (length w))" "ReadShort (packet_buffer w) 2 = Some (2, c)"
    using packet_read(1,2) [OF len] l len by (simp_all add: size_defs)
  moreover have "uint (word_of_nat (length w) :: u16) = int (length w)"
    using len by (simp add: size_defs unsigned_of_nat take_bit_nat_eq_self)
  ultimately show ?thesis using l by (simp add: persis_packet_def Let_def map_option_case split_beta split: option.split)
qed

lemma packet_name:
  assumes w: "w = be16 l @ be16 c @ name_field n @ rest" and len: "length w \<le> MAX_CLINT_PACKAGE_LENGTH" and n: "good_name n"
  shows "read_name (packet_buffer w) 4 = Some (32, n)"
    "4 \<le> length rest \<Longrightarrow> ReadInt (packet_buffer w) 36 = Some (4, un_be32 (take 4 rest))"
proof -
  have nf: "length (name_field n) = 32" using n by simp
  have l: "length w = 36 + length rest" unfolding w using nf by simp
  have "get_at w 4 32 = name_field n" unfolding w using nf by (simp add: get_at_def)
  then show "read_name (packet_buffer w) 4 = Some (32, n)"
    using packet_read(1,2) [OF len] l len n by (intro read_name_field) simp_all
  assume "4 \<le> length rest"
  moreover have "get_at w 36 4 = take 4 rest" unfolding w using nf by (simp add: get_at_def)
  ultimately show "ReadInt (packet_buffer w) 36 = Some (4, un_be32 (take 4 rest))"
    using packet_read(1,2) [OF len] l len by simp
qed

section \<open>A new directory\<close>

lemma make_dir_loop_name: "47 \<notin> set n \<Longrightarrow> make_dir_loop c n fs = (SUCCESS, fs)"
  by (induction n arbitrary: c) auto

lemma CheckDir_SUCCESS: "CheckDir s fs = (SUCCESS, snd (CheckDir s fs))"
  by (simp add: CheckDir_def split: option.split)

lemma make_dir_loop_slash:
  "47 \<notin> set n \<Longrightarrow> c @ n \<noteq> [] \<Longrightarrow>
   make_dir_loop c (n @ 47 # r) fs = make_dir_loop (c @ n @ [47]) r (snd (CheckDir (c @ n @ [47]) fs))"
proof (induction n arbitrary: c)
  case Nil
  have "fst (CheckDir (c @ [47]) fs) = SUCCESS" by (subst CheckDir_SUCCESS) simp
  with Nil show ?case by (simp add: Let_def split_beta)
qed simp

lemma directories_differ [simp]: "QUEUE_DIR \<noteq> EXCHANGE_DIR" "EXCHANGE_DIR \<noteq> QUEUE_DIR"
  by code_simp+

lemma MakeDir_queue:
  assumes n: "plain n" "length n < MAX_NAME_LENGTH" and q: "node_at fs [QUEUE_DIR] = Some Dir \<or> node_at fs [QUEUE_DIR] = None"
    and none: "node_at fs [QUEUE_DIR, n] = None"
  shows "\<exists>fs'. MakeDir (DEFAULT_QUEUE_PATH @ n) fs = Some (SUCCESS, fs') \<and>
    (\<forall>p. node_at fs' p = (if p = [QUEUE_DIR] \<or> p = [QUEUE_DIR, n] then Some Dir else node_at fs p)) \<and>
    (distinct (map fst fs) \<longrightarrow> distinct (map fst fs'))"
proof -
  let ?f1 = "if node_at fs [QUEUE_DIR] = None then AList.update [QUEUE_DIR] Dir fs else fs"
  have np: "47 \<notin> set n" "n \<noteq> []" using n(1) by (simp_all add: plain_def)
  then have "last n \<noteq> 47" using last_in_set [of n] by metis
  have Q: "47 \<notin> set QUEUE_DIR" using default_paths(3) by (simp add: plain_def)
  have path: "path_of [46, 47] = Some []" by code_simp
  have root: "CheckDir [46, 47] fs = (SUCCESS, fs)" by (simp add: CheckDir_def stat_def path node_at_def)
  have dir: "CheckDir DEFAULT_QUEUE_PATH fs = (SUCCESS, ?f1)"
    by (simp add: CheckDir_def stat_def path_queue_dir mkdir_def node_at_def)
  have "make_dir_loop [] (DEFAULT_QUEUE_PATH @ n) fs = (SUCCESS, ?f1)"
    using make_dir_loop_slash [of "[46]" "[]" "QUEUE_DIR @ 47 # n" fs] make_dir_loop_slash [OF Q, of "[46, 47]" n fs]
      make_dir_loop_name [OF np(1)] root dir
    by (simp add: default_paths(1))
  moreover have "node_at ?f1 [QUEUE_DIR, n] = None" "node_at ?f1 [QUEUE_DIR] = Some Dir"
    using none q by (auto simp: fs_simps)
  then have "CheckDir (DEFAULT_QUEUE_PATH @ n) ?f1 = (SUCCESS, AList.update [QUEUE_DIR, n] Dir ?f1)"
    by (simp add: CheckDir_def stat_def path_queue [OF n(1)] mkdir_def)
  moreover have "length (DEFAULT_QUEUE_PATH @ n) \<le> 512" using n(2) by (simp add: default_paths(1) QUEUE_DIR_def bytes_of_def size_defs)
  ultimately have "MakeDir (DEFAULT_QUEUE_PATH @ n) fs = Some (SUCCESS, AList.update [QUEUE_DIR, n] Dir ?f1)"
    using np(2) \<open>last n \<noteq> 47\<close> by (simp add: MakeDir_def default_paths(1))
  moreover have "node_at (AList.update [QUEUE_DIR, n] Dir ?f1) p = (if p = [QUEUE_DIR] \<or> p = [QUEUE_DIR, n] then Some Dir else node_at fs p)" for p
    using q by (auto simp: fs_simps)
  ultimately show ?thesis by (simp add: distinct_update)
qed

end
