(* ===== verification/Persis_Step.thy ===== *)
theory Persis_Step
  imports Persis_Ops
begin

text \<open>
  Each packet is performed on the files as its operation says.
\<close>

section \<open>A new queue\<close>

lemma queue_rel_new:
  assumes n: "good_name n" "plain n" and none: "no_queue s n" and maps: "m_mMsgQueueTailFile s' = m_mMsgQueueTailFile s"
      "m_mMsgQueueList s' = m_mMsgQueueList s" "m_mMsgQueueIndexFile s' = m_mMsgQueueIndexFile s"
    and dist: "distinct (map fst (ps_fs s'))"
    and fs: "\<And>p. node_at (ps_fs s') p = (if p = queue_file n INFO_NAME then Some (Reg (info_wire n (new_entry pr d a)))
        else if p = [QUEUE_DIR] \<or> p = [QUEUE_DIR, n] then Some Dir else node_at (ps_fs s) p)"
  shows "queue_rel s' n (new_entry pr d a)"
proof -
  have "x \<noteq> INFO_NAME" if "find_sub INDEX_EXT x = Some p" for x p using that name_facts(8) by auto
  then have "disk_queue (ps_fs s') n (new_entry pr d a) empty_log"
    using n none dist by (auto simp: disk_queue_def disk_rel_def fs no_queue_def empty_log_def log_wf_def unconsumed_def new_entry_def)
  moreover have "map_rel n s' empty_log" using none maps by (simp add: no_queue_def map_rel_def empty_log_def)
  ultimately show ?thesis by (auto simp: queue_rel_def)
qed

lemma create_step:
  assumes r: "store_rel s M" and ok: "op_ok (CreateQ n pr d a) M"
  shows "\<exists>s'. perform (CreateQ n pr d a) s = Some s' \<and> ps_pQueueFromLogic s' = ps_pQueueFromLogic s \<and> store_rel s' (op_spec (CreateQ n pr d a) M)"
proof -
  let ?w = "op_wire (CreateQ n pr d a)" and ?e = "new_entry pr d a" and ?fs = "ps_fs s" and ?q = "DEFAULT_QUEUE_PATH @ n"
  have n: "good_name n" "plain n" "M n = None" using ok by simp_all
  have nf: "length (name_field n) = 32" using n(1) by simp
  have len: "length ?w = 40" using nf by simp
  have small: "length ?w \<le> MAX_CLINT_PACKAGE_LENGTH" unfolding len by (simp add: size_defs)
  have none: "no_queue s n" by (rule store_rel_at(1) [OF r n(3)])
  have w: "?w = be16 (word_of_nat (length ?w)) @ be16 CMD_CREATE_QUEUE @ name_field n @ be16 pr @ [flag d, flag a]"
    unfolding len by simp
  note head = packet_head [OF w small] and name = packet_name(1) [OF w small n(1)]
  have body: "get_at (packet_buffer ?w) 4 36 = info_wire n ?e"
    using packet_read(2) [OF small, of 4 36] len nf by (simp add: get_at_def info_wire_def new_entry_def)
  have buf: "length (packet_buffer ?w) = MAX_CLINT_PACKAGE_LENGTH" by (rule packet_read(1) [OF small])
  have absent: "\<not> IsFileExist ?fs ?q" using none by (simp add: IsFileExist_def stat_def path_queue [OF n(2)] no_queue_def)
  have q: "node_at ?fs [QUEUE_DIR] = Some Dir \<or> node_at ?fs [QUEUE_DIR] = None" using r by (simp add: store_rel_def)
  have short: "length n < MAX_NAME_LENGTH" using n(1) by (simp add: good_name_def)
  have no_dir: "node_at ?fs [QUEUE_DIR, n] = None" and no_file: "node_at ?fs (queue_file n x) = None" for x
    using none by (simp_all add: no_queue_def)
  obtain f1 where f1: "MakeDir ?q ?fs = Some (SUCCESS, f1)"
    "\<And>p. node_at f1 p = (if p = [QUEUE_DIR] \<or> p = [QUEUE_DIR, n] then Some Dir else node_at ?fs p)"
    "distinct (map fst ?fs) \<longrightarrow> distinct (map fst f1)"
    using MakeDir_queue [OF n(2) short q no_dir] by blast
  let ?I = "queue_file n INFO_NAME"
  have path: "path_of (?q @ INFO_FILE) = Some ?I" using path_queue_file(1) [OF n(2) name_facts(2)] by (simp add: file_names(2))
  let ?f2 = "AList.update ?I (Reg []) f1" let ?f3 = "AList.update ?I (Reg (info_wire n ?e)) ?f2"
  have "fopen_wb (?q @ INFO_FILE) f1 = (Some ?I, ?f2)" by (rule fopen_wb_path [OF path]) (simp_all add: f1(2) no_file)
  moreover have "node_at ?f2 ?I = Some (Reg [])" by (simp add: fs_simps)
  from fwrite_path [OF this, of 36 4 "packet_buffer ?w"]
  have "fwrite (packet_buffer ?w) 4 36 ?I ?f2 = Some ?f3" using body buf by (simp add: size_defs)
  ultimately have "persis_command CMD_CREATE_QUEUE (packet_buffer ?w) 4 40 s = Some (SUCCESS, s\<lparr>ps_fs := ?f3\<rparr>)"
    using name absent f1(1) by (simp add: persis_command_def cmd_defs Persis_OnCreateQueue_def make_missing_dir_def rewrite_file_def Let_def)
  then have run: "perform (CreateQ n pr d a) s = Some (s\<lparr>ps_fs := ?f3\<rparr>)" using head len by (simp add: perform_def)
  let ?s = "s\<lparr>ps_fs := ?f3\<rparr>"
  have dist: "distinct (map fst ?f3)" using f1(3) r by (simp add: store_rel_def distinct_update)
  have "queue_rel ?s n ?e" by (rule queue_rel_new [OF n(1,2) none]; use dist in \<open>simp add: fs_simps f1(2)\<close>)
  moreover have "same_part m s ?s" if "m \<noteq> n" for m using that dist by (simp add: same_part_def fs_simps f1(2))
  moreover have "node_at (ps_fs ?s) [EXCHANGE_DIR] = None" using r by (simp add: fs_simps f1(2) store_rel_def)
  ultimately have "store_rel ?s (M(n \<mapsto> ?e))" using dist by (intro store_rel_step [OF r]) simp_all
  then show ?thesis using run by simp
qed

section \<open>A message\<close>

lemma packets_publish:
  assumes wf: "log_wf L" and g: "g \<in> set (lg_groups (log_publish i b L))" and m: "m \<in> set (fst (snd g))"
  shows "m = (i, b) \<or> (\<exists>g'\<in>set (lg_groups L). m \<in> set (fst (snd g')))"
proof (cases "room L b")
  case False
  then show ?thesis using g m by (auto simp: log_publish_def Let_def)
next
  case True
  then obtain f where f: "lg_tail L = Some f" by (auto simp: room_def)
  obtain gs ms cs where l: "lg_groups L = gs @ [(f, ms, cs)]" by (rule tail_split [OF wf f])
  then have "lg_groups (log_publish i b L) = gs @ [(f, ms @ [(i, b)], cs)]"
    using True by (simp add: log_publish_def)
  then show ?thesis using g m l by auto
qed

lemma packets_consume:
  assumes "g \<in> set (lg_groups (log_consume i L))"
  shows "\<exists>g'\<in>set (lg_groups L). fst (snd g) = fst (snd g')"
proof -
  obtain g' where g': "g' \<in> set (lg_groups L)" "g \<in> set (consume_group i g')"
    using assms by (auto simp: log_consume_def Let_def)
  then have "fst (snd g) = fst (snd g')" by (cases g') (auto simp: consume_group_def split: if_splits)
  with g'(1) show ?thesis by blast
qed

lemma op_publish_step:
  assumes r: "store_rel s M" and ok: "op_ok (Publish n m) M"
  shows "\<exists>s'. perform (Publish n m) s = Some s' \<and> ps_pQueueFromLogic s' = ps_pQueueFromLogic s \<and> store_rel s' (op_spec (Publish n m) M)"
proof -
  obtain i p body where m: "m = (i, p, body)" by (cases m)
  let ?w = "durable_wire n i p body"
  obtain e where e: "M n = Some e" "qe_next e \<le> sint i" "fits m" using ok m by (auto split: option.splits)
  obtain L where L: "disk_queue (ps_fs s) n e L" "map_rel n s L" using store_rel_at(2) [OF r e(1)] by (auto simp: queue_rel_def)
  note d = L(1) [unfolded disk_queue_def]
  have n: "good_name n" and nx: "lg_next L = qe_next e" and wf: "log_wf L" using d by simp_all
  have rel: "log_rel n s L" using d L(2) by (simp add: log_rel_def)
  have len: "length ?w = 42 + length body" by (rule length_durable_wire [OF n])
  have small: "length ?w \<le> MAX_CLINT_PACKAGE_LENGTH" using e(3) unfolding len m fits_def by simp
  have w: "?w = be16 (word_of_nat (length ?w)) @ be16 CMD_CREATE_PUBLISH @ name_field n @ be32 i @ be16 p @ body"
    unfolding len by (simp add: durable_wire_def)
  have idx: "ReadInt (packet_buffer ?w) 36 = Some (4, i)" using packet_name(2) [OF w small n] by simp
  have "lg_next L \<le> sint i" using e(2) nx by simp
  moreover have "nat (int (length ?w)) \<le> length (packet_buffer ?w)" using small packet_read(1) [OF small] by simp
  moreover have "int (length ?w) \<le> DURABLE_MESSAGE_FILE_SIZE" "0 < int (length ?w)"
    using small unfolding len by (simp_all add: DURABLE_MESSAGE_FILE_SIZE_def size_defs)
  ultimately obtain s' where s': "Persis_OnPublishMessage (packet_buffer ?w) (int (length ?w)) n i s = Some (SUCCESS, s')"
    "log_rel n s' (log_publish i ?w L)" "same_elsewhere n s s'" "node_at (ps_fs s') (queue_file n OFFSET_NAME) = Some (Reg (be32 i))"
    using publish_refines [OF rel, of i "int (length ?w)" "packet_buffer ?w"] packet_read(3) [OF small] by auto
  have "persis_command CMD_CREATE_PUBLISH (packet_buffer ?w) 4 (int (length ?w)) s = Some (SUCCESS, s')"
    using s'(1) packet_name(1) [OF w small n] idx by (simp add: persis_command_def cmd_defs publish_packet_def Let_def MAX_NAME_LENGTH_def)
  then have run: "perform (Publish n m) s = Some s'" using packet_head [OF w small] by (simp add: perform_def m)
  let ?L = "log_publish i ?w L" and ?e = "e\<lparr>qe_next := sint i + 1, qe_live := qe_live e @ [m]\<rparr>"
  have "?w \<noteq> []" using len by auto
  note pub = log_publish_wf [OF wf \<open>lg_next L \<le> sint i\<close> this \<open>int (length ?w) \<le> DURABLE_MESSAGE_FILE_SIZE\<close>]
  have pk: "(i, ?w) = packet_of n m" by (simp add: m)
  have good: "good_packet n x" if "g \<in> set (lg_groups ?L)" "x \<in> set (fst (snd g))" for g x
    using packets_publish [OF wf that] d good_packet_of [OF n e(3)] unfolding pk by blast
  have "map stored_of (unconsumed ?L) = qe_live ?e" using d unfolding pub(2) by (simp add: pk stored_of_packet [OF n] del: packet_of_simps)
  moreover have "0 \<le> sint i" using wf \<open>lg_next L \<le> sint i\<close> by (simp add: log_wf_def)
  moreover have "node_at (ps_fs s') (queue_file n INFO_NAME) = Some (Reg (info_wire n ?e))"
    "node_at (ps_fs s') (queue_file n SUBSCRIBE_NAME) = None"
    using d s'(3) by (simp_all add: same_elsewhere_def info_wire_def)
  ultimately have "disk_queue (ps_fs s') n ?e ?L"
    using s'(2,4) good pub(1,3) n unfolding disk_queue_def log_rel_def by simp
  then have "queue_rel s' n ?e" using s'(2) by (auto simp: queue_rel_def log_rel_def)
  moreover have dist: "distinct (map fst (ps_fs s))" "node_at (ps_fs s) [EXCHANGE_DIR] = None" using r by (simp_all add: store_rel_def)
  moreover have "distinct (map fst (ps_fs s'))" using s'(3) dist by (simp add: same_elsewhere_def)
  ultimately have "store_rel s' (M(n \<mapsto> ?e))"
    using s'(3) same_elsewhere_part [OF s'(3)] same_elsewhere_exchange [OF s'(3)] by (intro store_rel_step [OF r]) simp_all
  then show ?thesis using run e(1) m s'(3) by (simp add: same_elsewhere_def)
qed

lemma consume_step:
  assumes r: "store_rel s M" and ok: "op_ok (Consume c n i) M"
  shows "\<exists>s'. perform (Consume c n i) s = Some s' \<and> ps_pQueueFromLogic s' = ps_pQueueFromLogic s \<and> store_rel s' (op_spec (Consume c n i) M)"
proof -
  let ?w = "op_wire (Consume c n i)"
  obtain e where e: "M n = Some e" "i \<in> fst ` set (qe_live e)" using ok by (auto split: option.splits)
  have c: "c \<in> {CMD_CREATE_RECV, CMD_SERVER_PUSH_MESSAGE, CMD_CLIENT_ACK_MESSAGE}" using ok by simp
  obtain L where L: "disk_queue (ps_fs s) n e L" "map_rel n s L" using store_rel_at(2) [OF r e(1)] by (auto simp: queue_rel_def)
  note d = L(1) [unfolded disk_queue_def]
  have n: "good_name n" and wf: "log_wf L" and live: "map stored_of (unconsumed L) = qe_live e" using d by simp_all
  have fst: "fst (stored_of x) = fst x" for x by (simp add: stored_of_def)
  have rel: "log_rel n s L" using d L(2) by (simp add: log_rel_def)
  have i: "i \<in> fst ` set (unconsumed L)" using e(2) fst unfolding live [symmetric] by (simp add: image_image)
  have nf: "length (name_field n) = 32" using n by simp
  have len: "length ?w = 40" using nf by simp
  have small: "length ?w \<le> MAX_CLINT_PACKAGE_LENGTH" unfolding len by (simp add: size_defs)
  have w: "?w = be16 (word_of_nat (length ?w)) @ be16 c @ name_field n @ be32 i" unfolding len by simp
  have idx: "ReadInt (packet_buffer ?w) (4 + MAX_NAME_LENGTH) = Some (4, i)"
    using packet_name(2) [OF w small n] by (simp add: MAX_NAME_LENGTH_def)
  obtain s' where s': "OnConsumeMessage (packet_buffer ?w) 4 36 s = Some (SUCCESS, s')" "log_rel n s' (log_consume i L)"
    "same_elsewhere n s s'" "node_at (ps_fs s') (queue_file n OFFSET_NAME) = node_at (ps_fs s) (queue_file n OFFSET_NAME)"
    using consume_refines [OF rel i packet_name(1) [OF w small n] idx] by blast
  have "persis_command c (packet_buffer ?w) 4 40 s = Some (SUCCESS, s')"
    using s'(1) c by (auto simp: persis_command_def cmd_defs)
  then have run: "perform (Consume c n i) s = Some s'" using packet_head [OF w small] len by (simp add: perform_def)
  let ?L = "log_consume i L" and ?e = "e\<lparr>qe_live := filter (\<lambda>m. fst m \<noteq> i) (qe_live e)\<rparr>"
  note con = log_consume_wf [OF wf i]
  have good: "good_packet n x" if g: "g \<in> set (lg_groups ?L)" and x: "x \<in> set (fst (snd g))" for g x
  proof -
    obtain g' where "g' \<in> set (lg_groups L)" "fst (snd g) = fst (snd g')" using packets_consume [OF g] by blast
    then show ?thesis using d x by metis
  qed
  have "map stored_of (unconsumed ?L) = qe_live ?e" unfolding con(2) by (simp add: live [symmetric] filter_map o_def fst)
  moreover have "node_at (ps_fs s') (queue_file n INFO_NAME) = Some (Reg (info_wire n ?e))"
    "node_at (ps_fs s') (queue_file n SUBSCRIBE_NAME) = None"
    using d s'(3) by (simp_all add: same_elsewhere_def info_wire_def)
  ultimately have "disk_queue (ps_fs s') n ?e ?L"
    using s'(2,4) good con(1,3) n d unfolding disk_queue_def log_rel_def by simp
  then have "queue_rel s' n ?e" using s'(2) by (auto simp: queue_rel_def log_rel_def)
  moreover have dist: "distinct (map fst (ps_fs s))" "node_at (ps_fs s) [EXCHANGE_DIR] = None" using r by (simp_all add: store_rel_def)
  moreover have "distinct (map fst (ps_fs s'))" using s'(3) dist by (simp add: same_elsewhere_def)
  ultimately have "store_rel s' (M(n \<mapsto> ?e))"
    using s'(3) same_elsewhere_part [OF s'(3)] same_elsewhere_exchange [OF s'(3)] by (intro store_rel_step [OF r]) simp_all
  then show ?thesis using run e(1) s'(3) by (simp add: same_elsewhere_def)
qed

lemma perform_step: "store_rel s M \<Longrightarrow> op_ok x M \<Longrightarrow>
   \<exists>s'. perform x s = Some s' \<and> ps_pQueueFromLogic s' = ps_pQueueFromLogic s \<and> store_rel s' (op_spec x M)"
  by (cases x) (blast intro: create_step op_publish_step consume_step)+

text \<open>The server reads the operations from its queue, one after the other, until the queue is empty.\<close>

lemma store_rel_queue: "store_rel (s\<lparr>ps_pQueueFromLogic := q\<rparr>) M = store_rel s M"
proof -
  have "queue_rel (s\<lparr>ps_pQueueFromLogic := q\<rparr>) = queue_rel s" "no_queue (s\<lparr>ps_pQueueFromLogic := q\<rparr>) = no_queue s"
    by (simp_all add: fun_eq_iff queue_rel_def no_queue_def map_rel_def)
  then show ?thesis by (simp add: store_rel_def split: option.split)
qed

lemma op_wire_fits:
  assumes "store_rel s M" "op_ok x M"
  shows "length (op_wire x) \<le> MAX_CLINT_PACKAGE_LENGTH"
proof -
  have n: "good_name n" if "M n = Some e" for n e
    using store_rel_at(2) [OF assms(1) that] by (auto simp: queue_rel_def disk_queue_def)
  show ?thesis
  proof (cases x)
    case (CreateQ n p d a)
    then have "good_name n" using assms(2) by simp
    then show ?thesis by (simp add: CreateQ size_defs)
  next
    case (Publish n m)
    then obtain e where "M n = Some e" "fits m" using assms(2) by (auto split: option.splits)
    then show ?thesis using n [of n e] by (cases m) (simp add: Publish length_durable_wire fits_def)
  next
    case (Consume c n i)
    then obtain e where "M n = Some e" using assms(2) by (auto split: option.splits)
    then show ?thesis using n [of n e] by (simp add: Consume size_defs)
  qed
qed

lemma persis_loop_performs:
  assumes "store_rel s M" "all_ok op_ok op_spec xs M" "holds (ps_pQueueFromLogic s) (map op_wire xs)"
  shows "\<exists>s'. persis_loop k s = Some (k + int (length xs), s') \<and> store_rel s' (fold op_spec xs M) \<and>
    holds (ps_pQueueFromLogic s') []"
  using assms
proof (induction xs arbitrary: s M k)
  case Nil
  then have h: "holds (ps_pQueueFromLogic s) []" by simp
  show ?case
    using Nil.prems(1) h DequeueInto_empty [OF h] by (subst persis_loop.simps) (simp add: Let_def)
next
  case (Cons x xs)
  let ?d = "op_wire x" and ?q = "ps_pQueueFromLogic s"
  have ok: "op_ok x M" "all_ok op_ok op_spec xs (op_spec x M)" using Cons.prems(2) by simp_all
  have "length ?d \<le> MAX_CLINT_PACKAGE_LENGTH" by (rule op_wire_fits [OF Cons.prems(1) ok(1)])
  then obtain q where q: "DequeueInto ?q (replicate MAX_CLINT_PACKAGE_LENGTH 0) (int MAX_CLINT_PACKAGE_LENGTH) =
      Some (SUCCESS, packet_buffer ?d, int (length ?d), q)" "holds q (map op_wire xs)"
    using DequeueInto_ok [of ?q ?d "map op_wire xs" "int MAX_CLINT_PACKAGE_LENGTH" "replicate MAX_CLINT_PACKAGE_LENGTH 0"] Cons.prems(3)
    by (auto simp: packet_buffer_def)
  let ?s = "s\<lparr>ps_pQueueFromLogic := q\<rparr>"
  have "store_rel ?s M" using Cons.prems(1) by (simp add: store_rel_queue)
  from perform_step [OF this ok(1)] obtain s1 where s1: "perform x ?s = Some s1" "ps_pQueueFromLogic s1 = q" "store_rel s1 (op_spec x M)"
    by auto
  have "persis_loop k s = persis_loop (k + 1) s1"
    using q(1) s1(1) by (subst persis_loop.simps) (simp add: Let_def perform_def SUCCESS_def shm_err_defs)
  then show ?case using Cons.IH [OF s1(3) ok(2), of "k + 1"] q(2) s1(2) by (simp add: add.assoc)
qed

end
