(* ===== verification/Persis_Restart.thy ===== *)
theory Persis_Restart
  imports Persis_Step Connect_Server
begin

text \<open>
  The start of the persistence server. Its maps are rebuilt from the index files, so that it goes on with
  every log where it was, except that the next message begins a new group of files.
\<close>

section \<open>Start\<close>

definition new_PersistenceServer :: "file_sys \<Rightarrow> shm_queue \<Rightarrow> int \<Rightarrow> persistence_server" where
  "new_PersistenceServer fs q junk = \<lparr>ps_fs = fs, m_mMsgQueueTailFile = [], m_mMsgQueueIndexFile = [],
     m_mMsgQueueList = [], ps_pQueueFromLogic = q, ps_junk = junk\<rparr>"

text \<open>\<open>conf\<close> says whether the configuration file exists. The results of the two \<^verbatim>\<open>Init\<close>s are ignored; the second
  queue is never used.\<close>

definition Persis_Init :: "bool \<Rightarrow> bool \<times> shm_open \<Rightarrow> file_sys \<Rightarrow> int \<Rightarrow> persis_result" where
  "Persis_Init conf os fs junk =
     (if \<not> conf then Some (ERROR, new_PersistenceServer fs ShmQueue_new junk)
      else do {
        let q = snd (Init (fst os) (snd os) SHM_QUEUE_SIZE ShmQueue_new);
        (_, s) \<leftarrow> InitFileInfo (new_PersistenceServer fs q junk);
        Some (SUCCESS, s) })"

section \<open>An index file\<close>

definition note_group :: "bytes \<Rightarrow> bytes \<Rightarrow> (i32 \<times> bytes) list \<Rightarrow> persistence_server \<Rightarrow> persistence_server" where
  "note_group q f ms = fold (\<lambda>m. note_message q (fst m) f) ms"

lemma index_loop_run:
  assumes "d = xs @ entries p ms" "length ms \<le> n"
  shows "index_loop d (length xs) n q f s = Some (note_group q f ms s)"
  using assms
proof (induction ms arbitrary: xs p n s)
  case Nil
  then show ?case by (cases n) (simp_all add: note_group_def)
next
  case (Cons m ms)
  obtain i b where m: "m = (i, b)" by (cases m)
  obtain k where n: "n = Suc k" "length ms \<le> k" using Cons.prems(2) by (cases n) simp_all
  let ?e = "be32 i @ be32 (word_of_nat p)"
  have d: "d = (xs @ ?e) @ entries (p + length b) ms" using Cons.prems(1) m by simp
  then have "get_at d (length xs) 4 = be32 i" "length xs + 8 \<le> length d" by (simp_all add: get_at_def)
  then have "map_ReadInt d (int (length xs)) = Some (4, i)" "\<exists>x. map_ReadInt d (int (length xs) + 4) = Some (4, x)"
    using map_reads_inside(2) [of "length xs" d] map_reads_inside(2) [of "length xs + 4" d] by simp_all
  then have "index_loop d (length xs) n q f s = index_loop d (length (xs @ ?e)) k q f (note_message q i f s)"
    using \<open>length xs + 8 \<le> length d\<close> by (auto simp: n(1) Let_def add.assoc)
  also have "\<dots> = Some (note_group q f ms (note_message q i f s))" by (rule Cons.IH [OF d n(2)])
  finally show ?case by (simp add: note_group_def m)
qed

text \<open>What the maps know after some of the groups.\<close>

definition knows :: "bytes \<Rightarrow> group list \<Rightarrow> persistence_server \<Rightarrow> bool" where
  "knows n gs s \<longleftrightarrow> map_at (m_mMsgQueueList s) n = map fst gs \<and>
     (\<forall>i. \<forall>f. map_of (map_at (m_mMsgQueueIndexFile s) n) i = Some f \<longleftrightarrow> (\<exists>ms cs. (f, ms, cs) \<in> set gs \<and> i \<in> fst ` set ms))"

text \<open>The start changes two maps at the queue.\<close>

definition same_but :: "bytes \<Rightarrow> persistence_server \<Rightarrow> persistence_server \<Rightarrow> bool" where
  "same_but n s s' \<longleftrightarrow> ps_fs s' = ps_fs s \<and> m_mMsgQueueTailFile s' = m_mMsgQueueTailFile s \<and>
     ps_pQueueFromLogic s' = ps_pQueueFromLogic s \<and>
     (\<forall>m. m \<noteq> n \<longrightarrow> map_at (m_mMsgQueueList s') m = map_at (m_mMsgQueueList s) m \<and>
        map_at (m_mMsgQueueIndexFile s') m = map_at (m_mMsgQueueIndexFile s) m)"

lemma same_but_trans: "same_but n s s' \<Longrightarrow> same_but n s' s'' \<Longrightarrow> same_but n s s''"
  by (simp add: same_but_def)

lemma same_but_refl: "same_but n s s"
  by (simp add: same_but_def)

lemma note_group_maps:
  "same_but n s (note_group n f ms s) \<and> m_mMsgQueueList (note_group n f ms s) = m_mMsgQueueList s \<and>
   map_of (map_at (m_mMsgQueueIndexFile (note_group n f ms s)) n) i =
     (case map_of (map_at (m_mMsgQueueIndexFile s) n) i of Some g \<Rightarrow> Some g | None \<Rightarrow> if i \<in> fst ` set ms then Some f else None)"
proof (induction ms arbitrary: s)
  case Nil
  then show ?case by (simp add: note_group_def same_but_def split: option.split)
next
  case (Cons m ms)
  let ?s = "note_message n (fst m) f s"
  have "note_group n f (m # ms) s = note_group n f ms ?s" by (simp add: note_group_def)
  moreover have "same_but n s ?s" "m_mMsgQueueList ?s = m_mMsgQueueList s" by (simp_all add: note_message_def same_but_def)
  moreover have "map_of (map_at (m_mMsgQueueIndexFile ?s) n) i = (if i = fst m \<and> map_of (map_at (m_mMsgQueueIndexFile s) n) i = None
      then Some f else map_of (map_at (m_mMsgQueueIndexFile s) n) i)"
    by (cases "i = fst m") (auto simp: note_message_def map_of_map_insert)
  ultimately show ?case using Cons.IH [of ?s] same_but_trans [of n s ?s]
    by (cases "map_of (map_at (m_mMsgQueueIndexFile s) n) i"; cases "i = fst m") auto
qed

lemma init_files_knows:
  assumes "plain n" "\<forall>g\<in>set gs. group_disk (ps_fs s) n g \<and> digit_name (fst g) \<and> fst (snd g) \<noteq> []" "knows n ds s"
    "distinct (indices (ds @ gs))"
  shows "\<exists>s'. init_files n (map fst gs) s = Some s' \<and> knows n (ds @ gs) s' \<and> same_but n s s'"
  using assms(2-4)
proof (induction gs arbitrary: ds s)
  case Nil
  then show ?case by (simp add: same_but_refl)
next
  case (Cons g gs)
  obtain f ms cs where g: "g = (f, ms, cs)" by (cases g)
  have f: "digit_name f" "ms \<noteq> []" and idx: "node_at (ps_fs s) (queue_file n (f @ INDEX_EXT)) = Some (Reg (entries 0 ms))"
    using Cons.prems(1) g by (simp_all add: group_disk_def)
  let ?t = "note_group n f ms s"
  let ?u = "?t\<lparr>m_mMsgQueueList := AList.update n (map_at (m_mMsgQueueList ?t) n @ [f]) (m_mMsgQueueList ?t)\<rparr>"
  note maps = note_group_maps [of n s f ms]
  have path: "path_of (DEFAULT_QUEUE_PATH @ n @ 47 # f @ INDEX_EXT) = Some (queue_file n (f @ INDEX_EXT))"
    using path_queue_file(1) [OF assms(1)] plain_group_file [OF f(1)] by simp
  have "map_file (ps_fs s) (DEFAULT_QUEUE_PATH @ n @ 47 # f @ INDEX_EXT) = Some (entries 0 ms)"
    by (rule map_file_path(1) [OF path idx]) (simp add: entries_Nil_iff f(2))
  then have "ProcessIndexFile n f s = Some (SUCCESS, ?t)"
    using index_loop_run [of "entries 0 ms" "[]" 0 ms "length (entries 0 ms)" n f s]
    by (simp add: ProcessIndexFile_def length_entries)
  then have run: "init_files n (map fst (g # gs)) s = init_files n (map fst gs) ?u" by (simp add: g)
  have same: "same_but n s ?u" using maps by (simp add: same_but_def)
  have fs: "ps_fs ?u = ps_fs s" using same by (simp add: same_but_def)
  have knows: "knows n (ds @ [g]) ?u"
  proof -
    note k = Cons.prems(2) [unfolded knows_def]
    have new: "map_of (map_at (m_mMsgQueueIndexFile s) n) i = None" if "i \<in> fst ` set ms" for i
    proof (rule ccontr)
      assume "map_of (map_at (m_mMsgQueueIndexFile s) n) i \<noteq> None"
      then obtain h where "map_of (map_at (m_mMsgQueueIndexFile s) n) i = Some h" by blast
      then obtain ks es where "(h, ks, es) \<in> set ds" "i \<in> fst ` set ks" using k by blast
      then have "i \<in> set (indices ds)" by (force simp: indices_def)
      then show False using Cons.prems(3) that g by auto
    qed
    have "map_of (map_at (m_mMsgQueueIndexFile ?u) n) i = Some h \<longleftrightarrow> (\<exists>ks es. (h, ks, es) \<in> set (ds @ [g]) \<and> i \<in> fst ` set ks)" for i h
    proof (cases "i \<in> fst ` set ms")
      case True
      have "i \<notin> fst ` set ks" if "(h, ks, es) \<in> set ds" for h ks es
      proof
        assume "i \<in> fst ` set ks"
        with that k have "map_of (map_at (m_mMsgQueueIndexFile s) n) i = Some h" by blast
        then show False using new [OF True] by simp
      qed
      then show ?thesis using maps new [OF True] True g by auto
    next
      case False
      then have "map_of (map_at (m_mMsgQueueIndexFile ?u) n) i = map_of (map_at (m_mMsgQueueIndexFile s) n) i"
        using maps by (simp split: option.split)
      then show ?thesis using k False g by auto
    qed
    then show ?thesis unfolding knows_def using k maps g by simp
  qed
  have "\<exists>s'. init_files n (map fst gs) ?u = Some s' \<and> knows n ((ds @ [g]) @ gs) s' \<and> same_but n ?u s'"
    by (rule Cons.IH [OF _ knows]) (use Cons.prems fs in simp_all)
  then show ?case using run same_but_trans [OF same] by auto
qed

section \<open>All queues\<close>

definition no_maps :: "bytes \<Rightarrow> persistence_server \<Rightarrow> bool" where
  "no_maps n s \<longleftrightarrow> map_at (m_mMsgQueueList s) n = [] \<and> map_at (m_mMsgQueueIndexFile s) n = []"

lemma init_queue:
  assumes d: "disk_queue (ps_fs s) n e L" and none: "no_maps n s" "m_mMsgQueueTailFile s = []"
  shows "\<exists>s'. init_files n (sort (FindIndexFiles (ps_fs s) (DEFAULT_QUEUE_PATH @ 47 # n))) s = Some s' \<and>
    queue_rel s' n e \<and> same_but n s s'"
proof -
  note dq = d [unfolded disk_queue_def]
  have wf: "log_wf L" and dr: "disk_rel n (ps_fs s) (lg_groups L)" and n: "plain n" using dq by (simp_all add: disk_rel_def)
  have digits: "\<forall>g\<in>set (lg_groups L). digit_name (fst g)" using group_of_name [OF wf] by auto
  have files: "sort (FindIndexFiles (ps_fs s) (DEFAULT_QUEUE_PATH @ 47 # n)) = map fst (lg_groups L)"
    by (rule found_index_files [OF dr log_names_less [OF wf] digits])
  have "\<forall>g\<in>set (lg_groups L). group_disk (ps_fs s) n g \<and> digit_name (fst g) \<and> fst (snd g) \<noteq> []"
    using wf dr digits by (auto simp: log_wf_def disk_rel_def group_wf_def)
  moreover have "knows n [] s" using none by (simp add: knows_def no_maps_def)
  moreover have "distinct (indices ([] @ lg_groups L))" using log_distinct [OF wf] by simp
  ultimately obtain s' where s': "init_files n (map fst (lg_groups L)) s = Some s'" "knows n (lg_groups L) s'" "same_but n s s'"
    using init_files_knows [OF n] by (metis append_Nil)
  let ?L = "L\<lparr>lg_tail := None\<rparr>"
  have "log_wf ?L" "unconsumed ?L = unconsumed L" using wf by (simp_all add: log_wf_def unconsumed_def)
  then have "disk_queue (ps_fs s') n e ?L" using dq s'(3) by (simp add: disk_queue_def same_but_def)
  moreover have "map_rel n s' ?L"
  proof -
    note k = s'(2) [unfolded knows_def]
    have "sint i < lg_next L" if i: "has_key (map_at (m_mMsgQueueIndexFile s') n) i" for i
    proof -
      obtain f where "map_of (map_at (m_mMsgQueueIndexFile s') n) i = Some f" using i by blast
      then obtain ms cs where "(f, ms, cs) \<in> set (lg_groups L)" "i \<in> fst ` set ms" using k by blast
      then have "i \<in> set (indices (lg_groups L))" by (force simp: indices_def)
      then show ?thesis using wf by (simp add: log_wf_def)
    qed
    moreover have "\<forall>(f, ms, cs)\<in>set (lg_groups L). \<forall>i\<in>fst ` set ms. map_of (map_at (m_mMsgQueueIndexFile s') n) i = Some f"
      using k by blast
    moreover have "m_mMsgQueueTailFile s' = []" "map_at (m_mMsgQueueList s') n = map fst (lg_groups L)"
      using s'(3) none(2) k by (simp_all add: same_but_def)
    ultimately show ?thesis unfolding map_rel_def by simp
  qed
  ultimately have "queue_rel s' n e" by (auto simp: queue_rel_def)
  then show ?thesis using s' files by auto
qed

lemma init_dirs_run:
  assumes "distinct ds" "\<forall>n\<in>set ds. no_maps n s \<and> (\<exists>e L. M n = Some e \<and> disk_queue (ps_fs s) n e L)"
    "m_mMsgQueueTailFile s = []" "distinct (map fst (ps_fs s))"
  shows "\<exists>s'. init_dirs ds s = Some s' \<and> ps_fs s' = ps_fs s \<and> m_mMsgQueueTailFile s' = [] \<and>
    ps_pQueueFromLogic s' = ps_pQueueFromLogic s \<and>
    (\<forall>n\<in>set ds. \<forall>e. M n = Some e \<longrightarrow> queue_rel s' n e) \<and> (\<forall>n. n \<notin> set ds \<longrightarrow> same_part n s s')"
  using assms
proof (induction ds arbitrary: s)
  case Nil
  then show ?case by (simp add: same_part_def)
next
  case (Cons n ds)
  obtain e L where e: "M n = Some e" "disk_queue (ps_fs s) n e L" "no_maps n s" using Cons.prems(2) by auto
  obtain s1 where s1: "init_files n (sort (FindIndexFiles (ps_fs s) (DEFAULT_QUEUE_PATH @ 47 # n))) s = Some s1"
    "queue_rel s1 n e" "same_but n s s1"
    using init_queue [OF e(2,3) Cons.prems(3)] by blast
  have dir: "stat (ps_fs s) (DEFAULT_QUEUE_PATH @ 47 # n) = Some Dir" by (rule dir_of_queue [OF e(2)])
  have fs: "ps_fs s1 = ps_fs s" "m_mMsgQueueTailFile s1 = []" "ps_pQueueFromLogic s1 = ps_pQueueFromLogic s"
    using s1(3) Cons.prems(3) by (simp_all add: same_but_def)
  have other: "no_maps m s1" if "m \<noteq> n" "no_maps m s" for m using s1(3) that by (simp add: same_but_def no_maps_def)
  obtain s2 where s2: "init_dirs ds s1 = Some s2" "ps_fs s2 = ps_fs s1" "m_mMsgQueueTailFile s2 = []"
    "ps_pQueueFromLogic s2 = ps_pQueueFromLogic s1"
    "\<forall>n\<in>set ds. \<forall>e. M n = Some e \<longrightarrow> queue_rel s2 n e" "\<forall>n. n \<notin> set ds \<longrightarrow> same_part n s1 s2"
  proof -
    have "\<forall>m\<in>set ds. no_maps m s1 \<and> (\<exists>e L. M m = Some e \<and> disk_queue (ps_fs s1) m e L)"
    proof
      fix m assume m: "m \<in> set ds"
      then have "m \<noteq> n" using Cons.prems(1) by auto
      then show "no_maps m s1 \<and> (\<exists>e L. M m = Some e \<and> disk_queue (ps_fs s1) m e L)"
        using Cons.prems(2) m other by (simp add: fs(1))
    qed
    then show thesis using Cons.IH [of s1] Cons.prems(1,4) fs that by auto
  qed
  have "queue_rel s2 n e"
    using queue_rel_part [OF s1(2)] queue_rel_dir [OF s1(2)] s2(2,6) Cons.prems(1) by simp
  moreover have "same_part m s s2" if "m \<notin> set (n # ds)" for m
    using s2(6) s1(3) that fs by (auto simp: same_part_def same_but_def)
  ultimately show ?case using s1(1) s2 fs dir e(1) by (auto simp: Let_def)
qed

lemma InitFileInfo_restores:
  assumes r: "store_rel s M"
  shows "\<exists>s'. InitFileInfo (new_PersistenceServer (ps_fs s) q junk) = Some (SUCCESS, s') \<and> store_rel s' M \<and>
    ps_fs s' = ps_fs s \<and> ps_pQueueFromLogic s' = q"
proof -
  let ?s = "new_PersistenceServer (ps_fs s) q junk" and ?ds = "readdir (ps_fs s) [QUEUE_DIR]"
  have disk: "store_disk (ps_fs s) M" by (rule store_rel_disk [OF r])
  note d = disk [unfolded store_disk_def]
  have new: "ps_fs ?s = ps_fs s" "m_mMsgQueueTailFile ?s = []" "no_maps n ?s" "ps_pQueueFromLogic ?s = q" for n
    by (simp_all add: new_PersistenceServer_def no_maps_def map_at_def)
  have ds: "n \<in> set ?ds \<longleftrightarrow> M n \<noteq> None" for n using d by (simp add: readdir_iff)
  have dist: "distinct ?ds" "distinct (map fst (ps_fs ?s))" using d by (simp_all add: distinct_readdir new(1))
  have q: "\<forall>n\<in>set ?ds. no_maps n ?s \<and> (\<exists>e L. M n = Some e \<and> disk_queue (ps_fs ?s) n e L)"
  proof
    fix n assume "n \<in> set ?ds"
    then obtain e where "M n = Some e" using ds by blast
    then obtain L where "disk_queue (ps_fs s) n e L" using d by blast
    then show "no_maps n ?s \<and> (\<exists>e L. M n = Some e \<and> disk_queue (ps_fs ?s) n e L)"
      using \<open>M n = Some e\<close> new(3) unfolding new(1) by blast
  qed
  obtain s' where s': "init_dirs ?ds ?s = Some s'" "ps_fs s' = ps_fs s" "m_mMsgQueueTailFile s' = []" "ps_pQueueFromLogic s' = q"
    "\<forall>n\<in>set ?ds. \<forall>e. M n = Some e \<longrightarrow> queue_rel s' n e" "\<forall>n. n \<notin> set ?ds \<longrightarrow> same_part n ?s s'"
    using init_dirs_run [OF dist(1) q new(2) dist(2)] unfolding new by blast
  have "no_queue s' n" if n: "M n = None" for n
  proof -
    have "same_part n ?s s'" using s'(6) ds n by blast
    moreover have "no_queue ?s n" using store_rel_at(1) [OF r n] new(3) by (simp add: no_queue_def new no_maps_def)
    ultimately show ?thesis by (rule no_queue_part [rotated])
  qed
  moreover have "queue_rel s' n e" if n: "M n = Some e" for n e using s'(5) ds n by blast
  ultimately have rel: "store_rel s' M" using r by (simp add: store_rel_def s'(2) split: option.split)
  have kind: "node_at (ps_fs s) [QUEUE_DIR] = Some Dir \<or> node_at (ps_fs s) [QUEUE_DIR] = None" using r by (simp add: store_rel_def)
  show ?thesis
  proof (cases "node_at (ps_fs s) [QUEUE_DIR] = None")
    case True
    have "set ?ds = {n. M n \<noteq> None}" by (rule set_eqI) (simp only: ds mem_Collect_eq)
    then have "?ds = []" unfolding no_queue_dir [OF disk True] by (simp only: set_empty)
    then have "s' = ?s" using s'(1) by simp
    moreover have "InitFileInfo ?s = Some (SUCCESS, ?s)"
      using True by (simp add: InitFileInfo_def IsFileExist_def stat_def path_queue_dir new(1))
    ultimately show ?thesis using rel new by simp
  next
    case False
    then have "node_at (ps_fs s) [QUEUE_DIR] = Some Dir" using kind by (elim disjE) simp_all
    then have "InitFileInfo ?s = Some (SUCCESS, s')"
      using s'(1) by (simp add: InitFileInfo_def IsFileExist_def stat_def path_queue_dir new(1))
    then show ?thesis using rel s' by blast
  qed
qed

end
