(* ===== verification/Crash_Recovery.thy ===== *)
theory Crash_Recovery
  imports Persis_Restart
begin

text \<open>
  From an empty disk through any sequence of operations and restarts of the persistence server to a
  restart of the logic server.
\<close>

section \<open>Operations and restarts\<close>

datatype persis_event = Op persis_op | Restart "bool \<times> shm_open" int

fun event_exec :: "persis_event \<Rightarrow> persistence_server \<Rightarrow> persistence_server option" where
  "event_exec (Op x) s = perform x s"
| "event_exec (Restart os junk) s = map_option snd (Persis_Init True os (ps_fs s) junk)"

fun event_ok :: "persis_event \<Rightarrow> store \<Rightarrow> bool" where
  "event_ok (Op x) M = op_ok x M"
| "event_ok (Restart os junk) M = True"

fun event_spec :: "persis_event \<Rightarrow> store \<Rightarrow> store" where
  "event_spec (Op x) M = op_spec x M"
| "event_spec (Restart os junk) M = M"

interpretation persis: run_refinement event_exec event_ok event_spec store_rel
proof
  fix s M x assume r: "store_rel s M" and ok: "event_ok x M"
  show "\<exists>s'. event_exec x s = Some s' \<and> store_rel s' (event_spec x M)"
  proof (cases x)
    case (Op y)
    then show ?thesis using perform_step [OF r, of y] ok by auto
  next
    case (Restart os junk)
    show ?thesis using InitFileInfo_restores [OF r, of "snd (Init (fst os) (snd os) SHM_QUEUE_SIZE ShmQueue_new)" junk] Restart
      by (auto simp: Persis_Init_def Let_def)
  qed
qed

lemma store_rel_empty: "store_rel (new_PersistenceServer [] q junk) Map.empty"
  by (simp add: store_rel_def new_PersistenceServer_def no_queue_def node_at_def map_at_def)

text \<open>The queues of the restarted logic server.\<close>

definition queue_of :: "logic_server \<Rightarrow> bytes \<Rightarrow> message_queue option" where
  "queue_of t n = Option.bind (known_queue t n) (m_queues t)"

definition recovered :: "store \<Rightarrow> bytes \<Rightarrow> message_queue option" where
  "recovered M n = (case M n of None \<Rightarrow> None | Some e \<Rightarrow> if qe_next e = 0 then None else Some (full_queue n e))"

lemma serves_queue_of:
  assumes s: "serves full_queue {n. M n \<noteq> None} M t"
  shows "queue_of t n = recovered M n"
proof -
  note s' = s [unfolded serves_def]
  have known: "known_queue t n = map_of (m_mUnSubcribeQueues t) n" using s' by (simp add: known_queue_def)
  show ?thesis
  proof (cases "map_of (m_mUnSubcribeQueues t) n")
    case None
    then have "M n = Some e \<Longrightarrow> qe_next e = 0" for e using s' by blast
    then show ?thesis using None known by (cases "M n") (simp_all add: queue_of_def recovered_def)
  next
    case (Some a)
    then obtain e where "M n = Some e" "qe_next e \<noteq> 0" "m_queues t a = Some (full_queue n e)" using s' by blast
    then show ?thesis using Some known by (simp add: queue_of_def recovered_def)
  qed
qed

section \<open>Properties\<close>

text \<open>C24. The persistence server takes every operation from its queue in order, performs each of them on its files and maps, and
  stops when the queue is empty: what is stored is what the operations say.\<close>

theorem persistence_keeps_up:
  assumes "store_rel s M" "all_ok op_ok op_spec xs M" "holds (ps_pQueueFromLogic s) (map op_wire xs)"
  shows "\<exists>s'. persis_loop 0 s = Some (int (length xs), s') \<and> store_rel s' (fold op_spec xs M) \<and> holds (ps_pQueueFromLogic s') []"
  using persis_loop_performs [OF assms, of 0] by simp


text \<open>A durable queue to which nothing has been published is lost: the start of the logic server needs the file of the
  last index, which only a message creates.\<close>

theorem empty_queue_is_lost:
  assumes "good_name n" "plain n"
  shows "\<exists>s t. perform (CreateQ n pr d a) (new_PersistenceServer [] q junk) = Some s \<and>
    OnInit (ps_fs s) (new_LogicServer toConnect fromConnect toPersis) = Some (SUCCESS, t) \<and> known_queue t n = None"
proof -
  let ?x = "CreateQ n pr d a"
  obtain s where s: "perform ?x (new_PersistenceServer [] q junk) = Some s" "store_rel s (op_spec ?x Map.empty)"
    using perform_step [OF store_rel_empty, of ?x] assms by auto
  obtain t where t: "OnInit (ps_fs s) (new_LogicServer toConnect fromConnect toPersis) = Some (SUCCESS, t)"
    "serves full_queue {n. op_spec ?x Map.empty n \<noteq> None} (op_spec ?x Map.empty) t"
    using OnInit_restores [OF store_rel_disk [OF s(2)]] by blast
  have "known_queue t n = None"
  proof (rule ccontr)
    assume "known_queue t n \<noteq> None"
    then obtain a where "map_of (m_mUnSubcribeQueues t) n = Some a" using t(2) by (auto simp: known_queue_def serves_def)
    then have "\<exists>e. op_spec ?x Map.empty n = Some e \<and> qe_next e \<noteq> 0" using t(2) unfolding serves_def by blast
    then show False by (simp add: new_entry_def)
  qed
  then show ?thesis using s(1) t(1) by blast
qed

section \<open>Witnesses\<close>

text \<open>A queue with the name 113, two messages, the first consumed, and a restart before the last step.\<close>

definition w_events :: "persis_event list" where
  "w_events = [Op (CreateQ [113] 1 True False), Op (Publish [113] (0, 5, [65])), Op (Publish [113] (1, 2, [66, 0, 67])),
     Restart (True, ShmCreated) 0, Op (Consume CMD_CREATE_RECV [113] 0)]"

lemma w_events_facts:
  "all_ok event_ok event_spec w_events Map.empty"
  "recovered (fold event_spec w_events Map.empty) [113] =
     Some (full_queue [113] \<lparr>qe_iPriority = 1, qe_bDurable = True, qe_bAutoDel = False, qe_next = 2, qe_live = [(1, 2, [66, 0, 67])]\<rparr>)"
  by (simp_all add: w_events_def good_name_def plain_def size_defs new_entry_def fits_def recovered_def)


theorem empty_queue_is_lost_witness:
  "\<exists>s t. perform (CreateQ [113] 1 True False) (new_PersistenceServer [] ShmQueue_new 0) = Some s \<and>
    OnInit (ps_fs s) (new_LogicServer ShmQueue_new ShmQueue_new ShmQueue_new) = Some (SUCCESS, t) \<and> known_queue t [113] = None"
  by (rule empty_queue_is_lost) (simp_all add: good_name_def plain_def size_defs)

text \<open>A ring with the first two of these packets.\<close>

lemma ring_with:
  assumes "list_all packet_ok ds" "used ds \<le> 1000"
  shows "\<exists>q. holds q ds \<and> capacity q = 1000"
  using assms
proof (induction ds rule: rev_induct)
  case Nil
  then show ?case using Init_holds [of 1000 ShmQueue_new] by auto
next
  case (snoc d ds)
  then obtain q where "holds q ds" "capacity q = 1000" by auto
  then show ?case using Enqueue_fits [of q ds "length d" d] snoc.prems by fastforce
qed

theorem persistence_keeps_up_witness:
  "\<exists>q s'. persis_loop 0 (new_PersistenceServer [] q 0) = Some (2, s') \<and>
    store_rel s' (fold op_spec [CreateQ [113] 1 True False, Publish [113] (0, 5, [65])] Map.empty) \<and> holds (ps_pQueueFromLogic s') []"
proof -
  let ?xs = "[CreateQ [113] 1 True False, Publish [113] (0, 5, [65])]"
  have n: "good_name [113]" "plain [113]" by (simp_all add: good_name_def plain_def size_defs)
  have ok: "all_ok op_ok op_spec ?xs Map.empty" using n by (simp add: new_entry_def fits_def size_defs)
  have "list_all packet_ok (map op_wire ?xs)" "used (map op_wire ?xs) \<le> 1000"
    using n by (simp_all add: packet_ok_def length_durable_wire size_defs)
  then obtain q where q: "holds q (map op_wire ?xs)" using ring_with by blast
  then have "holds (ps_pQueueFromLogic (new_PersistenceServer [] q 0)) (map op_wire ?xs)" by (simp add: new_PersistenceServer_def)
  from persistence_keeps_up [OF store_rel_empty ok this] show ?thesis by (intro exI [of _ q]) simp
qed

end
