(* ===== verification/Logic_Reports.thy ===== *)
theory Logic_Reports
  imports Crash_Recovery Logic_Session
begin

text \<open>
  The packets that the logic server puts into the ring to the persistence server are the operations of
  \<open>Persis_Ops\<close>; with the crash recovery, a durable message that has been published survives.
\<close>

section \<open>Into the ring\<close>

lemma to_persis_puts:
  assumes "holds (m_pQueueToPersis s) ws" "used (ws @ [w]) \<le> capacity (m_pQueueToPersis s)"
    "length w \<le> length b" "take (length w) b = w"
  shows "\<exists>q. to_persis s b (int (length w)) = Some (SUCCESS, s\<lparr>m_pQueueToPersis := q\<rparr>) \<and> holds q (ws @ [w]) \<and>
    capacity q = capacity (m_pQueueToPersis s)"
  using Enqueue_fits [OF assms(1,3)] assms(2,4) by (auto simp: to_persis_def)

lemma to_persis_refused:
  assumes "holds (m_pQueueToPersis s) ws" "capacity (m_pQueueToPersis s) < used ws + (14 + n)" "n \<le> length b" "n < 2 ^ 30"
  shows "to_persis s b (int n) = Some (ERR_SHM_QUEUE_FULL, s)"
  using Enqueue_full [OF assms(1)] assms(2-) by (simp add: to_persis_def)

lemma packet_buffer_zbuf: "packet_buffer w = zbuf w MAX_CLINT_PACKAGE_LENGTH"
  by (simp add: packet_buffer_def put_at_def zbuf_def)

lemma pack_buffer_zbuf: "pack_buffer = zbuf [] MAX_CLINT_PACKAGE_LENGTH"
  by (simp add: pack_buffer_def zbuf_def)

lemma durable_serialized:
  assumes n: "good_name (ssm_strQueueName m)" and fit: "42 + length (ssm_strMsgBody m) \<le> MAX_CLINT_PACKAGE_LENGTH"
  defines "w \<equiv> durable_wire (ssm_strQueueName m) (ssm_iDurableIndex m) (ssm_iPriority m) (ssm_strMsgBody m)"
  shows "SerializeDurableToString m pack_buffer (int MAX_CLINT_PACKAGE_LENGTH) = Some (SUCCESS, packet_buffer w, int (length w))"
proof -
  let ?l = "42 + length (ssm_strMsgBody m)"
  have u: "uint (word_of_nat ?l :: u16) = int ?l" using fit by (intro uint_u16) (simp add: size_defs)
  have lw: "length w = ?l" unfolding w_def by (rule length_durable_wire [OF n])
  have nl: "length (ssm_strQueueName m) < 32" using n by (simp add: good_name_def size_defs)
  have "SerializeDurableToString m pack_buffer (int MAX_CLINT_PACKAGE_LENGTH) = Some (SUCCESS, zbuf w MAX_CLINT_PACKAGE_LENGTH, int ?l)"
    using u fit nl unfolding SerializeDurableToString_def
    by (simp add: pack_buffer_zbuf size_defs Let_def w_def durable_wire_def name_field_def del: of_nat_add)
  then show ?thesis by (simp add: packet_buffer_zbuf lw)
qed

lemma consumed_serialized:
  assumes "good_name n"
  shows "send_consumed s c n i = to_persis s (packet_buffer (op_wire (Consume c n i))) (int (length (op_wire (Consume c n i))))"
proof -
  have nl: "length n < 32" using assms by (simp add: good_name_def size_defs)
  show ?thesis using nl
    by (simp add: send_consumed_def packet_buffer_zbuf pack_buffer_zbuf size_defs Let_def name_field_def)
qed

section \<open>Publishing\<close>

text \<open>What a durable publication reports for the queues it goes to; a queue that is listed twice gets two indices.\<close>

fun publish_ops :: "bytes \<Rightarrow> i16 \<Rightarrow> addr list \<Rightarrow> (addr \<Rightarrow> message_queue option) \<Rightarrow> persis_op list" where
  "publish_ops body pr [] qs = []"
| "publish_ops body pr (a # as) qs =
     (case qs a of
        None \<Rightarrow> []
      | Some q \<Rightarrow>
          if mq_bDurable q
          then Publish (mq_strQueueName q) (mq_iDurableIndex q, pr, body) #
               publish_ops body pr as (qs(a \<mapsto> snd (GetNextDaurableIndex q)))
          else publish_ops body pr as qs)"

text \<open>Only the names, the durability and the next indices matter.\<close>

definition same_head :: "message_queue option \<Rightarrow> message_queue option \<Rightarrow> bool" where
  "same_head x y \<longleftrightarrow> (case (x, y) of
     (Some q, Some r) \<Rightarrow> mq_bDurable q = mq_bDurable r \<and> mq_strQueueName q = mq_strQueueName r \<and> mq_iDurableIndex q = mq_iDurableIndex r
   | (None, None) \<Rightarrow> True | _ \<Rightarrow> False)"

lemma publish_ops_cong: "\<forall>a. same_head (qs a) (qs' a) \<Longrightarrow> publish_ops body pr as qs = publish_ops body pr as qs'"
proof (induction as arbitrary: qs qs')
  case (Cons a as)
  show ?case
  proof (cases "qs a")
    case None
    then have "qs' a = None" using Cons.prems [rule_format, of a] by (auto simp: same_head_def split: option.splits)
    then show ?thesis using None by simp
  next
    case (Some q)
    then obtain r where r: "qs' a = Some r" "mq_bDurable q = mq_bDurable r" "mq_strQueueName q = mq_strQueueName r" "mq_iDurableIndex q = mq_iDurableIndex r"
      using Cons.prems [rule_format, of a] by (auto simp: same_head_def split: option.splits)
    have "\<forall>b. same_head ((qs(a \<mapsto> snd (GetNextDaurableIndex q))) b) ((qs'(a \<mapsto> snd (GetNextDaurableIndex r))) b)"
      using Cons.prems r by (simp add: same_head_def GetNextDaurableIndex_def)
    from Cons.IH [OF this] Cons.IH [OF Cons.prems] show ?thesis using Some r by (simp del: fun_upd_apply)
  qed
qed simp

lemma same_head_AddMessage: "same_head (Some (AddMessage q m)) (Some q)"
  by (simp add: same_head_def AddMessage_def)

lemma same_head_refl: "same_head x x"
  by (simp add: same_head_def split: option.split)

lemma publish_loop_reports:
  assumes fit: "42 + length body \<le> MAX_CLINT_PACKAGE_LENGTH"
  shows "\<forall>a\<in>set as. \<exists>q. m_queues s a = Some q \<and> good_name (mq_strQueueName q) \<Longrightarrow>
    holds (m_pQueueToPersis s) ws \<Longrightarrow>
    used (ws @ map op_wire (publish_ops body pr as (m_queues s))) \<le> capacity (m_pQueueToPersis s) \<Longrightarrow>
    \<exists>s'. publish_loop body pr True as s = Some s' \<and>
      holds (m_pQueueToPersis s') (ws @ map op_wire (publish_ops body pr as (m_queues s)))"
proof (induction as arbitrary: s ws)
  case (Cons a as)
  obtain q where q: "m_queues s a = Some q" "good_name (mq_strQueueName q)" using Cons.prems(1) by auto
  let ?m = "new_SeverStoreMessage body pr True"
  show ?case
  proof (cases "mq_bDurable q")
    case False
    let ?s = "set_queue a (AddMessage q ?m) s"
    have run: "publish_loop body pr True (a # as) s = publish_loop body pr True as ?s" using q False by simp
    have eq: "publish_ops body pr as (m_queues ?s) = publish_ops body pr as (m_queues s)"
      by (rule publish_ops_cong) (use q in \<open>auto simp: set_queue_def same_head_AddMessage same_head_refl\<close>)
    have ops: "publish_ops body pr (a # as) (m_queues s) = publish_ops body pr as (m_queues s)" using q False by simp
    have "\<forall>b\<in>set as. \<exists>r. m_queues ?s b = Some r \<and> good_name (mq_strQueueName r)"
      using Cons.prems(1) q by (auto simp: set_queue_def)
    moreover have "m_pQueueToPersis ?s = m_pQueueToPersis s" by (simp add: set_queue_def)
    ultimately show ?thesis using Cons.IH [of ?s ws] Cons.prems(2,3) unfolding run ops eq by simp
  next
    case True
    let ?d = "?m\<lparr>ssm_iDurableIndex := mq_iDurableIndex q, ssm_strQueueName := mq_strQueueName q\<rparr>"
    let ?w = "durable_wire (mq_strQueueName q) (mq_iDurableIndex q) pr body" and ?q = "snd (GetNextDaurableIndex q)"
    have ops: "publish_ops body pr (a # as) (m_queues s) = Publish (mq_strQueueName q) (mq_iDurableIndex q, pr, body) #
        publish_ops body pr as ((m_queues s)(a \<mapsto> ?q))" using q True by simp
    have ser: "SerializeDurableToString ?d pack_buffer (int MAX_CLINT_PACKAGE_LENGTH) = Some (SUCCESS, packet_buffer ?w, int (length ?w))"
      using durable_serialized [of ?d] q(2) fit by (simp add: new_SeverStoreMessage_def)
    have small: "length ?w \<le> MAX_CLINT_PACKAGE_LENGTH" using fit by (simp add: length_durable_wire [OF q(2)])
    obtain p where p: "to_persis s (packet_buffer ?w) (int (length ?w)) = Some (SUCCESS, s\<lparr>m_pQueueToPersis := p\<rparr>)"
      "holds p (ws @ [?w])" "capacity p = capacity (m_pQueueToPersis s)"
      using to_persis_puts [OF Cons.prems(2), of ?w "packet_buffer ?w"] Cons.prems(3) packet_read(1,3) [OF small] small
      unfolding ops by auto
    let ?s = "set_queue a (AddMessage ?q ?d) (s\<lparr>m_pQueueToPersis := p\<rparr>)"
    have run: "publish_loop body pr True (a # as) s = publish_loop body pr True as ?s"
      using q True ser p(1) by (simp add: GetNextDaurableIndex_def Let_def)
    have eq: "publish_ops body pr as (m_queues ?s) = publish_ops body pr as ((m_queues s)(a \<mapsto> ?q))"
      by (rule publish_ops_cong) (auto simp: set_queue_def same_head_AddMessage same_head_refl)
    have "\<forall>b\<in>set as. \<exists>r. m_queues ?s b = Some r \<and> good_name (mq_strQueueName r)"
      using Cons.prems(1) q by (auto simp: set_queue_def GetNextDaurableIndex_def)
    moreover have "m_pQueueToPersis ?s = p" by (simp add: set_queue_def)
    ultimately show ?thesis using Cons.IH [of ?s "ws @ [?w]"] Cons.prems(3) p(2,3) unfolding run ops eq by simp
  qed
qed simp

section \<open>What has been published is stored\<close>

lemma publish_ack_ring: "publish_ack s lv c sq k = Some s' \<Longrightarrow> m_pQueueToPersis s' = m_pQueueToPersis s"
  by (auto simp: publish_ack_def to_connect_def bind_eq_Some_conv split: if_splits)

lemma publish_handler_reports:
  assumes names: "good_name x" "good_name k" and fit: "80 + length body \<le> MAX_CLINT_PACKAGE_LENGTH"
    and inv: "logic_inv s" and new: "\<not> (0 < lv \<and> msg_seq_key c sq \<in> set (m_producerMsgSeqs s))"
    and e: "map_of (m_mExchanges s) x = Some e" "snd (FindBindingQueue e k []) = qs" "qs \<noteq> []"
    and good: "\<forall>a\<in>set qs. \<exists>q. m_queues s a = Some q \<and> good_name (mq_strQueueName q)"
    and ring: "holds (m_pQueueToPersis s) ws"
      "used (ws @ map op_wire (publish_ops body pr qs (m_queues s))) \<le> capacity (m_pQueueToPersis s)"
  shows "\<exists>s'. ProcessRecvData s (wire (publish_packet c x k pr True sq lv body) @ pad)
      (int (length (wire (publish_packet c x k pr True sq lv body)))) c0 = Some (SUCCESS, c, [], s') \<and>
    holds (m_pQueueToPersis s') (ws @ map op_wire (publish_ops body pr qs (m_queues s)))"
proof -
  let ?m = "publish_packet c x k pr True sq lv body"
  obtain b l where b: "b = wire ?m @ pad" and l: "l = int (length (msg_fields ?m))" by blast
  have len: "length body < 65456" "42 + length body \<le> MAX_CLINT_PACKAGE_LENGTH" using fit by (simp_all add: size_defs)
  have ll: "l - 32 - 32 - 2 - 1 - 4 - 1 = int (length body)" using names by (simp add: l)
  note [simp] = publish_read [OF names b] if_not_P [OF new]
  obtain s1 where s1: "publish_loop body pr True qs s = Some s1"
    "holds (m_pQueueToPersis s1) (ws @ map op_wire (publish_ops body pr qs (m_queues s)))"
    using publish_loop_reports [OF len(2) good ring] by blast
  have "set qs \<subseteq> dom (m_queues s)" using good by auto
  from publish_loop_delivers [OF len(1) inv this, of pr True] s1(1) have "logic_inv s1" by auto
  from publish_ack_returns [OF this] obtain s2 where s2: "publish_ack s1 lv c sq (msg_seq_key c sq) = Some s2" by metis
  obtain f where "FindBindingQueue e k [] = (f, qs)" using e(2) by (cases "FindBindingQueue e k []") simp
  then have "OnPublishMessage s b 8 l c = Some (SUCCESS, [], s2)"
    using e(1,3) s1(1) s2 ll by (simp add: OnPublishMessage_def Let_def)
  moreover have "length (wire ?m) < 65536" using len names by simp
  note ProcessRecvData_wire [OF this, of s pad c0]
  ultimately show ?thesis using s1(2) publish_ack_ring [OF s2] unfolding b l by (simp add: handle_def cmd_defs)
qed

fun is_Publish :: "persis_op \<Rightarrow> bool" where
  "is_Publish (Publish n m) = True"
| "is_Publish _ = False"

lemma publish_ops_Publish: "\<forall>x\<in>set (publish_ops body pr as qs). is_Publish x"
  by (induction as arbitrary: qs) (auto split: option.splits)

lemma published_stays:
  "\<forall>x\<in>set xs. is_Publish x \<Longrightarrow> all_ok op_ok op_spec xs M \<Longrightarrow> \<forall>n e. M n = Some e \<longrightarrow> 0 \<le> qe_next e \<Longrightarrow>
   (\<forall>n e. M n = Some e \<longrightarrow> (\<exists>e'. fold op_spec xs M n = Some e' \<and> set (qe_live e) \<subseteq> set (qe_live e') \<and> qe_next e \<le> qe_next e')) \<and>
   (\<forall>n m. Publish n m \<in> set xs \<longrightarrow> (\<exists>e. fold op_spec xs M n = Some e \<and> m \<in> set (qe_live e) \<and> 0 < qe_next e))"
proof (induction xs arbitrary: M)
  case (Cons x xs)
  obtain n m where x: "x = Publish n m" using Cons.prems(1) by (cases x) simp_all
  obtain e where e: "M n = Some e" "qe_next e \<le> sint (fst m)" using Cons.prems(2) x by (auto split: option.splits)
  let ?e = "e\<lparr>qe_next := sint (fst m) + 1, qe_live := qe_live e @ [m]\<rparr>" let ?M = "M(n \<mapsto> ?e)"
  have M: "op_spec x M = ?M" using x e by simp
  have pos: "\<forall>k e. ?M k = Some e \<longrightarrow> 0 \<le> qe_next e"
  proof (intro allI impI)
    fix k d assume "?M k = Some d"
    moreover have "0 \<le> qe_next e" using Cons.prems(3) e(1) by blast
    ultimately show "0 \<le> qe_next d" using Cons.prems(3) e(2) by (cases "k = n") auto
  qed
  have xs: "\<forall>x\<in>set xs. is_Publish x" "all_ok op_ok op_spec xs ?M" using Cons.prems(1,2) M by simp_all
  note IH = Cons.IH [OF xs pos]
  have old: "\<exists>e'. fold op_spec xs ?M k = Some e' \<and> set (qe_live d) \<subseteq> set (qe_live e') \<and> qe_next d \<le> qe_next e'" if "?M k = Some d" for k d
    using conjunct1 [OF IH] that by blast
  have "0 \<le> qe_next e" using Cons.prems(3) e(1) by blast
  have "\<exists>e'. fold op_spec xs ?M k = Some e' \<and> set (qe_live d) \<subseteq> set (qe_live e') \<and> qe_next d \<le> qe_next e'" if "M k = Some d" for k d
  proof (cases "k = n")
    case True
    then have d: "d = e" using that e by simp
    obtain e' where "fold op_spec xs ?M n = Some e'" "set (qe_live ?e) \<subseteq> set (qe_live e')" "qe_next ?e \<le> qe_next e'"
      using old [of n ?e] by auto
    then show ?thesis using True d e(2) by auto
  next
    case False
    then show ?thesis using old [of k d] that by simp
  qed
  moreover have "\<exists>d. fold op_spec xs ?M k = Some d \<and> j \<in> set (qe_live d) \<and> 0 < qe_next d" if "Publish k j \<in> set (x # xs)" for k j
  proof (cases "Publish k j \<in> set xs")
    case True
    then show ?thesis using conjunct2 [OF IH] by blast
  next
    case False
    then have "k = n" "j = m" using that x by simp_all
    obtain e' where "fold op_spec xs ?M n = Some e'" "set (qe_live ?e) \<subseteq> set (qe_live e')" "qe_next ?e \<le> qe_next e'"
      using old [of n ?e] by auto
    then show ?thesis using \<open>k = n\<close> \<open>j = m\<close> e(2) \<open>0 \<le> qe_next e\<close> by auto
  qed
  ultimately show ?case unfolding fold_Cons comp_apply M by blast
qed simp

lemma bodies_full: "bodies (full_queue n e) = mset (map (\<lambda>m. ssm_strMsgBody (restored m)) (qe_live e))"
proof -
  have "bodies (foldl AddMessage q ms) = bodies q + mset (map ssm_strMsgBody ms)" for q ms
    by (induction ms arbitrary: q) simp_all
  moreover have "bodies (base_queue n e) = {#}"
    by (simp add: base_queue_def SetNextDaurableIndex_def new_MessageQueue_def bodies_def stored_def)
  ultimately show ?thesis by (simp add: full_queue_def image_mset.compositionality o_def)
qed

section \<open>A full ring\<close>

lemma publish_refused:
  assumes q: "m_queues s a = Some q" "mq_bDurable q" "good_name (mq_strQueueName q)" and fit: "42 + length body \<le> MAX_CLINT_PACKAGE_LENGTH"
    and full: "holds (m_pQueueToPersis s) ws" "capacity (m_pQueueToPersis s) < used ws + (14 + (42 + length body))"
  shows "\<exists>s'. publish_loop body pr True [a] s = Some s' \<and> m_pQueueToPersis s' = m_pQueueToPersis s \<and>
    m_pQueueToConnect s' = m_pQueueToConnect s \<and> m_producerMsgSeqs s' = m_producerMsgSeqs s"
proof -
  let ?m = "(new_SeverStoreMessage body pr True)\<lparr>ssm_iDurableIndex := mq_iDurableIndex q, ssm_strQueueName := mq_strQueueName q\<rparr>"
  let ?w = "durable_wire (mq_strQueueName q) (mq_iDurableIndex q) pr body"
  have len: "length ?w = 42 + length body" by (rule length_durable_wire [OF q(3)])
  have ser: "SerializeDurableToString ?m pack_buffer (int MAX_CLINT_PACKAGE_LENGTH) = Some (SUCCESS, packet_buffer ?w, int (length ?w))"
    using durable_serialized [of ?m] q(3) fit by (simp add: new_SeverStoreMessage_def)
  have small: "length ?w \<le> MAX_CLINT_PACKAGE_LENGTH" using fit len by simp
  have "to_persis s (packet_buffer ?w) (int (length ?w)) = Some (ERR_SHM_QUEUE_FULL, s)"
    by (rule to_persis_refused [OF full(1)]) (use full(2) small packet_read(1) [OF small] len in \<open>simp_all add: size_defs\<close>)
  then show ?thesis using q(1,2) ser by (simp add: GetNextDaurableIndex_def Let_def set_queue_def)
qed

lemma single_ack_goes_out:
  assumes "holds (m_pQueueToConnect s) cs" "used cs + 26 \<le> capacity (m_pQueueToConnect s)"
  shows "\<exists>s'. publish_ack s PRODUCER_SINGLE_ACK c sq k = Some s' \<and> m_pQueueToPersis s' = m_pQueueToPersis s \<and>
    holds (m_pQueueToConnect s') (cs @ [wire (ServerAckMessage c CMD_SERVER_ACK_MESSAGE sq)])"
proof -
  let ?w = "wire (ServerAckMessage c CMD_SERVER_ACK_MESSAGE sq)" let ?b = "zbuf ?w MAX_SERVER_PACKAGE_LENGTH"
  have len: "length ?w = 12" by simp
  have "12 \<le> length ?b" "take 12 ?b = ?w" using len by (simp_all add: zbuf_def size_defs)
  then obtain q where "Enqueue (m_pQueueToConnect s) ?b 12 = Some (SUCCESS, q)" "holds q (cs @ [?w])"
    using Enqueue_fits [OF assms(1), of 12 ?b] assms(2) by auto
  then show ?thesis using server_ack_packed [of c CMD_SERVER_ACK_MESSAGE sq] by (simp add: publish_ack_def to_connect_def ack_defs)
qed

section \<open>Properties\<close>


text \<open>C36. When the ring to the persistence server has no room for a durable message, the message is not stored, and the producer gets its
  confirmation all the same: the logic server ignores what \<open>Enqueue\<close> returns.\<close>

theorem confirmed_without_storage:
  assumes names: "good_name x" "good_name k" and fit: "80 + length body \<le> MAX_CLINT_PACKAGE_LENGTH"
    and new: "msg_seq_key c sq \<notin> set (m_producerMsgSeqs s)"
    and e: "map_of (m_mExchanges s) x = Some e" "snd (FindBindingQueue e k []) = [a]"
    and q: "m_queues s a = Some q" "mq_bDurable q" "good_name (mq_strQueueName q)"
    and full: "holds (m_pQueueToPersis s) ws" "capacity (m_pQueueToPersis s) < used ws + (14 + (42 + length body))"
    and conn: "holds (m_pQueueToConnect s) cs" "used cs + 26 \<le> capacity (m_pQueueToConnect s)"
  shows "\<exists>s'. ProcessRecvData s (wire (publish_packet c x k pr True sq PRODUCER_SINGLE_ACK body) @ pad)
      (int (length (wire (publish_packet c x k pr True sq PRODUCER_SINGLE_ACK body)))) c0 = Some (SUCCESS, c, [], s') \<and>
    holds (m_pQueueToPersis s') ws \<and> holds (m_pQueueToConnect s') (cs @ [wire (ServerAckMessage c CMD_SERVER_ACK_MESSAGE sq)])"
proof -
  let ?m = "publish_packet c x k pr True sq PRODUCER_SINGLE_ACK body"
  obtain b l where b: "b = wire ?m @ pad" and l: "l = int (length (msg_fields ?m))" by blast
  have len: "42 + length body \<le> MAX_CLINT_PACKAGE_LENGTH" using fit by simp
  have ll: "l - 32 - 32 - 2 - 1 - 4 - 1 = int (length body)" using names by (simp add: l)
  note [simp] = publish_read [OF names b]
  obtain s1 where s1: "publish_loop body pr True [a] s = Some s1" "m_pQueueToPersis s1 = m_pQueueToPersis s"
    "m_pQueueToConnect s1 = m_pQueueToConnect s"
    using publish_refused [OF q len full] by blast
  obtain s2 where s2: "publish_ack s1 PRODUCER_SINGLE_ACK c sq (msg_seq_key c sq) = Some s2" "m_pQueueToPersis s2 = m_pQueueToPersis s1"
    "holds (m_pQueueToConnect s2) (cs @ [wire (ServerAckMessage c CMD_SERVER_ACK_MESSAGE sq)])"
    using single_ack_goes_out [of s1 cs c sq "msg_seq_key c sq"] conn s1(3) by auto
  obtain f where "FindBindingQueue e k [] = (f, [a])" using e(2) by (cases "FindBindingQueue e k []") simp
  then have "OnPublishMessage s b 8 l c = Some (SUCCESS, [], s2)"
    using e(1) s1(1) s2(1) ll new by (simp add: OnPublishMessage_def Let_def del: publish_loop.simps)
  moreover have "length (wire ?m) < 65536" using fit names by (simp add: size_defs)
  note ProcessRecvData_wire [OF this, of s pad c0]
  ultimately show ?thesis using s1(2) s2(2,3) full(1) unfolding b l by (simp add: handle_def cmd_defs)
qed

section \<open>Witnesses\<close>

text \<open>The server of \<open>w_server\<close>, with a durable queue and other rings.\<close>

definition w_durable :: "shm_queue \<Rightarrow> shm_queue \<Rightarrow> logic_server" where
  "w_durable r r' = (new_LogicServer r r r')
     \<lparr>m_queues := [0 \<mapsto> new_MessageQueue [113] 0 True False], m_iNextAddr := 1, m_mUnSubcribeQueues := [([113], 0)],
      m_mExchanges := [([101], (new_Exchange [101] EXCHANGE_TYPE_DIRECT False False)
         \<lparr>m_mBindingQueues := [([107], [0])]\<rparr>)]\<rparr>"

lemma w_durable_inv: "shm_ok r \<Longrightarrow> shm_ok r' \<Longrightarrow> logic_inv (w_durable r r')"
  by (auto simp: logic_inv_def core_inv_def w_durable_def new_LogicServer_def new_Exchange_def size_defs
      bound_queues_def exchange_inv_def split: if_split_asm)

lemma w_durable_facts:
  "map_of (m_mExchanges (w_durable r r')) [101] = Some ((new_Exchange [101] EXCHANGE_TYPE_DIRECT False False)\<lparr>m_mBindingQueues := [([107], [0])]\<rparr>)"
  "snd (FindBindingQueue ((new_Exchange [101] EXCHANGE_TYPE_DIRECT False False)\<lparr>m_mBindingQueues := [([107], [0])]\<rparr>) [107] []) = [0]"
  "m_queues (w_durable r r') 0 = Some (new_MessageQueue [113] 0 True False)"
  "m_producerMsgSeqs (w_durable r r') = []" "m_pQueueToPersis (w_durable r r') = r'" "m_pQueueToConnect (w_durable r r') = r"
  "good_name [101]" "good_name [107]" "good_name [113]" "plain [113]"
  by (simp_all add: w_durable_def new_LogicServer_def new_Exchange_def FindBindingQueue_def good_name_def plain_def size_defs)


theorem confirmed_without_storage_witness:
  "\<exists>r s'. ProcessRecvData (w_durable r w_ring) (wire (publish_packet 3 [101] [107] 4 True 7 PRODUCER_SINGLE_ACK [65, 66]) @ []) 82 (-1) = Some (SUCCESS, 3, [], s') \<and>
    holds (m_pQueueToPersis s') [[7, 9]] \<and> holds (m_pQueueToConnect s') ([] @ [wire (ServerAckMessage 3 CMD_SERVER_ACK_MESSAGE 7)])"
proof -
  obtain r where r: "holds r []" "capacity r = 1000" using ring_with [of "[]"] by auto
  note f = w_durable_facts
  have fit: "80 + length [65, 66 :: byte] \<le> MAX_CLINT_PACKAGE_LENGTH" by (simp add: size_defs)
  have len: "length (wire (publish_packet 3 [101] [107] 4 True 7 PRODUCER_SINGLE_ACK [65, 66])) = 82" using f(7,8) by simp
  have new: "msg_seq_key 3 7 \<notin> set (m_producerMsgSeqs (w_durable r w_ring))" by (simp add: f(4))
  have q: "mq_bDurable (new_MessageQueue [113] 0 True False)" "good_name (mq_strQueueName (new_MessageQueue [113] 0 True False))"
    using f(9) by (simp_all add: new_MessageQueue_def)
  have rings: "holds (m_pQueueToPersis (w_durable r w_ring)) [[7, 9]]"
    "capacity (m_pQueueToPersis (w_durable r w_ring)) < used [[7, 9]] + (14 + (42 + length [65, 66 :: byte]))"
    "holds (m_pQueueToConnect (w_durable r w_ring)) []" "used [] + 26 \<le> capacity (m_pQueueToConnect (w_durable r w_ring))"
    using w_ring_holds r by (simp_all add: f(5,6))
  from confirmed_without_storage [OF f(7,8) fit new f(1,2,3) q rings, where pr = 4 and pad = "[]" and ?c0.0 = "-1"] show ?thesis unfolding len by (intro exI [of _ r]) simp
qed

end
