(* ===== verification/Persis_Idle.thy ===== *)
theory Persis_Idle
  imports Crash_Recovery
begin

text \<open>
  What the persistence server does when it is idle.
\<close>

lemma clear_loop_odd:
  "odd (length fs) \<Longrightarrow> [] \<notin> set fs \<Longrightarrow> prev \<noteq> [] \<Longrightarrow> clear_loop q prev fs c s = None"
proof (induction fs arbitrary: c s prev rule: induct_list012)
  case (3 f g fs)
  have "clear_loop q g fs c s = None" for c s by (rule 3(1)) (use 3(3,4) in auto)
  then show ?case using 3(5) by (auto simp: bind_eq_None_conv Let_def)
qed (auto simp: bind_eq_None_conv Let_def)

lemma clear_loop_even: "fs \<noteq> [] \<Longrightarrow> even (length fs) \<Longrightarrow> [] \<notin> set fs \<Longrightarrow> clear_loop q [] fs c s = None"
  using clear_loop_odd [of "tl fs" "hd fs"] by (cases fs) auto

text \<open>An idle persistence server fails when the first queue of its list has a positive even number of message files: the walk
  over the files reads the element behind the last one.\<close>

theorem idle_walk_undefined:
  assumes "holds (ps_pQueueFromLogic s) []" "m_mMsgQueueList s = (q, fs) # rest" "fs \<noteq> []" "even (length fs)" "[] \<notin> set fs"
  shows "Persis_Run_round s = None"
proof -
  have "persis_loop 0 s = Some (0, s)"
    using DequeueInto_empty [OF assms(1)] by (subst persis_loop.simps) (simp add: Let_def)
  moreover have "ClearUpFile s = None"
    using clear_loop_even [OF assms(3-5)] by (simp add: ClearUpFile_def assms(2))
  ultimately show ?thesis by (simp add: Persis_Run_round_def)
qed

theorem idle_walk_undefined_witness:
  "\<exists>r. holds r [] \<and> Persis_Run_round ((new_PersistenceServer [] r 0)\<lparr>m_mMsgQueueList := [([113], [ConvertIndexToString 0, ConvertIndexToString 1])]\<rparr>) = None"
proof -
  obtain r where r: "holds r []" using Init_holds [of 1000 ShmQueue_new] by auto
  have "ConvertIndexToString 0 \<noteq> []" "ConvertIndexToString 1 \<noteq> []"
    using digit_name_Convert [of 0] digit_name_Convert [of 1] digit_name_chars by fastforce+
  then show ?thesis using idle_walk_undefined [of "(new_PersistenceServer [] r 0)\<lparr>m_mMsgQueueList := [([113], [ConvertIndexToString 0, ConvertIndexToString 1])]\<rparr>" "[113]"] r
    by (intro exI [of _ r]) (simp add: new_PersistenceServer_def)
qed

end
