(* ===== verification/Client_Conn.thy ===== *)
theory Client_Conn
  imports Logic_Publish
begin

text \<open>
  The client library, \<^verbatim>\<open>client/client.h\<close> and \<^verbatim>\<open>client/client.cpp\<close>: the class \<^verbatim>\<open>Client\<close> with its receive buffer, the
  sending of requests and the reading of replies. What the system calls on the socket return is part of the state:
  \<open>None\<close> is also a call that is still waiting when the listed results are used up. The lines printed on the terminal are left out.
\<close>

section \<open>State\<close>

definition ERR_CLIENT_BUILD_CONNECT :: int where "ERR_CLIENT_BUILD_CONNECT = -600"
definition ERR_CLIENT_SEND_PACK :: int where "ERR_CLIENT_SEND_PACK = -601"
definition ERR_CLIENT_CREATE_EXCHANGE :: int where "ERR_CLIENT_CREATE_EXCHANGE = -602"
definition ERR_CLIENT_CREATE_QUEUE :: int where "ERR_CLIENT_CREATE_QUEUE = -603"
definition ERR_CLIENT_CREATE_BINDING :: int where "ERR_CLIENT_CREATE_BINDING = -604"
definition ERR_CLIENT_PUBLISH_MSG :: int where "ERR_CLIENT_PUBLISH_MSG = -605"
definition ERR_CLIENT_REV_MSG :: int where "ERR_CLIENT_REV_MSG = -606"
definition ERR_CLIENT_CREATE_SUBSCRIBE :: int where "ERR_CLIENT_CREATE_SUBSCRIBE = -608"
definition ERR_CLIENT_REV_PACK :: int where "ERR_CLIENT_REV_PACK = -609"
definition ERR_CLIENT_SEND_ACK :: int where "ERR_CLIENT_SEND_ACK = -610"
definition ERR_CLIENT_DELETE_EXCHANGE :: int where "ERR_CLIENT_DELETE_EXCHANGE = -611"
definition ERR_CLIENT_DELETE_QUEUE :: int where "ERR_CLIENT_DELETE_QUEUE = -612"
definition ERR_SEVER_CLOSED :: int where "ERR_SEVER_CLOSED = -613"
definition ERR_SOCKET_SEND_BUFF_FULL :: int where "ERR_SOCKET_SEND_BUFF_FULL = -614"
definition SOCK_SEND_BUFF_SIZE :: nat where "SOCK_SEND_BUFF_SIZE = 1024 * 1024 * 10"
definition SOCK_RECV_BUFF_SIZE :: nat where "SOCK_RECV_BUFF_SIZE = 1024 * 1024 * 10"

lemmas client_err_defs = ERR_CLIENT_BUILD_CONNECT_def ERR_CLIENT_SEND_PACK_def ERR_CLIENT_CREATE_EXCHANGE_def
  ERR_CLIENT_CREATE_QUEUE_def ERR_CLIENT_CREATE_BINDING_def ERR_CLIENT_PUBLISH_MSG_def ERR_CLIENT_REV_MSG_def
  ERR_CLIENT_CREATE_SUBSCRIBE_def ERR_CLIENT_REV_PACK_def ERR_CLIENT_SEND_ACK_def ERR_CLIENT_DELETE_EXCHANGE_def
  ERR_CLIENT_DELETE_QUEUE_def ERR_SEVER_CLOSED_def ERR_SOCKET_SEND_BUFF_FULL_def

text \<open>A result of \<^verbatim>\<open>poll\<close>: its value, the \<^verbatim>\<open>errno\<close>, and whether \<^verbatim>\<open>revents\<close> has \<^verbatim>\<open>POLLERR\<close> and \<^verbatim>\<open>POLLOUT\<close>.\<close>

record poll_result =
  po_ret :: int
  po_errno :: sock_errno
  po_err :: bool
  po_out :: bool

text \<open>
  The pointers into the buffers are offsets. \<open>cl_poll\<close>, \<open>cl_recv\<close> and \<open>cl_send\<close> are the results of the calls to come
  (a list for each \<^verbatim>\<open>Sendn\<close>), \<open>cl_wire\<close> is what has been handed to the kernel, \<open>cl_now\<close> the clock, \<open>cl_stack\<close>
  what uninitialised arrays hold.
\<close>

record client =
  cl_iSockfd :: int
  cl_bBuild :: bool
  cl_iConfirmLevel :: byte
  cl_pErrMsg :: bytes
  cl_pRecvBuff :: bytes
  cl_pRecvHead :: nat
  cl_pRecvTail :: nat
  cl_pSendBuff :: bytes
  cl_pSendHead :: nat
  cl_pSendTail :: nat
  cl_poll :: "poll_result list"
  cl_recv :: "(int \<times> sock_errno \<times> bytes) list"
  cl_send :: "(int \<times> sock_errno) list list"
  cl_wire :: bytes
  cl_now :: "int \<times> int"
  cl_stack :: bytes

definition new_Client :: client where
  "new_Client = \<lparr>cl_iSockfd = -1, cl_bBuild = False, cl_iConfirmLevel = 0, cl_pErrMsg = replicate 256 0,
     cl_pRecvBuff = replicate SOCK_RECV_BUFF_SIZE 0, cl_pRecvHead = 0, cl_pRecvTail = 0,
     cl_pSendBuff = replicate SOCK_SEND_BUFF_SIZE 0, cl_pSendHead = 0, cl_pSendTail = 0,
     cl_poll = [], cl_recv = [], cl_send = [], cl_wire = [], cl_now = (0, 0), cl_stack = []\<rparr>"

text \<open>\<^verbatim>\<open>snprintf(m_pErrMsg,sizeof(m_pErrMsg),..)\<close>, and the lines that follow it when the connection is given up.\<close>

definition set_err :: "bytes \<Rightarrow> 'a client_scheme \<Rightarrow> 'a client_scheme" where
  "set_err txt c = c\<lparr>cl_pErrMsg := put_at (cl_pErrMsg c) 0 (take 255 txt @ [0])\<rparr>"

definition give_up :: "bytes \<Rightarrow> 'a client_scheme \<Rightarrow> 'a client_scheme" where
  "give_up txt c = (set_err txt c)\<lparr>cl_bBuild := False\<rparr>"

text \<open>The results of \<^verbatim>\<open>socket\<close> and \<^verbatim>\<open>connect\<close>, and the text of \<^verbatim>\<open>strerror\<close>.\<close>

definition BuildConnection :: "int \<Rightarrow> int \<Rightarrow> bytes \<Rightarrow> bytes \<Rightarrow> u16 \<Rightarrow> 'a client_scheme \<Rightarrow> int \<times> 'a client_scheme" where
  "BuildConnection sock conn errtext ipSeverIp iServerPort c =
     (let c = c\<lparr>cl_iSockfd := sock\<rparr>
      in if sock \<le> 0 then (ERR_CLIENT_BUILD_CONNECT, set_err (bytes_of ''Create Sockfd failed!'') c)
         else if conn = -1 then (ERR_CLIENT_BUILD_CONNECT,
           set_err (bytes_of ''connect failed,ip is '' @ ipSeverIp @ bytes_of '',port is '' @ to_string (ucast iServerPort) @
             bytes_of ''!,err msg is '' @ errtext) c)
         else (SUCCESS, c\<lparr>cl_bBuild := True\<rparr>))"

section \<open>Sending\<close>

fun poll_readable :: "poll_result list \<Rightarrow> (int \<times> poll_result list) option" where
  "poll_readable [] = None"
| "poll_readable (p # rest) =
     (if po_ret p < 0 then
        (if po_errno p = EINTR \<or> po_errno p = EAGAIN then poll_readable rest else Some (ERROR, rest))
      else if po_ret p = 0 then Some (ERROR, rest)
      else if po_err p then Some (ERROR, rest)
      else Some (SUCCESS, rest))"

definition WaitServerReply :: "'a client_scheme \<Rightarrow> (int \<times> 'a client_scheme) option" where
  "WaitServerReply c = do { (ret, rest) \<leftarrow> poll_readable (cl_poll c); Some (ret, c\<lparr>cl_poll := rest\<rparr>) }"

fun poll_writable :: "poll_result list \<Rightarrow> (int \<times> poll_result list) option" where
  "poll_writable [] = None"
| "poll_writable (p # rest) =
     (if po_ret p < 0 then
        (if po_errno p = EINTR \<or> po_errno p = EAGAIN then poll_writable rest else Some (ERR_CLIENT_SEND_PACK, rest))
      else if po_ret p = 0 then Some (ERR_CLIENT_SEND_PACK, rest)
      else if po_out p then Some (SUCCESS, rest)
      else Some (ERR_CLIENT_SEND_PACK, rest))"

definition SendOnePack :: "bytes \<Rightarrow> int \<Rightarrow> 'a client_scheme \<Rightarrow> (int \<times> 'a client_scheme) option" where
  "SendOnePack ipBuffer iLen c =
     (if iLen \<le> 0 \<or> cl_iSockfd c \<le> 0 then Some (ERR_CLIENT_SEND_PACK, c)
      else do {
        (ret, rest) \<leftarrow> poll_writable (cl_poll c);
        let c = c\<lparr>cl_poll := rest\<rparr>;
        if ret \<noteq> SUCCESS then Some (ERR_CLIENT_SEND_PACK, c)
        else case cl_send c of
          [] \<Rightarrow> None
        | script # scripts \<Rightarrow> do {
            (ret, sent) \<leftarrow> Sendn script ipBuffer 0 iLen;
            let c = c\<lparr>cl_send := scripts, cl_wire := cl_wire c @ sent\<rparr>;
            Some (if ret = ERROR then ERR_CLIENT_SEND_PACK else SUCCESS, c) } })"

text \<open>\<open>SendPack\<close> compares the constant \<^verbatim>\<open>ERROR\<close>, which is \<open>-1\<close>, with \<^verbatim>\<open>EWOULDBLOCK\<close>, which is 11. Nothing calls it.\<close>

definition SendPack :: "'a client_scheme \<Rightarrow> (int \<times> 'a client_scheme) option" where
  "SendPack c =
     (let iSendBytes = int (cl_pSendTail c) - int (cl_pSendHead c)
      in if iSendBytes > 0 then
           (case cl_send c of
              ((iRet, e) # script) # scripts \<Rightarrow>
                (let c = c\<lparr>cl_send := scripts\<rparr>
                 in if iRet < 0 then
                      (if ERROR = 11 then Some (ERR_SOCKET_SEND_BUFF_FULL, c)
                       else Some (ERR_SEVER_CLOSED, give_up (bytes_of ''Connection closed!'') c))
                    else if iRet = 0 then Some (ERR_SEVER_CLOSED, give_up (bytes_of ''Connection closed!'') c)
                    else Some (SUCCESS, c\<lparr>cl_wire := cl_wire c @ get_at (cl_pSendBuff c) (cl_pSendHead c) (nat iRet),
                           cl_pSendHead := cl_pSendHead c + nat iRet\<rparr>))
            | _ \<Rightarrow> None)
         else Some (SUCCESS, c))"

section \<open>Receiving\<close>

text \<open>Does the buffer hold a whole packet? A packet that is no longer than its head does not count.\<close>

definition whole_packet :: "'a client_scheme \<Rightarrow> bool option" where
  "whole_packet c =
     (let iLen = cl_pRecvTail c - cl_pRecvHead c
      in if 8 < iLen then do {
           (_, iPackLen) \<leftarrow> ReadShort (cl_pRecvBuff c) (cl_pRecvHead c);
           Some (\<not> int iLen < uint iPackLen) }
         else Some False)"

definition RecvPack :: "'a client_scheme \<Rightarrow> (int \<times> 'a client_scheme) option" where
  "RecvPack c = do {
     whole \<leftarrow> whole_packet c;
     if whole then Some (SUCCESS, c)
     else do {
       (ret, c) \<leftarrow> WaitServerReply c;
       if ret \<noteq> SUCCESS then Some (ERR_SEVER_CLOSED, give_up (bytes_of ''Connection closed 1!'') c)
       else do {
         let iFreeSpace = int (length (cl_pRecvBuff c)) - int (cl_pRecvTail c);
         (case cl_recv c of
            [] \<Rightarrow> None
          | (ret, e, dat) # rest \<Rightarrow>
              (let c = c\<lparr>cl_recv := rest\<rparr>
               in if ret < 0 then
                    (if e = EAGAIN then Some (ERROR, c)
                     else Some (ERR_SEVER_CLOSED, give_up (bytes_of ''Connection closed 2!'') c))
                  else if ret = 0 then
                    Some (ERR_SEVER_CLOSED, give_up (bytes_of ''Connection closed 3,free space is '' @
                      to_string (word_of_int iFreeSpace) @ bytes_of ''!'') c)
                  else do {
                    b \<leftarrow> mem_write (cl_pRecvBuff c) (cl_pRecvTail c) dat;
                    let c = c\<lparr>cl_pRecvBuff := b, cl_pRecvTail := cl_pRecvTail c + nat ret\<rparr>;
                    whole \<leftarrow> whole_packet c;
                    Some (if whole then SUCCESS else ERROR, c) })) } } }"

text \<open>The loop around \<open>RecvPack\<close>.\<close>

partial_function (option) recv_until :: "'a client_scheme \<Rightarrow> (int \<times> 'a client_scheme) option" where
  "recv_until c = do {
     (iRet, c) \<leftarrow> RecvPack c;
     if iRet = ERR_SEVER_CLOSED then Some (ERR_SEVER_CLOSED, c)
     else if iRet \<noteq> SUCCESS then recv_until c
     else Some (SUCCESS, c) }"

text \<open>The unread bytes move to the start of the buffer.\<close>

definition move_rest :: "'a client_scheme \<Rightarrow> 'a client_scheme option" where
  "move_rest c = do {
     let iMoveCount = int (cl_pRecvTail c) - int (cl_pRecvHead c);
     b \<leftarrow> memcpy (cl_pRecvBuff c) 0 (cl_pRecvBuff c) (int (cl_pRecvHead c)) iMoveCount;
     Some (c\<lparr>cl_pRecvBuff := b, cl_pRecvHead := 0, cl_pRecvTail := nat iMoveCount\<rparr>) }"

text \<open>The result, the buffer, the length and the type of the reply. Lengths are unchanged after an error.\<close>

definition RecvOnePack :: "bytes \<Rightarrow> int \<Rightarrow> u16 \<Rightarrow> 'a client_scheme \<Rightarrow> (int \<times> bytes \<times> int \<times> u16 \<times> 'a client_scheme) option" where
  "RecvOnePack opBuffer iopLen oRelyType c =
     (if \<not> cl_bBuild c then Some (ERR_CLIENT_BUILD_CONNECT, opBuffer, iopLen, oRelyType, set_err (bytes_of ''Connection not build!'') c)
      else do {
        (iRet, c) \<leftarrow> recv_until c;
        if iRet = ERR_SEVER_CLOSED then Some (ERR_CLIENT_REV_PACK, opBuffer, iopLen, oRelyType, c)
        else do {
          let pTemp = cl_pRecvHead c;
          (offset, iPackLen) \<leftarrow> ReadShort (cl_pRecvBuff c) pTemp;
          let pTemp = pTemp + offset;
          (offset, iClientIndex) \<leftarrow> ReadInt (cl_pRecvBuff c) pTemp;
          let pTemp = pTemp + offset;
          (offset, iCmdId) \<leftarrow> ReadShort (cl_pRecvBuff c) pTemp;
          let pTemp = pTemp + offset;
          if uint iPackLen > int MAX_CLINT_PACKAGE_LENGTH - 8
          then Some (ERR_CLIENT_REV_PACK, opBuffer, iopLen, iCmdId, set_err (bytes_of ''Msg is too long!'') c)
          else do {
            let iDataLen = uint iPackLen - 8;
            opBuffer \<leftarrow> memcpy opBuffer 0 (cl_pRecvBuff c) (int pTemp) iDataLen;
            c \<leftarrow> move_rest (c\<lparr>cl_pRecvHead := cl_pRecvHead c + unat iPackLen\<rparr>);
            Some (SUCCESS, opBuffer, iDataLen, iCmdId, c) } } })"

section \<open>Requests\<close>

text \<open>The common part of the requests: the message is packed and sent, and a reply is awaited and parsed.\<close>

definition parse_reply :: "int \<Rightarrow> ('a client_scheme \<Rightarrow> 'a client_scheme) \<Rightarrow> ('a client_scheme \<Rightarrow> 'a client_scheme) \<Rightarrow>
    'a client_scheme \<Rightarrow> (int \<times> 'a client_scheme) option" where
  "parse_reply err wrong refused c = do {
     (ret, pBuffer, iLen, iReplyType, c) \<leftarrow>
       RecvOnePack (replicate MAX_SERVER_PACKAGE_LENGTH 0) (int MAX_SERVER_PACKAGE_LENGTH) 0 c;
     if ret \<noteq> SUCCESS \<or> iReplyType \<noteq> CMD_SERVER_REPLY_MESSAGE then Some (err, wrong c)
     else do {
       (offset, bSucceed) \<leftarrow> ReadBool pBuffer 0;
       if \<not> bSucceed then do {
         (_, txt) \<leftarrow> ReadBuf pBuffer offset 256;
         Some (err, (refused c)\<lparr>cl_pErrMsg := txt\<rparr>) }
       else Some (SUCCESS, c) } }"

definition client_request :: "message \<Rightarrow> int \<Rightarrow> 'a client_scheme \<Rightarrow> (int \<times> 'a client_scheme) option" where
  "client_request oMsg err c =
     (if \<not> cl_bBuild c then Some (ERR_CLIENT_BUILD_CONNECT, set_err (bytes_of ''Connection not build!'') c)
      else do {
        (ret, pMsgPack, iPackLen) \<leftarrow> GetMessagePack oMsg (replicate MAX_CLINT_PACKAGE_LENGTH 0) (int MAX_CLINT_PACKAGE_LENGTH);
        if ret \<noteq> SUCCESS then Some (err, set_err (bytes_of ''Invaild parms!'') c)
        else do {
          (ret, c) \<leftarrow> SendOnePack pMsgPack iPackLen c;
          if ret \<noteq> SUCCESS then Some (err, give_up (bytes_of ''Connection closed!'') c)
          else parse_reply err (\<lambda>c. c) (\<lambda>c. c) c } })"

definition Client_CreateExchange :: "bytes \<Rightarrow> u16 \<Rightarrow> bool \<Rightarrow> bool \<Rightarrow> 'a client_scheme \<Rightarrow> (int \<times> 'a client_scheme) option" where
  "Client_CreateExchange istrName iExchangeType ibDurable ibAutoDel =
     client_request (new_CreateExchangeMessage istrName iExchangeType ibDurable ibAutoDel) ERR_CLIENT_CREATE_EXCHANGE"

definition Client_CreateQueue :: "bytes \<Rightarrow> i16 \<Rightarrow> bool \<Rightarrow> bool \<Rightarrow> 'a client_scheme \<Rightarrow> (int \<times> 'a client_scheme) option" where
  "Client_CreateQueue istrName iPriority ibDurable ibAutoDel =
     client_request (new_CreateQueueMessage istrName iPriority ibDurable ibAutoDel) ERR_CLIENT_CREATE_QUEUE"

definition Client_CreateBinding :: "bytes \<Rightarrow> bytes \<Rightarrow> bytes \<Rightarrow> 'a client_scheme \<Rightarrow> (int \<times> 'a client_scheme) option" where
  "Client_CreateBinding istrExName istrQueueName istrKey =
     client_request (new_CreateBindingMessage istrExName istrQueueName istrKey) ERR_CLIENT_CREATE_BINDING"

definition Client_DeleteExchange :: "bytes \<Rightarrow> 'a client_scheme \<Rightarrow> (int \<times> 'a client_scheme) option" where
  "Client_DeleteExchange istrName = client_request (new_DeleteExchangeMessage istrName) ERR_CLIENT_DELETE_EXCHANGE"

definition Client_DeleteQueue :: "bytes \<Rightarrow> 'a client_scheme \<Rightarrow> (int \<times> 'a client_scheme) option" where
  "Client_DeleteQueue istrName = client_request (new_DeleteQueueMessage istrName) ERR_CLIENT_DELETE_QUEUE"

end
