(* ===== verification/Client_Roles.thy ===== *)
theory Client_Roles
  imports Client_Conn
begin

text \<open>
  The classes \<^verbatim>\<open>Producer\<close> and \<^verbatim>\<open>Consumer\<close> of \<^verbatim>\<open>client/client.cpp\<close>: publishing with confirmation, and pulling, subscribing and
  acknowledging.
\<close>

section \<open>Producer\<close>

text \<open>A waiting message with the time of its last sending.\<close>

record producer = client +
  pr_iMsgSeq :: i32
  pr_NeedAckMsgList :: "(message \<times> (int \<times> int)) list"

fun SetMsgSeq :: "i32 \<Rightarrow> message \<Rightarrow> message" where
  "SetMsgSeq q (CreatePublishMessage i c e k p d s l b) = CreatePublishMessage i c e k p d q l b"
| "SetMsgSeq q m = m"

fun GetMsgSeq :: "message \<Rightarrow> i32" where
  "GetMsgSeq (CreatePublishMessage i c e k p d s l b) = s"
| "GetMsgSeq m = -1"

definition PuslishMessage :: "bytes \<Rightarrow> bytes \<Rightarrow> bytes \<Rightarrow> i16 \<Rightarrow> bool \<Rightarrow> producer \<Rightarrow> (int \<times> producer) option" where
  "PuslishMessage istrExName istrKey istrMsgBody iPriority ibDurable c =
     (if \<not> cl_bBuild c then Some (ERR_CLIENT_BUILD_CONNECT, set_err (bytes_of ''Connection not build!'') c)
      else
        let oMsg = new_CreatePublishMessage istrExName istrKey istrMsgBody iPriority ibDurable (cl_iConfirmLevel c);
            (oMsg, c) = (if 0 < cl_iConfirmLevel c then (SetMsgSeq (pr_iMsgSeq c) oMsg, c\<lparr>pr_iMsgSeq := pr_iMsgSeq c + 1\<rparr>) else (oMsg, c))
        in do {
          (ret, pMsgPack, iPackLen) \<leftarrow> GetMessagePack oMsg (replicate MAX_CLINT_PACKAGE_LENGTH 0) (int MAX_CLINT_PACKAGE_LENGTH);
          if ret \<noteq> SUCCESS then Some (ERR_CLIENT_PUBLISH_MSG, set_err (bytes_of ''Invaild parms!'') c)
          else do {
            (ret, c) \<leftarrow> SendOnePack pMsgPack iPackLen c;
            if ret \<noteq> SUCCESS then Some (ERR_CLIENT_PUBLISH_MSG, give_up (bytes_of ''Server closed!'') c)
            else if 0 < cl_iConfirmLevel c
            then Some (SUCCESS, c\<lparr>pr_NeedAckMsgList := pr_NeedAckMsgList c @ [(oMsg, cl_now c)]\<rparr>)
            else Some (SUCCESS, c) } })"

text \<open>
  The loop that reads the packets in the buffer: their numbers, and the producer with the unread rest moved to the
  start. The command of a packet is read but not looked at. A length of 0 never ends.
\<close>

partial_function (option) ack_loop :: "int \<Rightarrow> i32 list \<Rightarrow> producer \<Rightarrow> (i32 list \<times> producer) option" where
  "ack_loop iLen sAckSeq c =
     (if iLen < 8 then do { c \<leftarrow> move_rest c; Some (sAckSeq, c) }
      else do {
        let pTemp = cl_pRecvHead c;
        (offset, iPackLen) \<leftarrow> ReadShort (cl_pRecvBuff c) pTemp;
        if iLen < uint iPackLen then do { c \<leftarrow> move_rest c; Some (sAckSeq, c) }
        else do {
          let pTemp = pTemp + offset;
          (offset, iClientIndex) \<leftarrow> ReadInt (cl_pRecvBuff c) pTemp;
          let pTemp = pTemp + offset;
          (offset, iCmdId) \<leftarrow> ReadShort (cl_pRecvBuff c) pTemp;
          let pTemp = pTemp + offset;
          (offset, iMsgSeq) \<leftarrow> ReadInt (cl_pRecvBuff c) pTemp;
          ack_loop (iLen - uint iPackLen) (List.insert iMsgSeq sAckSeq) (c\<lparr>cl_pRecvHead := cl_pRecvHead c + unat iPackLen\<rparr>) } })"

definition single_confirm :: "i32 list \<Rightarrow> (message \<times> (int \<times> int)) list \<Rightarrow> (message \<times> (int \<times> int)) list" where
  "single_confirm sAckSeq = filter (\<lambda>(m, _). GetMsgSeq m \<notin> set sAckSeq)"

definition multi_confirm :: "i32 list \<Rightarrow> (message \<times> (int \<times> int)) list \<Rightarrow> (message \<times> (int \<times> int)) list" where
  "multi_confirm sAckSeq = fold (\<lambda>iAckSeq. filter (\<lambda>(m, _). \<not> sint (GetMsgSeq m) \<le> sint iAckSeq)) sAckSeq"

definition RecvServerAck :: "producer \<Rightarrow> (int \<times> producer) option" where
  "RecvServerAck c = do {
     (iRet, c) \<leftarrow> recv_until c;
     if iRet = ERR_SEVER_CLOSED then Some (ERR_SEVER_CLOSED, c)
     else do {
       (sAckSeq, c) \<leftarrow> ack_loop (int (cl_pRecvTail c) - int (cl_pRecvHead c)) [] c;
       let c = (if cl_iConfirmLevel c = PRODUCER_SINGLE_ACK
                then c\<lparr>pr_NeedAckMsgList := single_confirm sAckSeq (pr_NeedAckMsgList c)\<rparr> else c);
       let c = (if cl_iConfirmLevel c = PRODUCER_MUTIL_ACK
                then c\<lparr>pr_NeedAckMsgList := multi_confirm sAckSeq (pr_NeedAckMsgList c)\<rparr> else c);
       Some (SUCCESS, c) } }"

text \<open>The walk from the front: a message that is sent again goes to the end. The results of the packer are ignored, and its
  buffer is not cleared.\<close>

partial_function (option) Producer_ReSendMsg :: "producer \<Rightarrow> (int \<times> producer) option" where
  "Producer_ReSendMsg c =
     (case pr_NeedAckMsgList c of
        [] \<Rightarrow> Some (SUCCESS, c)
      | (oMsg, tSaveTime) # rest \<Rightarrow>
          if wait_time (cl_now c) tSaveTime \<ge> 3 * 1000 * 1000 then do {
            (_, pBuffer, iLen) \<leftarrow> GetMessagePack oMsg (take MAX_CLINT_PACKAGE_LENGTH (cl_stack c @ replicate MAX_CLINT_PACKAGE_LENGTH 0))
              (int MAX_CLINT_PACKAGE_LENGTH);
            let c = c\<lparr>pr_NeedAckMsgList := rest @ [(oMsg, cl_now c)]\<rparr>;
            (ret, c) \<leftarrow> SendOnePack pBuffer iLen c;
            if ret \<noteq> SUCCESS then Some (ERR_CLIENT_PUBLISH_MSG, give_up (bytes_of ''Server closed!'') c)
            else Producer_ReSendMsg c }
          else Some (SUCCESS, c))"

section \<open>Consumer\<close>

record consumer = client +
  co_SeqSet :: "i32 list"
  co_iAckSeq :: i32

text \<open>The parts that pulling and consuming share: the level and number in front of the body, which moves to the start of the
  caller's buffer and gets a NUL behind it.\<close>

definition split_body :: "bytes \<Rightarrow> int \<Rightarrow> (byte \<times> i32 \<times> bytes \<times> int) option" where
  "split_body opBuffer iopLen = do {
     (offset, iConfirmLevel) \<leftarrow> ReadByte opBuffer 0;
     let pTemp = offset;
     let iopLen = iopLen - int offset;
     (offset, iMsgSeq) \<leftarrow> ReadInt opBuffer pTemp;
     let pTemp = pTemp + offset;
     let iopLen = iopLen - int offset;
     opBuffer \<leftarrow> memcpy opBuffer 0 opBuffer (int pTemp) iopLen;
     opBuffer \<leftarrow> mem_write opBuffer (nat iopLen) [0];
     Some (iConfirmLevel, iMsgSeq, opBuffer, iopLen) }"

definition check_repeat :: "byte \<Rightarrow> i32 \<Rightarrow> bytes \<Rightarrow> consumer \<Rightarrow> int \<times> consumer" where
  "check_repeat iConfirmLevel iMsgSeq opBuffer c =
     (if iMsgSeq \<in> set (co_SeqSet c)
      then (ERR_CLIENT_REV_MSG, set_err (bytes_of ''Recved repeat message,message is '' @ takeWhile (\<lambda>b. b \<noteq> 0) opBuffer @ bytes_of ''!'') c)
      else (SUCCESS, if 0 < iConfirmLevel then c\<lparr>co_SeqSet := List.insert iMsgSeq (co_SeqSet c)\<rparr> else c))"

definition send_ack :: "byte \<Rightarrow> i32 \<Rightarrow> int \<Rightarrow> consumer \<Rightarrow> (int \<times> int \<times> consumer) option" where
  "send_ack iConfirmLevel iMsgSeq iPackLen c = do {
     (ret, pMsgPack, iPackLen) \<leftarrow> GetMessagePack (new_ClientAckMessage iConfirmLevel iMsgSeq) (replicate MAX_CLINT_PACKAGE_LENGTH 0) iPackLen;
     if ret \<noteq> SUCCESS then Some (ERROR, ERROR, set_err (bytes_of ''Send ack failed!'') c)
     else do {
       (ret, c) \<leftarrow> SendOnePack pMsgPack iPackLen c;
       Some (SUCCESS, ret, c) } }"

text \<open>The result, the caller's buffer and length.\<close>

definition RecvMessage :: "bytes \<Rightarrow> bytes \<Rightarrow> int \<Rightarrow> byte \<Rightarrow> consumer \<Rightarrow> (int \<times> bytes \<times> int \<times> consumer) option" where
  "RecvMessage istrQueueName opBuffer iopLen iConfirmLevel c =
     (if \<not> cl_bBuild c then Some (ERR_CLIENT_BUILD_CONNECT, opBuffer, iopLen, set_err (bytes_of ''Connection not build!'') c)
      else do {
        (ret, pMsgPack, iPackLen) \<leftarrow>
          GetMessagePack (new_CreateRecvMessage istrQueueName iConfirmLevel) (replicate MAX_CLINT_PACKAGE_LENGTH 0) (int MAX_CLINT_PACKAGE_LENGTH);
        if ret \<noteq> SUCCESS then Some (ERR_CLIENT_REV_MSG, opBuffer, iopLen, set_err (bytes_of ''Invaild parms!'') c)
        else do {
          (ret, c) \<leftarrow> SendOnePack pMsgPack iPackLen c;
          if ret \<noteq> SUCCESS then Some (ERR_CLIENT_REV_MSG, opBuffer, iopLen, give_up (bytes_of ''Server closed!'') c)
          else do {
            (ret, opBuffer, iopLen, iReplyType, c) \<leftarrow> RecvOnePack opBuffer iopLen 0 c;
            if ret \<noteq> SUCCESS then Some (ERR_CLIENT_REV_MSG, opBuffer, iopLen, c)
            else if iReplyType = CMD_SERVER_REPLY_MESSAGE then do {
              (offset, bSucceed) \<leftarrow> ReadBool opBuffer 0;
              (_, txt) \<leftarrow> ReadBuf opBuffer offset 256;
              Some (ERR_CLIENT_REV_MSG, opBuffer, iopLen, c\<lparr>cl_pErrMsg := txt\<rparr>) }
            else do {
              (iConfirmLevel, iMsgSeq, opBuffer, iopLen) \<leftarrow> split_body opBuffer iopLen;
              (stop, c) \<leftarrow>
                (if iConfirmLevel = CONSUMER_AUTO_ACK then do {
                   (packed, ret, c) \<leftarrow> send_ack iConfirmLevel iMsgSeq iPackLen c;
                   Some (if packed \<noteq> SUCCESS then (Some ERR_CLIENT_SEND_ACK, c)
                     else if ret \<noteq> SUCCESS then (Some ERR_CLIENT_REV_MSG, give_up (bytes_of ''Server closed!'') c)
                     else (None, c)) }
                 else if iConfirmLevel = CONSUMER_SINGLE_ACK \<or> iConfirmLevel = CONSUMER_MUTIL_ACK
                 then Some (None, c\<lparr>cl_iConfirmLevel := iConfirmLevel, co_iAckSeq := iMsgSeq\<rparr>)
                 else Some (None, c));
              (case stop of
                 Some err \<Rightarrow> Some (err, opBuffer, iopLen, c)
               | None \<Rightarrow> (let (ret, c) = check_repeat iConfirmLevel iMsgSeq opBuffer c in Some (ret, opBuffer, iopLen, c))) } } } })"

text \<open>The result of the sending is ignored.\<close>

definition subscribe_request :: "message \<Rightarrow> (consumer \<Rightarrow> consumer) \<Rightarrow> (consumer \<Rightarrow> consumer) \<Rightarrow> consumer \<Rightarrow> (int \<times> consumer) option" where
  "subscribe_request oMsg wrong refused c =
     (if \<not> cl_bBuild c then Some (ERR_CLIENT_BUILD_CONNECT, set_err (bytes_of ''Connection not build!'') c)
      else do {
        (ret, pMsgPack, iPackLen) \<leftarrow> GetMessagePack oMsg (replicate MAX_CLINT_PACKAGE_LENGTH 0) (int MAX_CLINT_PACKAGE_LENGTH);
        if ret \<noteq> SUCCESS then Some (ERR_CLIENT_CREATE_SUBSCRIBE, set_err (bytes_of ''Invaild parms!'') c)
        else do {
          (_, c) \<leftarrow> SendOnePack pMsgPack iPackLen c;
          parse_reply ERR_CLIENT_CREATE_SUBSCRIBE wrong refused c } })"

definition Consumer_CreateSubscribe :: "bytes \<Rightarrow> byte \<Rightarrow> consumer \<Rightarrow> (int \<times> consumer) option" where
  "Consumer_CreateSubscribe istrQueueName iConfirmLevel =
     subscribe_request (new_CreateSubscribeMessage istrQueueName iConfirmLevel)
       (set_err (bytes_of ''reply error!'')) (set_err (bytes_of ''subsrcibe failed!''))"

text \<open>The message is the one that deletes the queue.\<close>

definition Consumer_CancelSubscribe :: "bytes \<Rightarrow> consumer \<Rightarrow> (int \<times> consumer) option" where
  "Consumer_CancelSubscribe istrName = subscribe_request (new_DeleteQueueMessage istrName) (\<lambda>c. c) (\<lambda>c. c)"

definition ConsumeMessage :: "bytes \<Rightarrow> int \<Rightarrow> consumer \<Rightarrow> (int \<times> bytes \<times> int \<times> consumer) option" where
  "ConsumeMessage opBuffer iopLen c =
     (if \<not> cl_bBuild c then Some (ERR_CLIENT_BUILD_CONNECT, opBuffer, iopLen, set_err (bytes_of ''Connection not build!'') c)
      else do {
        (ret, opBuffer, iopLen, iReplyType, c) \<leftarrow> RecvOnePack opBuffer iopLen 0 c;
        if ret \<noteq> SUCCESS then Some (ERR_CLIENT_REV_MSG, opBuffer, iopLen, c)
        else do {
          (confirmLevel, iMsgSeq, opBuffer, iopLen) \<leftarrow> split_body opBuffer iopLen;
          (stop, c) \<leftarrow>
            (if confirmLevel = CONSUMER_AUTO_ACK \<and> iMsgSeq \<noteq> -1 then do {
               (packed, ret, c) \<leftarrow> send_ack confirmLevel iMsgSeq (int MAX_CLINT_PACKAGE_LENGTH) c;
               Some (if packed \<noteq> SUCCESS then (Some ERR_CLIENT_SEND_ACK, c)
                 else if ret \<noteq> SUCCESS then (Some ERR_CLIENT_SEND_ACK, set_err (bytes_of ''Send ack failed!'') c)
                 else (None, c)) }
             else if confirmLevel = CONSUMER_SINGLE_ACK \<or> confirmLevel = CONSUMER_MUTIL_ACK
             then Some (None, c\<lparr>cl_iConfirmLevel := confirmLevel, co_iAckSeq := iMsgSeq\<rparr>)
             else Some (None, c));
          (case stop of
             Some err \<Rightarrow> Some (err, opBuffer, iopLen, c)
           | None \<Rightarrow> (let (ret, c) = check_repeat confirmLevel iMsgSeq opBuffer c in Some (ret, opBuffer, iopLen, c))) } })"

text \<open>The function ends without a result unless it fails.\<close>

definition SendConsumerAck :: "consumer \<Rightarrow> (int option \<times> consumer) option" where
  "SendConsumerAck c =
     (if (cl_iConfirmLevel c = CONSUMER_SINGLE_ACK \<or> cl_iConfirmLevel c = CONSUMER_MUTIL_ACK) \<and> co_iAckSeq c \<noteq> -1 then do {
        (packed, ret, c) \<leftarrow> send_ack (cl_iConfirmLevel c) (co_iAckSeq c) (int MAX_CLINT_PACKAGE_LENGTH) c;
        Some (if packed \<noteq> SUCCESS then (Some ERR_CLIENT_SEND_ACK, c)
          else if ret \<noteq> SUCCESS then (Some ERR_CLIENT_SEND_ACK, set_err (bytes_of ''Send ack failed!'') c)
          else (None, c)) }
      else Some (None, c))"

end
