(* ===== verification/Client_Stream.thy ===== *)
theory Client_Stream
  imports Client_Roles
begin

text \<open>
  The client gets the packets of its stream one by one, however the network cuts it.
\<close>

section \<open>The buffer\<close>

definition unread :: "'a client_scheme \<Rightarrow> bytes" where
  "unread c = get_at (cl_pRecvBuff c) (cl_pRecvHead c) (cl_pRecvTail c - cl_pRecvHead c)"

text \<open>What has come and what will come.\<close>

definition input :: "'a client_scheme \<Rightarrow> bytes" where
  "input c = unread c @ received (cl_recv c)"

definition recv_fine :: "(int \<times> sock_errno \<times> bytes) list \<Rightarrow> bool" where
  "recv_fine rs \<longleftrightarrow> (\<forall>(ret, e, dat)\<in>set rs. if 0 < ret then length dat = nat ret else ret < 0 \<and> e = EAGAIN)"

fun can_poll :: "nat \<Rightarrow> poll_result list \<Rightarrow> bool" where
  "can_poll 0 ps = True"
| "can_poll (Suc n) ps = (case poll_readable ps of Some (ret, rest) \<Rightarrow> ret = SUCCESS \<and> can_poll n rest | None \<Rightarrow> False)"

text \<open>A connection that works: every wait succeeds, nothing fails, and the buffer has room for all that comes.\<close>

definition good_conn :: "'a client_scheme \<Rightarrow> bool" where
  "good_conn c \<longleftrightarrow> cl_bBuild c \<and> cl_pRecvHead c \<le> cl_pRecvTail c \<and> cl_pRecvTail c \<le> length (cl_pRecvBuff c) \<and>
     recv_fine (cl_recv c) \<and> can_poll (length (cl_recv c)) (cl_poll c) \<and>
     cl_pRecvHead c + length (input c) \<le> length (cl_pRecvBuff c)"

lemma length_unread: "good_conn c \<Longrightarrow> length (unread c) = cl_pRecvTail c - cl_pRecvHead c"
  by (auto simp: good_conn_def unread_def get_at_def)

lemma unread_read:
  "good_conn c \<Longrightarrow> k + n \<le> length (unread c) \<Longrightarrow> get_at (cl_pRecvBuff c) (cl_pRecvHead c + k) n = get_at (unread c) k n \<and>
   cl_pRecvHead c + k + n \<le> length (cl_pRecvBuff c)"
  using length_unread [of c] by (auto simp: unread_def get_at_def good_conn_def drop_take min_def add.commute)

text \<open>What the kernel writes and the pointers change only.\<close>

definition same_client :: "'a client_scheme \<Rightarrow> 'a client_scheme \<Rightarrow> bool" where
  "same_client c c' \<longleftrightarrow> c' = c\<lparr>cl_pRecvBuff := cl_pRecvBuff c', cl_pRecvHead := cl_pRecvHead c', cl_pRecvTail := cl_pRecvTail c',
     cl_poll := cl_poll c', cl_recv := cl_recv c'\<rparr>"

lemma same_client_trans:
  assumes "same_client c c'" "same_client c' c''"
  shows "same_client c c''"
proof -
  have c': "c' = c\<lparr>cl_pRecvBuff := cl_pRecvBuff c', cl_pRecvHead := cl_pRecvHead c', cl_pRecvTail := cl_pRecvTail c',
     cl_poll := cl_poll c', cl_recv := cl_recv c'\<rparr>" using assms(1) by (simp only: same_client_def)
  have "c'\<lparr>cl_pRecvBuff := b, cl_pRecvHead := h, cl_pRecvTail := t, cl_poll := ps, cl_recv := rs\<rparr> =
    c\<lparr>cl_pRecvBuff := b, cl_pRecvHead := h, cl_pRecvTail := t, cl_poll := ps, cl_recv := rs\<rparr>" for b h t ps rs
    by (subst c') simp
  with assms(2) show ?thesis by (simp only: same_client_def)
qed

lemma same_client_refl: "same_client c c"
  by (simp add: same_client_def)

lemma wire_head:
  assumes "length (wire m) < 65536"
  shows "get_at (wire m) 0 2 = be16 (word_of_nat (length (wire m)))" "get_at (wire m) 2 4 = be32 (msg_index m)"
    "get_at (wire m) 6 2 = be16 (msg_cmd m)" "get_at (wire m) 8 (length (msg_fields m)) = msg_fields m"
    "uint (word_of_nat (length (wire m)) :: u16) = int (length (wire m))"
  using assms by (simp_all add: wire_def get_at_def uint_u16 del: of_nat_add)

lemma prefix_get: "prefix w xs \<Longrightarrow> k + n \<le> length w \<Longrightarrow> get_at xs k n = get_at w k n"
  by (auto simp: prefix_def get_at_def)

lemma whole_packet_wire:
  assumes c: "good_conn c" and w: "prefix (wire m) (input c)" and len: "length (wire m) < 65536" "msg_fields m \<noteq> []"
  shows "whole_packet c = Some (length (wire m) \<le> length (unread c))"
proof (cases "8 < length (unread c)")
  case True
  have "get_at (unread c) 0 2 = get_at (input c) 0 2" using True by (simp add: input_def get_at_def)
  also have "\<dots> = be16 (word_of_nat (length (wire m)))"
    using prefix_get [OF w, of 0 2] wire_head(1) [OF len(1)] by simp
  finally have "ReadShort (cl_pRecvBuff c) (cl_pRecvHead c) = Some (2, word_of_nat (length (wire m)))"
    using unread_read [OF c, of 0 2] True by simp
  moreover have "int n \<le> int (cl_pRecvTail c) - int (cl_pRecvHead c) \<longleftrightarrow> n \<le> cl_pRecvTail c - cl_pRecvHead c" for n
  proof -
    have "cl_pRecvHead c \<le> cl_pRecvTail c" using c by (simp add: good_conn_def)
    then show ?thesis by linarith
  qed
  ultimately show ?thesis using True wire_head(5) [OF len(1)] length_unread [OF c]
    by (simp add: whole_packet_def not_less del: length_wire)
next
  case False
  then have "\<not> length (wire m) \<le> length (unread c)" using len(2) by (cases "msg_fields m") auto
  then show ?thesis using False length_unread [OF c] by (simp add: whole_packet_def)
qed

lemma RecvPack_more:
  assumes c: "good_conn c" and no: "whole_packet c = Some False" and r: "cl_recv c = (ret, e, dat) # rest" "0 < ret"
  shows "\<exists>c'. RecvPack c = do { b \<leftarrow> whole_packet c'; Some (if b then SUCCESS else ERROR, c') } \<and>
    good_conn c' \<and> input c' = input c \<and> same_client c c' \<and> cl_recv c' = rest"
proof -
  obtain ps where ps: "poll_readable (cl_poll c) = Some (SUCCESS, ps)" "can_poll (length rest) ps"
    using c r by (auto simp: good_conn_def split: option.splits)
  have dat: "length dat = nat ret" "recv_fine rest" using c r by (auto simp: good_conn_def recv_fine_def)
  have in_c: "input c = unread c @ dat @ received rest" using r by (simp add: input_def)
  let ?h = "cl_pRecvHead c" and ?t = "cl_pRecvTail c" and ?b = "cl_pRecvBuff c"
  have ht: "?h \<le> ?t" "?t \<le> length ?b" using c by (simp_all add: good_conn_def)
  have fit: "?h + length (input c) \<le> length ?b" using c by (simp add: good_conn_def)
  then have room: "?t + length dat \<le> length ?b" using in_c length_unread [OF c] ht by simp
  let ?c = "c\<lparr>cl_poll := ps, cl_recv := rest, cl_pRecvBuff := put_at ?b ?t dat, cl_pRecvTail := ?t + nat ret\<rparr>"
  have "get_at (put_at ?b ?t dat) ?h ((?t - ?h) + nat ret) = get_at ?b ?h (?t - ?h) @ dat"
    unfolding get_at_split using ht room dat(1) by (simp add: buf_simps)
  then have pend: "unread ?c = unread c @ dat" using ht by (simp add: unread_def)
  then have input: "input ?c = input c" by (simp add: in_c) (simp add: input_def)
  have "good_conn ?c" using c ht room dat ps(2) input fit by (simp add: good_conn_def)
  moreover have "same_client c ?c" by (simp add: same_client_def)
  moreover have "RecvPack c = do { b \<leftarrow> whole_packet ?c; Some (if b then SUCCESS else ERROR, ?c) }"
    using no r ps room by (simp add: RecvPack_def WaitServerReply_def Let_def)
  ultimately show ?thesis using input by (intro exI [of _ ?c]) simp
qed

lemma RecvPack_again:
  assumes c: "good_conn c" and no: "whole_packet c = Some False" and r: "cl_recv c = (ret, e, dat) # rest" "\<not> 0 < ret"
  shows "\<exists>c'. RecvPack c = Some (ERROR, c') \<and> good_conn c' \<and> input c' = input c \<and> same_client c c' \<and> cl_recv c' = rest"
proof -
  obtain ps where ps: "poll_readable (cl_poll c) = Some (SUCCESS, ps)" "can_poll (length rest) ps"
    using c r by (auto simp: good_conn_def split: option.splits)
  have e: "ret < 0" "e = EAGAIN" "recv_fine rest" using c r by (auto simp: good_conn_def recv_fine_def)
  let ?c = "c\<lparr>cl_poll := ps, cl_recv := rest\<rparr>"
  have input: "input ?c = input c" using r by (simp add: input_def unread_def)
  have "good_conn ?c" using c ps(2) e(3) input by (simp add: good_conn_def)
  moreover have "same_client c ?c" by (simp add: same_client_def)
  moreover have "RecvPack c = Some (ERROR, ?c)"
    using no r ps e by (simp add: RecvPack_def WaitServerReply_def Let_def)
  ultimately show ?thesis using input by (intro exI [of _ ?c]) simp
qed

text \<open>The loop waits exactly until the packet is there.\<close>

lemma recv_until_packet:
  assumes "good_conn c" "prefix (wire m) (input c)" "length (wire m) < 65536" "msg_fields m \<noteq> []"
  shows "\<exists>c'. recv_until c = Some (SUCCESS, c') \<and> good_conn c' \<and> input c' = input c \<and> same_client c c' \<and>
    prefix (wire m) (unread c')"
  using assms(1,2)
proof (induction "cl_recv c" arbitrary: c)
  case Nil
  then have p: "unread c = input c" by (simp add: input_def)
  then have "whole_packet c = Some True" using whole_packet_wire [OF Nil(2,3) assms(3,4)] prefix_length_le [OF Nil(3)] by simp
  then have "recv_until c = Some (SUCCESS, c)" by (subst recv_until.simps) (simp add: RecvPack_def client_err_defs SUCCESS_def)
  then show ?case using Nil p same_client_refl by metis
next
  case (Cons r rest)
  note whole = whole_packet_wire [OF Cons(3,4) assms(3,4)]
  show ?case
  proof (cases "length (wire m) \<le> length (unread c)")
    case True
    then have "recv_until c = Some (SUCCESS, c)"
      using whole by (subst recv_until.simps) (simp add: RecvPack_def client_err_defs SUCCESS_def)
    moreover have "prefix (wire m) (unread c)"
      using Cons(4) True prefix_length_prefix [of "wire m" "input c" "unread c"] by (simp add: input_def)
    ultimately show ?thesis using Cons(3) same_client_refl by metis
  next
    case False
    obtain ret e dat where r: "cl_recv c = (ret, e, dat) # rest" using Cons(2) [symmetric] by (cases r) auto
    have no: "whole_packet c = Some False" using whole False by simp
    show ?thesis
    proof (cases "0 < ret")
      case True
      obtain c1 where c1: "RecvPack c = do { b \<leftarrow> whole_packet c1; Some (if b then SUCCESS else ERROR, c1) }"
        "good_conn c1" "input c1 = input c" "same_client c c1" "cl_recv c1 = rest"
        using RecvPack_more [OF Cons(3) no r True] by blast
      have w1: "prefix (wire m) (input c1)" using Cons(4) c1(3) by simp
      note whole1 = whole_packet_wire [OF c1(2) w1 assms(3,4)]
      obtain c2 where c2: "recv_until c1 = Some (SUCCESS, c2)" "good_conn c2" "input c2 = input c1" "same_client c1 c2"
        "prefix (wire m) (unread c2)" using Cons(1) [OF c1(5) [symmetric] c1(2) w1] by blast
      have "recv_until c = Some (SUCCESS, c2)"
      proof (cases "length (wire m) \<le> length (unread c1)")
        case True
        then have "recv_until c1 = Some (SUCCESS, c1)"
          using whole1 by (subst recv_until.simps) (simp add: RecvPack_def client_err_defs SUCCESS_def)
        then have "c2 = c1" using c2(1) by simp
        then show ?thesis using c1(1) whole1 True by (subst recv_until.simps) (simp add: client_err_defs SUCCESS_def)
      next
        case False
        then show ?thesis using c1(1) whole1 c2(1) by (subst recv_until.simps) (simp add: client_err_defs SUCCESS_def ERROR_def)
      qed
      then show ?thesis using c2 c1(3,4) same_client_trans by metis
    next
      case False
      obtain c1 where c1: "RecvPack c = Some (ERROR, c1)" "good_conn c1" "input c1 = input c" "same_client c c1" "cl_recv c1 = rest"
        using RecvPack_again [OF Cons(3) no r False] by blast
      have w1: "prefix (wire m) (input c1)" using Cons(4) c1(3) by simp
      obtain c2 where c2: "recv_until c1 = Some (SUCCESS, c2)" "good_conn c2" "input c2 = input c1" "same_client c1 c2"
        "prefix (wire m) (unread c2)" using Cons(1) [OF c1(5) [symmetric] c1(2) w1] by blast
      have "recv_until c = Some (SUCCESS, c2)"
        using c1(1) c2(1) by (subst recv_until.simps) (simp add: client_err_defs SUCCESS_def ERROR_def)
      then show ?thesis using c2 c1(3,4) same_client_trans by metis
    qed
  qed
qed

lemma move_rest_run:
  assumes c: "good_conn c" and k: "k \<le> length (unread c)"
  shows "\<exists>c'. move_rest (c\<lparr>cl_pRecvHead := cl_pRecvHead c + k\<rparr>) = Some c' \<and> good_conn c' \<and> same_client c c' \<and>
    unread c' = drop k (unread c) \<and> input c' = drop k (input c)"
proof -
  let ?h = "cl_pRecvHead c" and ?t = "cl_pRecvTail c" and ?b = "cl_pRecvBuff c"
  have ht: "?h \<le> ?t" "?t \<le> length ?b" "?h + length (input c) \<le> length ?b" using c by (simp_all add: good_conn_def)
  have len: "length (unread c) = ?t - ?h" by (rule length_unread [OF c])
  let ?n = "?t - (?h + k)" let ?x = "get_at ?b (?h + k) ?n"
  let ?c = "c\<lparr>cl_pRecvBuff := put_at ?b 0 ?x, cl_pRecvHead := 0, cl_pRecvTail := ?n\<rparr>"
  have n: "int ?t - int (?h + k) = int ?n" "?h + k + ?n \<le> length ?b" using k len ht by linarith+
  have x: "?x = drop k (unread c)" using k len ht by (simp add: unread_def get_at_def drop_take add.commute)
  have copy: "memcpy ?b 0 ?b (int (?h + k)) (int ?n) = Some (put_at ?b 0 ?x)"
    using memcpy_nat [of ?b 0 ?b "?h + k" ?n] n(2) ht(1) by (simp del: of_nat_add)
  have run: "move_rest (c\<lparr>cl_pRecvHead := ?h + k\<rparr>) = Some ?c"
    by (simp add: move_rest_def Let_def n(1) copy del: of_nat_add)
  have lx: "length ?x = ?n" using n(2) by simp
  then have pend: "unread ?c = drop k (unread c)" using n(2) unfolding x [symmetric] by (simp add: unread_def buf_simps)
  then have input: "input ?c = drop k (input c)" using k by (simp add: input_def)
  have "good_conn ?c" using c n(2) lx input ht by (simp add: good_conn_def)
  moreover have "same_client c ?c" by (simp add: same_client_def)
  ultimately show ?thesis using run pend input by blast
qed

section \<open>Packets\<close>

lemma RecvOnePack_packet:
  assumes c: "good_conn c" and w: "prefix (wire m) (input c)"
    and len: "length (wire m) \<le> MAX_CLINT_PACKAGE_LENGTH - 8" "msg_fields m \<noteq> []" and buf: "length (msg_fields m) \<le> length opBuffer"
  shows "\<exists>c'. RecvOnePack opBuffer iopLen t c =
      Some (SUCCESS, put_at opBuffer 0 (msg_fields m), int (length (msg_fields m)), msg_cmd m, c') \<and>
    good_conn c' \<and> input c' = drop (length (wire m)) (input c) \<and> same_client c c'"
proof -
  let ?n = "length (wire m)"
  have n: "?n < 65536" "?n \<le> 11256" using len(1) by (simp_all add: size_defs del: length_wire)
  obtain c1 where c1: "recv_until c = Some (SUCCESS, c1)" "good_conn c1" "input c1 = input c" "same_client c c1"
    "prefix (wire m) (unread c1)" using recv_until_packet [OF c w n(1) len(2)] by blast
  let ?h = "cl_pRecvHead c1" and ?b = "cl_pRecvBuff c1"
  have le: "?n \<le> length (unread c1)" using c1(5) by (rule prefix_length_le)
  have at: "get_at ?b (?h + k) j = get_at (wire m) k j" "?h + k + j \<le> length ?b" if "k + j \<le> ?n" for k j
    using unread_read [OF c1(2), of k j] prefix_get [OF c1(5) that] that le by simp_all
  note head = wire_head [OF n(1)]
  have reads: "ReadShort ?b ?h = Some (2, word_of_nat ?n)" "ReadInt ?b (?h + 2) = Some (4, msg_index m)"
    "ReadShort ?b (?h + 2 + 4) = Some (2, msg_cmd m)"
    using at [of 0 2] at [of 2 4] at [of 6 2] head(1-3) by (simp_all add: ac_simps)
  have u: "unat (word_of_nat ?n :: u16) = ?n" using n(1) by (simp add: unat_of_nat del: length_wire of_nat_add)
  have copy: "memcpy opBuffer 0 ?b (int (?h + 2 + 4 + 2)) (int ?n - 8) = Some (put_at opBuffer 0 (msg_fields m))"
    using at [of 8 "length (msg_fields m)"] head(4) buf memcpy_nat [of opBuffer 0 ?b "?h + 8" "length (msg_fields m)"]
    by (simp add: ac_simps)
  obtain c2 where c2: "move_rest (c1\<lparr>cl_pRecvHead := ?h + ?n\<rparr>) = Some c2" "good_conn c2" "same_client c1 c2"
    "input c2 = drop ?n (input c1)" using move_rest_run [OF c1(2) le] by blast
  have "RecvOnePack opBuffer iopLen t c =
      Some (SUCCESS, put_at opBuffer 0 (msg_fields m), int ?n - 8, msg_cmd m, c2)"
    using c c1(1) reads copy c2(1) head(5) u n(2)
    by (simp add: RecvOnePack_def good_conn_def Let_def SUCCESS_def client_err_defs size_defs del: length_wire of_nat_add)
  then show ?thesis using c2 c1(3,4) same_client_trans by (intro exI [of _ c2]) auto
qed

text \<open>The packets that so many calls deliver into cleared buffers, each its command and fields.\<close>

fun recv_packets :: "nat \<Rightarrow> 'a client_scheme \<Rightarrow> ((u16 \<times> bytes) list \<times> 'a client_scheme) option" where
  "recv_packets 0 c = Some ([], c)"
| "recv_packets (Suc n) c = do {
     (ret, buf, len, t, c) \<leftarrow> RecvOnePack (replicate MAX_SERVER_PACKAGE_LENGTH 0) (int MAX_SERVER_PACKAGE_LENGTH) 0 c;
     if ret \<noteq> SUCCESS then Some ([], c)
     else do { (ps, c) \<leftarrow> recv_packets n c; Some ((t, get_at buf 0 (nat len)) # ps, c) } }"

definition client_fits :: "message \<Rightarrow> bool" where
  "client_fits m \<longleftrightarrow> length (wire m) \<le> MAX_CLINT_PACKAGE_LENGTH - 8 \<and> msg_fields m \<noteq> []"

text \<open>C19. However the network cuts the stream into reads, and whatever calls are interrupted, the client gets the packets of its
  stream one by one: over a working connection \<open>n\<close> calls of \<open>RecvOnePack\<close> deliver the command and fields of the first \<open>n\<close>
  packets in order, none changed, lost or doubled, and leave exactly the rest of the stream.\<close>

theorem client_receives_packets:
  assumes "good_conn c" "\<forall>m\<in>set ms. client_fits m" "input c = concat (map wire ms) @ rest"
  shows "\<exists>c'. recv_packets (length ms) c = Some (map (\<lambda>m. (msg_cmd m, msg_fields m)) ms, c') \<and>
    good_conn c' \<and> input c' = rest \<and> same_client c c'"
  using assms
proof (induction ms arbitrary: c)
  case Nil
  then show ?case by (simp add: same_client_refl)
next
  case (Cons m ms)
  have m: "length (wire m) \<le> MAX_CLINT_PACKAGE_LENGTH - 8" "msg_fields m \<noteq> []" using Cons.prems(2) by (simp_all add: client_fits_def)
  have w: "prefix (wire m) (input c)" using Cons.prems(3) by simp
  let ?buf = "replicate MAX_SERVER_PACKAGE_LENGTH 0 :: bytes"
  have fit: "length (msg_fields m) \<le> length ?buf" using m(1) by (simp add: size_defs)
  obtain c1 where c1: "RecvOnePack ?buf (int MAX_SERVER_PACKAGE_LENGTH) 0 c =
      Some (SUCCESS, put_at ?buf 0 (msg_fields m), int (length (msg_fields m)), msg_cmd m, c1)"
    "good_conn c1" "input c1 = drop (length (wire m)) (input c)" "same_client c c1"
    using RecvOnePack_packet [OF Cons.prems(1) w m fit] by blast
  have rest1: "input c1 = concat (map wire ms) @ rest" using c1(3) Cons.prems(3) by (simp del: length_wire)
  obtain c2 where c2: "recv_packets (length ms) c1 = Some (map (\<lambda>m. (msg_cmd m, msg_fields m)) ms, c2)"
    "good_conn c2" "input c2 = rest" "same_client c1 c2" using Cons.IH [OF c1(2) _ rest1] Cons.prems(2) by auto
  have "get_at (put_at ?buf 0 (msg_fields m)) 0 (length (msg_fields m)) = msg_fields m"
    using fit by (simp add: get_at_def put_at_def)
  then show ?case using c1(1) c2 same_client_trans [OF c1(4) c2(4)] by simp
qed

section \<open>Witness\<close>

text \<open>A connection on which the bytes \<open>w\<close> come in three reads, the first of them interrupted.\<close>

definition w_net :: "bytes \<Rightarrow> 'a client_scheme \<Rightarrow> 'a client_scheme" where
  "w_net w c = c\<lparr>cl_iSockfd := 3, cl_bBuild := True, cl_pRecvBuff := replicate 128 0, cl_pRecvHead := 0, cl_pRecvTail := 0,
     cl_poll := replicate 9 \<lparr>po_ret = 1, po_errno = EOTHER, po_err = False, po_out = True\<rparr>,
     cl_recv := [(-1, EAGAIN, []), (5, EOTHER, take 5 w), (int (length w) - 5, EOTHER, drop 5 w)]\<rparr>"

lemma w_net_good: "5 < length w \<Longrightarrow> length w \<le> 128 \<Longrightarrow> good_conn (w_net w c)"
  "5 < length w \<Longrightarrow> input (w_net w c) = w"
  by (simp_all add: w_net_def good_conn_def input_def unread_def get_at_def recv_fine_def numeral_eq_Suc)

theorem client_receives_packets_witness:
  "\<exists>c'. recv_packets 2 (w_net ([0, 12, 0, 0, 0, 1, 0, 14, 0, 0, 0, 5] @ [0, 11, 0, 0, 0, 1, 0, 12, 1, 79, 0] @ [0, 12]) new_Client) =
     Some ([(14, [0, 0, 0, 5]), (12, [1, 79, 0])], c') \<and> input c' = [0, 12]"
proof -
  let ?ms = "[ServerAckMessage 1 CMD_SERVER_ACK_MESSAGE 5, ActReplyMessage 1 CMD_SERVER_REPLY_MESSAGE True [79]]"
  let ?w = "[0, 12, 0, 0, 0, 1, 0, 14, 0, 0, 0, 5] @ [0, 11, 0, 0, 0, 1, 0, 12, 1, 79, 0] @ [0, 12 :: byte]"
  have f: "map wire ?ms = [[0, 12, 0, 0, 0, 1, 0, 14, 0, 0, 0, 5], [0, 11, 0, 0, 0, 1, 0, 12, 1, 79, 0]]"
    "map msg_fields ?ms = [[0, 0, 0, 5], [1, 79, 0]]" "map msg_cmd ?ms = [14, 12]" by code_simp+
  have fits: "\<forall>m\<in>set ?ms. client_fits m" by (simp add: client_fits_def size_defs be32_def le32_def)
  have "input (w_net ?w new_Client) = concat (map wire ?ms) @ [0, 12]" unfolding f by (simp add: w_net_good)
  from client_receives_packets [OF _ fits this] w_net_good(1) [of ?w new_Client] f show ?thesis
    by (auto simp: numeral_2_eq_2)
qed

end
