(* ===== verification/Client_Request.thy ===== *)
theory Client_Request
  imports Client_Stream
begin

text \<open>
  Requests of the client: what goes out is exactly the packet of the request, and the result follows the reply.
\<close>

section \<open>Sending\<close>

fun send_fine :: "(int \<times> sock_errno) list \<Rightarrow> nat \<Rightarrow> bool" where
  "send_fine [] n \<longleftrightarrow> n = 0"
| "send_fine ((ret, e) # rest) n \<longleftrightarrow> n = 0 \<or>
     (if ret < 0 then try_again e \<and> send_fine rest n else 0 < ret \<and> nat ret \<le> n \<and> send_fine rest (n - nat ret))"

lemma Sendn_fine: "send_fine script n \<Longrightarrow> Sendn script buf p (int n) = Some (SUCCESS, get_at buf p n)"
proof (induction script n arbitrary: p rule: send_fine.induct)
  case (1 n)
  then show ?case by (simp add: Sendn.simps get_at_def)
next
  case (2 ret e rest n)
  show ?case
  proof (cases "n = 0")
    case True
    then show ?thesis by (simp add: Sendn.simps get_at_def)
  next
    case n: False
    show ?thesis
    proof (cases "ret < 0")
      case True
      then show ?thesis using 2 n by (simp add: Sendn.simps [of "(ret, e) # rest"])
    next
      case False
      then have r: "0 < ret" "nat ret \<le> n" "send_fine rest (n - nat ret)" using 2(3) n by auto
      have "int n - ret = int (n - nat ret)" using r by simp
      then have "Sendn rest buf (p + nat ret) (int n - ret) = Some (SUCCESS, get_at buf (p + nat ret) (n - nat ret))"
        using 2(2) [OF False r(3), of "p + nat ret"] by simp
      then show ?thesis using n r get_at_append_shift [of "nat ret" n buf p]
        by (simp add: Sendn.simps [of "(ret, e) # rest"])
    qed
  qed
qed

text \<open>The connection takes one packet of \<open>n\<close> bytes, and receiving works afterwards.\<close>

definition can_send :: "nat \<Rightarrow> 'a client_scheme \<Rightarrow> bool" where
  "can_send n c \<longleftrightarrow> 0 < cl_iSockfd c \<and>
     (case poll_writable (cl_poll c) of
        Some (ret, ps) \<Rightarrow> ret = SUCCESS \<and> good_conn (c\<lparr>cl_poll := ps\<rparr>)
      | None \<Rightarrow> False) \<and>
     (case cl_send c of script # _ \<Rightarrow> send_fine script n | [] \<Rightarrow> False)"

lemma input_upd [simp]:
  "input (c\<lparr>cl_poll := ps\<rparr>) = input c" "input (c\<lparr>cl_send := ss\<rparr>) = input c" "input (c\<lparr>cl_wire := w\<rparr>) = input c"
  "input (c\<lparr>cl_pErrMsg := t\<rparr>) = input c"
  by (simp_all add: input_def unread_def)

lemma good_conn_upd [simp]:
  "good_conn (c\<lparr>cl_send := ss\<rparr>) = good_conn c" "good_conn (c\<lparr>cl_wire := w\<rparr>) = good_conn c"
  "good_conn (c\<lparr>cl_pErrMsg := t\<rparr>) = good_conn c"
  by (simp_all add: good_conn_def)

lemma SendOnePack_run:
  assumes "can_send n c" "0 < n" "n \<le> length buf"
  shows "\<exists>ps ss. SendOnePack buf (int n) c =
      Some (SUCCESS, c\<lparr>cl_poll := ps, cl_send := ss, cl_wire := cl_wire c @ get_at buf 0 n\<rparr>) \<and>
    good_conn (c\<lparr>cl_poll := ps\<rparr>) \<and> ss = tl (cl_send c)"
proof -
  obtain ps where ps: "poll_writable (cl_poll c) = Some (SUCCESS, ps)" "good_conn (c\<lparr>cl_poll := ps\<rparr>)"
    using assms(1) by (auto simp: can_send_def split: option.splits)
  obtain script ss where s: "cl_send c = script # ss" "send_fine script n" "0 < cl_iSockfd c"
    using assms(1) by (auto simp: can_send_def split: list.splits)
  have "SendOnePack buf (int n) c = Some (SUCCESS, c\<lparr>cl_poll := ps, cl_send := ss, cl_wire := cl_wire c @ get_at buf 0 n\<rparr>)"
    using ps(1) s assms(2) Sendn_fine [OF s(2), of buf 0]
    by (simp add: SendOnePack_def Let_def SUCCESS_def ERROR_def)
  then show ?thesis using ps(2) s(1) by auto
qed

text \<open>A request is packed and sent.\<close>

definition request_fits :: "message \<Rightarrow> bool" where
  "request_fits m \<longleftrightarrow> names_ok m \<and> \<not> keeps_len m \<and> length (wire m) \<le> MAX_CLINT_PACKAGE_LENGTH"

lemma pack_request:
  assumes "request_fits m"
  shows "GetMessagePack m (replicate MAX_CLINT_PACKAGE_LENGTH 0) (int MAX_CLINT_PACKAGE_LENGTH) =
    Some (SUCCESS, zbuf (wire m) MAX_CLINT_PACKAGE_LENGTH, int (length (wire m)))"
  using pack_ok [of m "int MAX_CLINT_PACKAGE_LENGTH" MAX_CLINT_PACKAGE_LENGTH] assms
  by (simp add: packs_def request_fits_def zbuf_Nil size_defs del: length_wire)

lemma send_request:
  assumes "can_send (length (wire m)) c" "request_fits m"
  shows "\<exists>c'. SendOnePack (zbuf (wire m) MAX_CLINT_PACKAGE_LENGTH) (int (length (wire m))) c = Some (SUCCESS, c') \<and>
    good_conn c' \<and> input c' = input c \<and> cl_wire c' = cl_wire c @ wire m \<and> cl_send c' = tl (cl_send c) \<and>
    (\<exists>ps. c' = c\<lparr>cl_poll := ps, cl_send := tl (cl_send c), cl_wire := cl_wire c @ wire m\<rparr>)"
proof -
  have len: "length (wire m) \<le> length (zbuf (wire m) MAX_CLINT_PACKAGE_LENGTH)"
    using assms(2) by (simp add: request_fits_def zbuf_def del: length_wire)
  have "get_at (zbuf (wire m) MAX_CLINT_PACKAGE_LENGTH) 0 (length (wire m)) = wire m"
    by (simp add: zbuf_def get_at_def del: length_wire)
  then obtain ps where ps: "SendOnePack (zbuf (wire m) MAX_CLINT_PACKAGE_LENGTH) (int (length (wire m))) c =
      Some (SUCCESS, c\<lparr>cl_poll := ps, cl_send := tl (cl_send c), cl_wire := cl_wire c @ wire m\<rparr>)"
    "good_conn (c\<lparr>cl_poll := ps\<rparr>)"
    using SendOnePack_run [OF assms(1) _ len] by auto
  then show ?thesis by (intro exI [of _ "c\<lparr>cl_poll := ps, cl_send := tl (cl_send c), cl_wire := cl_wire c @ wire m\<rparr>"] conjI) auto
qed

section \<open>Replies\<close>

lemma same_client_fields:
  assumes "same_client c c'"
  shows "cl_wire c' = cl_wire c" "cl_send c' = cl_send c" "cl_pErrMsg c' = cl_pErrMsg c" "cl_bBuild c' = cl_bBuild c"
    "cl_iSockfd c' = cl_iSockfd c" "cl_iConfirmLevel c' = cl_iConfirmLevel c" "client.more c' = client.more c"
    "cl_now c' = cl_now c" "cl_stack c' = cl_stack c"
proof -
  obtain b h t ps rs where "c' = c\<lparr>cl_pRecvBuff := b, cl_pRecvHead := h, cl_pRecvTail := t, cl_poll := ps, cl_recv := rs\<rparr>"
    using assms unfolding same_client_def by blast
  then show "cl_wire c' = cl_wire c" "cl_send c' = cl_send c" "cl_pErrMsg c' = cl_pErrMsg c" "cl_bBuild c' = cl_bBuild c"
    "cl_iSockfd c' = cl_iSockfd c" "cl_iConfirmLevel c' = cl_iConfirmLevel c" "client.more c' = client.more c"
    "cl_now c' = cl_now c" "cl_stack c' = cl_stack c"
    by simp_all
qed

text \<open>What \<open>GetErrMsg\<close> shows: the text up to the NUL.\<close>

definition err_text :: "'a client_scheme \<Rightarrow> bytes" where
  "err_text c = takeWhile (\<lambda>b. b \<noteq> 0) (cl_pErrMsg c)"

lemma text_in_256: "length t < 256 \<Longrightarrow> 0 \<notin> set t \<Longrightarrow> 257 \<le> n \<Longrightarrow>
  takeWhile (\<lambda>b. b \<noteq> 0) (get_at (put_at (replicate n 0) 0 (f # t @ [0 :: byte])) 1 256) = t"
proof -
  assume t: "length t < 256" "0 \<notin> set t" "257 \<le> n"
  obtain k where k: "256 - length t = Suc k" using t(1) by (cases "256 - length t") auto
  have "get_at (put_at (replicate n 0) 0 (f # t @ [0])) 1 256 = t @ 0 # take k (replicate (n - Suc (Suc (length t))) 0)"
    using t k by (simp add: get_at_def put_at_def)
  moreover have "takeWhile (\<lambda>b. b \<noteq> 0) (t @ 0 # xs) = t" for xs
    using t(2) by (induction t) auto
  ultimately show ?thesis by simp
qed

lemma parse_reply_run:
  fixes ok :: bool and t :: bytes and i :: i32
  defines "r \<equiv> ActReplyMessage i CMD_SERVER_REPLY_MESSAGE ok t"
  assumes c: "good_conn c" "prefix (wire r) (input c)" and t: "length t < 256" "0 \<notin> set t"
  shows "\<exists>c'. parse_reply err (\<lambda>c. c) (\<lambda>c. c) c = Some (if ok then SUCCESS else err, c') \<and>
    good_conn c' \<and> input c' = drop (length (wire r)) (input c) \<and> (\<not> ok \<longrightarrow> err_text c' = t) \<and>
    (\<exists>c1. same_client c c1 \<and> c' = (if ok then c1 else c1\<lparr>cl_pErrMsg := cl_pErrMsg c'\<rparr>))"
proof -
  let ?buf = "replicate MAX_SERVER_PACKAGE_LENGTH 0 :: bytes"
  have f: "msg_fields r = flag ok # t @ [0]" "msg_cmd r = CMD_SERVER_REPLY_MESSAGE" by (simp_all add: r_def)
  have "length (wire r) \<le> MAX_CLINT_PACKAGE_LENGTH - 8" "msg_fields r \<noteq> []" "length (msg_fields r) \<le> length ?buf"
    using t(1) f by (simp_all add: size_defs)
  from RecvOnePack_packet [OF c this, of "int MAX_SERVER_PACKAGE_LENGTH" 0] obtain c1 where
    c1: "RecvOnePack ?buf (int MAX_SERVER_PACKAGE_LENGTH) 0 c =
      Some (SUCCESS, put_at ?buf 0 (flag ok # t @ [0]), int (length (msg_fields r)), CMD_SERVER_REPLY_MESSAGE, c1)"
    "good_conn c1" "input c1 = drop (length (wire r)) (input c)" "same_client c c1" unfolding f by blast
  let ?b = "put_at ?buf 0 (flag ok # t @ [0])"
  have bool: "ReadBool ?b 0 = Some (1, ok)"
    by (simp add: ReadBool_def mem_read_def get_at_def put_at_def flag_def size_defs)
  have len: "length ?b = 11264" using t(1) by (simp add: size_defs)
  show ?thesis
  proof (cases ok)
    case True
    then show ?thesis using c1 bool by (intro exI [of _ c1]) (auto simp: parse_reply_def)
  next
    case False
    let ?c = "c1\<lparr>cl_pErrMsg := get_at ?b 1 256\<rparr>"
    have "parse_reply err (\<lambda>c. c) (\<lambda>c. c) c = Some (err, ?c)"
      using False c1(1) bool len by (simp add: parse_reply_def ReadBuf_def mem_read_def)
    moreover have "err_text ?c = t" using text_in_256 [OF t, of 11264 "flag ok"] by (simp add: err_text_def size_defs)
    ultimately show ?thesis using False c1 by (intro exI [of _ ?c] conjI exI [of _ c1]) simp_all
  qed
qed

text \<open>C22. A request of the client over a working connection sends exactly the packet of the request, whatever way the kernel
  splits it, takes exactly one reply from its stream, and its result is what the server answered: \<open>SUCCESS\<close> when the
  reply says so, otherwise the error of the request with the server's text as the error message.\<close>

theorem client_request_follows_reply:
  assumes "cl_bBuild c" "request_fits m" "can_send (length (wire m)) c"
    and "input c = wire (ActReplyMessage i CMD_SERVER_REPLY_MESSAGE ok t) @ rest" "length t < 256" "0 \<notin> set t"
  shows "\<exists>c'. client_request m err c = Some (if ok then SUCCESS else err, c') \<and>
    cl_wire c' = cl_wire c @ wire m \<and> input c' = rest \<and> good_conn c' \<and> (ok \<or> err_text c' = t)"
proof -
  obtain c1 where c1: "SendOnePack (zbuf (wire m) MAX_CLINT_PACKAGE_LENGTH) (int (length (wire m))) c = Some (SUCCESS, c1)"
    "good_conn c1" "input c1 = input c" "cl_wire c1 = cl_wire c @ wire m" using send_request [OF assms(3,2)] by blast
  have w: "prefix (wire (ActReplyMessage i CMD_SERVER_REPLY_MESSAGE ok t)) (input c1)" using c1(3) assms(4) by simp
  obtain c2 where c2: "parse_reply err (\<lambda>c. c) (\<lambda>c. c) c1 = Some (if ok then SUCCESS else err, c2)" "good_conn c2"
    "input c2 = drop (length (wire (ActReplyMessage i CMD_SERVER_REPLY_MESSAGE ok t))) (input c1)"
    "\<not> ok \<longrightarrow> err_text c2 = t" "\<exists>c3. same_client c1 c3 \<and> c2 = (if ok then c3 else c3\<lparr>cl_pErrMsg := cl_pErrMsg c2\<rparr>)"
    using parse_reply_run [OF c1(2) w assms(5,6), of err] by blast
  have "cl_wire c2 = cl_wire c1"
  proof -
    obtain c3 where c3: "same_client c1 c3" "c2 = (if ok then c3 else c3\<lparr>cl_pErrMsg := cl_pErrMsg c2\<rparr>)" using c2(5) by blast
    show ?thesis using same_client_fields(1) [OF c3(1)] by (subst c3(2)) simp
  qed
  moreover have "client_request m err c = Some (if ok then SUCCESS else err, c2)"
    using assms(1) pack_request [OF assms(2)] c1(1) c2(1) by (simp add: client_request_def del: length_wire)
  ultimately show ?thesis using c1(3,4) c2(2-4) assms(4) by (intro exI [of _ c2] conjI) (auto simp del: length_wire)
qed

section \<open>Witness\<close>

lemma w_net_can_send:
  "5 < length w \<Longrightarrow> length w \<le> 128 \<Longrightarrow> send_fine s n \<Longrightarrow> can_send n ((w_net w c)\<lparr>cl_send := [s]\<rparr>)"
  by (simp add: w_net_def can_send_def good_conn_def input_def unread_def get_at_def recv_fine_def numeral_eq_Suc)

theorem client_request_follows_reply_witness:
  "\<exists>c'. client_request (new_CreateExchangeMessage [101] EXCHANGE_TYPE_FANOUT False True) ERR_CLIENT_CREATE_EXCHANGE
       ((w_net (wire (ActReplyMessage 1 CMD_SERVER_REPLY_MESSAGE False [79, 75])) new_Client)\<lparr>cl_send := [[(20, EOTHER), (-1, EINTR), (24, EOTHER)]]\<rparr>) =
       Some (ERR_CLIENT_CREATE_EXCHANGE, c') \<and>
     cl_wire c' = [] @ wire (new_CreateExchangeMessage [101] EXCHANGE_TYPE_FANOUT False True) \<and> err_text c' = [79, 75]"
proof -
  let ?m = "new_CreateExchangeMessage [101] EXCHANGE_TYPE_FANOUT False True" and ?w = "wire (ActReplyMessage 1 CMD_SERVER_REPLY_MESSAGE False [79, 75])"
  let ?c = "(w_net ?w new_Client)\<lparr>cl_send := [[(20, EOTHER), (-1, EINTR), (24, EOTHER)]]\<rparr>"
  have m: "request_fits ?m" "length (wire ?m) = 44"
    by (simp_all add: request_fits_def names_ok_def new_CreateExchangeMessage_def size_defs)
  have w: "5 < length ?w" "length ?w \<le> 128" by simp_all
  have "send_fine [(20, EOTHER), (-1, EINTR), (24, EOTHER)] 44" by (simp add: try_again_def)
  then have send: "can_send (length (wire ?m)) ?c" unfolding m(2) by (rule w_net_can_send [OF w])
  have inp: "input ?c = ?w @ []" using w by (simp add: w_net_good del: length_wire)
  have built: "cl_bBuild ?c" "cl_wire ?c = []" by (simp_all add: w_net_def new_Client_def)
  from client_request_follows_reply [OF built(1) m(1) send inp, of ERR_CLIENT_CREATE_EXCHANGE] show ?thesis
    unfolding built(2) by auto
qed

end
