(* ===== verification/Client_Confirm.thy ===== *)
theory Client_Confirm
  imports Client_Request Logic_Reports
begin

text \<open>
  Confirmation in the producer: which of the waiting messages an acknowledgement removes.
\<close>

section \<open>Reading acknowledgements\<close>

text \<open>The number that the producer reads out of a packet, whatever the packet is.\<close>

definition ack_number :: "message \<Rightarrow> i32" where
  "ack_number m = un_be32 (take 4 (msg_fields m))"

definition ack_sized :: "message \<Rightarrow> bool" where
  "ack_sized m \<longleftrightarrow> 4 \<le> length (msg_fields m) \<and> length (wire m) < 65536"

definition incomplete :: "bytes \<Rightarrow> bool" where
  "incomplete r \<longleftrightarrow> length r < 8 \<or> int (length r) < uint (un_be16 (take 2 r))"

lemma wire_incomplete:
  assumes "strict_prefix r (wire m)" "length (wire m) < 65536"
  shows "incomplete r"
proof (cases "length r < 8")
  case False
  have l: "length r < length (wire m)" using assms(1) by (rule prefix_length_less)
  have "take 2 r = take 2 (wire m)" using assms(1) False by (auto simp: strict_prefix_def prefix_def)
  also have "\<dots> = be16 (word_of_nat (length (wire m)))" using wire_head(1) [OF assms(2)] by (simp add: get_at_def)
  finally show ?thesis using l wire_head(5) [OF assms(2)] by (simp add: incomplete_def del: length_wire)
qed (simp add: incomplete_def)

lemma prefix_of_packets:
  assumes "prefix p (concat (map wire ms))" "\<forall>m\<in>set ms. length (wire m) < 65536"
  shows "\<exists>k r. k \<le> length ms \<and> p = concat (map wire (take k ms)) @ r \<and> incomplete r"
  using assms
proof (induction ms arbitrary: p)
  case Nil
  then show ?case by (auto simp: incomplete_def)
next
  case (Cons m ms)
  show ?case
  proof (cases "prefix (wire m) p")
    case True
    then obtain q where q: "p = wire m @ q" by (auto simp: prefix_def)
    then have "prefix q (concat (map wire ms))" using Cons.prems(1) by simp
    then obtain k r where "k \<le> length ms" "q = concat (map wire (take k ms)) @ r" "incomplete r"
      using Cons.IH [of q] Cons.prems(2) by auto
    then show ?thesis using q by (intro exI [of _ "Suc k"] exI [of _ r]) simp
  next
    case False
    have "prefix p (wire m) \<or> prefix (wire m) p"
      using Cons.prems(1) prefix_same_cases [of p "wire m @ concat (map wire ms)" "wire m"] by auto
    then have "strict_prefix p (wire m)" using False by (auto simp: strict_prefix_def)
    moreover have "length (wire m) < 65536" using Cons.prems(2) by simp
    ultimately have "incomplete p" by (rule wire_incomplete)
    then show ?thesis by (intro exI [of _ 0] exI [of _ p]) simp
  qed
qed

lemma good_conn_move:
  assumes "good_conn c" "k \<le> length (unread c)"
  shows "good_conn (c\<lparr>cl_pRecvHead := cl_pRecvHead c + k\<rparr>)" "unread (c\<lparr>cl_pRecvHead := cl_pRecvHead c + k\<rparr>) = drop k (unread c)"
    "input (c\<lparr>cl_pRecvHead := cl_pRecvHead c + k\<rparr>) = drop k (input c)" "same_client c (c\<lparr>cl_pRecvHead := cl_pRecvHead c + k\<rparr>)"
proof -
  let ?c = "c\<lparr>cl_pRecvHead := cl_pRecvHead c + k\<rparr>"
  have len: "length (unread c) = cl_pRecvTail c - cl_pRecvHead c" by (rule length_unread [OF assms(1)])
  show pend: "unread ?c = drop k (unread c)" using assms(2) len by (simp add: unread_def get_at_def drop_take add.commute)
  then show input: "input ?c = drop k (input c)" using assms(2) by (simp add: input_def)
  have "length (unread c) \<le> length (input c)" by (simp add: input_def)
  then show "good_conn ?c" using assms len input by (auto simp: good_conn_def)
  show "same_client c ?c" by (simp add: same_client_def)
qed

text \<open>The walk over the buffered packets.\<close>

lemma ack_loop_run:
  assumes "good_conn c" "unread c = concat (map wire ms) @ r" "incomplete r" "\<forall>m\<in>set ms. ack_sized m"
  shows "\<exists>c'. ack_loop (int (length (unread c))) acks c = Some (fold (\<lambda>m. List.insert (ack_number m)) ms acks, c') \<and>
    good_conn c' \<and> input c' = drop (length (concat (map wire ms))) (input c) \<and> same_client c c'"
  using assms
proof (induction ms arbitrary: c acks)
  case Nil
  then have p: "unread c = r" by simp
  obtain c' where c': "move_rest c = Some c'" "good_conn c'" "same_client c c'" "input c' = input c"
    using move_rest_run [OF Nil(1), of 0] by auto
  have "ack_loop (int (length r)) acks c = Some (acks, c')"
  proof (cases "length r < 8")
    case True
    then show ?thesis using c'(1) by (subst ack_loop.simps) simp
  next
    case False
    have "ReadShort (cl_pRecvBuff c) (cl_pRecvHead c) = Some (2, un_be16 (take 2 r))"
      using unread_read [OF Nil(1), of 0 2] False p by (simp add: get_at_def)
    then show ?thesis using False Nil(3) c'(1) by (subst ack_loop.simps) (simp add: incomplete_def)
  qed
  then show ?case using p c' by auto
next
  case (Cons m ms)
  let ?n = "length (wire m)" and ?h = "cl_pRecvHead c" and ?b = "cl_pRecvBuff c"
  have m: "4 \<le> length (msg_fields m)" "?n < 65536" using Cons.prems(4) by (simp_all add: ack_sized_def)
  have w: "prefix (wire m) (unread c)" using Cons.prems(2) by simp
  have le: "?n \<le> length (unread c)" using w by (rule prefix_length_le)
  have at: "get_at ?b (?h + k) j = get_at (wire m) k j" "?h + k + j \<le> length ?b" if "k + j \<le> ?n" for k j
    using unread_read [OF Cons.prems(1), of k j] prefix_get [OF w that] that le by simp_all
  note head = wire_head [OF m(2)]
  have num: "get_at (wire m) 8 4 = take 4 (msg_fields m)" by (simp add: wire_def get_at_def)
  have reads: "ReadShort ?b ?h = Some (2, word_of_nat ?n)" "ReadInt ?b (?h + 2) = Some (4, msg_index m)"
    "ReadShort ?b (?h + 2 + 4) = Some (2, msg_cmd m)" "ReadInt ?b (?h + 2 + 4 + 2) = Some (4, ack_number m)"
    using at [of 0 2] at [of 2 4] at [of 6 2] at [of 8 4] head(1-3) num m(1) by (simp_all add: ac_simps ack_number_def)
  have u: "unat (word_of_nat ?n :: u16) = ?n" using m(2) by (simp add: unat_of_nat del: length_wire of_nat_add)
  note move = good_conn_move [OF Cons.prems(1) le]
  let ?c = "c\<lparr>cl_pRecvHead := ?h + ?n\<rparr>"
  have p1: "unread ?c = concat (map wire ms) @ r" using move(2) Cons.prems(2) by (simp del: length_wire)
  obtain c' where c': "ack_loop (int (length (unread ?c))) (List.insert (ack_number m) acks) ?c =
      Some (fold (\<lambda>m. List.insert (ack_number m)) ms (List.insert (ack_number m) acks), c')"
    "good_conn c'" "input c' = drop (length (concat (map wire ms))) (input ?c)" "same_client ?c c'"
    using Cons.IH [OF move(1) p1 Cons.prems(3)] Cons.prems(4) by auto
  have left: "int (length (unread c)) - int ?n = int (length (unread ?c))" using move(2) le by simp
  have "ack_loop (int (length (unread c))) acks c = ack_loop (int (length (unread ?c))) (List.insert (ack_number m) acks) ?c"
    using reads head(5) u le left by (subst ack_loop.simps) (simp add: Let_def del: of_nat_add)
  then show ?case using c' move(3) same_client_trans [OF move(4) c'(4)] by (simp add: add.commute)
qed

section \<open>Confirmation\<close>

definition confirmed :: "byte \<Rightarrow> i32 set \<Rightarrow> message \<Rightarrow> bool" where
  "confirmed lv acks m \<longleftrightarrow> lv = PRODUCER_SINGLE_ACK \<and> GetMsgSeq m \<in> acks \<or>
     lv = PRODUCER_MUTIL_ACK \<and> (\<exists>a\<in>acks. sint (GetMsgSeq m) \<le> sint a)"

lemma multi_confirm_filter:
  "multi_confirm acks ws = filter (\<lambda>(m, _). \<not> (\<exists>a\<in>set acks. sint (GetMsgSeq m) \<le> sint a)) ws"
  by (induction acks arbitrary: ws) (auto simp: multi_confirm_def intro!: filter_cong)

lemma set_acks: "set (fold (\<lambda>m. List.insert (ack_number m)) ms acks) = ack_number ` set ms \<union> set acks"
  by (induction ms arbitrary: acks) auto

lemma RecvServerAck_packets:
  assumes "good_conn c" "input c = concat (map wire ms)" "ms \<noteq> []" "\<forall>m\<in>set ms. ack_sized m"
  shows "\<exists>k c'. 0 < k \<and> k \<le> length ms \<and> RecvServerAck c = Some (SUCCESS, c') \<and> good_conn c' \<and>
    input c' = concat (map wire (drop k ms)) \<and>
    pr_NeedAckMsgList c' = filter (\<lambda>(m, _). \<not> confirmed (cl_iConfirmLevel c) (ack_number ` set (take k ms)) m) (pr_NeedAckMsgList c)"
proof -
  obtain m0 ms' where ms: "ms = m0 # ms'" using assms(3) by (cases ms) auto
  have w: "prefix (wire m0) (input c)" using assms(2) ms by simp
  have m0: "length (wire m0) < 65536" "msg_fields m0 \<noteq> []" using assms(4) ms by (auto simp: ack_sized_def)
  obtain c1 where c1: "recv_until c = Some (SUCCESS, c1)" "good_conn c1" "input c1 = input c" "same_client c c1"
    "prefix (wire m0) (unread c1)" using recv_until_packet [OF assms(1) w m0] by blast
  have "prefix (unread c1) (concat (map wire ms))" using c1(3) assms(2) by (metis input_def prefixI)
  then obtain k r where k: "k \<le> length ms" "unread c1 = concat (map wire (take k ms)) @ r" "incomplete r"
    using prefix_of_packets [of "unread c1" ms] assms(4) by (auto simp: ack_sized_def)
  have "0 < k"
  proof (rule ccontr)
    assume "\<not> 0 < k"
    then have r: "prefix (wire m0) r" using k(2) c1(5) by simp
    then have "take 2 r = take 2 (wire m0)" "length (wire m0) \<le> length r" by (auto simp: prefix_def)
    then show False using k(3) wire_head(1,5) [OF m0(1)] by (simp add: incomplete_def get_at_def)
  qed
  obtain c2 where c2: "ack_loop (int (length (unread c1))) [] c1 = Some (fold (\<lambda>m. List.insert (ack_number m)) (take k ms) [], c2)"
    "good_conn c2" "input c2 = drop (length (concat (map wire (take k ms)))) (input c1)" "same_client c1 c2"
    using ack_loop_run [OF c1(2) k(2,3)] assms(4) by (auto dest: in_set_takeD)
  have len: "int (cl_pRecvTail c1) - int (cl_pRecvHead c1) = int (length (unread c1))"
    using length_unread [OF c1(2)] c1(2) by (simp add: good_conn_def of_nat_diff)
  have rest: "input c2 = concat (map wire (drop k ms))"
  proof -
    have "input c1 = concat (map wire (take k ms)) @ concat (map wire (drop k ms))"
      unfolding c1(3) assms(2) by (subst concat_append [symmetric], subst map_append [symmetric]) simp
    then show ?thesis using c2(3) by simp
  qed
  have "same_client c c2" using c1(4) c2(4) by (rule same_client_trans)
  note same = same_client_fields [OF this]
  have wait: "pr_NeedAckMsgList c2 = pr_NeedAckMsgList c" using same(7) by (cases c, cases c2) simp
  let ?ks = "take k ms" let ?acks = "fold (\<lambda>m. List.insert (ack_number m)) ?ks []"
  let ?f = "\<lambda>ws. filter (\<lambda>(m, _). \<not> confirmed (cl_iConfirmLevel c) (ack_number ` set ?ks) m) ws"
  let ?c = "c2\<lparr>pr_NeedAckMsgList := ?f (pr_NeedAckMsgList c)\<rparr>"
  have ne: "PRODUCER_SINGLE_ACK \<noteq> PRODUCER_MUTIL_ACK" by (simp add: PRODUCER_SINGLE_ACK_def PRODUCER_MUTIL_ACK_def)
  have "(let c = (if cl_iConfirmLevel c2 = PRODUCER_SINGLE_ACK
           then c2\<lparr>pr_NeedAckMsgList := single_confirm ?acks (pr_NeedAckMsgList c2)\<rparr> else c2)
         in if cl_iConfirmLevel c = PRODUCER_MUTIL_ACK
            then c\<lparr>pr_NeedAckMsgList := multi_confirm ?acks (pr_NeedAckMsgList c)\<rparr> else c) = ?c"
  proof -
    consider (single) "cl_iConfirmLevel c = PRODUCER_SINGLE_ACK" | (multi) "cl_iConfirmLevel c = PRODUCER_MUTIL_ACK"
      | (none) "cl_iConfirmLevel c \<noteq> PRODUCER_SINGLE_ACK" "cl_iConfirmLevel c \<noteq> PRODUCER_MUTIL_ACK" by blast
    then show ?thesis
    proof cases
      case single
      then show ?thesis using ne by (simp add: same(6) wait single_confirm_def set_acks confirmed_def Let_def)
    next
      case multi
      then show ?thesis using ne by (simp add: same(6) wait multi_confirm_filter set_acks confirmed_def Let_def)
    next
      case none
      then have "?f (pr_NeedAckMsgList c) = pr_NeedAckMsgList c2" by (simp add: confirmed_def wait)
      then show ?thesis using none by (simp add: same(6) Let_def)
    qed
  qed
  then have "RecvServerAck c = Some (SUCCESS, ?c)"
    using c1(1) c2(1) len by (simp add: RecvServerAck_def Let_def SUCCESS_def client_err_defs)
  moreover have in2: "input ?c = input c2" by (simp add: input_def unread_def)
  moreover have "good_conn ?c" using c2(2) in2 by (simp add: good_conn_def)
  ultimately show ?thesis using \<open>0 < k\<close> k(1) rest by (intro exI [of _ k] exI [of _ ?c]) simp
qed

abbreviation ack_packet :: "i32 \<Rightarrow> i32 \<Rightarrow> message" where
  "ack_packet i q \<equiv> ServerAckMessage i CMD_SERVER_ACK_MESSAGE q"

lemma ack_packet_number [simp]: "ack_number (ack_packet i q) = q" "ack_sized (ack_packet i q)"
  by (simp_all add: ack_number_def ack_sized_def)

text \<open>C15. When only acknowledgements come in, \<open>RecvServerAck\<close> takes a nonempty run of them, however they are cut into reads, and
  removes from the waiting messages exactly those they confirm: with single acknowledgements the messages with
  these numbers, with cumulative ones the messages with numbers up to one of them. The rest of the stream stays for the next call.\<close>

theorem RecvServerAck_confirms:
  assumes "good_conn c" "input c = concat (map (\<lambda>q. wire (ServerAckMessage i CMD_SERVER_ACK_MESSAGE q)) qs)" "qs \<noteq> []"
  shows "\<exists>k c'. 0 < k \<and> k \<le> length qs \<and> RecvServerAck c = Some (SUCCESS, c') \<and> good_conn c' \<and>
    input c' = concat (map (\<lambda>q. wire (ServerAckMessage i CMD_SERVER_ACK_MESSAGE q)) (drop k qs)) \<and>
    pr_NeedAckMsgList c' = filter (\<lambda>(m, _). \<not> confirmed (cl_iConfirmLevel c) (set (take k qs)) m) (pr_NeedAckMsgList c)"
proof -
  have "input c = concat (map wire (map (ack_packet i) qs))" "map (ack_packet i) qs \<noteq> []"
    using assms(2,3) by (simp_all add: o_def)
  moreover have "ack_number ` set (take k (map (ack_packet i) qs)) = set (take k qs)" for k
    by (simp add: take_map image_image)
  ultimately show ?thesis using RecvServerAck_packets [OF assms(1), of "map (ack_packet i) qs"]
    by (auto simp: drop_map o_def)
qed

section \<open>An error that confirms\<close>

lemma send_reply_puts:
  assumes "holds (m_pQueueToConnect s) cs" "t \<noteq> []" "length t < 65526" "used cs + (24 + length t) \<le> capacity (m_pQueueToConnect s)"
  shows "\<exists>q. send_reply s ret c t = Some (s\<lparr>m_pQueueToConnect := q\<rparr>) \<and>
    holds q (cs @ [wire (ActReplyMessage c CMD_SERVER_REPLY_MESSAGE (ret = SUCCESS) t)])"
proof -
  let ?m = "ActReplyMessage c CMD_SERVER_REPLY_MESSAGE (ret = SUCCESS) t" and ?n = "length t + 8 + 1 + 1"
  have l: "length (wire ?m) = ?n" by simp
  have pack: "GetMessagePack ?m (replicate ?n 0) (int ?n) = Some (SUCCESS, wire ?m, int ?n)"
  proof -
    have "packs ?m ?n (int ?n)" by (rule pack_ActReplyMessage) (use assms(3) in simp_all)
    moreover have "zbuf (wire ?m) ?n = wire ?m" unfolding zbuf_def l by simp
    ultimately show ?thesis unfolding packs_def keeps_len.simps if_False zbuf_Nil l by (simp only:)
  qed
  have nat_last: "nat (9 + int (length t)) = 9 + length t" by simp
  have last: "put_at (wire ?m) (?n - 1) [0] = wire ?m" by (simp add: wire_def put_at_def)
  obtain q where q: "Enqueue (m_pQueueToConnect s) (wire ?m) (int ?n) = Some (SUCCESS, q)"
    "holds q (cs @ [wire ?m])"
    using Enqueue_fits [OF assms(1), of ?n "wire ?m"] assms(4) l by (auto simp del: length_wire)
  have "send_reply s ret c t = Some (s\<lparr>m_pQueueToConnect := q\<rparr>)"
    unfolding send_reply_def Let_def pack using assms(2) last q(1) l
    by (simp add: to_connect_def nat_last del: length_wire)
  then show ?thesis using q(2) by blast
qed

text \<open>C16. An error confirms. The server answers a publication to an exchange that does not exist with a reply and keeps nothing, and the producer
  reads the reply as an acknowledgement, since it does not look at the command: the letters of the error text are
  the number, above four million, and with cumulative acknowledgements all waiting messages count as confirmed, the refused one included.\<close>

theorem failed_publish_confirms_all:
  fixes pr :: i16 and d :: bool and cs :: "bytes list"
  assumes inv: "logic_inv s" and names: "good_name x" "good_name k" and len: "length body < 65456"
    and new: "msg_seq_key i sq \<notin> set (m_producerMsgSeqs s)" and gone: "map_of (m_mExchanges s) x = None"
    and ring: "holds (m_pQueueToConnect s) cs" "used cs + 100 \<le> capacity (m_pQueueToConnect s)"
  defines "m \<equiv> CreatePublishMessage i CMD_CREATE_PUBLISH x k pr d sq PRODUCER_MUTIL_ACK body"
  defines "r \<equiv> ActReplyMessage i CMD_SERVER_REPLY_MESSAGE False (RE_EXCHANGE_NOT_EXIST @ x)"
  shows "(\<exists>s'. ProcessRecvData s (wire m @ pad) (int (length (wire m))) c0 =
        Some (ERR_LOGIC_SERVER_PUBLISH_MESSAGE, i, RE_EXCHANGE_NOT_EXIST @ x, s) \<and>
      send_reply s ERR_LOGIC_SERVER_PUBLISH_MESSAGE i (RE_EXCHANGE_NOT_EXIST @ x) = Some s' \<and>
      holds (m_pQueueToConnect s') (cs @ [wire r])) \<and>
    (\<forall>p. good_conn p \<and> input p = wire r \<and> cl_iConfirmLevel p = PRODUCER_MUTIL_ACK \<and>
        (\<forall>(w, _)\<in>set (pr_NeedAckMsgList p). sint (GetMsgSeq w) \<le> 4000000) \<longrightarrow>
      (\<exists>p'. RecvServerAck p = Some (SUCCESS, p') \<and> pr_NeedAckMsgList p' = []))"
proof (intro conjI)
  have xl: "length x < 32" using names(1) by (simp add: good_name_def size_defs)
  have tl: "length RE_EXCHANGE_NOT_EXIST = 28" "take 3 RE_EXCHANGE_NOT_EXIST = [69, 120, 99]" by code_simp+
  have lw: "length (wire m) < 65536" using len names by (simp add: m_def)
  have "OnPublishMessage s (wire m @ pad) 8 (int (length (msg_fields m))) i =
      Some (ERR_LOGIC_SERVER_PUBLISH_MESSAGE, RE_EXCHANGE_NOT_EXIST @ x, s)"
    using OnPublishMessage_outcome [OF inv names len, of "wire m @ pad" i pr d sq PRODUCER_MUTIL_ACK pad] new gone
    unfolding m_def by simp
  then have run: "ProcessRecvData s (wire m @ pad) (int (length (wire m))) c0 =
      Some (ERR_LOGIC_SERVER_PUBLISH_MESSAGE, i, RE_EXCHANGE_NOT_EXIST @ x, s)"
    using ProcessRecvData_wire [OF lw, of s pad c0] by (simp add: m_def handle_def cmd_defs)
  have ne: "RE_EXCHANGE_NOT_EXIST @ x \<noteq> []" using tl(1) by auto
  have "ERR_LOGIC_SERVER_PUBLISH_MESSAGE \<noteq> SUCCESS" by code_simp
  then obtain q where "send_reply s ERR_LOGIC_SERVER_PUBLISH_MESSAGE i (RE_EXCHANGE_NOT_EXIST @ x) = Some (s\<lparr>m_pQueueToConnect := q\<rparr>)"
    "holds q (cs @ [wire r])"
    using send_reply_puts [OF ring(1) ne, of ERR_LOGIC_SERVER_PUBLISH_MESSAGE i] ring(2) xl tl(1)
    by (auto simp: r_def)
  then show "\<exists>s'. ProcessRecvData s (wire m @ pad) (int (length (wire m))) c0 =
        Some (ERR_LOGIC_SERVER_PUBLISH_MESSAGE, i, RE_EXCHANGE_NOT_EXIST @ x, s) \<and>
      send_reply s ERR_LOGIC_SERVER_PUBLISH_MESSAGE i (RE_EXCHANGE_NOT_EXIST @ x) = Some s' \<and>
      holds (m_pQueueToConnect s') (cs @ [wire r])" using run by auto
  have f: "take 4 (msg_fields r) = [0, 69, 120, 99]"
    using tl by (simp add: r_def flag_def)
  have num: "sint (ack_number r) = 4552803" unfolding ack_number_def f by code_simp
  have sized: "\<forall>m\<in>set [r]. ack_sized m" using xl tl by (simp add: ack_sized_def r_def)
  show "\<forall>p. good_conn p \<and> input p = wire r \<and> cl_iConfirmLevel p = PRODUCER_MUTIL_ACK \<and>
        (\<forall>(w, _)\<in>set (pr_NeedAckMsgList p). sint (GetMsgSeq w) \<le> 4000000) \<longrightarrow>
      (\<exists>p'. RecvServerAck p = Some (SUCCESS, p') \<and> pr_NeedAckMsgList p' = [])"
  proof (intro allI impI, elim conjE)
    fix p :: producer assume p: "good_conn p" "input p = wire r" "cl_iConfirmLevel p = PRODUCER_MUTIL_ACK"
      "\<forall>(w, _)\<in>set (pr_NeedAckMsgList p). sint (GetMsgSeq w) \<le> 4000000"
    obtain j p' where j: "0 < j" "j \<le> length [r]" "RecvServerAck p = Some (SUCCESS, p')"
      "pr_NeedAckMsgList p' = filter (\<lambda>(w, _). \<not> confirmed (cl_iConfirmLevel p) (ack_number ` set (take j [r])) w) (pr_NeedAckMsgList p)"
      using RecvServerAck_packets [OF p(1), of "[r]"] p(2) sized by auto
    have "take j [r] = [r]" using j(1,2) by simp
    then have "\<forall>(w, _)\<in>set (pr_NeedAckMsgList p). confirmed (cl_iConfirmLevel p) (ack_number ` set (take j [r])) w"
      using p(3,4) num by (fastforce simp: confirmed_def)
    then have "pr_NeedAckMsgList p' = []" unfolding j(4) by (auto simp: filter_empty_conv)
    then show "\<exists>p'. RecvServerAck p = Some (SUCCESS, p') \<and> pr_NeedAckMsgList p' = []" using j(3) by blast
  qed
qed

section \<open>Witnesses\<close>

definition w_producer :: "bytes \<Rightarrow> i32 list \<Rightarrow> producer" where
  "w_producer w qs = w_net w (client.extend new_Client (producer.fields 9
     (map (\<lambda>q. (SetMsgSeq q (new_CreatePublishMessage [101] [107] [65] 4 False 2), (0, 0))) qs)))\<lparr>cl_iConfirmLevel := PRODUCER_MUTIL_ACK\<rparr>"

lemma w_producer_facts:
  "5 < length w \<Longrightarrow> length w \<le> 128 \<Longrightarrow> good_conn (w_producer w qs)" "5 < length w \<Longrightarrow> input (w_producer w qs) = w"
  "cl_iConfirmLevel (w_producer w qs) = PRODUCER_MUTIL_ACK"
  "pr_NeedAckMsgList (w_producer w qs) = map (\<lambda>q. (SetMsgSeq q (new_CreatePublishMessage [101] [107] [65] 4 False 2), (0, 0))) qs"
proof -
  have lvl: "good_conn (c\<lparr>cl_iConfirmLevel := l\<rparr>) = good_conn c" "input (c\<lparr>cl_iConfirmLevel := l\<rparr>) = input c" for c :: producer and l
    by (simp_all add: good_conn_def input_def unread_def)
  show "5 < length w \<Longrightarrow> length w \<le> 128 \<Longrightarrow> good_conn (w_producer w qs)" "5 < length w \<Longrightarrow> input (w_producer w qs) = w"
    by (simp_all add: w_producer_def lvl w_net_good)
  show "cl_iConfirmLevel (w_producer w qs) = PRODUCER_MUTIL_ACK"
    "pr_NeedAckMsgList (w_producer w qs) = map (\<lambda>q. (SetMsgSeq q (new_CreatePublishMessage [101] [107] [65] 4 False 2), (0, 0))) qs"
    by (simp_all add: w_producer_def w_net_def new_Client_def client.defs producer.defs)
qed

lemma GetMsgSeq_Set [simp]: "GetMsgSeq (SetMsgSeq q (new_CreatePublishMessage x k b p d l)) = q"
  by (simp add: new_CreatePublishMessage_def)

theorem RecvServerAck_confirms_witness:
  "\<exists>p'. RecvServerAck (w_producer (wire (ServerAckMessage 1 CMD_SERVER_ACK_MESSAGE 5)) [4, 5, 6]) = Some (SUCCESS, p') \<and>
     map (GetMsgSeq \<circ> fst) (pr_NeedAckMsgList p') = [6]"
proof -
  let ?w = "wire (ServerAckMessage 1 CMD_SERVER_ACK_MESSAGE 5)"
  have w: "5 < length ?w" "length ?w \<le> 128" by simp_all
  have inp: "input (w_producer ?w [4, 5, 6]) = concat (map (\<lambda>q. wire (ServerAckMessage 1 CMD_SERVER_ACK_MESSAGE q)) [5])"
    using w_producer_facts(2) [OF w(1)] by simp
  obtain k p' where k: "0 < k" "k \<le> length [5 :: i32]" "RecvServerAck (w_producer ?w [4, 5, 6]) = Some (SUCCESS, p')"
    "pr_NeedAckMsgList p' = filter (\<lambda>(m, _). \<not> confirmed (cl_iConfirmLevel (w_producer ?w [4, 5, 6])) (set (take k [5])) m)
      (pr_NeedAckMsgList (w_producer ?w [4, 5, 6]))"
    using RecvServerAck_confirms [OF w_producer_facts(1) [OF w] inp] by auto
  have "take k [5 :: i32] = [5]" using k(1,2) by simp
  then have "map (GetMsgSeq \<circ> fst) (pr_NeedAckMsgList p') = [6]"
    unfolding k(4) w_producer_facts(3,4) by (simp add: confirmed_def PRODUCER_SINGLE_ACK_def PRODUCER_MUTIL_ACK_def)
  with k(3) show ?thesis by (intro exI [of _ p'] conjI)
qed

theorem failed_publish_confirms_all_witness:
  "\<exists>r s'. holds r [] \<and> send_reply (w_server\<lparr>m_pQueueToConnect := r\<rparr>) ERR_LOGIC_SERVER_PUBLISH_MESSAGE 3 (RE_EXCHANGE_NOT_EXIST @ [120]) = Some s' \<and>
    holds (m_pQueueToConnect s') ([] @ [wire (ActReplyMessage 3 CMD_SERVER_REPLY_MESSAGE False (RE_EXCHANGE_NOT_EXIST @ [120]))]) \<and>
    (\<exists>p'. RecvServerAck (w_producer (wire (ActReplyMessage 3 CMD_SERVER_REPLY_MESSAGE False (RE_EXCHANGE_NOT_EXIST @ [120]))) [4, 5, 6]) =
      Some (SUCCESS, p') \<and> pr_NeedAckMsgList p' = [])"
proof -
  obtain r where r: "holds r []" "capacity r = 1000" using ring_with [of "[]"] by auto
  let ?s = "w_server\<lparr>m_pQueueToConnect := r\<rparr>"
  let ?w = "wire (ActReplyMessage 3 CMD_SERVER_REPLY_MESSAGE False (RE_EXCHANGE_NOT_EXIST @ [120]))"
  have inv: "logic_inv ?s" using w_server_inv r(1) by (auto simp: logic_inv_def shm_ok_def)
  have names: "good_name [120]" "good_name [107]" "length [65 :: byte] < 65456" by (simp_all add: good_name_def size_defs)
  have new: "msg_seq_key 3 5 \<notin> set (m_producerMsgSeqs ?s)" by (simp add: w_server_def new_LogicServer_def)
  have gone: "map_of (m_mExchanges ?s) [120] = None" by (simp add: w_server_def)
  have ring: "holds (m_pQueueToConnect ?s) []" "used [] + 100 \<le> capacity (m_pQueueToConnect ?s)" using r by simp_all
  note * = failed_publish_confirms_all [OF inv names new gone ring, of 4 False "[]" "-1"]
  have tl: "length RE_EXCHANGE_NOT_EXIST = 28" by code_simp
  have w: "5 < length ?w" "length ?w \<le> 128" by (simp_all add: tl)
  have "\<forall>(w, _)\<in>set (pr_NeedAckMsgList (w_producer ?w [4, 5, 6])). sint (GetMsgSeq w) \<le> 4000000"
    unfolding w_producer_facts(4) by simp
  then obtain p' where "RecvServerAck (w_producer ?w [4, 5, 6]) = Some (SUCCESS, p')" "pr_NeedAckMsgList p' = []"
    using * [THEN conjunct2] w_producer_facts(1) [OF w] w_producer_facts(2) [OF w(1)] w_producer_facts(3) by metis
  then show ?thesis using * [THEN conjunct1] r(1) by blast
qed

end
