(* ===== verification/Client_Resend.thy ===== *)
theory Client_Resend
  imports Client_Confirm
begin

text \<open>
  The producer between publication and confirmation: the numbers of its waiting messages, and what is sent again.
\<close>

section \<open>What the network calls leave alone\<close>

lemma SendOnePack_more: "SendOnePack b n c = Some (r, c') \<Longrightarrow> client.more c' = client.more c"
  by (auto simp: SendOnePack_def Let_def bind_eq_Some_conv split: if_split_asm list.splits)

lemma more_upd [simp]: "client.more (set_err t c) = client.more c" "client.more (give_up t c) = client.more c"
  by (simp_all add: set_err_def give_up_def)

text \<open>A computation that returns with the part of the subclass unchanged.\<close>

definition keeps_more :: "'a client_scheme \<Rightarrow> ('r \<times> 'a client_scheme) option \<Rightarrow> bool" where
  "keeps_more c x \<longleftrightarrow> (\<forall>y. x = Some y \<longrightarrow> client.more (snd y) = client.more c)"

lemma keeps_more_intros:
  "keeps_more c None"
  "client.more c' = client.more c \<Longrightarrow> keeps_more c (Some (r, c'))"
  "(\<And>a. m = Some a \<Longrightarrow> keeps_more c (g a)) \<Longrightarrow> keeps_more c (m \<bind> g)"
  "(b \<Longrightarrow> keeps_more c x) \<Longrightarrow> (\<not> b \<Longrightarrow> keeps_more c y) \<Longrightarrow> keeps_more c (if b then x else y)"
  "(\<And>a d. p = (a, d) \<Longrightarrow> keeps_more c (f a d)) \<Longrightarrow> keeps_more c (case p of (a, d) \<Rightarrow> f a d)"
  "(xs = [] \<Longrightarrow> keeps_more c x) \<Longrightarrow> (\<And>a as. xs = a # as \<Longrightarrow> keeps_more c (h a as)) \<Longrightarrow>
     keeps_more c (case xs of [] \<Rightarrow> x | a # as \<Rightarrow> h a as)"
  by (auto simp: keeps_more_def bind_eq_Some_conv split: list.splits prod.splits)

lemma RecvPack_keeps_more: "keeps_more c (RecvPack c)"
  unfolding RecvPack_def Let_def
  by (intro keeps_more_intros) (auto simp: WaitServerReply_def bind_eq_Some_conv)

lemma RecvPack_more_eq: "RecvPack c = Some (r, c') \<Longrightarrow> client.more c' = client.more c"
  using RecvPack_keeps_more [of c] by (simp add: keeps_more_def)

lemma recv_until_more: "recv_until c = Some (r, c') \<Longrightarrow> client.more c' = client.more c"
proof -
  have "(\<lambda>c y. client.more (snd y) = client.more c) c (r, c')" if "recv_until c = Some (r, c')"
    using that
  proof (rule recv_until.raw_induct [rotated])
    fix f :: "'a client_scheme \<Rightarrow> (int \<times> 'a client_scheme) option" and c y
    assume IH: "\<And>c y. f c = Some y \<Longrightarrow> client.more (snd y) = client.more c"
      and run: "(RecvPack c \<bind> (\<lambda>(iRet, c). if iRet = ERR_SEVER_CLOSED then Some (ERR_SEVER_CLOSED, c)
        else if iRet \<noteq> SUCCESS then f c else Some (SUCCESS, c))) = Some y"
    obtain ret c1 where c1: "RecvPack c = Some (ret, c1)" using run by (cases "RecvPack c") auto
    note m = RecvPack_more_eq [OF c1]
    show "client.more (snd y) = client.more c"
      using run c1 m IH [of c1 y] by (auto split: if_split_asm)
  qed
  then show "recv_until c = Some (r, c') \<Longrightarrow> client.more c' = client.more c" by simp
qed

lemma move_rest_more: "move_rest c = Some c' \<Longrightarrow> client.more c' = client.more c"
  by (auto simp: move_rest_def Let_def bind_eq_Some_conv)

lemma ack_loop_more: "ack_loop n acks c = Some (r, c') \<Longrightarrow> client.more c' = client.more c"
proof -
  have "(\<lambda>n acks c y. client.more (snd y) = client.more c) n acks c (r, c')" if "ack_loop n acks c = Some (r, c')"
    using that
  proof (rule ack_loop.raw_induct [rotated])
    fix f n acks c y
    assume IH: "\<And>n acks c y. f n acks c = Some y \<Longrightarrow> client.more (snd y) = client.more c"
      and run: "(if n < 8 then do { c \<leftarrow> move_rest c; Some (acks, c) }
      else do {
        let pTemp = cl_pRecvHead c;
        (offset, iPackLen) \<leftarrow> ReadShort (cl_pRecvBuff c) pTemp;
        if n < uint iPackLen then do { c \<leftarrow> move_rest c; Some (acks, c) }
        else do {
          let pTemp = pTemp + offset;
          (offset, iClientIndex) \<leftarrow> ReadInt (cl_pRecvBuff c) pTemp;
          let pTemp = pTemp + offset;
          (offset, iCmdId) \<leftarrow> ReadShort (cl_pRecvBuff c) pTemp;
          let pTemp = pTemp + offset;
          (offset, iMsgSeq) \<leftarrow> ReadInt (cl_pRecvBuff c) pTemp;
          f (n - uint iPackLen) (List.insert iMsgSeq acks) (c\<lparr>cl_pRecvHead := cl_pRecvHead c + unat iPackLen\<rparr>) } }) = Some y"
    show "client.more (snd y) = client.more c"
      using run by (auto simp: Let_def bind_eq_Some_conv dest!: move_rest_more IH split: if_split_asm)
  qed
  then show "ack_loop n acks c = Some (r, c') \<Longrightarrow> client.more c' = client.more c" by simp
qed

lemma more_producer:
  fixes c c' :: producer
  shows "client.more c' = client.more c \<longleftrightarrow> pr_iMsgSeq c' = pr_iMsgSeq c \<and> pr_NeedAckMsgList c' = pr_NeedAckMsgList c"
  by (cases c, cases c') simp

section \<open>The waiting messages\<close>

definition new_Producer :: producer where
  "new_Producer = client.extend new_Client (producer.fields 0 [])"

inductive producer_step :: "producer \<Rightarrow> producer \<Rightarrow> bool" where
  publish: "PuslishMessage x k b pr d p = Some (r, p') \<Longrightarrow> sint (pr_iMsgSeq p) < 2 ^ 31 - 1 \<Longrightarrow> producer_step p p'"
| acks: "RecvServerAck p = Some (r, p') \<Longrightarrow> producer_step p p'"
| resend: "Producer_ReSendMsg p = Some (r, p') \<Longrightarrow> producer_step p p'"
| connect: "BuildConnection sock conn err ip port p = (r, p') \<Longrightarrow> producer_step p p'"
| level: "producer_step p (p\<lparr>cl_iConfirmLevel := lv\<rparr>)"
| world: "producer_step p (p\<lparr>cl_poll := ps, cl_recv := rs, cl_send := ss, cl_now := now, cl_stack := st\<rparr>)"

definition numbers_ok :: "producer \<Rightarrow> bool" where
  "numbers_ok p \<longleftrightarrow> 0 \<le> sint (pr_iMsgSeq p) \<and> distinct (map (GetMsgSeq \<circ> fst) (pr_NeedAckMsgList p)) \<and>
     (\<forall>(m, _)\<in>set (pr_NeedAckMsgList p). 0 \<le> sint (GetMsgSeq m) \<and> sint (GetMsgSeq m) < sint (pr_iMsgSeq p))"

lemma numbers_ok_sub:
  assumes "numbers_ok p" "pr_iMsgSeq p' = pr_iMsgSeq p" "mset (map fst (pr_NeedAckMsgList p')) \<subseteq># mset (map fst (pr_NeedAckMsgList p))"
  shows "numbers_ok p'"
proof -
  let ?f = "\<lambda>p. map (GetMsgSeq \<circ> fst) (pr_NeedAckMsgList p)"
  have "image_mset GetMsgSeq (mset (map fst (pr_NeedAckMsgList p'))) \<subseteq># image_mset GetMsgSeq (mset (map fst (pr_NeedAckMsgList p)))"
    using assms(3) by (rule image_mset_subseteq_mono)
  then have sub: "mset (?f p') \<subseteq># mset (?f p)" by (simp add: multiset.map_comp)
  obtain ys where ys: "mset (?f p) = mset (?f p' @ ys)" using sub by (metis ex_mset mset_append subset_mset.le_iff_add)
  have "distinct (?f p')" using assms(1) mset_eq_imp_distinct_iff [OF ys] by (simp add: numbers_ok_def)
  moreover have "set (?f p') \<subseteq> set (?f p)" using set_mset_mono [OF sub] by simp
  ultimately show ?thesis using assms(1,2) by (fastforce simp: numbers_ok_def)
qed

lemma Producer_ReSendMsg_waiting:
  "Producer_ReSendMsg p = Some (r, p') \<Longrightarrow>
   pr_iMsgSeq p' = pr_iMsgSeq p \<and> mset (map fst (pr_NeedAckMsgList p')) = mset (map fst (pr_NeedAckMsgList p))"
proof -
  let ?P = "\<lambda>p y. pr_iMsgSeq (snd y) = pr_iMsgSeq p \<and> mset (map fst (pr_NeedAckMsgList (snd y))) = mset (map fst (pr_NeedAckMsgList p))"
  have "?P p (r, p')" if "Producer_ReSendMsg p = Some (r, p')"
    using that
  proof (rule Producer_ReSendMsg.raw_induct [rotated])
    fix f :: "producer \<Rightarrow> (int \<times> producer) option" and c y
    assume IH: "\<And>c y. f c = Some y \<Longrightarrow> ?P c y"
      and run: "(case pr_NeedAckMsgList c of
        [] \<Rightarrow> Some (SUCCESS, c)
      | (oMsg, tSaveTime) # rest \<Rightarrow>
          if wait_time (cl_now c) tSaveTime \<ge> 3 * 1000 * 1000 then do {
            (_, pBuffer, iLen) \<leftarrow> GetMessagePack oMsg (take MAX_CLINT_PACKAGE_LENGTH (cl_stack c @ replicate MAX_CLINT_PACKAGE_LENGTH 0))
              (int MAX_CLINT_PACKAGE_LENGTH);
            let c = c\<lparr>pr_NeedAckMsgList := rest @ [(oMsg, cl_now c)]\<rparr>;
            (ret, c) \<leftarrow> SendOnePack pBuffer iLen c;
            if ret \<noteq> SUCCESS then Some (ERR_CLIENT_PUBLISH_MSG, give_up (bytes_of ''Server closed!'') c)
            else f c }
          else Some (SUCCESS, c)) = Some y"
    show "?P c y"
    proof (cases "pr_NeedAckMsgList c")
      case Nil
      then show ?thesis using run by auto
    next
      case (Cons w rest)
      obtain m t where w: "w = (m, t)" by (cases w)
      show ?thesis
      proof (cases "wait_time (cl_now c) t \<ge> 3 * 1000 * 1000")
        case True
        let ?c = "c\<lparr>pr_NeedAckMsgList := rest @ [(m, cl_now c)]\<rparr>"
        obtain u b n ret c1 where c1: "SendOnePack b n ?c = Some (ret, c1)"
          "(if ret \<noteq> SUCCESS then Some (ERR_CLIENT_PUBLISH_MSG, give_up (bytes_of ''Server closed!'') c1) else f c1) = Some y"
          using run Cons w True by (auto simp: bind_eq_Some_conv simp del: GetMessagePack.simps)
        have "pr_iMsgSeq c1 = pr_iMsgSeq c" "pr_NeedAckMsgList c1 = rest @ [(m, cl_now c)]"
          using SendOnePack_more [OF c1(1)] by (simp_all add: more_producer)
        then show ?thesis using c1(2) IH [of c1 y] Cons w
          by (auto simp: set_err_def give_up_def split: if_split_asm)
      next
        case False
        then show ?thesis using run Cons w by auto
      qed
    qed
  qed
  then show "Producer_ReSendMsg p = Some (r, p') \<Longrightarrow>
    pr_iMsgSeq p' = pr_iMsgSeq p \<and> mset (map fst (pr_NeedAckMsgList p')) = mset (map fst (pr_NeedAckMsgList p))" by simp
qed

lemma ex_filter: "\<exists>Q. filter P xs = filter Q xs" "\<exists>Q. xs = filter Q xs"
  by (blast, rule exI [of _ "\<lambda>_. True"], simp)

lemma RecvServerAck_waiting:
  assumes "RecvServerAck p = Some (r, p')"
  shows "pr_iMsgSeq p' = pr_iMsgSeq p \<and> mset (map fst (pr_NeedAckMsgList p')) \<subseteq># mset (map fst (pr_NeedAckMsgList p))"
proof -
  obtain ret c where c: "recv_until p = Some (ret, c)" using assms by (auto simp: RecvServerAck_def bind_eq_Some_conv)
  note m1 = recv_until_more [OF c, unfolded more_producer]
  have flt: "mset (map fst (filter P ws)) \<subseteq># mset (map fst ws)" for P and ws :: "(message \<times> int \<times> int) list"
    using image_mset_subseteq_mono [OF multiset_filter_subset, of fst P "mset ws"] by (simp add: mset_filter)
  show ?thesis
  proof (cases "ret = ERR_SEVER_CLOSED")
    case True
    then show ?thesis using assms c m1 by (auto simp: RecvServerAck_def)
  next
    case False
    obtain acks c2 where c2: "ack_loop (int (cl_pRecvTail c) - int (cl_pRecvHead c)) [] c = Some (acks, c2)"
      using assms c False by (auto simp: RecvServerAck_def bind_eq_Some_conv)
    note m2 = ack_loop_more [OF c2, unfolded more_producer]
    have "pr_iMsgSeq p' = pr_iMsgSeq c2 \<and> (\<exists>P. pr_NeedAckMsgList p' = filter P (pr_NeedAckMsgList c2))"
      using assms c c2 False
      by (auto simp: RecvServerAck_def Let_def single_confirm_def multi_confirm_filter intro: ex_filter)
    then show ?thesis using m1 m2 flt by auto
  qed
qed

lemma PuslishMessage_waiting:
  assumes "PuslishMessage x k b pr d p = Some (r, p')"
  shows "pr_iMsgSeq p' = pr_iMsgSeq p \<and> pr_NeedAckMsgList p' = pr_NeedAckMsgList p \<or>
    pr_iMsgSeq p' = pr_iMsgSeq p + 1 \<and> (pr_NeedAckMsgList p' = pr_NeedAckMsgList p \<or>
      (\<exists>m t. pr_NeedAckMsgList p' = pr_NeedAckMsgList p @ [(m, t)] \<and> GetMsgSeq m = pr_iMsgSeq p))"
proof (cases "cl_bBuild p")
  case False
  then show ?thesis using assms by (auto simp: PuslishMessage_def set_err_def)
next
  case True
  let ?m0 = "new_CreatePublishMessage x k b pr d (cl_iConfirmLevel p)"
  obtain m p1 where mp: "(if 0 < cl_iConfirmLevel p then (SetMsgSeq (pr_iMsgSeq p) ?m0, p\<lparr>pr_iMsgSeq := pr_iMsgSeq p + 1\<rparr>) else (?m0, p)) = (m, p1)"
    by (cases "if 0 < cl_iConfirmLevel p then (SetMsgSeq (pr_iMsgSeq p) ?m0, p\<lparr>pr_iMsgSeq := pr_iMsgSeq p + 1\<rparr>) else (?m0, p)")
  have p1: "pr_NeedAckMsgList p1 = pr_NeedAckMsgList p"
    "if 0 < cl_iConfirmLevel p then pr_iMsgSeq p1 = pr_iMsgSeq p + 1 \<and> GetMsgSeq m = pr_iMsgSeq p else p1 = p"
    "cl_iConfirmLevel p1 = cl_iConfirmLevel p"
    using mp by (auto simp: new_CreatePublishMessage_def split: if_split_asm)
  obtain ret bu n where pk: "GetMessagePack m (replicate MAX_CLINT_PACKAGE_LENGTH 0) (int MAX_CLINT_PACKAGE_LENGTH) = Some (ret, bu, n)"
    using assms True mp by (auto simp: PuslishMessage_def Let_def bind_eq_Some_conv)
  show ?thesis
  proof (cases "ret = SUCCESS")
    case False
    then have "p' = set_err (bytes_of ''Invaild parms!'') p1" using assms True mp pk by (simp add: PuslishMessage_def Let_def)
    then show ?thesis using p1 by (auto simp: set_err_def split: if_split_asm)
  next
    case ok: True
    obtain ret2 p2 where p2: "SendOnePack bu n p1 = Some (ret2, p2)"
      using assms True mp pk ok by (auto simp: PuslishMessage_def Let_def bind_eq_Some_conv)
    note m2 = SendOnePack_more [OF p2, unfolded more_producer]
    have lv: "cl_iConfirmLevel p2 = cl_iConfirmLevel p1" using p2
      by (auto simp: SendOnePack_def Let_def bind_eq_Some_conv split: if_split_asm list.splits)
    show ?thesis using assms True mp pk ok p2 p1 m2 lv
      by (auto simp: PuslishMessage_def Let_def set_err_def give_up_def split: if_split_asm)
  qed
qed

text \<open>C25. In every reachable state of a producer the messages that wait for confirmation have different numbers, all below the next one, whatever
  is published, confirmed or sent again in between and however the calls fail: no acknowledgement can
  confirm a message it was not meant for.\<close>

theorem producer_numbers_distinct:
  "producer_step\<^sup>*\<^sup>* new_Producer p \<Longrightarrow> numbers_ok p"
proof (induction rule: rtranclp_induct)
  case base
  show ?case by (simp add: numbers_ok_def new_Producer_def producer.defs client.defs)
next
  case (step p p')
  from step(2,3) show ?case
  proof (cases rule: producer_step.cases)
    case (publish x k b pr d r)
    have up: "sint (pr_iMsgSeq p + 1) = sint (pr_iMsgSeq p) + 1" if "0 \<le> sint (pr_iMsgSeq p)"
      using publish(2) that by (simp add: sint_word_ariths signed_take_bit_int_eq_self)
    show ?thesis using PuslishMessage_waiting [OF publish(1)] step(3) up by (force simp: numbers_ok_def)
  next
    case (acks r)
    show ?thesis using RecvServerAck_waiting [OF acks] numbers_ok_sub [OF step(3), of p'] by blast
  next
    case (resend r)
    show ?thesis using Producer_ReSendMsg_waiting [OF resend] numbers_ok_sub [OF step(3), of p'] by simp
  next
    case (connect sock conn err ip port r)
    then show ?thesis using step(3) by (auto simp: BuildConnection_def Let_def numbers_ok_def set_err_def split: if_split_asm)
  next
    case (level lv)
    then show ?thesis using step(3) by (simp add: numbers_ok_def)
  next
    case (world ps rs ss now st)
    then show ?thesis using step(3) by (simp add: numbers_ok_def)
  qed
qed

section \<open>What is sent again\<close>

text \<open>The packer leaves the rest of a name field as it finds it.\<close>

lemma publish_pack_over:
  assumes "length x < 32" "length k \<le> 32" "80 + length b \<le> MAX_CLINT_PACKAGE_LENGTH" "length buf = MAX_CLINT_PACKAGE_LENGTH"
  shows "\<exists>buf'. GetMessagePack (Logic_Publish.publish_packet i x k pr d q l b) buf (int MAX_CLINT_PACKAGE_LENGTH) =
      Some (SUCCESS, buf', int (80 + length b)) \<and> length buf' = MAX_CLINT_PACKAGE_LENGTH \<and>
    get_at buf' 8 (length x) = x \<and> buf' ! (8 + length x) = buf ! (8 + length x)"
proof -
  have u: "uint (word_of_nat (80 + length b) :: u16) = int (80 + length b)" using assms(3) by (intro uint_u16) (simp add: size_defs)
  let ?l = "word_of_nat (80 + length b) :: u16"
  let ?b = "put_at (put_at (put_at (put_at (put_at (put_at (put_at (put_at (put_at (put_at buf 0 (be16 ?l)) 2 (be32 i)) 6 (be16 CMD_CREATE_PUBLISH))
    8 x) 40 k) 72 (be16 pr)) 74 [if d then 1 else 0]) 75 (be32 q)) 79 [l]) 80 b"
  have "GetMessagePack (Logic_Publish.publish_packet i x k pr d q l b) buf (int MAX_CLINT_PACKAGE_LENGTH) = Some (SUCCESS, ?b, int (80 + length b))"
    using assms u by (simp add: CreatePublishMessage_GetMessagePack_def write_head_def name_too_long_def size_defs Let_def del: of_nat_add)
  moreover have "length ?b = MAX_CLINT_PACKAGE_LENGTH" "get_at ?b 8 (length x) = x" "?b ! (8 + length x) = buf ! (8 + length x)"
    using assms by (simp_all add: buf_simps size_defs)
  ultimately show ?thesis by blast
qed

text \<open>What the producer sends again is another message: \<open>ReSendMsg\<close> packs into an array it has not cleared, and the packer writes a name
  without the zero behind it. When the byte behind the exchange's name is not zero by chance, the server does not
  read the name of that exchange out of the packet, and the message cannot be routed by it.\<close>

theorem resent_name_differs:
  fixes p :: producer
  assumes m: "pr_NeedAckMsgList p = [(CreatePublishMessage i CMD_CREATE_PUBLISH x k pr d q l body, t)]"
    and late: "wait_time (cl_now p) t \<ge> 3 * 1000 * 1000"
    and names: "length x < 32" "length k \<le> 32" "80 + length body \<le> MAX_CLINT_PACKAGE_LENGTH"
    and stack: "40 \<le> length (cl_stack p)" "cl_stack p ! (8 + length x) \<noteq> 0"
    and conn: "can_send (80 + length body) p"
  shows "\<exists>p' w. Producer_ReSendMsg p = Some (SUCCESS, p') \<and> cl_wire p' = cl_wire p @ w \<and>
    pr_NeedAckMsgList p' = [(CreatePublishMessage i CMD_CREATE_PUBLISH x k pr d q l body, cl_now p)] \<and>
    length w = 80 + length body \<and> (\<forall>pad n. read_name (w @ pad) 8 \<noteq> Some (n, x))"
proof -
  let ?m = "Logic_Publish.publish_packet i x k pr d q l body" and ?n = "80 + length body"
  let ?buf = "take MAX_CLINT_PACKAGE_LENGTH (cl_stack p @ replicate MAX_CLINT_PACKAGE_LENGTH 0)"
  have lb: "length ?buf = MAX_CLINT_PACKAGE_LENGTH" by (simp add: min_def)
  obtain b where b: "GetMessagePack ?m ?buf (int MAX_CLINT_PACKAGE_LENGTH) = Some (SUCCESS, b, int ?n)"
    "length b = MAX_CLINT_PACKAGE_LENGTH" "get_at b 8 (length x) = x" "b ! (8 + length x) = ?buf ! (8 + length x)"
    using publish_pack_over [OF names lb, of i pr d q l] by blast
  have nz: "b ! (8 + length x) \<noteq> 0" using b(4) stack names(1) by (simp add: nth_append size_defs)
  let ?p = "p\<lparr>pr_NeedAckMsgList := [(?m, cl_now p)]\<rparr>"
  have conn': "can_send ?n ?p" using conn by (auto simp: can_send_def good_conn_def input_def unread_def split: option.splits)
  have n: "0 < ?n" "?n \<le> length b" using names(3) b(2) by simp_all
  obtain ps ss where s: "SendOnePack b (int ?n) ?p = Some (SUCCESS, ?p\<lparr>cl_poll := ps, cl_send := ss, cl_wire := cl_wire ?p @ get_at b 0 ?n\<rparr>)"
    using SendOnePack_run [OF conn' n] by blast
  let ?p' = "?p\<lparr>cl_poll := ps, cl_send := ss, cl_wire := cl_wire ?p @ get_at b 0 ?n\<rparr>"
  have stop: "Producer_ReSendMsg ?p' = Some (SUCCESS, ?p')" by (subst Producer_ReSendMsg.simps) (simp add: wait_time_def cint_def)
  have run: "Producer_ReSendMsg p = Some (SUCCESS, ?p')"
    using m late b(1) s stop by (subst Producer_ReSendMsg.simps) (simp del: GetMessagePack.simps of_nat_add)
  have no: "read_name (get_at b 0 ?n @ pad) 8 \<noteq> Some (j, x)" for pad j
  proof
    let ?w = "get_at b 0 ?n"
    assume read: "read_name (?w @ pad) 8 = Some (j, x)"
    have lw: "length ?w = ?n" using n(2) by simp
    have field: "get_at (?w @ pad) 8 32 = get_at b 8 32" using n(2) by (simp add: get_at_def drop_take)
    have pre: "get_at b 8 32 = x @ b ! (8 + length x) # drop (Suc (length x)) (get_at b 8 32)"
    proof -
      have l: "length (get_at b 8 32) = 32" using b(2) by (simp add: size_defs)
      have "take (length x) (get_at b 8 32) = x" using b(3) names(1) by (simp add: get_at_def min_def)
      moreover have "get_at b 8 32 ! length x = b ! (8 + length x)" using names(1) b(2) by (simp add: nth_get_at size_defs)
      ultimately show ?thesis using names(1) l id_take_nth_drop [of "length x" "get_at b 8 32"] by simp
    qed
    have "takeWhile (\<lambda>c. c \<noteq> 0) (get_at b 8 32) = x"
      using read lw field by (auto simp: read_name_def cstr_def size_defs bind_eq_Some_conv ReadBuf_def mem_read_def split: if_split_asm)
    moreover have "takeWhile (\<lambda>c. c \<noteq> 0) (x @ c # ys) \<noteq> x" if "c \<noteq> 0" for c :: byte and ys
      using that by (induction x) auto
    ultimately show False using pre nz by metis
  qed
  show ?thesis using run no n(2) by (intro exI [of _ ?p'] exI [of _ "get_at b 0 ?n"]) simp
qed

section \<open>Publishing\<close>

lemma PuslishMessage_run:
  assumes "cl_bBuild p" "0 < cl_iConfirmLevel p"
    and "request_fits (SetMsgSeq (pr_iMsgSeq p) (new_CreatePublishMessage x k b pr d (cl_iConfirmLevel p)))"
    and "can_send (length (wire (SetMsgSeq (pr_iMsgSeq p) (new_CreatePublishMessage x k b pr d (cl_iConfirmLevel p))))) p"
  defines "m \<equiv> SetMsgSeq (pr_iMsgSeq p) (new_CreatePublishMessage x k b pr d (cl_iConfirmLevel p))"
  shows "\<exists>p'. PuslishMessage x k b pr d p = Some (SUCCESS, p') \<and> cl_wire p' = cl_wire p @ wire m \<and>
    pr_NeedAckMsgList p' = pr_NeedAckMsgList p @ [(m, cl_now p)] \<and> pr_iMsgSeq p' = pr_iMsgSeq p + 1"
proof -
  let ?p = "p\<lparr>pr_iMsgSeq := pr_iMsgSeq p + 1\<rparr>"
  have send: "can_send (length (wire m)) ?p" using assms(4) unfolding m_def
    by (auto simp: can_send_def good_conn_def input_def unread_def split: option.splits)
  obtain p1 qs where p1: "SendOnePack (zbuf (wire m) MAX_CLINT_PACKAGE_LENGTH) (int (length (wire m))) ?p = Some (SUCCESS, p1)"
    "p1 = ?p\<lparr>cl_poll := qs, cl_send := tl (cl_send ?p), cl_wire := cl_wire ?p @ wire m\<rparr>"
    using send_request [OF send assms(3) [folded m_def]] by blast
  have "PuslishMessage x k b pr d p = Some (SUCCESS, p1\<lparr>pr_NeedAckMsgList := pr_NeedAckMsgList p1 @ [(m, cl_now p1)]\<rparr>)"
    using assms(1,2) p1(1) pack_request [OF assms(3)] unfolding PuslishMessage_def Let_def
    by (simp add: m_def p1(2) del: length_wire GetMessagePack.simps)
  then show ?thesis by (simp add: p1(2))
qed

section \<open>Witnesses\<close>

lemma w_net_sends:
  "send_fine s n \<Longrightarrow> can_send n ((w_net [0, 12, 0, 0, 0, 1] c)\<lparr>cl_iConfirmLevel := l, cl_send := [s], cl_now := t, cl_stack := st\<rparr>)"
  by (simp add: w_net_def can_send_def good_conn_def input_def unread_def get_at_def recv_fine_def numeral_eq_Suc)

theorem producer_numbers_distinct_witness:
  "\<exists>p. producer_step\<^sup>*\<^sup>* new_Producer p \<and> numbers_ok p \<and> map (GetMsgSeq \<circ> fst) (pr_NeedAckMsgList p) = [0] \<and> pr_iMsgSeq p = 1"
proof -
  obtain p1 where p1: "BuildConnection 3 0 [] [] 0 new_Producer = (SUCCESS, p1)" "cl_bBuild p1" "cl_iSockfd p1 = 3"
    "pr_NeedAckMsgList p1 = []" "pr_iMsgSeq p1 = 0" "cl_pRecvHead p1 = 0" "cl_pRecvTail p1 = 0" "cl_pRecvBuff p1 = cl_pRecvBuff new_Client"
    by (simp add: BuildConnection_def new_Producer_def client.defs producer.defs new_Client_def)
  let ?p2 = "p1\<lparr>cl_iConfirmLevel := 2\<rparr>"
  let ?p3 = "?p2\<lparr>cl_poll := [\<lparr>po_ret = 1, po_errno = EOTHER, po_err = False, po_out = True\<rparr>], cl_recv := [], cl_send := [[(81, EOTHER)]],
    cl_now := (0, 0), cl_stack := []\<rparr>"
  let ?m = "SetMsgSeq 0 (new_CreatePublishMessage [101] [107] [65] 4 False 2)"
  have m: "request_fits ?m" "length (wire ?m) = 81"
    by (simp_all add: request_fits_def names_ok_def new_CreatePublishMessage_def size_defs)
  have "can_send 81 ?p3" by (simp add: can_send_def good_conn_def p1 input_def unread_def get_at_def recv_fine_def)
  then have send: "can_send (length (wire ?m)) ?p3" unfolding m(2) .
  obtain p4 where p4: "PuslishMessage [101] [107] [65] 4 False ?p3 = Some (SUCCESS, p4)" "pr_NeedAckMsgList p4 = [(?m, (0, 0))]" "pr_iMsgSeq p4 = 1"
    using PuslishMessage_run [of ?p3 "[101]" "[107]" "[65]" 4 False] m(1) send p1 by (auto simp del: length_wire)
  have "producer_step new_Producer p1" using p1(1) by (rule producer_step.connect)
  then have "producer_step\<^sup>*\<^sup>* new_Producer p1" by (rule r_into_rtranclp)
  then have "producer_step\<^sup>*\<^sup>* new_Producer ?p2" using producer_step.level by (rule rtranclp.rtrancl_into_rtrancl)
  then have "producer_step\<^sup>*\<^sup>* new_Producer ?p3" using producer_step.world by (rule rtranclp.rtrancl_into_rtrancl)
  moreover have "producer_step ?p3 p4" using p4(1) by (rule producer_step.publish) (simp add: p1)
  ultimately have run: "producer_step\<^sup>*\<^sup>* new_Producer p4" by (rule rtranclp.rtrancl_into_rtrancl)
  from producer_numbers_distinct [OF this] run p4(2,3) show ?thesis
    by (intro exI [of _ p4]) simp
qed

theorem resent_name_differs_witness:
  "\<exists>p' w. Producer_ReSendMsg ((w_producer [0, 12, 0, 0, 0, 1] [7])\<lparr>cl_send := [[(81, EOTHER)]], cl_now := (4000, 0), cl_stack := replicate 40 1\<rparr>) =
      Some (SUCCESS, p') \<and> cl_wire p' = [] @ w \<and> (\<forall>pad n. read_name (w @ pad) 8 \<noteq> Some (n, [101]))"
proof -
  let ?p = "(w_producer [0, 12, 0, 0, 0, 1] [7])\<lparr>cl_send := [[(81, EOTHER)]], cl_now := (4000, 0), cl_stack := replicate 40 1\<rparr>"
  have m: "pr_NeedAckMsgList ?p = [(CreatePublishMessage (-1) CMD_CREATE_PUBLISH [101] [107] 4 False 7 2 [65], (0, 0))]"
    by (simp add: w_producer_facts new_CreatePublishMessage_def)
  have late: "wait_time (cl_now ?p) (0, 0) \<ge> 3 * 1000 * 1000" by simp code_simp
  have names: "length [101 :: byte] < 32" "length [107 :: byte] \<le> 32" "80 + length [65 :: byte] \<le> MAX_CLINT_PACKAGE_LENGTH"
    by (simp_all add: size_defs)
  have stack: "40 \<le> length (cl_stack ?p)" "cl_stack ?p ! (8 + length [101 :: byte]) \<noteq> 0" by simp_all
  have conn: "can_send (80 + length [65 :: byte]) ?p" using w_net_sends [of "[(81, EOTHER)]" 81] by (simp add: w_producer_def)
  have w: "cl_wire ?p = []" by (simp add: w_producer_def w_net_def client.defs producer.defs new_Client_def)
  from resent_name_differs [OF m late names stack conn] show ?thesis unfolding w by blast
qed

end
