(* ===== verification/Client_Deliver.thy ===== *)
theory Client_Deliver
  imports Client_Resend
begin

text \<open>
  Consuming: what the application gets of the messages that the server pushes, and what the server gets back.
\<close>

section \<open>A connection that lasts\<close>

definition poll_easy :: "poll_result \<Rightarrow> bool" where
  "poll_easy p \<longleftrightarrow> 0 < po_ret p \<and> \<not> po_err p \<and> po_out p"

text \<open>Room for \<open>n\<close> more acknowledgements, of 13 bytes each.\<close>

definition ready :: "nat \<Rightarrow> 'a client_scheme \<Rightarrow> bool" where
  "ready n c \<longleftrightarrow> good_conn c \<and> 0 < cl_iSockfd c \<and> (\<forall>p\<in>set (cl_poll c). poll_easy p) \<and>
     length (cl_recv c) + n \<le> length (cl_poll c) \<and> n \<le> length (cl_send c) \<and> (\<forall>s\<in>set (cl_send c). send_fine s 13)"

text \<open>Every read has its own wait.\<close>

definition in_step :: "'a client_scheme \<Rightarrow> 'a client_scheme \<Rightarrow> bool" where
  "in_step c c' \<longleftrightarrow> (\<exists>j\<le>length (cl_recv c). cl_poll c' = drop j (cl_poll c) \<and> cl_recv c' = drop j (cl_recv c))"

lemma in_step_refl: "cl_poll c' = cl_poll c \<Longrightarrow> cl_recv c' = cl_recv c \<Longrightarrow> in_step c c'"
  by (auto simp: in_step_def intro: exI [of _ 0])

lemma in_step_trans: "in_step c c' \<Longrightarrow> in_step c' c'' \<Longrightarrow> in_step c c''"
  unfolding in_step_def by (elim exE conjE, rule_tac x = "j + ja" in exI) (auto simp: add.commute)

lemma in_step_easy:
  assumes "in_step c c'" "\<forall>p\<in>set (cl_poll c). poll_easy p"
  shows "\<forall>p\<in>set (cl_poll c'). poll_easy p"
proof -
  obtain j where "cl_poll c' = drop j (cl_poll c)" using assms(1) by (auto simp: in_step_def)
  then show ?thesis using assms(2) set_drop_subset [of j "cl_poll c"] by auto
qed

lemma RecvPack_in_step:
  assumes "RecvPack c = Some (r, c')" "\<forall>p\<in>set (cl_poll c). poll_easy p"
  shows "in_step c c'"
proof -
  obtain whole where whole: "whole_packet c = Some whole" using assms(1) by (auto simp: RecvPack_def bind_eq_Some_conv)
  show ?thesis
  proof (cases whole)
    case True
    then show ?thesis using assms(1) whole in_step_refl [of c' c] by (simp add: RecvPack_def)
  next
    case False
    show ?thesis
    proof (cases "cl_poll c")
      case Nil
      then show ?thesis using assms(1) whole False by (simp add: RecvPack_def WaitServerReply_def)
    next
      case p: (Cons p ps)
      then have w: "WaitServerReply c = Some (SUCCESS, c\<lparr>cl_poll := ps\<rparr>)"
        using assms(2) by (simp add: WaitServerReply_def poll_easy_def)
      show ?thesis
      proof (cases "cl_recv c")
        case Nil
        then show ?thesis using assms(1) whole False w by (simp add: RecvPack_def)
      next
        case (Cons x rs)
        obtain ret e dat where x: "x = (ret, e, dat)" by (cases x)
        have "cl_poll c' = ps \<and> cl_recv c' = rs"
        proof (cases "0 < ret")
          case True
          then show ?thesis using assms(1) whole False w Cons x
            by (auto simp: RecvPack_def Let_def bind_eq_Some_conv)
        next
          case r: False
          show ?thesis
          proof (cases "ret = 0")
            case True
            then show ?thesis using assms(1) whole False w Cons x
              by (auto simp: RecvPack_def Let_def give_up_def set_err_def)
          next
            case neg: False
            then show ?thesis using r assms(1) whole False w Cons x
              by (auto simp: RecvPack_def Let_def give_up_def set_err_def split: if_split_asm)
          qed
        qed
        then show ?thesis using p Cons by (auto simp: in_step_def intro!: exI [of _ 1])
      qed
    qed
  qed
qed

lemma recv_until_in_step:
  assumes "recv_until c = Some (r, c')" "\<forall>p\<in>set (cl_poll c). poll_easy p"
  shows "in_step c c'"
proof -
  let ?P = "\<lambda>c y. (\<forall>p\<in>set (cl_poll c). poll_easy p) \<longrightarrow> in_step c (snd y)"
  have "?P c (r, c')" using assms(1)
  proof (rule recv_until.raw_induct [rotated])
    fix f :: "'a client_scheme \<Rightarrow> (int \<times> 'a client_scheme) option" and c y
    assume IH: "\<And>c y. f c = Some y \<Longrightarrow> ?P c y"
      and run: "(RecvPack c \<bind> (\<lambda>(iRet, c). if iRet = ERR_SEVER_CLOSED then Some (ERR_SEVER_CLOSED, c)
        else if iRet \<noteq> SUCCESS then f c else Some (SUCCESS, c))) = Some y"
    show "?P c y"
    proof
      assume easy: "\<forall>p\<in>set (cl_poll c). poll_easy p"
      obtain ret c1 where c1: "RecvPack c = Some (ret, c1)" using run by (cases "RecvPack c") auto
      note s = RecvPack_in_step [OF c1 easy]
      show "in_step c (snd y)"
        using run c1 s in_step_trans [OF s] IH [of c1 y] in_step_easy [OF s easy] by (auto split: if_split_asm)
    qed
  qed
  then show ?thesis using assms(2) by simp
qed

lemma RecvOnePack_in_step:
  assumes "RecvOnePack b n t c = Some (r, b', n', t', c')" "\<forall>p\<in>set (cl_poll c). poll_easy p"
  shows "in_step c c'"
proof -
  have mv: "in_step c1 c2" if "move_rest (c1\<lparr>cl_pRecvHead := h\<rparr>) = Some c2" for c1 c2 :: "'a client_scheme" and h
    using that by (intro in_step_refl) (auto simp: move_rest_def Let_def bind_eq_Some_conv)
  show ?thesis
  proof (cases "cl_bBuild c")
    case False
    then show ?thesis using assms(1) by (intro in_step_refl) (auto simp: RecvOnePack_def set_err_def)
  next
    case True
    obtain ret c1 where c1: "recv_until c = Some (ret, c1)" using assms(1) True by (auto simp: RecvOnePack_def bind_eq_Some_conv)
    note s = recv_until_in_step [OF c1 assms(2)]
    have "in_step c1 c'" using assms(1) True c1
      by (auto simp: RecvOnePack_def Let_def bind_eq_Some_conv set_err_def split: if_split_asm intro: in_step_refl dest: mv)
    then show ?thesis using s in_step_trans by blast
  qed
qed

section \<open>One message\<close>

lemma split_body_store:
  assumes "length (lv # be32 q @ body) \<le> length buf"
  shows "\<exists>b. split_body (put_at buf 0 (lv # be32 q @ body)) (int (length (lv # be32 q @ body))) = Some (lv, q, b, int (length body)) \<and>
    take (length body) b = body \<and> b ! length body = 0"
proof -
  let ?f = "lv # be32 q @ body" let ?b = "put_at buf 0 ?f" and ?n = "length body"
  have l: "length ?b = length buf" "5 + ?n \<le> length buf" using assms by simp_all
  have q: "get_at ?b 1 4 = be32 q" by (simp add: get_at_def put_at_def)
  have lv: "?b ! 0 = lv" by (simp add: put_at_def)
  have bd: "get_at ?b 5 ?n = body" by (simp add: get_at_def put_at_def)
  have copy: "memcpy ?b 0 ?b 5 (int ?n) = Some (put_at ?b 0 body)"
    using memcpy_nat [of ?b 0 ?b 5 ?n] l bd by simp
  have len: "length (put_at ?b 0 body) = length buf" using l by simp
  let ?b2 = "put_at (put_at ?b 0 body) ?n [0]"
  have "split_body ?b (int (length ?f)) = Some (lv, q, ?b2, int ?n)"
    using l q lv copy len by (simp add: split_body_def Let_def)
  moreover have "take ?n ?b2 = body" using len l by (simp add: put_at_def min_def)
  moreover have "?b2 ! ?n = 0" using len l by (simp add: nth_put_at)
  ultimately show ?thesis by blast
qed

lemma ready_ack:
  assumes "ready (Suc n) c"
  shows "\<exists>c'. send_ack lv q (int MAX_CLINT_PACKAGE_LENGTH) c = Some (SUCCESS, SUCCESS, c') \<and> ready n c' \<and> input c' = input c \<and>
    cl_wire c' = cl_wire c @ wire (new_ClientAckMessage lv q) \<and> cl_bBuild c' = cl_bBuild c \<and> client.more c' = client.more c"
proof -
  let ?m = "new_ClientAckMessage lv q"
  have fits: "request_fits ?m" "length (wire ?m) = 13"
    by (simp_all add: request_fits_def names_ok_def new_ClientAckMessage_def size_defs)
  obtain pr ps where p: "cl_poll c = pr # ps" using assms by (cases "cl_poll c") (auto simp: ready_def)
  obtain sc ss where s: "cl_send c = sc # ss" using assms by (cases "cl_send c") (auto simp: ready_def)
  have easy: "poll_writable (cl_poll c) = Some (SUCCESS, ps)" using assms p by (simp add: ready_def poll_easy_def)
  have polls: "can_poll k qs" if "\<forall>p\<in>set qs. poll_easy p" "k \<le> length qs" for k qs
    using that
  proof (induction k arbitrary: qs)
    case (Suc k)
    then obtain p qs' where "qs = p # qs'" by (cases qs) auto
    then show ?case using Suc by (simp add: poll_easy_def)
  qed simp
  have gc: "good_conn (c\<lparr>cl_poll := ps\<rparr>)" using assms p polls [of ps "length (cl_recv c)"]
    by (simp add: ready_def good_conn_def)
  have "can_send 13 c" using assms easy gc s by (simp add: can_send_def ready_def)
  then have cs: "can_send (length (wire ?m)) c" using fits(2) by (simp only:)
  obtain c' qs where c': "SendOnePack (zbuf (wire ?m) MAX_CLINT_PACKAGE_LENGTH) (int (length (wire ?m))) c = Some (SUCCESS, c')"
    "good_conn c'" "input c' = input c" "cl_wire c' = cl_wire c @ wire ?m"
    "c' = c\<lparr>cl_poll := qs, cl_send := tl (cl_send c), cl_wire := cl_wire c @ wire ?m\<rparr>"
    using send_request [OF cs fits(1)] by blast
  have sock: "0 < cl_iSockfd c" using assms by (simp add: ready_def)
  have qs: "qs = ps" using c'(1) easy s c'(5) sock
    by (auto simp: SendOnePack_def Let_def bind_eq_Some_conv split: if_split_asm dest!: arg_cong [of _ _ cl_poll])
  have "send_ack lv q (int MAX_CLINT_PACKAGE_LENGTH) c = Some (SUCCESS, SUCCESS, c')"
    unfolding send_ack_def pack_request [OF fits(1)] using c'(1) by (simp del: length_wire)
  moreover have "ready n c'" using assms c'(2) p s qs unfolding ready_def by (simp add: c'(5))
  ultimately show ?thesis using c'(3,4) by (simp add: c'(5))
qed

lemma more_consumer:
  fixes c c' :: consumer
  shows "client.more c' = client.more c \<longleftrightarrow> co_SeqSet c' = co_SeqSet c \<and> co_iAckSeq c' = co_iAckSeq c"
  by (cases c, cases c') simp

lemma ready_upd [simp]: "ready n (c\<lparr>co_SeqSet := q\<rparr>) = ready n c" "ready n (set_err t c) = ready n c"
  "input (c\<lparr>co_SeqSet := q\<rparr>) = input c" "input (set_err t c) = input c"
  by (simp_all add: ready_def good_conn_def input_def unread_def set_err_def)

lemma ConsumeMessage_auto:
  assumes c: "ready (Suc n) c" "input c = wire (SeverStoreMessage m) @ rest" and fit: "client_fits (SeverStoreMessage m)"
    and auto: "ssm_iConfirmLevel m = CONSUMER_AUTO_ACK" "ssm_iMsgSeq m \<noteq> -1"
    and buf: "5 + length (ssm_strMsgBody m) \<le> length buf"
  shows "\<exists>b c'. ConsumeMessage buf len c =
      Some (if ssm_iMsgSeq m \<in> set (co_SeqSet c) then ERR_CLIENT_REV_MSG else SUCCESS, b, int (length (ssm_strMsgBody m)), c') \<and>
    take (length (ssm_strMsgBody m)) b = ssm_strMsgBody m \<and> b ! length (ssm_strMsgBody m) = 0 \<and> ready n c' \<and> input c' = rest \<and>
    cl_wire c' = cl_wire c @ wire (new_ClientAckMessage CONSUMER_AUTO_ACK (ssm_iMsgSeq m)) \<and>
    set (co_SeqSet c') = insert (ssm_iMsgSeq m) (set (co_SeqSet c))"
proof -
  let ?m = "SeverStoreMessage m" and ?q = "ssm_iMsgSeq m" and ?n = "length (ssm_strMsgBody m)"
  have gc: "good_conn c" "\<forall>p\<in>set (cl_poll c). poll_easy p" using c(1) by (simp_all add: ready_def)
  have pre: "prefix (wire ?m) (input c)" using c(2) by simp
  have f: "msg_fields ?m = CONSUMER_AUTO_ACK # be32 ?q @ ssm_strMsgBody m" using auto(1) by simp
  have lf: "length (msg_fields ?m) = 5 + ?n" by simp
  obtain c1 where c1: "RecvOnePack buf len 0 c = Some (SUCCESS, put_at buf 0 (msg_fields ?m), int (length (msg_fields ?m)), msg_cmd ?m, c1)"
    "good_conn c1" "input c1 = drop (length (wire ?m)) (input c)" "same_client c c1"
    using RecvOnePack_packet [OF gc(1) pre, of buf len 0] fit buf lf by (auto simp: client_fits_def)
  note same = same_client_fields [OF c1(4)]
  obtain j where j: "j \<le> length (cl_recv c)" "cl_poll c1 = drop j (cl_poll c)" "cl_recv c1 = drop j (cl_recv c)"
    using RecvOnePack_in_step [OF c1(1) gc(2)] by (auto simp: in_step_def)
  have r1: "ready (Suc n) c1" using c(1) c1(2) j in_step_easy [OF RecvOnePack_in_step [OF c1(1) gc(2)] gc(2)]
    by (auto simp: ready_def same)
  have in1: "input c1 = rest" using c1(3) c(2) by (simp del: length_wire)
  obtain b where b: "split_body (put_at buf 0 (msg_fields ?m)) (int (length (msg_fields ?m))) = Some (CONSUMER_AUTO_ACK, ?q, b, int ?n)"
    "take ?n b = ssm_strMsgBody m" "b ! ?n = 0"
    using split_body_store [of CONSUMER_AUTO_ACK ?q "ssm_strMsgBody m" buf] buf unfolding f by auto
  obtain c2 where c2: "send_ack CONSUMER_AUTO_ACK ?q (int MAX_CLINT_PACKAGE_LENGTH) c1 = Some (SUCCESS, SUCCESS, c2)" "ready n c2"
    "input c2 = input c1" "cl_wire c2 = cl_wire c1 @ wire (new_ClientAckMessage CONSUMER_AUTO_ACK ?q)" "client.more c2 = client.more c1"
    using ready_ack [OF r1, of CONSUMER_AUTO_ACK ?q] by (elim exE conjE)
  have seqs: "co_SeqSet c2 = co_SeqSet c" 
  proof -
    have "client.more c2 = client.more c" by (rule trans [OF c2(5) same(7)])
    then show ?thesis by (rule more_consumer [THEN iffD1, THEN conjunct1])
  qed
  have lv: "0 < CONSUMER_AUTO_ACK" by (simp add: CONSUMER_AUTO_ACK_def)
  let ?c = "snd (check_repeat CONSUMER_AUTO_ACK ?q b c2)"
  have run: "ConsumeMessage buf len c = Some (fst (check_repeat CONSUMER_AUTO_ACK ?q b c2), b, int ?n, ?c)"
  proof -
    have "cl_bBuild c" using gc(1) by (simp add: good_conn_def)
    then show ?thesis unfolding ConsumeMessage_def Let_def using c1(1) b(1) c2(1) auto(2)
      by (simp add: case_prod_unfold del: msg_fields.simps)
  qed
  have "fst (check_repeat CONSUMER_AUTO_ACK ?q b c2) = (if ?q \<in> set (co_SeqSet c) then ERR_CLIENT_REV_MSG else SUCCESS)"
    by (simp add: check_repeat_def seqs)
  moreover have "ready n ?c" "input ?c = rest" "cl_wire ?c = cl_wire c2"
    "set (co_SeqSet ?c) = insert ?q (set (co_SeqSet c))"
    using c2(2,3) in1 lv by (auto simp: check_repeat_def seqs set_err_def ready_def good_conn_def input_def unread_def)
  ultimately show ?thesis using run b(2,3) c2(4) same(1) by (intro exI [of _ b] exI [of _ ?c]) simp
qed

section \<open>A stream of messages\<close>

text \<open>What so many calls of \<open>ConsumeMessage\<close> hand to the application: the bodies of those that return \<open>SUCCESS\<close>.\<close>

fun consume_all :: "nat \<Rightarrow> bytes \<Rightarrow> consumer \<Rightarrow> (bytes list \<times> consumer) option" where
  "consume_all 0 buf c = Some ([], c)"
| "consume_all (Suc n) buf c = do {
     (ret, b, len, c) \<leftarrow> ConsumeMessage buf (int (length buf)) c;
     (bs, c) \<leftarrow> consume_all n buf c;
     Some (if ret = SUCCESS then get_at b 0 (nat len) # bs else bs, c) }"

text \<open>The bodies whose number is seen for the first time.\<close>

fun first_bodies :: "i32 set \<Rightarrow> sever_store_message list \<Rightarrow> bytes list" where
  "first_bodies S [] = []"
| "first_bodies S (m # ms) =
     (if ssm_iMsgSeq m \<in> S then first_bodies S ms else ssm_strMsgBody m # first_bodies (insert (ssm_iMsgSeq m) S) ms)"

definition pushed :: "bytes \<Rightarrow> sever_store_message \<Rightarrow> bool" where
  "pushed buf m \<longleftrightarrow> client_fits (SeverStoreMessage m) \<and> ssm_iConfirmLevel m = CONSUMER_AUTO_ACK \<and> ssm_iMsgSeq m \<noteq> -1 \<and>
     5 + length (ssm_strMsgBody m) \<le> length buf"

lemma consume_stream:
  assumes "ready (length ms) c" "input c = concat (map (\<lambda>m. wire (SeverStoreMessage m)) ms) @ rest" "\<forall>m\<in>set ms. pushed buf m"
  shows "\<exists>c'. consume_all (length ms) buf c = Some (first_bodies (set (co_SeqSet c)) ms, c') \<and> input c' = rest \<and>
    cl_wire c' = cl_wire c @ concat (map (\<lambda>m. wire (new_ClientAckMessage CONSUMER_AUTO_ACK (ssm_iMsgSeq m))) ms) \<and>
    set (co_SeqSet c') = set (co_SeqSet c) \<union> ssm_iMsgSeq ` set ms"
  using assms
proof (induction ms arbitrary: c)
  case Nil
  then show ?case by simp
next
  case (Cons m ms)
  let ?n = "length (ssm_strMsgBody m)" and ?q = "ssm_iMsgSeq m"
  have rdy: "ready (Suc (length ms)) c" using Cons.prems(1) by simp
  have inp: "input c = wire (SeverStoreMessage m) @ concat (map (\<lambda>m. wire (SeverStoreMessage m)) ms) @ rest"
    using Cons.prems(2) by simp
  have m: "client_fits (SeverStoreMessage m)" "ssm_iConfirmLevel m = CONSUMER_AUTO_ACK" "?q \<noteq> -1" "5 + ?n \<le> length buf"
    using Cons.prems(3) by (simp_all add: pushed_def)
  obtain b c1 where c1: "ConsumeMessage buf (int (length buf)) c =
      Some (if ?q \<in> set (co_SeqSet c) then ERR_CLIENT_REV_MSG else SUCCESS, b, int ?n, c1)"
    "take ?n b = ssm_strMsgBody m" "b ! ?n = 0" "ready (length ms) c1" "input c1 = concat (map (\<lambda>m. wire (SeverStoreMessage m)) ms) @ rest"
    "cl_wire c1 = cl_wire c @ wire (new_ClientAckMessage CONSUMER_AUTO_ACK ?q)"
    "set (co_SeqSet c1) = insert ?q (set (co_SeqSet c))"
    using ConsumeMessage_auto [OF rdy inp m, of "int (length buf)"] by (elim exE conjE)
  obtain c2 where c2: "consume_all (length ms) buf c1 = Some (first_bodies (set (co_SeqSet c1)) ms, c2)" "input c2 = rest"
    "cl_wire c2 = cl_wire c1 @ concat (map (\<lambda>m. wire (new_ClientAckMessage CONSUMER_AUTO_ACK (ssm_iMsgSeq m))) ms)"
    "set (co_SeqSet c2) = set (co_SeqSet c1) \<union> ssm_iMsgSeq ` set ms"
    using Cons.IH [OF c1(4,5)] Cons.prems(3) by (auto simp del: wire_def)
  have ne: "ERR_CLIENT_REV_MSG \<noteq> SUCCESS" by (simp add: client_err_defs SUCCESS_def)
  have body: "get_at b 0 ?n = ssm_strMsgBody m" using c1(2) by (simp add: get_at_def)
  have "consume_all (Suc (length ms)) buf c = Some (first_bodies (set (co_SeqSet c)) (m # ms), c2)"
    using c1(1) c2(1) ne body c1(7) by (simp add: insert_absorb)
  then show ?case using c1(6,7) c2(2-4) by (intro exI [of _ c2]) auto
qed

text \<open>C14. Of the messages pushed for automatic acknowledgement the application gets each number once, in the order of the stream and with its whole
  body, however the stream is cut; each copy is acknowledged to the server. So a message that is sent again is not
  handled twice, and a new message that reuses a number, as after a restart of the server, which counts
  from zero again, is acknowledged and never handed over.\<close>

theorem consumer_delivers_once:
  assumes "ready (length ms) c" "input c = concat (map (\<lambda>m. wire (SeverStoreMessage m)) ms) @ rest" "\<forall>m\<in>set ms. pushed buf m"
  shows "\<exists>c'. consume_all (length ms) buf c = Some (first_bodies (set (co_SeqSet c)) ms, c') \<and> input c' = rest \<and>
    cl_wire c' = cl_wire c @ concat (map (\<lambda>m. wire (new_ClientAckMessage CONSUMER_AUTO_ACK (ssm_iMsgSeq m))) ms) \<and>
    set (co_SeqSet c') = set (co_SeqSet c) \<union> ssm_iMsgSeq ` set ms"
  using assms by (rule consume_stream)

section \<open>Witness\<close>

definition w_push :: "i32 \<Rightarrow> bytes \<Rightarrow> sever_store_message" where
  "w_push q b = (new_SeverStoreMessage b 0 False)\<lparr>ssm_iConfirmLevel := CONSUMER_AUTO_ACK, ssm_iMsgSeq := q\<rparr>"

definition w_consumer :: "bytes \<Rightarrow> consumer" where
  "w_consumer w = (w_net w (client.extend new_Client (consumer.fields [4] (-1))))\<lparr>cl_send := replicate 3 [(13, EOTHER)]\<rparr>"

theorem consumer_delivers_once_witness:
  "\<exists>c'. consume_all 3 (replicate 20 0)
       (w_consumer (concat (map (\<lambda>m. wire (SeverStoreMessage m)) [w_push 5 [65], w_push 4 [66], w_push 6 [67]]) @ [])) =
     Some ([[65], [67]], c')"
proof -
  let ?ms = "[w_push 5 [65], w_push 4 [66], w_push 6 [67]]"
  let ?w = "concat (map (\<lambda>m. wire (SeverStoreMessage m)) ?ms) @ []"
  have len: "length ?w = 42" by (simp add: w_push_def new_SeverStoreMessage_def)
  then have l: "5 < length ?w" "length ?w \<le> 128" by simp_all
  have upd: "input (c\<lparr>cl_send := ss\<rparr>) = input c" "good_conn (c\<lparr>cl_send := ss\<rparr>) = good_conn c" for c :: consumer and ss by simp_all
  have c: "ready (length ?ms) (w_consumer ?w)" unfolding ready_def w_consumer_def upd
    using w_net_good(1) [OF l] by (simp add: w_net_def poll_easy_def del: concat.simps)
  have inp: "input (w_consumer ?w) = ?w" unfolding w_consumer_def upd by (rule w_net_good(2) [OF l(1)])
  have ps: "\<forall>m\<in>set ?ms. pushed (replicate 20 0) m"
    by (simp add: pushed_def w_push_def client_fits_def new_SeverStoreMessage_def size_defs)
  have seqs: "set (co_SeqSet (w_consumer ?w)) = {4}"
    by (simp add: w_consumer_def w_net_def client.defs consumer.defs del: concat.simps)
  have bodies: "first_bodies {4} ?ms = [[65], [67]]" by (simp add: w_push_def new_SeverStoreMessage_def)
  from consumer_delivers_once [OF c inp ps] show ?thesis unfolding seqs bodies by (elim exE conjE) (auto simp: numeral_3_eq_3)
qed

end
