(* ===== verification/Publish_Path.thy ===== *)
theory Publish_Path
  imports Client_Deliver Connect_Stream Logic_Session
begin

text \<open>
  The way of a message from the call of a producer into the queues of the logic server: the client library, the connection server and the
  logic server composed. The connection server and the logic server have the same ring between them.
\<close>

section \<open>Publications in the logic server\<close>

fun route :: "logic_server \<Rightarrow> message \<Rightarrow> addr list" where
  "route s (CreatePublishMessage c cmd x k pr d sq lv body) =
     (case map_of (m_mExchanges s) x of None \<Rightarrow> [] | Some e \<Rightarrow> snd (FindBindingQueue e k []))"
| "route s m = []"

fun pub_body :: "message \<Rightarrow> bytes" where
  "pub_body (CreatePublishMessage c cmd x k pr d sq lv body) = body"
| "pub_body m = []"

text \<open>The number under which the server remembers a publication, when it is to be acknowledged.\<close>

fun pub_key :: "message \<Rightarrow> bytes option" where
  "pub_key (CreatePublishMessage c cmd x k pr d sq lv body) = (if 0 < lv then Some (msg_seq_key c sq) else None)"
| "pub_key m = None"

fun pub_ok :: "logic_server \<Rightarrow> message \<Rightarrow> bool" where
  "pub_ok s (CreatePublishMessage c cmd x k pr d sq lv body) \<longleftrightarrow>
     cmd = CMD_CREATE_PUBLISH \<and> good_name x \<and> good_name k \<and> 80 + length body \<le> MAX_CLINT_PACKAGE_LENGTH \<and>
     route s (CreatePublishMessage c cmd x k pr d sq lv body) \<noteq> []"
| "pub_ok s m \<longleftrightarrow> False"

text \<open>What a queue gets of a publication: a copy of the body for each time that the exchange lists it.\<close>

definition copies :: "logic_server \<Rightarrow> message \<Rightarrow> addr \<Rightarrow> bytes multiset" where
  "copies s m a = replicate_mset (count_list (route s m) a) (pub_body m)"

lemma route_cong: "m_mExchanges s' = m_mExchanges s \<Longrightarrow> route s' m = route s m"
  by (cases m) (simp_all cong: option.case_cong)

lemma pub_ok_cong: "m_mExchanges s' = m_mExchanges s \<Longrightarrow> pub_ok s' m = pub_ok s m"
  by (cases m) simp_all

lemma copies_cong: "m_mExchanges s' = m_mExchanges s \<Longrightarrow> copies s' m a = copies s m a"
  by (simp add: copies_def route_cong [of s' s])

lemma ring_of_call: "to_persis s b n = Some (r, s') \<Longrightarrow> m_pQueueFromConnect s' = m_pQueueFromConnect s"
  "to_connect s b n = Some (r, s') \<Longrightarrow> m_pQueueFromConnect s' = m_pQueueFromConnect s"
  by (auto simp: to_persis_def to_connect_def bind_eq_Some_conv)

lemma publish_loop_from: "publish_loop body pr d as s = Some s' \<Longrightarrow> m_pQueueFromConnect s' = m_pQueueFromConnect s"
proof (induction body pr d as s rule: publish_loop.induct)
  case (2 body pr d a rest s)
  obtain q where q: "m_queues s a = Some q" using 2(2) by (auto simp: bind_eq_Some_conv)
  obtain m q' s1 where step: "(if d \<and> mq_bDurable q then do {
          let (iDurableIndex, q) = GetNextDaurableIndex q;
          let m = (new_SeverStoreMessage body pr d)\<lparr>ssm_iDurableIndex := iDurableIndex, ssm_strQueueName := mq_strQueueName q\<rparr>;
          (_, pBuff, iPackLen) \<leftarrow> SerializeDurableToString m pack_buffer (int MAX_CLINT_PACKAGE_LENGTH);
          (_, s) \<leftarrow> to_persis s pBuff iPackLen;
          Some (m, q, s) }
        else Some (new_SeverStoreMessage body pr d, q, s)) = Some (m, q', s1)"
    "publish_loop body pr d rest (set_queue a (AddMessage q' m) s1) = Some s'"
    using 2(2) q unfolding publish_loop.simps Let_def by (auto simp: bind_eq_Some_conv split del: if_split)
  have "m_pQueueFromConnect s1 = m_pQueueFromConnect s"
    using step(1) ring_of_call(1) by (auto simp: bind_eq_Some_conv Let_def split: prod.splits if_split_asm)
  moreover have "m_pQueueFromConnect s' = m_pQueueFromConnect (set_queue a (AddMessage q' m) s1)"
    using 2(1) [OF q refl step(1) refl refl step(2)] by simp
  ultimately show ?case by (simp add: set_queue_def)
qed simp

lemma publish_ack_from: "publish_ack s lv c sq k = Some s' \<Longrightarrow> m_pQueueFromConnect s' = m_pQueueFromConnect s"
  using ring_of_call(2) by (fastforce simp: publish_ack_def bind_eq_Some_conv simp del: GetMessagePack.simps split: if_split_asm)

lemma publish_from:
  "publish_loop body pr d as s = Some s1 \<Longrightarrow> publish_ack s1 lv c sq k = Some s' \<Longrightarrow> m_pQueueFromConnect s' = m_pQueueFromConnect s"
  using publish_loop_from publish_ack_from by metis

lemma OnPublishMessage_from:
  assumes "OnPublishMessage s b p n c = Some (r, t, s')"
  shows "m_pQueueFromConnect s' = m_pQueueFromConnect s"
  using assms unfolding OnPublishMessage_def Let_def
  by (auto simp: bind_eq_Some_conv case_prod_unfold simp del: GetMessagePack.simps split: if_split_asm option.split_asm
      dest: publish_from ring_of_call)

lemma one_publication:
  assumes inv: "logic_inv s" and ok: "pub_ok s m" and new: "set_option (pub_key m) \<inter> set (m_producerMsgSeqs s) = {}"
    and buf: "length buf = MAX_CLINT_PACKAGE_LENGTH"
  shows "\<exists>s'. ProcessRecvData s (put_at buf 0 (wire m)) (int (length (wire m))) (-1) = Some (SUCCESS, msg_index m, [], s') \<and>
    logic_inv s' \<and> m_pQueueFromConnect s' = m_pQueueFromConnect s \<and> delivered (pub_body m) (route s m) s s' \<and>
    set (m_producerMsgSeqs s') \<subseteq> set (m_producerMsgSeqs s) \<union> set_option (pub_key m)"
proof -
  obtain c x k pr d sq lv body where m: "m = CreatePublishMessage c CMD_CREATE_PUBLISH x k pr d sq lv body" and names: "good_name x" "good_name k"
    and len: "80 + length body \<le> MAX_CLINT_PACKAGE_LENGTH" and r: "route s m \<noteq> []"
    using ok by (cases m) auto
  obtain e where e: "map_of (m_mExchanges s) x = Some e" "route s m = snd (FindBindingQueue e k [])"
    using r by (auto simp: m split: option.splits)
  have small: "length body < 65456" using len by (simp add: size_defs)
  have lw: "length (wire m) < 65536" using names small by (simp add: m)
  have pad: "put_at buf 0 (wire m) = wire m @ drop (length (wire m)) buf" by (simp add: put_at_def)
  have key: "\<not> (0 < lv \<and> msg_seq_key c sq \<in> set (m_producerMsgSeqs s))" using new by (auto simp: m)
  obtain s' where s': "OnPublishMessage s (wire m @ drop (length (wire m)) buf) 8 (int (length (msg_fields m))) c = Some (SUCCESS, [], s')"
    "delivered body (route s m) s s'" "logic_inv s'" "set (m_producerMsgSeqs s') = set (m_producerMsgSeqs s) \<union>
       (if lv = PRODUCER_SINGLE_ACK \<or> lv = PRODUCER_MUTIL_ACK then {msg_seq_key c sq} else {})"
    using OnPublishMessage_outcome [OF inv names small, of "wire m @ drop (length (wire m)) buf" c pr d sq lv "drop (length (wire m)) buf"
      "int (length (msg_fields m))"] key e r unfolding m by (auto simp: Let_def)
  have "ProcessRecvData s (put_at buf 0 (wire m)) (int (length (wire m))) (-1) = Some (SUCCESS, msg_index m, [], s')"
    using ProcessRecvData_wire [OF lw, of s "drop (length (wire m)) buf" "-1"] s'(1) unfolding pad
    by (simp add: m handle_def cmd_defs del: length_wire)
  moreover have "set (m_producerMsgSeqs s') \<subseteq> set (m_producerMsgSeqs s) \<union> set_option (pub_key m)"
    using s'(4) by (auto simp: m ack_defs split: if_splits)
  ultimately show ?thesis using s'(2,3) OnPublishMessage_from [OF s'(1)] by (auto simp: m)
qed

text \<open>All packets of the ring.\<close>

lemma recv_publications:
  assumes "logic_inv s" "holds (m_pQueueFromConnect s) (map wire ms)" "\<forall>m\<in>set ms. pub_ok s m"
    and "length ms < rounds" "length ms < tries" "length buf = MAX_CLINT_PACKAGE_LENGTH"
    and "distinct (List.map_filter pub_key ms)" "set (List.map_filter pub_key ms) \<inter> set (m_producerMsgSeqs s) = {}"
  shows "\<exists>b s'. recv_loop tries rounds buf s = Some (b, s') \<and> logic_inv s' \<and> holds (m_pQueueFromConnect s') [] \<and>
    (\<forall>a. gains (\<Sum>m\<leftarrow>ms. copies s m a) (m_queues s a) (m_queues s' a)) \<and>
    m_mExchanges s' = m_mExchanges s \<and> m_mUnSubcribeQueues s' = m_mUnSubcribeQueues s \<and> m_mSubcribeQueues s' = m_mSubcribeQueues s \<and>
    m_NeedAckMessageList s' = m_NeedAckMessageList s"
  using assms
proof (induction ms arbitrary: s tries rounds buf)
  case Nil
  obtain t r where tr: "tries = Suc t" "rounds = Suc r" using Nil.prems(4,5) by (cases tries; cases rounds) auto
  have "recv_loop tries rounds buf s = Some (buf, s\<lparr>m_pQueueFromConnect := m_pQueueFromConnect s\<rparr>)"
    using DequeueInto_empty [of "m_pQueueFromConnect s" buf "int MAX_CLINT_PACKAGE_LENGTH"] Nil.prems(2) by (simp add: tr)
  then show ?case using Nil.prems(1,2) by simp
next
  case (Cons m ms)
  obtain t r where tr: "tries = Suc t" "rounds = Suc r" using Cons.prems(4,5) by (cases tries; cases rounds) auto
  have ok: "pub_ok s m" using Cons.prems(3) by simp
  have lw: "length (wire m) \<le> MAX_CLINT_PACKAGE_LENGTH" "8 \<le> length (wire m)" using ok by (cases m; simp)+
  obtain q where q: "DequeueInto (m_pQueueFromConnect s) buf (int MAX_CLINT_PACKAGE_LENGTH) = Some (SUCCESS, put_at buf 0 (wire m), int (length (wire m)), q)"
    "holds q (map wire ms)"
    using DequeueInto_ok [of "m_pQueueFromConnect s" "wire m" "map wire ms" "int MAX_CLINT_PACKAGE_LENGTH" buf] Cons.prems(2,6) lw(1)
    by (auto simp del: length_wire)
  let ?s = "s\<lparr>m_pQueueFromConnect := q, m_iRecvCount := m_iRecvCount s + 1\<rparr>"
  have same: "pub_ok ?s m" "route ?s m = route s m" using ok pub_ok_cong [of ?s s m] route_cong [of ?s s m] by simp_all
  have new: "set_option (pub_key m) \<inter> set (m_producerMsgSeqs ?s) = {}"
    using Cons.prems(8) by (cases "pub_key m") (simp_all add: map_filter_simps)
  obtain s1 where s1: "ProcessRecvData ?s (put_at buf 0 (wire m)) (int (length (wire m))) (-1) = Some (SUCCESS, msg_index m, [], s1)"
    "logic_inv s1" "m_pQueueFromConnect s1 = q" "delivered (pub_body m) (route s m) ?s s1"
    "set (m_producerMsgSeqs s1) \<subseteq> set (m_producerMsgSeqs s) \<union> set_option (pub_key m)"
    using one_publication [of ?s m buf] Cons.prems(1,6) same new by auto
  have keep: "m_mExchanges s1 = m_mExchanges s" "m_mUnSubcribeQueues s1 = m_mUnSubcribeQueues s" "m_mSubcribeQueues s1 = m_mSubcribeQueues s"
    "m_NeedAckMessageList s1 = m_NeedAckMessageList s" "\<And>a. gains (copies s m a) (m_queues s a) (m_queues s1 a)"
    using s1(4) by (simp_all add: delivered_def copies_def)
  have loop: "recv_loop tries rounds buf s = recv_loop t r (put_at buf 0 (wire m)) s1"
    using q(1) s1(1) lw(2) by (simp add: tr send_reply_def SUCCESS_def ERR_SHM_QUEUE_EMPTY_def del: length_wire)
  have "\<forall>m\<in>set ms. pub_ok s1 m" using Cons.prems(3) pub_ok_cong [OF keep(1)] by simp
  moreover have "length (put_at buf 0 (wire m)) = MAX_CLINT_PACKAGE_LENGTH" using Cons.prems(6) lw(1) by (simp del: length_wire)
  moreover have "distinct (List.map_filter pub_key ms)" "set (List.map_filter pub_key ms) \<inter> set (m_producerMsgSeqs s1) = {}"
    using Cons.prems(7,8) s1(5) by (cases "pub_key m"; auto simp: map_filter_simps)+
  moreover have "holds (m_pQueueFromConnect s1) (map wire ms)" using q(2) s1(3) by simp
  ultimately obtain b s' where s': "recv_loop t r (put_at buf 0 (wire m)) s1 = Some (b, s')" "logic_inv s'" "holds (m_pQueueFromConnect s') []"
    "\<forall>a. gains (\<Sum>m\<leftarrow>ms. copies s1 m a) (m_queues s1 a) (m_queues s' a)"
    "m_mExchanges s' = m_mExchanges s1" "m_mUnSubcribeQueues s' = m_mUnSubcribeQueues s1" "m_mSubcribeQueues s' = m_mSubcribeQueues s1"
    "m_NeedAckMessageList s' = m_NeedAckMessageList s1"
    using Cons.IH [OF s1(2)] Cons.prems(4,5) tr by (metis length_Cons Suc_less_eq)
  have "gains (\<Sum>m\<leftarrow>m # ms. copies s m a) (m_queues s a) (m_queues s' a)" for a
    using gains_trans [OF keep(5) s'(4) [rule_format, of a]] copies_cong [OF keep(1)] by simp
  then show ?case using loop s' keep by auto
qed

section \<open>Publications of many clients\<close>

fun reindex :: "i32 \<Rightarrow> message \<Rightarrow> message" where
  "reindex i (CreatePublishMessage c cmd x k pr d sq lv body) = CreatePublishMessage i cmd x k pr d sq lv body"
| "reindex i m = m"

lemma reindex_simps:
  assumes "pub_ok s m"
  shows "pub_ok s (reindex i m)" "route s (reindex i m) = route s m" "pub_body (reindex i m) = pub_body m" "msg_index (reindex i m) = i"
    "wire (reindex i m) = stamp i (wire m)" "copies s (reindex i m) a = copies s m a"
  using assms by (cases m; simp add: copies_def wire_def stamp_def)+

lemma wire_inject:
  assumes "pub_ok s m" "pub_ok s m'" "wire m = wire m'"
  shows "m = m'"
proof -
  obtain c x k pr d sq lv body where m: "m = CreatePublishMessage c CMD_CREATE_PUBLISH x k pr d sq lv body" "good_name x" "good_name k" "80 + length body \<le> MAX_CLINT_PACKAGE_LENGTH"
    using assms(1) by (cases m) auto
  obtain c' x' k' pr' d' sq' lv' body' where m': "m' = CreatePublishMessage c' CMD_CREATE_PUBLISH x' k' pr' d' sq' lv' body'" "good_name x'" "good_name k'" "80 + length body' \<le> MAX_CLINT_PACKAGE_LENGTH"
    using assms(2) by (cases m') auto
  have len: "length body = length body'" using arg_cong [OF assms(3), of length] m m' by (simp add: m m')
  note r = publish_read [OF m(2,3), of "wire m" c pr d sq lv body "[]"] and r' = publish_read [OF m'(2,3), of "wire m" c' pr' d' sq' lv' body' "[]"]
  have w: "wire m = wire (CreatePublishMessage c CMD_CREATE_PUBLISH x k pr d sq lv body) @ []"
    "wire m = wire (CreatePublishMessage c' CMD_CREATE_PUBLISH x' k' pr' d' sq' lv' body') @ []" using assms(3) m(1) m'(1) by simp_all
  have small: "length (wire m) < 65536" "length (wire m') < 65536" using m(4) m'(4) m(2,3) m'(2,3) by (simp_all add: m(1) m'(1) size_defs)
  have "c = c'" using head_read(2) [OF small(1), of "[]"] head_read(2) [OF small(2), of "[]"] assms(3) by (simp add: m(1) m'(1))
  moreover have "x = x'" "k = k'" "pr = pr'" "d = d'" "sq = sq'" "lv = lv'"
    using r(1-6) [OF w(1)] r'(1-6) [OF w(2)] by (simp_all only: option.inject prod.inject)
  moreover have "body = body'" using r(7) [OF w(1)] r'(7) [OF w(2)] unfolding len by (simp only: option.inject)
  ultimately show ?thesis unfolding m(1) m'(1) by (simp only:)
qed

lemma pack_index_wire: "pub_ok s m \<Longrightarrow> pack_index (wire m) = msg_index m"
  by (cases m) (simp_all add: pack_index_def wire_def get_at_def)

text \<open>Packets that are mixed are those of messages that are mixed.\<close>

lemma interleaved:
  assumes all: "\<forall>d\<in>set ds. \<exists>p\<in>clients. pack_index d = idx p" and ok: "\<forall>p\<in>clients. \<forall>m\<in>set (Ms p). pub_ok s m"
    and each: "\<forall>p\<in>clients. packets_of p ds = map (\<lambda>m. wire (reindex (idx p) m)) (Ms p)"
  shows "\<exists>ms. ds = map wire ms \<and> (\<forall>m\<in>set ms. pub_ok s m \<and> (\<exists>p\<in>clients. msg_index m = idx p)) \<and>
    (\<forall>p\<in>clients. filter (\<lambda>m. msg_index m = idx p) ms = map (reindex (idx p)) (Ms p))"
proof -
  define M where "M = (\<Union>p\<in>clients. reindex (idx p) ` set (Ms p))"
  have okM: "pub_ok s m" if "m \<in> M" for m using that ok reindex_simps(1) by (auto simp: M_def)
  have inj: "inj_on wire M" using wire_inject okM by (intro inj_onI) blast
  let ?f = "inv_into M wire"
  have ds: "d \<in> wire ` M" if "d \<in> set ds" for d
  proof -
    obtain p where p: "p \<in> clients" "pack_index d = idx p" using all \<open>d \<in> set ds\<close> by blast
    then have "d \<in> set (packets_of p ds)" using \<open>d \<in> set ds\<close> by (simp add: packets_of_def)
    then show ?thesis using each p(1) by (auto simp: M_def)
  qed
  have f: "wire (?f d) = d" "?f d \<in> M" if "d \<in> set ds" for d using f_inv_into_f [OF ds [OF that]] inv_into_into [OF ds [OF that]] by simp_all
  have index: "msg_index (?f d) = pack_index d" if "d \<in> set ds" for d
    using pack_index_wire [OF okM [OF f(2) [OF that]]] f(1) [OF that] by simp
  have "map wire (map ?f ds) = ds" using f(1) by (simp add: o_def map_idI)
  moreover have "\<forall>m\<in>set (map ?f ds). pub_ok s m \<and> (\<exists>p\<in>clients. msg_index m = idx p)" using okM f(2) index all by auto
  moreover have "filter (\<lambda>m. msg_index m = idx p) (map ?f ds) = map (reindex (idx p)) (Ms p)" if p: "p \<in> clients" for p
  proof -
    have "filter (\<lambda>m. msg_index m = idx p) (map ?f ds) = map ?f (filter (\<lambda>d. msg_index (?f d) = idx p) ds)" by (simp add: filter_map o_def)
    also have "filter (\<lambda>d. msg_index (?f d) = idx p) ds = packets_of p ds"
      unfolding packets_of_def by (rule filter_cong) (simp_all add: index)
    also have "map ?f (packets_of p ds) = map (\<lambda>m. ?f (wire (reindex (idx p) m))) (Ms p)" using each p by simp
    also have "\<dots> = map (reindex (idx p)) (Ms p)" using p inv_into_f_f [OF inj] by (auto simp: M_def)
    finally show ?thesis .
  qed
  ultimately show ?thesis by (intro exI [of _ "map ?f ds"]) simp
qed

lemmas sum_by_client = sum_by_key [where k = idx and h = msg_index]

lemma in_keys: "m \<in> set ms \<Longrightarrow> pub_key m = Some k \<Longrightarrow> k \<in> set (List.map_filter pub_key ms)"
  by (auto simp: List.map_filter_def intro!: image_eqI [of _ _ m])

lemma keys_distinct:
  assumes "\<forall>m\<in>set ms. pub_ok s m \<and> (\<exists>p\<in>clients. msg_index m = idx p)"
    and "\<forall>p\<in>clients. distinct (List.map_filter pub_key (filter (\<lambda>m. msg_index m = idx p) ms))"
  shows "distinct (List.map_filter pub_key ms)"
  using assms
proof (induction ms)
  case (Cons m ms)
  have "distinct (List.map_filter pub_key (filter (\<lambda>m. msg_index m = idx p) ms))" if "p \<in> clients" for p
    using Cons.prems(2) [rule_format, OF that] by (cases "msg_index m = idx p"; cases "pub_key m") (simp_all add: map_filter_simps)
  then have IH: "distinct (List.map_filter pub_key ms)" using Cons.IH Cons.prems(1) by simp
  show ?case
  proof (cases "pub_key m")
    case None
    then show ?thesis using IH by (simp add: map_filter_simps)
  next
    case (Some k)
    have "k \<notin> set (List.map_filter pub_key ms)"
    proof
      assume "k \<in> set (List.map_filter pub_key ms)"
      then obtain m' where m': "m' \<in> set ms" "pub_key m' = Some k" by (auto simp: List.map_filter_def)
      have same: "msg_index m' = msg_index m" using Some m'(2) by (cases m; cases m') (auto simp: msg_seq_key_inject split: if_split_asm)
      obtain p where p: "p \<in> clients" "msg_index m = idx p" using Cons.prems(1) by auto
      have "k \<in> set (List.map_filter pub_key (filter (\<lambda>m. msg_index m = idx p) ms))"
        using m' same p(2) by (intro in_keys [of m']) simp_all
      then show False using Cons.prems(2) [rule_format, OF p(1)] p(2) Some by (simp add: map_filter_simps)
    qed
    then show ?thesis using IH Some by (simp add: map_filter_simps)
  qed
qed (simp add: map_filter_simps)

section \<open>Producers\<close>

text \<open>The arguments of \<open>PuslishMessage\<close>: exchange, key, body, priority, durability.\<close>

type_synonym call = "bytes \<times> bytes \<times> bytes \<times> i16 \<times> bool"

text \<open>The messages of a sequence of calls: with acknowledgement they are numbered from \<open>q\<close> on.\<close>

fun numbered :: "byte \<Rightarrow> i32 \<Rightarrow> call list \<Rightarrow> message list" where
  "numbered lv q [] = []"
| "numbered lv q ((x, k, b, pr, d) # cs) =
     (let m = new_CreatePublishMessage x k b pr d lv in if 0 < lv then SetMsgSeq q m else m) # numbered lv (q + 1) cs"

fun call_ok :: "logic_server \<Rightarrow> call \<Rightarrow> bool" where
  "call_ok s (x, k, b, pr, d) \<longleftrightarrow> good_name x \<and> good_name k \<and> 80 + length b \<le> MAX_CLINT_PACKAGE_LENGTH \<and>
     (\<exists>e. map_of (m_mExchanges s) x = Some e \<and> snd (FindBindingQueue e k []) \<noteq> [])"

text \<open>Calls one after the other, over a connection that takes each packet, in whatever pieces.\<close>

inductive publishes :: "call list \<Rightarrow> producer \<Rightarrow> producer \<Rightarrow> bool" where
  none: "publishes [] p p"
| call: "can_send (80 + length b) p \<Longrightarrow> PuslishMessage x k b pr d p = Some (r, p1) \<Longrightarrow> publishes cs p1 p2 \<Longrightarrow>
    publishes ((x, k, b, pr, d) # cs) p p2"

lemma PuslishMessage_sends:
  assumes send: "can_send (80 + length b) p" and names: "good_name x" "good_name k" and len: "80 + length b \<le> MAX_CLINT_PACKAGE_LENGTH"
    and run: "PuslishMessage x k b pr d p = Some (r, p1)"
  defines "m \<equiv> (if 0 < cl_iConfirmLevel p then SetMsgSeq (pr_iMsgSeq p) else id) (new_CreatePublishMessage x k b pr d (cl_iConfirmLevel p))"
  shows "r = SUCCESS" "cl_wire p1 = cl_wire p @ wire m" "cl_iConfirmLevel p1 = cl_iConfirmLevel p"
    "0 < cl_iConfirmLevel p \<Longrightarrow> pr_iMsgSeq p1 = pr_iMsgSeq p + 1"
proof -
  let ?p = "if 0 < cl_iConfirmLevel p then p\<lparr>pr_iMsgSeq := pr_iMsgSeq p + 1\<rparr> else p"
  have m: "m = CreatePublishMessage (-1) CMD_CREATE_PUBLISH x k pr d (if 0 < cl_iConfirmLevel p then pr_iMsgSeq p else -1) (cl_iConfirmLevel p) b"
    by (simp add: m_def new_CreatePublishMessage_def)
  have l: "length (wire m) = 80 + length b" using names by (simp add: m)
  have "names_ok m" "\<not> keeps_len m" using names by (simp_all add: m names_ok_def good_name_def)
  then have fits: "request_fits m" using l len by (simp add: request_fits_def del: length_wire)
  have send': "can_send (length (wire m)) ?p" using send unfolding l
    by (auto simp: can_send_def good_conn_def input_def unread_def split: option.splits)
  have build: "cl_bBuild p" using send by (auto simp: can_send_def good_conn_def split: option.splits)
  obtain c' ps where c': "SendOnePack (zbuf (wire m) MAX_CLINT_PACKAGE_LENGTH) (int (length (wire m))) ?p = Some (SUCCESS, c')"
    "c' = ?p\<lparr>cl_poll := ps, cl_send := tl (cl_send ?p), cl_wire := cl_wire ?p @ wire m\<rparr>"
    using send_request [OF send' fits] by blast
  have f: "cl_wire c' = cl_wire p @ wire m" "cl_iConfirmLevel c' = cl_iConfirmLevel p" "0 < cl_iConfirmLevel p \<Longrightarrow> pr_iMsgSeq c' = pr_iMsgSeq p + 1"
    by (simp_all add: c'(2))
  have step: "PuslishMessage x k b pr d p = Some (SUCCESS, if 0 < cl_iConfirmLevel p then c'\<lparr>pr_NeedAckMsgList := pr_NeedAckMsgList c' @ [(m, cl_now c')]\<rparr> else c')"
  proof (cases "0 < cl_iConfirmLevel p")
    case True
    then show ?thesis using build c'(1) pack_request [OF fits] f(2) unfolding PuslishMessage_def Let_def
      by (simp add: m_def del: length_wire GetMessagePack.simps)
  next
    case False
    then show ?thesis using build c'(1) pack_request [OF fits] f(2) unfolding PuslishMessage_def Let_def
      by (simp add: m_def del: length_wire GetMessagePack.simps)
  qed
  then show "r = SUCCESS" "cl_wire p1 = cl_wire p @ wire m" "cl_iConfirmLevel p1 = cl_iConfirmLevel p"
    "0 < cl_iConfirmLevel p \<Longrightarrow> pr_iMsgSeq p1 = pr_iMsgSeq p + 1"
    using run f by (auto split: if_split_asm)
qed

lemma publishes_wire:
  "publishes cs p p' \<Longrightarrow> \<forall>c\<in>set cs. call_ok s c \<Longrightarrow>
   cl_wire p' = cl_wire p @ concat (map wire (numbered (cl_iConfirmLevel p) (pr_iMsgSeq p) cs))"
proof (induction rule: publishes.induct)
  case (call b p x k pr d r p1 cs p2)
  have ok: "good_name x" "good_name k" "80 + length b \<le> MAX_CLINT_PACKAGE_LENGTH" using call.prems by simp_all
  note one = PuslishMessage_sends [OF call.hyps(1) ok call.hyps(2)]
  have unnumbered: "numbered lv q cs = numbered lv q' cs" if "\<not> 0 < lv" for lv q q' and cs
    using that by (induction cs arbitrary: q q') auto
  have "cl_wire p2 = cl_wire p1 @ concat (map wire (numbered (cl_iConfirmLevel p1) (pr_iMsgSeq p1) cs))" using call.IH call.prems by simp
  then show ?case using one unnumbered [of "cl_iConfirmLevel p" "pr_iMsgSeq p + 1" cs "pr_iMsgSeq p1"] by (cases "0 < cl_iConfirmLevel p") (simp_all add: Let_def)
qed simp

lemma numbered_ok:
  "\<forall>c\<in>set cs. call_ok s c \<Longrightarrow> \<forall>m\<in>set (numbered lv q cs). pub_ok s m"
proof (induction lv q cs rule: numbered.induct)
  case (2 lv q x k b pr d cs)
  then show ?case by (auto simp: Let_def new_CreatePublishMessage_def)
qed simp

fun call_copies :: "logic_server \<Rightarrow> addr \<Rightarrow> call \<Rightarrow> bytes multiset" where
  "call_copies s a (x, k, b, pr, d) =
     (case map_of (m_mExchanges s) x of
        None \<Rightarrow> {#}
      | Some e \<Rightarrow> replicate_mset (count_list (snd (FindBindingQueue e k [])) a) b)"

lemma numbered_copies: "(\<Sum>m\<leftarrow>numbered lv q cs. copies s m a) = (\<Sum>c\<leftarrow>cs. call_copies s a c)"
proof (induction lv q cs rule: numbered.induct)
  case (2 lv q x k b pr d cs)
  then show ?case by (simp add: Let_def new_CreatePublishMessage_def copies_def split: option.splits)
qed simp

lemma length_numbered: "length (numbered lv q cs) = length cs"
  by (induction lv q cs rule: numbered.induct) simp_all

lemma numbered_used:
  assumes "\<forall>c\<in>set cs. call_ok s c"
  shows "(\<Sum>m\<leftarrow>numbered lv q cs. 14 + length (wire m)) = (\<Sum>(x, k, b, pr, d)\<leftarrow>cs. 94 + length b)"
  using assms
proof (induction lv q cs rule: numbered.induct)
  case (2 lv q x k b pr d cs)
  then show ?case by (simp add: Let_def new_CreatePublishMessage_def)
qed simp

text \<open>The numbers of a producer are different as long as the counter does not wrap around.\<close>

definition first_keys :: "i32 \<Rightarrow> i32 \<Rightarrow> nat \<Rightarrow> bytes set" where
  "first_keys i q n = (\<lambda>j. msg_seq_key i (q + word_of_nat j)) ` {..<n}"

lemma numbered_keys:
  assumes "length cs < 2 ^ 32"
  shows "set (List.map_filter pub_key (map (reindex i) (numbered lv q cs))) \<subseteq> first_keys i q (length cs)"
    "distinct (List.map_filter pub_key (map (reindex i) (numbered lv q cs)))"
proof -
  have "set (List.map_filter pub_key (map (reindex i) (numbered lv q cs))) \<subseteq> first_keys i q (length cs) \<and>
    distinct (List.map_filter pub_key (map (reindex i) (numbered lv q cs)))"
    using assms
  proof (induction lv q cs rule: numbered.induct)
    case (2 lv q x k b pr d cs)
    let ?K = "set (List.map_filter pub_key (map (reindex i) (numbered lv (q + 1) cs)))"
    have IH: "?K \<subseteq> first_keys i (q + 1) (length cs)" "distinct (List.map_filter pub_key (map (reindex i) (numbered lv (q + 1) cs)))"
      using 2 by simp_all
    have shift: "first_keys i (q + 1) n \<subseteq> first_keys i q (Suc n)" for n
    proof
      fix y assume "y \<in> first_keys i (q + 1) n"
      then obtain j where "j < n" "y = msg_seq_key i (q + 1 + word_of_nat j)" by (auto simp: first_keys_def)
      then show "y \<in> first_keys i q (Suc n)" unfolding first_keys_def by (intro image_eqI [of _ _ "Suc j"]) (simp_all add: algebra_simps)
    qed
    have hd: "msg_seq_key i q \<in> first_keys i q (Suc n)" for n
      unfolding first_keys_def by (intro image_eqI [of _ _ 0]) simp_all
    have new: "msg_seq_key i q \<notin> first_keys i (q + 1) (length cs)"
    proof
      assume "msg_seq_key i q \<in> first_keys i (q + 1) (length cs)"
      then obtain j where j: "j < length cs" "q = q + 1 + word_of_nat j" by (auto simp: first_keys_def msg_seq_key_inject)
      have "(word_of_nat (Suc j) :: i32) = 0" using j(2) by (simp add: algebra_simps)
      then have "unat (word_of_nat (Suc j) :: i32) = 0" by simp
      moreover have "Suc j < 2 ^ 32" using j(1) 2(2) by simp
      ultimately show False by (simp add: unat_of_nat del: of_nat_Suc)
    qed
    show ?case
    proof (cases "0 < lv")
      case True
      then have keys: "List.map_filter pub_key (map (reindex i) (numbered lv q ((x, k, b, pr, d) # cs))) =
          msg_seq_key i q # List.map_filter pub_key (map (reindex i) (numbered lv (q + 1) cs))"
        by (simp add: Let_def new_CreatePublishMessage_def map_filter_simps)
      show ?thesis unfolding keys using IH shift hd new by auto
    next
      case False
      then have keys: "List.map_filter pub_key (map (reindex i) (numbered lv q ((x, k, b, pr, d) # cs))) =
          List.map_filter pub_key (map (reindex i) (numbered lv (q + 1) cs))"
        by (simp add: Let_def new_CreatePublishMessage_def map_filter_simps)
      show ?thesis unfolding keys using IH shift by auto
    qed
  qed (simp add: map_filter_simps)
  then show "set (List.map_filter pub_key (map (reindex i) (numbered lv q cs))) \<subseteq> first_keys i q (length cs)"
    "distinct (List.map_filter pub_key (map (reindex i) (numbered lv q cs)))" by simp_all
qed

section \<open>From the producers to the queues\<close>

lemma spec_events_clients:
  assumes "set (map fst evs) \<subseteq> clients"
  shows "\<forall>d\<in>set (snd (spec_events evs pend)). \<exists>p\<in>clients. pack_index d = idx p"
  using assms
proof (induction evs arbitrary: pend)
  case (Cons e evs)
  obtain p d where e: "e = (p, d)" by (cases e)
  show ?case unfolding e spec_events_Cons using Cons split_stream_lengths [of "pend p @ d"] by (auto simp: e pack_index_stamp)
qed simp

lemma idx_inj: "clients \<subseteq> {..<CLIENT_EPOLL_COUNT} \<Longrightarrow> inj_on idx clients"
proof (rule inj_onI)
  fix p q assume "clients \<subseteq> {..<CLIENT_EPOLL_COUNT}" "p \<in> clients" "q \<in> clients" "idx p = idx q"
  moreover from this have "p < 1000" "q < 1000" by (auto simp: size_defs)
  ultimately show "p = q" using idx_inject [of p q] by simp
qed

lemma total_length:
  assumes "finite clients" "inj_on idx clients" "\<forall>m\<in>set ms. \<exists>p\<in>clients. msg_index m = idx p"
  shows "length ms = (\<Sum>p\<in>clients. length (filter (\<lambda>m. msg_index m = idx p) ms))"
  using sum_by_client [OF assms, of "\<lambda>_. 1 :: nat"] by (simp add: sum_list_triv)

text \<open>
  What the connection server puts into the ring, when every client sends the packets of its calls: those packets with the client's index, mixed in
  some order.
\<close>

lemma ring_of_calls:
  assumes clients: "finite clients" "clients \<subseteq> {..<CLIENT_EPOLL_COUNT}" "set (map fst evs) \<subseteq> clients"
    and ok: "\<forall>p\<in>clients. \<forall>c\<in>set (calls p). call_ok s c"
    and streams: "\<forall>p\<in>clients. stream_of p evs = concat (map wire (numbered (lv p) (q p) (calls p)))"
  shows "\<exists>ms. snd (spec_events evs (\<lambda>_. [])) = map wire ms \<and> (\<forall>m\<in>set ms. pub_ok s m \<and> (\<exists>p\<in>clients. msg_index m = idx p)) \<and>
    (\<forall>p\<in>clients. filter (\<lambda>m. msg_index m = idx p) ms = map (reindex (idx p)) (numbered (lv p) (q p) (calls p)))"
proof (rule interleaved)
  show "\<forall>d\<in>set (snd (spec_events evs (\<lambda>_. []))). \<exists>p\<in>clients. pack_index d = idx p" by (rule spec_events_clients [OF clients(3)])
  show "\<forall>p\<in>clients. \<forall>m\<in>set (numbered (lv p) (q p) (calls p)). pub_ok s m" using numbered_ok ok by blast
  have small: "\<forall>e\<in>set evs. fst e < 2 ^ 31" using clients(2,3) by (force simp: size_defs)
  show "\<forall>p\<in>clients. packets_of p (snd (spec_events evs (\<lambda>_. []))) = map (\<lambda>m. wire (reindex (idx p) m)) (numbered (lv p) (q p) (calls p))"
  proof
    fix p assume p: "p \<in> clients"
    let ?ms = "numbered (lv p) (q p) (calls p)"
    have oks: "\<forall>m\<in>set ?ms. pub_ok s m" using numbered_ok ok p by blast
    then have len: "\<forall>m\<in>set ?ms. length (wire m) < 65536" by (auto simp: size_defs elim!: pub_ok.elims(2))
    have "p < 2 ^ 31" using clients(2) p by (auto simp: size_defs)
    then have "packets_of p (snd (spec_events evs (\<lambda>_. []))) = map (stamp (idx p)) (fst (split_stream ([] @ stream_of p evs)))"
      using spec_events_stream [OF small, of p "\<lambda>_. []"] by (simp add: next_len_def)
    also have "split_stream ([] @ stream_of p evs) = (map wire ?ms, [])"
      using split_stream_wires [OF len, of "[]"] streams p by (simp add: next_len_def)
    finally show "packets_of p (snd (spec_events evs (\<lambda>_. []))) = map (\<lambda>m. wire (reindex (idx p) m)) ?ms"
      using oks by (auto simp: reindex_simps(5) [of s])
  qed
qed

text \<open>The messages in the ring, by what they come from: their room, their numbers, and what the queues get of them.\<close>

lemma calls_used:
  assumes clients: "finite clients" "inj_on idx clients" "\<forall>m\<in>set ms. \<exists>p\<in>clients. msg_index m = idx p"
    and parts: "\<forall>p\<in>clients. filter (\<lambda>m. msg_index m = idx p) ms = map (reindex (idx p)) (numbered (lv p) (q p) (calls p))"
    and ok: "\<forall>p\<in>clients. \<forall>c\<in>set (calls p). call_ok s c"
  shows "used (map wire ms) = (\<Sum>p\<in>clients. \<Sum>(x, k, b, pr, d)\<leftarrow>calls p. 94 + length b)"
proof -
  have len: "length (wire (reindex i m)) = length (wire m)" for i m by (cases m) simp_all
  have "used (map wire ms) = (\<Sum>p\<in>clients. \<Sum>m\<leftarrow>filter (\<lambda>m. msg_index m = idx p) ms. 14 + length (wire m))"
    using sum_by_client [OF clients] by (simp add: used_def o_def)
  also have "\<dots> = (\<Sum>p\<in>clients. \<Sum>(x, k, b, pr, d)\<leftarrow>calls p. 94 + length b)"
  proof (rule sum.cong [OF refl])
    fix p assume p: "p \<in> clients"
    have "(\<Sum>m\<leftarrow>filter (\<lambda>m. msg_index m = idx p) ms. 14 + length (wire m)) = (\<Sum>m\<leftarrow>numbered (lv p) (q p) (calls p). 14 + length (wire m))"
      using parts p by (simp add: o_def len del: length_wire)
    then show "(\<Sum>m\<leftarrow>filter (\<lambda>m. msg_index m = idx p) ms. 14 + length (wire m)) = (\<Sum>(x, k, b, pr, d)\<leftarrow>calls p. 94 + length b)"
      using numbered_used [of "calls p" s] ok p by (simp del: length_wire)
  qed
  finally show ?thesis .
qed

lemma calls_keys:
  assumes clients: "\<forall>m\<in>set ms. pub_ok s m \<and> (\<exists>p\<in>clients. msg_index m = idx p)"
    and parts: "\<forall>p\<in>clients. filter (\<lambda>m. msg_index m = idx p) ms = map (reindex (idx p)) (numbered (lv p) (q p) (calls p))"
    and short: "\<forall>p\<in>clients. length (calls p) < 2 ^ 32"
  shows "distinct (List.map_filter pub_key ms)"
    "set (List.map_filter pub_key ms) \<subseteq> (\<Union>p\<in>clients. first_keys (idx p) (q p) (length (calls p)))"
proof -
  show "distinct (List.map_filter pub_key ms)" by (rule keys_distinct [OF clients]) (use parts numbered_keys(2) short in simp)
  show "set (List.map_filter pub_key ms) \<subseteq> (\<Union>p\<in>clients. first_keys (idx p) (q p) (length (calls p)))"
  proof
    fix k assume "k \<in> set (List.map_filter pub_key ms)"
    then obtain m where m: "m \<in> set ms" "pub_key m = Some k" by (auto simp: List.map_filter_def)
    obtain p where p: "p \<in> clients" "msg_index m = idx p" using clients m(1) by blast
    have "m \<in> set (filter (\<lambda>m. msg_index m = idx p) ms)" using p(2) m(1) by simp
    then have "m \<in> set (map (reindex (idx p)) (numbered (lv p) (q p) (calls p)))" using parts p(1) by simp
    then have "k \<in> set (List.map_filter pub_key (map (reindex (idx p)) (numbered (lv p) (q p) (calls p))))"
      using m(2) by (rule in_keys)
    then show "k \<in> (\<Union>p\<in>clients. first_keys (idx p) (q p) (length (calls p)))" using numbered_keys(1) [OF bspec [OF short p(1)]] p(1) by blast
  qed
qed

lemma calls_copies:
  assumes clients: "finite clients" "inj_on idx clients" "\<forall>m\<in>set ms. \<exists>p\<in>clients. msg_index m = idx p"
    and parts: "\<forall>p\<in>clients. filter (\<lambda>m. msg_index m = idx p) ms = map (reindex (idx p)) (numbered (lv p) (q p) (calls p))"
    and ok: "\<forall>p\<in>clients. \<forall>c\<in>set (calls p). call_ok s c"
  shows "(\<Sum>m\<leftarrow>ms. copies s m a) = (\<Sum>p\<in>clients. \<Sum>c\<leftarrow>calls p. call_copies s a c)"
proof -
  have "(\<Sum>m\<leftarrow>ms. copies s m a) = (\<Sum>p\<in>clients. \<Sum>m\<leftarrow>filter (\<lambda>m. msg_index m = idx p) ms. copies s m a)"
    by (rule sum_by_client [OF clients])
  also have "\<dots> = (\<Sum>p\<in>clients. \<Sum>c\<leftarrow>calls p. call_copies s a c)"
  proof (rule sum.cong [OF refl])
    fix p assume p: "p \<in> clients"
    let ?Ms = "numbered (lv p) (q p) (calls p)"
    have "\<forall>m\<in>set ?Ms. pub_ok s m" using numbered_ok ok p by blast
    then have "map (\<lambda>m. copies s (reindex (idx p) m) a) ?Ms = map (\<lambda>m. copies s m a) ?Ms"
      using reindex_simps(6) by (intro map_cong) auto
    then have "(\<Sum>m\<leftarrow>?Ms. copies s (reindex (idx p) m) a) = (\<Sum>m\<leftarrow>?Ms. copies s m a)" by (rule arg_cong)
    then show "(\<Sum>m\<leftarrow>filter (\<lambda>m. msg_index m = idx p) ms. copies s m a) = (\<Sum>c\<leftarrow>calls p. call_copies s a c)"
      using parts p by (simp add: o_def numbered_copies)
  qed
  finally show ?thesis .
qed

text \<open>C2. What producers publish reaches the queues, all of it and once. Any number of producers call \<open>PuslishMessage\<close>, each over its own connection;
  the network cuts what they have sent into any chunks and mixes them; the connection server handles the chunks and the logic server then
  handles its ring. Then everything has returned, the ring is empty, and each queue has got, for every call of every producer, as
  many copies of the body as the exchange of the call routes to it, and nothing else.
\<close>

theorem published_reaches_queues:
  assumes clients: "finite clients" "clients \<subseteq> {..<CLIENT_EPOLL_COUNT}"
    and producers: "\<forall>p\<in>clients. publishes (calls p) (P p) (P' p)"
    and network: "set (map fst evs) \<subseteq> clients" "recv_fits evs (\<lambda>_. [])" "\<forall>p\<in>clients. cl_wire (P' p) = cl_wire (P p) @ stream_of p evs"
    and connect: "server_holds cs clients (\<lambda>_. []) []"
      "(\<Sum>p\<in>clients. \<Sum>(x, k, b, pr, d)\<leftarrow>calls p. 94 + length b) \<le> capacity (m_pQueueToLogicLayer cs)"
    and logic: "logic_inv s" "\<forall>p\<in>clients. \<forall>c\<in>set (calls p). call_ok s c" "(\<Sum>p\<in>clients. length (calls p)) < 800"
      "\<forall>p\<in>clients. first_keys (idx p) (pr_iMsgSeq (P p)) (length (calls p)) \<inter> set (m_producerMsgSeqs s) = {}"
  shows "\<exists>cs' b s'. ProcessEpollData (map (\<lambda>(p, d). data_event p d) evs) cs = Some cs' \<and>
    recv_loop 800 800 (replicate MAX_CLINT_PACKAGE_LENGTH 0) (s\<lparr>m_pQueueFromConnect := m_pQueueToLogicLayer cs'\<rparr>) = Some (b, s') \<and>
    logic_inv s' \<and> holds (m_pQueueFromConnect s') [] \<and>
    (\<forall>a. gains (\<Sum>p\<in>clients. \<Sum>c\<leftarrow>calls p. call_copies s a c) (m_queues s a) (m_queues s' a))"
proof -
  let ?lv = "\<lambda>p. cl_iConfirmLevel (P p)" and ?q = "\<lambda>p. pr_iMsgSeq (P p)"
  let ?Ms = "\<lambda>p. numbered (?lv p) (?q p) (calls p)" and ?new = "snd (spec_events evs (\<lambda>_. []))"
  have inj: "inj_on idx clients" by (rule idx_inj [OF clients(2)])
  have streams: "\<forall>p\<in>clients. stream_of p evs = concat (map wire (?Ms p))"
    using publishes_wire producers network(3) logic(2) by (metis same_append_eq)
  obtain ms where new: "?new = map wire ms" and ms: "\<forall>m\<in>set ms. pub_ok s m \<and> (\<exists>p\<in>clients. msg_index m = idx p)"
    and parts: "\<forall>p\<in>clients. filter (\<lambda>m. msg_index m = idx p) ms = map (reindex (idx p)) (?Ms p)"
    using ring_of_calls [OF clients network(1) logic(2) streams] by blast
  have of: "\<forall>m\<in>set ms. \<exists>p\<in>clients. msg_index m = idx p" using ms by blast
  have room: "used [] + used ?new \<le> capacity (m_pQueueToLogicLayer cs)"
    using connect(2) calls_used [OF clients(1) inj of parts logic(2)] unfolding new by simp
  obtain cs' where cs': "ProcessEpollData (map (\<lambda>(p, d). data_event p d) evs) cs = Some cs'" "holds (m_pQueueToLogicLayer cs') (map wire ms)"
    using events_refine [OF connect(1) network(1,2) room] unfolding new by (auto simp: server_holds_def)
  let ?s = "s\<lparr>m_pQueueFromConnect := m_pQueueToLogicLayer cs'\<rparr>"
  have count: "length ms < 800" using total_length [OF clients(1) inj of] parts logic(3) by (simp add: length_numbered)
  have short: "\<forall>p\<in>clients. length (calls p) < 2 ^ 32"
    using member_le_sum [of _ clients "\<lambda>p. length (calls p)"] clients(1) logic(3) by fastforce
  note keys = calls_keys [OF ms parts short]
  have fresh: "set (List.map_filter pub_key ms) \<inter> set (m_producerMsgSeqs ?s) = {}" using keys(2) logic(4) by auto
  have "\<forall>m\<in>set ms. pub_ok ?s m" using ms pub_ok_cong [of ?s s] by simp
  then obtain b s' where s': "recv_loop 800 800 (replicate MAX_CLINT_PACKAGE_LENGTH 0) ?s = Some (b, s')" "logic_inv s'"
    "holds (m_pQueueFromConnect s') []" "\<forall>a. gains (\<Sum>m\<leftarrow>ms. copies ?s m a) (m_queues s a) (m_queues s' a)"
    using recv_publications [of ?s ms 800 800 "replicate MAX_CLINT_PACKAGE_LENGTH 0"] logic(1) cs'(2) count keys(1) fresh by auto
  have "(\<Sum>m\<leftarrow>ms. copies ?s m a) = (\<Sum>p\<in>clients. \<Sum>c\<leftarrow>calls p. call_copies s a c)" for a
    using calls_copies [OF clients(1) inj of parts logic(2)] copies_cong [of ?s s] by simp
  then show ?thesis using cs'(1) s' by auto
qed

section \<open>Witness\<close>

text \<open>One producer, client 1, publishes the body \<open>[65]\<close>; his packet arrives in two pieces.\<close>

definition w_client :: producer where
  "w_client = (w_net [0, 12, 0, 0, 0, 1] new_Producer)\<lparr>cl_iConfirmLevel := 2, cl_send := [[(81, EOTHER)]], cl_now := (0, 0), cl_stack := []\<rparr>"

definition w_call :: call where "w_call = ([101], [107], [65], 4, False)"
definition w_packet :: bytes where "w_packet = wire (CreatePublishMessage (-1) CMD_CREATE_PUBLISH [101] [107] 4 False 0 2 [65])"
definition w_pieces :: "(nat \<times> bytes) list" where "w_pieces = [(1, take 3 w_packet), (1, drop 3 w_packet)]"

lemma w_packet_split: "split_stream (take 3 w_packet) = ([], take 3 w_packet)" "split_stream w_packet = ([w_packet], [])"
  "length w_packet = 81"
  by code_simp+

lemma w_pieces_facts: "recv_fits w_pieces (\<lambda>_. [])" "stream_of 1 w_pieces = w_packet" "set (map fst w_pieces) \<subseteq> {1}"
proof -
  have "0 < length (take 3 w_packet)" "0 < length (drop 3 w_packet)" unfolding length_take length_drop w_packet_split(3) by simp_all
  then have "take 3 w_packet \<noteq> []" "drop 3 w_packet \<noteq> []" by (simp_all only: length_greater_0_conv not_False_eq_True)
  then show "recv_fits w_pieces (\<lambda>_. [])" using w_packet_split by (simp add: w_pieces_def SERVER_BUFFER_SIZE_def del: take_eq_Nil drop_eq_Nil)
  show "stream_of 1 w_pieces = w_packet" "set (map fst w_pieces) \<subseteq> {1}" by (simp_all add: stream_of_def w_pieces_def)
qed

lemma w_client_publishes: "\<exists>p'. publishes [w_call] w_client p' \<and> cl_wire p' = cl_wire w_client @ w_packet"
proof -
  let ?m = "SetMsgSeq 0 (new_CreatePublishMessage [101] [107] [65] 4 False 2)"
  have facts: "cl_bBuild w_client" "cl_iConfirmLevel w_client = 2" "pr_iMsgSeq w_client = 0"
    by (simp_all add: w_client_def w_net_def new_Producer_def client.defs producer.defs new_Client_def)
  have m: "request_fits ?m" "length (wire ?m) = 81" "wire ?m = w_packet"
    by (simp_all add: request_fits_def names_ok_def new_CreatePublishMessage_def size_defs w_packet_def)
  have send: "can_send 81 w_client" using w_net_sends [of "[(81, EOTHER)]" 81] by (simp add: w_client_def)
  obtain p' where p': "PuslishMessage [101] [107] [65] 4 False w_client = Some (SUCCESS, p')" "cl_wire p' = cl_wire w_client @ w_packet"
    using PuslishMessage_run [of w_client "[101]" "[107]" "[65]" 4 False] facts m send by (auto simp del: length_wire)
  have "publishes [w_call] w_client p'" unfolding w_call_def
    by (rule publishes.call [OF _ p'(1) publishes.none]) (use send in simp)
  with p'(2) show ?thesis by blast
qed

theorem published_reaches_queues_witness:
  "\<exists>cs' b s' q. ProcessEpollData (map (\<lambda>(p, d). data_event p d) w_pieces) w_connect = Some cs' \<and>
     recv_loop 800 800 (replicate MAX_CLINT_PACKAGE_LENGTH 0) (w_server\<lparr>m_pQueueFromConnect := m_pQueueToLogicLayer cs'\<rparr>) = Some (b, s') \<and>
     m_queues s' 0 = Some q \<and> bodies q = {#[65]#}"
proof -
  obtain p' where p': "publishes [w_call] w_client p'" "cl_wire p' = cl_wire w_client @ w_packet" using w_client_publishes by blast
  have cs: "server_holds w_connect {1} (\<lambda>_. []) []" using w_connect_holds by (simp add: server_holds_def)
  have cap: "capacity (m_pQueueToLogicLayer w_connect) = 400" using Init_holds [of 400 ShmQueue_new] by (auto simp: w_connect_def)
  have call: "call_ok w_server w_call"
    by (simp add: w_call_def good_name_def size_defs w_server_def new_LogicServer_def FindBindingQueue_def new_Exchange_def)
  have copies: "call_copies w_server 0 w_call = {#[65]#}"
    by (simp add: w_call_def w_server_def new_LogicServer_def FindBindingQueue_def new_Exchange_def)
  have q: "m_queues w_server 0 = Some (new_MessageQueue [113] 0 False False)" "m_producerMsgSeqs w_server = []"
    by (simp_all add: w_server_def new_LogicServer_def)
  have room: "(\<Sum>p\<in>{1 :: nat}. \<Sum>(x, k, b, pr, d)\<leftarrow>[w_call]. 94 + length b) = 95" by (simp add: w_call_def)
  have small: "{1} \<subseteq> {..<CLIENT_EPOLL_COUNT}" by (simp add: size_defs)
  obtain cs' b s' where r: "ProcessEpollData (map (\<lambda>(p, d). data_event p d) w_pieces) w_connect = Some cs'"
    "recv_loop 800 800 (replicate MAX_CLINT_PACKAGE_LENGTH 0) (w_server\<lparr>m_pQueueFromConnect := m_pQueueToLogicLayer cs'\<rparr>) = Some (b, s')"
    "\<forall>a. gains (call_copies w_server a w_call) (m_queues w_server a) (m_queues s' a)"
    using published_reaches_queues [of "{1}" "\<lambda>_. [w_call]" "\<lambda>_. w_client" "\<lambda>_. p'" w_pieces w_connect w_server]
      p' cs cap call w_pieces_facts w_server_inv q(2) small unfolding room by auto
  then obtain q' where "m_queues s' 0 = Some q'" "bodies q' = {#[65]#}"
    using q(1) copies r(3) [rule_format, of 0] by (cases "m_queues s' 0") (auto simp: bodies_def stored_def new_MessageQueue_def)
  with r(1,2) show ?thesis by blast
qed

end
