(* ===== verification/Delivery_Path.thy ===== *)
theory Delivery_Path
  imports Client_Deliver Connect_Deliver Logic_Session
begin

text \<open>
  The way of a message from a queue of the logic server to the application of a consumer: the logic server pushes, the connection server
  delivers, the consumer takes the messages out of his stream.
\<close>

section \<open>What a queue hands out\<close>

text \<open>The messages of a queue in the order in which they are pushed, each with the consumer that gets it.\<close>

fun pops :: "nat \<Rightarrow> message_queue \<Rightarrow> sever_store_message list" where
  "pops 0 q = []"
| "pops (Suc n) q = (case PopFrontMsg q True of (None, q') \<Rightarrow> [] | (Some m, q') \<Rightarrow> m # pops n q')"

definition handed_out :: "message_queue \<Rightarrow> sever_store_message list" where
  "handed_out q = pops (size (stored q)) q"

text \<open>The packets of a push: the name of the queue, the level of confirmation and consecutive numbers.\<close>

fun labelled :: "i32 \<Rightarrow> (message_queue \<times> sever_store_message) list \<Rightarrow> sever_store_message list" where
  "labelled sq [] = []"
| "labelled sq ((q, m) # ms) =
     m\<lparr>ssm_iCmdId := CMD_SERVER_PUSH_MESSAGE, ssm_iConfirmLevel := mq_iConfirmLevel q, ssm_iMsgSeq := sq, ssm_strQueueName := mq_strQueueName q\<rparr> #
     labelled (sq + 1) ms"

abbreviation packets :: "sever_store_message list \<Rightarrow> bytes list" where
  "packets ms \<equiv> map (\<lambda>m. wire (SeverStoreMessage m)) ms"

lemma length_labelled [simp]: "length (labelled sq ms) = length ms"
  by (induction sq ms rule: labelled.induct) simp_all

lemma labelled_append: "labelled sq (xs @ ys) = labelled sq xs @ labelled (sq + word_of_nat (length xs)) ys"
  by (induction sq xs rule: labelled.induct) (simp_all add: algebra_simps)

lemma labelled_bodies [simp]: "map ssm_strMsgBody (labelled sq ms) = map (ssm_strMsgBody \<circ> snd) ms"
  "map ssm_iIndex (labelled sq ms) = map (ssm_iIndex \<circ> snd) ms"
  by (induction sq ms rule: labelled.induct) simp_all

lemma labelled_same:
  "mq_iConfirmLevel q' = mq_iConfirmLevel q \<Longrightarrow> mq_strQueueName q' = mq_strQueueName q \<Longrightarrow>
   labelled sq (map (Pair q') ms) = labelled sq (map (Pair q) ms)"
  by (induction ms arbitrary: sq) simp_all

lemma pop_some: "IsSubscribe q \<Longrightarrow> size (stored q) = Suc n \<Longrightarrow> \<exists>m q1. PopFrontMsg q True = (Some m, q1)"
  by (cases "stored q = {#}") (simp_all add: PopFrontMsg_take_front IsEmpty_stored)

lemma pops_bodies:
  "queue_inv q \<Longrightarrow> IsSubscribe q \<Longrightarrow> size (stored q) = n \<Longrightarrow>
   image_mset ssm_strMsgBody (mset (pops n q)) = bodies q \<and> length (pops n q) = n \<and>
   (\<forall>m\<in>set (pops n q). ssm_iIndex m \<in> set (m_vSubscribeConsumers q))"
proof (induction n arbitrary: q)
  case 0
  then show ?case by (simp add: bodies_def)
next
  case (Suc n)
  then obtain m q1 where pop: "PopFrontMsg q True = (Some m, q1)" using pop_some Suc.prems(2,3) by blast
  note q1 = bodies_PopFrontMsg [OF Suc.prems(1) pop]
  have "nat (next_push q) < length (m_vSubscribeConsumers q)" using Suc.prems(1,2) next_push_range [of q]
    by (auto simp: next_push_def IsSubscribe_def)
  then have "ssm_iIndex m \<in> set (m_vSubscribeConsumers q)"
    using pop by (auto simp: PopFrontMsg_take_front split: if_split_asm)
  moreover have "IsSubscribe q1" "size (stored q1) = n" using q1(2,4) Suc.prems(2,3) by (simp_all add: IsSubscribe_def)
  ultimately show ?case using Suc.IH [OF q1(6)] q1(1,4) pop by simp
qed

section \<open>Pushing\<close>

lemma to_connect_wait_fits:
  assumes "holds (m_pQueueToConnect s) ds" "n \<le> length b" "used ds + (14 + n) \<le> capacity (m_pQueueToConnect s)"
  shows "\<exists>r. to_connect_wait s b (int n) = Some (s\<lparr>m_pQueueToConnect := r\<rparr>) \<and> holds r (ds @ [take n b]) \<and>
    capacity r = capacity (m_pQueueToConnect s)"
  using Enqueue_fits [OF assms] by (auto simp: to_connect_wait_def to_connect_def shm_err_defs SUCCESS_def)

lemma byte_pos: "0 < (b :: byte) \<Longrightarrow> b \<noteq> 0"
  by simp

lemma push_one_run:
  assumes lv: "0 < mq_iConfirmLevel q" and body: "13 + length (ssm_strMsgBody m) \<le> MAX_SERVER_PACKAGE_LENGTH"
    and ring: "holds (m_pQueueToConnect s) ds" "used ds + (27 + length (ssm_strMsgBody m)) \<le> capacity (m_pQueueToConnect s)"
  shows "\<exists>s' r. push_one s a q m = Some s' \<and> holds (m_pQueueToConnect s') (ds @ packets (labelled (m_iAckSeq s) [(q, m)])) \<and>
    capacity (m_pQueueToConnect s') = capacity (m_pQueueToConnect s) \<and> m_iAckSeq s' = m_iAckSeq s + 1 \<and>
    m_NeedAckMessageList s' = m_NeedAckMessageList s @ labelled (m_iAckSeq s) [(q, m)]"
proof -
  let ?m = "m\<lparr>ssm_iCmdId := CMD_SERVER_PUSH_MESSAGE, ssm_iConfirmLevel := mq_iConfirmLevel q, ssm_iMsgSeq := m_iAckSeq s,
    ssm_strQueueName := mq_strQueueName q\<rparr>"
  let ?w = "wire (SeverStoreMessage ?m)" let ?b = "zbuf ?w MAX_SERVER_PACKAGE_LENGTH"
  let ?s = "s\<lparr>m_iAckSeq := m_iAckSeq s + 1, m_NeedAckMessageList := m_NeedAckMessageList s @ [?m]\<rparr>"
  have len: "length ?w = 13 + length (ssm_strMsgBody m)" by simp
  have pack: "GetMessagePack (SeverStoreMessage ?m) (replicate MAX_SERVER_PACKAGE_LENGTH 0) (int MAX_SERVER_PACKAGE_LENGTH) =
      Some (SUCCESS, ?b, int (length ?w))"
    using pack_SeverStoreMessage [of ?m "int MAX_SERVER_PACKAGE_LENGTH" MAX_SERVER_PACKAGE_LENGTH] body
    by (simp add: packs_def zbuf_Nil size_defs del: GetMessagePack.simps length_wire)
  have b: "length ?w \<le> length ?b" "take (length ?w) ?b = ?w" using body len by (simp_all add: zbuf_def del: length_wire)
  obtain r where r: "to_connect_wait ?s ?b (int (length ?w)) = Some (?s\<lparr>m_pQueueToConnect := r\<rparr>)" "holds r (ds @ [?w])"
    "capacity r = capacity (m_pQueueToConnect s)"
    using to_connect_wait_fits [of ?s ds "length ?w" ?b] ring b len by (auto simp del: length_wire)
  have "push_one s a q m = Some (?s\<lparr>m_pQueueToConnect := r, m_iSendCount := m_iSendCount s + 1\<rparr>)"
    using lv pack r(1) byte_pos [OF lv] by (simp add: push_one_def Let_def del: GetMessagePack.simps length_wire)
  then show ?thesis using r(2,3) by simp
qed

lemma used_append [simp]: "used (xs @ ys) = used xs + used ys"
  by (simp add: used_def)

text \<open>The room that pushing takes in the ring.\<close>

definition push_room :: "bytes list \<Rightarrow> nat" where
  "push_room bs = (\<Sum>b\<leftarrow>bs. 27 + length b)"

lemma used_packets: "used (packets ms) = push_room (map ssm_strMsgBody ms)"
  by (induction ms) (simp_all add: used_def push_room_def)

lemma push_msgs_run:
  assumes "logic_inv s" "m_queues s a = Some q" "IsSubscribe q" "size (stored q) = n" "0 < mq_iConfirmLevel q"
    and "\<forall>b\<in>#bodies q. 13 + length b \<le> MAX_SERVER_PACKAGE_LENGTH"
    and "holds (m_pQueueToConnect s) ds" "used ds + push_room (map ssm_strMsgBody (pops n q)) \<le> capacity (m_pQueueToConnect s)"
  shows "\<exists>s'. push_msgs n a s = Some s' \<and>
    holds (m_pQueueToConnect s') (ds @ packets (labelled (m_iAckSeq s) (map (Pair q) (pops n q)))) \<and>
    capacity (m_pQueueToConnect s') = capacity (m_pQueueToConnect s) \<and> m_iAckSeq s' = m_iAckSeq s + word_of_nat n \<and>
    m_NeedAckMessageList s' = m_NeedAckMessageList s @ labelled (m_iAckSeq s) (map (Pair q) (pops n q))"
  using assms
proof (induction n arbitrary: s q ds)
  case (Suc n)
  note qi = inv_queue [OF Suc.prems(1,2)]
  obtain m q1 where pop: "PopFrontMsg q True = (Some m, q1)" using pop_some Suc.prems(3,4) by blast
  note q1 = bodies_PopFrontMsg [OF qi pop]
  let ?s = "set_queue a q1 s"
  have ne: "\<not> IsEmpty q" using Suc.prems(4) by (auto simp: IsEmpty_stored)
  have inv: "logic_inv ?s" using q1 by (intro inv_same_subs [OF Suc.prems(1,2)]) auto
  have body: "13 + length (ssm_strMsgBody m) \<le> MAX_SERVER_PACKAGE_LENGTH" using Suc.prems(6) q1(1) by simp
  have room: "used ds + (27 + length (ssm_strMsgBody m)) + push_room (map ssm_strMsgBody (pops n q1)) \<le> capacity (m_pQueueToConnect s)"
    using Suc.prems(8) pop by (simp add: push_room_def)
  let ?l = "labelled (m_iAckSeq s) [(q1, m)]"
  have same: "?l = labelled (m_iAckSeq s) [(q, m)]" using q1(3,5) by simp
  have up: "used (packets ?l) = 27 + length (ssm_strMsgBody m)" by (simp add: used_def)
  obtain s1 where s1: "push_one ?s a q1 m = Some s1" "holds (m_pQueueToConnect s1) (ds @ packets ?l)"
    "capacity (m_pQueueToConnect s1) = capacity (m_pQueueToConnect s)" "m_iAckSeq s1 = m_iAckSeq s + 1"
    "m_NeedAckMessageList s1 = m_NeedAckMessageList s @ ?l"
    using push_one_run [of q1 m ?s ds a] Suc.prems(5,7) q1(3) body room by (auto simp: set_queue_def simp del: labelled.simps)
  have eff: "logic_inv s1" "m_queues s1 a = Some q1" using push_one_effect [OF inv s1(1)] by simp_all
  have "IsSubscribe q1" "size (stored q1) = n" using q1(2,4) Suc.prems(3,4) by (auto simp: IsSubscribe_def)
  moreover have "0 < mq_iConfirmLevel q1" "\<forall>b\<in>#bodies q1. 13 + length b \<le> MAX_SERVER_PACKAGE_LENGTH" using Suc.prems(5,6) q1(1,3) by simp_all
  moreover have "used (ds @ packets ?l) + push_room (map ssm_strMsgBody (pops n q1)) \<le> capacity (m_pQueueToConnect s1)"
    using room s1(3) up by (simp del: labelled.simps)
  ultimately obtain s' where s': "push_msgs n a s1 = Some s'"
    "holds (m_pQueueToConnect s') ((ds @ packets ?l) @ packets (labelled (m_iAckSeq s + 1) (map (Pair q1) (pops n q1))))"
    "capacity (m_pQueueToConnect s') = capacity (m_pQueueToConnect s)" "m_iAckSeq s' = m_iAckSeq s + 1 + word_of_nat n"
    "m_NeedAckMessageList s' = (m_NeedAckMessageList s @ ?l) @ labelled (m_iAckSeq s + 1) (map (Pair q1) (pops n q1))"
    using Suc.IH [OF eff _ _ _ _ s1(2)] unfolding s1(3-5) by blast
  have "push_msgs (Suc n) a s = Some s'" using Suc.prems(2) ne pop s1(1) s'(1) by simp
  moreover have "labelled (m_iAckSeq s) (map (Pair q) (pops (Suc n) q)) = ?l @ labelled (m_iAckSeq s + 1) (map (Pair q1) (pops n q1))"
    using pop labelled_same [OF q1(3,5)] same by simp
  ultimately show ?case using s'(2-5) by (simp add: algebra_simps del: labelled.simps)
qed simp

text \<open>All messages that a round of pushing hands out, with their queues.\<close>

definition to_push :: "logic_server \<Rightarrow> (bytes \<times> addr) list \<Rightarrow> (message_queue \<times> sever_store_message) list" where
  "to_push s l = concat (map (\<lambda>(n, a). let q = the (m_queues s a) in map (Pair q) (handed_out q)) l)"

lemma to_push_simps [simp]: "to_push s [] = []"
  "to_push s ((n, a) # l) = map (Pair (the (m_queues s a))) (handed_out (the (m_queues s a))) @ to_push s l"
  by (simp_all add: to_push_def Let_def)

lemma to_push_cong: "(\<And>n a. (n, a) \<in> set l \<Longrightarrow> m_queues s' a = m_queues s a) \<Longrightarrow> to_push s' l = to_push s l"
  unfolding to_push_def by (rule arg_cong [of _ _ concat], rule map_cong) auto

text \<open>The queues whose messages the consumers of the library confirm by themselves, with bodies that fit into a packet.\<close>

definition pushable :: "message_queue \<Rightarrow> bool" where
  "pushable q \<longleftrightarrow> mq_iConfirmLevel q = CONSUMER_AUTO_ACK \<and> (\<forall>b\<in>#bodies q. 21 + length b \<le> MAX_CLINT_PACKAGE_LENGTH)"

lemma pushableD:
  assumes "pushable q"
  shows "0 < mq_iConfirmLevel q" "\<forall>b\<in>#bodies q. 13 + length b \<le> MAX_SERVER_PACKAGE_LENGTH"
  using assms by (auto simp: pushable_def CONSUMER_AUTO_ACK_def size_defs)

lemma push_loop_run:
  assumes "logic_inv s" "distinct (map fst l)" "all_subscribed s l" "\<forall>(n, a)\<in>set l. pushable (the (m_queues s a))"
    and "holds (m_pQueueToConnect s) ds"
    and "used ds + push_room (map (ssm_strMsgBody \<circ> snd) (to_push s l)) \<le> capacity (m_pQueueToConnect s)"
  shows "\<exists>s'. push_loop l s = Some s' \<and>
    holds (m_pQueueToConnect s') (ds @ packets (labelled (m_iAckSeq s) (to_push s l))) \<and>
    m_iAckSeq s' = m_iAckSeq s + word_of_nat (length (to_push s l)) \<and>
    m_NeedAckMessageList s' = m_NeedAckMessageList s @ labelled (m_iAckSeq s) (to_push s l)"
  using assms
proof (induction l arbitrary: s ds)
  case (Cons e l)
  obtain n a where e: "e = (n, a)" by (cases e)
  obtain q where q: "m_queues s a = Some q" "mq_strQueueName q = n" "IsSubscribe q"
    using Cons.prems(3) e by (auto simp: all_subscribed_def)
  have ps: "pushable q" using Cons.prems(4) e q(1) by simp
  note qi = inv_queue [OF Cons.prems(1) q(1)]
  let ?ms = "pops (size (stored q)) q" and ?sq = "m_iAckSeq s"
  let ?l = "labelled ?sq (map (Pair q) ?ms)"
  have split: "to_push s (e # l) = map (Pair q) ?ms @ to_push s l" using e q(1) by (simp add: handed_out_def)
  have room: "used ds + push_room (map ssm_strMsgBody ?ms) + push_room (map (ssm_strMsgBody \<circ> snd) (to_push s l)) \<le>
      capacity (m_pQueueToConnect s)"
    using Cons.prems(6) unfolding split by (simp add: push_room_def o_def)
  obtain s1 where s1: "push_msgs (size (stored q)) a s = Some s1" "holds (m_pQueueToConnect s1) (ds @ packets ?l)"
    "capacity (m_pQueueToConnect s1) = capacity (m_pQueueToConnect s)" "m_iAckSeq s1 = ?sq + word_of_nat (size (stored q))"
    "m_NeedAckMessageList s1 = m_NeedAckMessageList s @ ?l"
    using push_msgs_run [OF Cons.prems(1) q(1,3) refl pushableD [OF ps] Cons.prems(5)] room by auto
  have eff: "logic_inv s1" "\<And>b. b \<noteq> a \<Longrightarrow> m_queues s1 b = m_queues s b"
    using push_msgs_effect [OF s1(1) Cons.prems(1) q(1,3) order_refl] by blast+
  have ne: "b \<noteq> a" if mb: "(m, b) \<in> set l" for m b
  proof -
    have "m \<noteq> n" using Cons.prems(2) mb e by (auto simp: rev_image_eqI)
    then show ?thesis using Cons.prems(3) mb q by (auto simp: all_subscribed_def)
  qed
  have sub: "all_subscribed s1 l" using Cons.prems(3) ne eff(2) unfolding all_subscribed_def by fastforce
  have same: "to_push s1 l = to_push s l" by (rule to_push_cong) (use ne eff(2) in blast)
  have push1: "\<forall>(n, a)\<in>set l. pushable (the (m_queues s1 a))" using Cons.prems(4) ne eff(2) by fastforce
  have up: "used (packets ?l) = push_room (map ssm_strMsgBody ?ms)" by (simp add: used_packets o_def)
  have room1: "used (ds @ packets ?l) + push_room (map (ssm_strMsgBody \<circ> snd) (to_push s1 l)) \<le> capacity (m_pQueueToConnect s1)"
    using room up unfolding same s1(3) by simp
  obtain s' where s': "push_loop l s1 = Some s'"
    "holds (m_pQueueToConnect s') ((ds @ packets ?l) @ packets (labelled (m_iAckSeq s1) (to_push s l)))"
    "m_iAckSeq s' = m_iAckSeq s1 + word_of_nat (length (to_push s l))"
    "m_NeedAckMessageList s' = m_NeedAckMessageList s1 @ labelled (m_iAckSeq s1) (to_push s l)"
    using Cons.IH [OF eff(1) _ sub push1 s1(2) room1] Cons.prems(2) unfolding same by auto
  have len: "length ?ms = size (stored q)" using pops_bodies [OF qi q(3) refl] by simp
  have "labelled ?sq (to_push s (e # l)) = ?l @ labelled (m_iAckSeq s1) (to_push s l)"
    unfolding split labelled_append s1(4) by (simp add: len)
  moreover have "push_loop (e # l) s = Some s'" using e q s1(1) s'(1) by (simp add: size_stored)
  moreover have "length (to_push s (e # l)) = size (stored q) + length (to_push s l)" unfolding split by (simp add: len)
  ultimately show ?case using s' s1(4,5) by (simp add: algebra_simps)
qed simp

text \<open>What a round hands out is what the queues have stored.\<close>

lemma to_push_bodies:
  assumes "logic_inv s" "all_subscribed s l"
  shows "mset (map (ssm_strMsgBody \<circ> snd) (to_push s l)) = (\<Sum>(n, a)\<leftarrow>l. bodies (the (m_queues s a)))"
    "\<forall>(q, m)\<in>set (to_push s l). \<exists>(n, a)\<in>set l. m_queues s a = Some q \<and> ssm_strMsgBody m \<in># bodies q \<and>
       ssm_iIndex m \<in> set (m_vSubscribeConsumers q)"
proof -
  have "mset (map (ssm_strMsgBody \<circ> snd) (to_push s l)) = (\<Sum>(n, a)\<leftarrow>l. bodies (the (m_queues s a))) \<and>
    (\<forall>(q, m)\<in>set (to_push s l). \<exists>(n, a)\<in>set l. m_queues s a = Some q \<and> ssm_strMsgBody m \<in># bodies q \<and>
       ssm_iIndex m \<in> set (m_vSubscribeConsumers q))"
    using assms(2)
  proof (induction l)
    case (Cons e l)
    obtain n a where e: "e = (n, a)" by (cases e)
    obtain q where q: "m_queues s a = Some q" "IsSubscribe q" using Cons.prems e by (auto simp: all_subscribed_def)
    note pops = pops_bodies [OF inv_queue [OF assms(1) q(1)] q(2) refl]
    have IH: "mset (map (ssm_strMsgBody \<circ> snd) (to_push s l)) = (\<Sum>(n, a)\<leftarrow>l. bodies (the (m_queues s a)))"
      "\<forall>(q, m)\<in>set (to_push s l). \<exists>(n, a)\<in>set l. m_queues s a = Some q \<and> ssm_strMsgBody m \<in># bodies q \<and>
       ssm_iIndex m \<in> set (m_vSubscribeConsumers q)"
      using Cons.IH Cons.prems unfolding all_subscribed_def list.set ball_simps by blast+
    have mem: "ssm_strMsgBody m \<in># bodies q" if "m \<in> set (handed_out q)" for m
      using pops that by (metis handed_out_def image_eqI set_image_mset set_mset_mset)
    have "mset (map ssm_strMsgBody (handed_out q)) = bodies q" using pops by (simp add: handed_out_def)
    moreover have "map (ssm_strMsgBody \<circ> snd) (to_push s (e # l)) =
        map ssm_strMsgBody (handed_out q) @ map (ssm_strMsgBody \<circ> snd) (to_push s l)" by (simp add: e q(1))
    ultimately have all: "mset (map (ssm_strMsgBody \<circ> snd) (to_push s (e # l))) = (\<Sum>(n, a)\<leftarrow>e # l. bodies (the (m_queues s a)))"
      using IH(1) by (simp only: mset_append) (simp add: e q(1))
    have "ssm_iIndex m \<in> set (m_vSubscribeConsumers q)" if "m \<in> set (handed_out q)" for m
      using pops that by (simp add: handed_out_def)
    then have "\<forall>(q, m)\<in>set (to_push s (e # l)). \<exists>(n, a)\<in>set (e # l). m_queues s a = Some q \<and> ssm_strMsgBody m \<in># bodies q \<and>
        ssm_iIndex m \<in> set (m_vSubscribeConsumers q)" using IH(2) mem q(1) by (auto simp: e)
    with all show ?case by (rule conjI)
  qed simp
  then show "mset (map (ssm_strMsgBody \<circ> snd) (to_push s l)) = (\<Sum>(n, a)\<leftarrow>l. bodies (the (m_queues s a)))"
    "\<forall>(q, m)\<in>set (to_push s l). \<exists>(n, a)\<in>set l. m_queues s a = Some q \<and> ssm_strMsgBody m \<in># bodies q \<and>
       ssm_iIndex m \<in> set (m_vSubscribeConsumers q)" by blast+
qed

section \<open>Consuming\<close>

lemma labelled_seqs: "map ssm_iMsgSeq (labelled sq ms) = map (\<lambda>j. sq + word_of_nat j) [0..<length ms]"
  by (induction sq ms rule: labelled.induct)
    (simp_all add: map_upt_Suc algebra_simps del: upt_Suc)

lemma labelled_members:
  "m \<in> set (labelled sq ms) \<Longrightarrow> ssm_iCmdId m = CMD_SERVER_PUSH_MESSAGE \<and>
     (\<exists>(q, m')\<in>set ms. ssm_iConfirmLevel m = mq_iConfirmLevel q \<and> ssm_strMsgBody m = ssm_strMsgBody m')"
  by (induction sq ms rule: labelled.induct) auto

text \<open>The messages of the consumer with the index \<open>p\<close>.\<close>

definition share :: "nat \<Rightarrow> sever_store_message list \<Rightarrow> sever_store_message list" where
  "share p ms = filter (\<lambda>m. sint (ssm_iIndex m) = int p) ms"

lemma share_labelled: "map ssm_strMsgBody (share p (labelled sq ms)) = map ssm_strMsgBody (share p (map snd ms))"
  by (induction sq ms rule: labelled.induct) (simp_all add: share_def)

lemma share_sum:
  assumes "finite clients" "\<forall>m\<in>set ms. \<exists>p\<in>clients. sint (ssm_iIndex m) = int p"
  shows "(\<Sum>p\<in>clients. mset (map f (share p ms))) = mset (map f ms)"
  using sum_by_key [OF assms(1) inj_on_of_nat assms(2), of "\<lambda>m. {#f m#}"] unfolding mset_sum share_def by (rule sym)

lemma addressed_push:
  "ssm_iCmdId m = CMD_SERVER_PUSH_MESSAGE \<Longrightarrow> addressed p (wire (SeverStoreMessage m)) \<longleftrightarrow> sint (ssm_iIndex m) = int p"
  by (simp add: addressed_def wire_def get_at_def for_client_def)

lemma filter_packets:
  assumes "\<forall>m\<in>set ms. ssm_iCmdId m = CMD_SERVER_PUSH_MESSAGE"
  shows "filter (addressed p) (packets ms) = packets (share p ms)"
  using assms by (induction ms) (simp_all add: share_def addressed_push)

lemma first_bodies_all:
  "distinct (map ssm_iMsgSeq ms) \<Longrightarrow> S \<inter> ssm_iMsgSeq ` set ms = {} \<Longrightarrow> first_bodies S ms = map ssm_strMsgBody ms"
  by (induction ms arbitrary: S) auto

text \<open>The numbers of a round, when fewer than \<open>2 ^ 31\<close> have been given: different, new and not \<open>-1\<close>.\<close>

lemma round_numbers:
  assumes "unat (sq :: i32) + length ms < 2 ^ 31"
  shows "distinct (map ssm_iMsgSeq (labelled sq ms))" "\<forall>m\<in>set (labelled sq ms). ssm_iMsgSeq m \<noteq> -1 \<and> unat sq \<le> unat (ssm_iMsgSeq m)"
proof -
  have u: "unat (sq + word_of_nat j) = unat sq + j" if "j < length ms" for j
    using assms that by (simp add: unat_word_ariths unat_of_nat)
  have "inj_on (\<lambda>j. sq + word_of_nat j) {0..<length ms}"
    by (rule inj_onI) (metis u add_left_cancel atLeastLessThan_iff)
  then show "distinct (map ssm_iMsgSeq (labelled sq ms))" unfolding labelled_seqs by (simp add: distinct_map)
  have m1: "unat (-1 :: i32) = 2 ^ 32 - 1" by (simp add: unsigned_minus_1_eq_mask mask_eq_exp_minus_1)
  show "\<forall>m\<in>set (labelled sq ms). ssm_iMsgSeq m \<noteq> -1 \<and> unat sq \<le> unat (ssm_iMsgSeq m)"
  proof
    fix m assume "m \<in> set (labelled sq ms)"
    then have "ssm_iMsgSeq m \<in> set (map ssm_iMsgSeq (labelled sq ms))" by simp
    then obtain j where j: "j < length ms" "ssm_iMsgSeq m = sq + word_of_nat j" unfolding labelled_seqs by auto
    have "unat (ssm_iMsgSeq m) \<noteq> unat (-1 :: i32)" using u [OF j(1)] j assms m1 by simp
    then show "ssm_iMsgSeq m \<noteq> -1 \<and> unat sq \<le> unat (ssm_iMsgSeq m)" using u [OF j(1)] j(2) by auto
  qed
qed

text \<open>What a consumer sends back for his messages.\<close>

definition acks_for :: "sever_store_message list \<Rightarrow> bytes" where
  "acks_for ms = concat (map (\<lambda>m. wire (new_ClientAckMessage CONSUMER_AUTO_ACK (ssm_iMsgSeq m))) ms)"

text \<open>What a consumer makes of his packets.\<close>

lemma consume_round:
  fixes C :: consumer
  assumes ps: "unat (sq :: i32) + length ms < 2 ^ 31" "\<forall>(q, m)\<in>set ms. mq_iConfirmLevel q = CONSUMER_AUTO_ACK \<and>
      21 + length (ssm_strMsgBody m) \<le> MAX_CLINT_PACKAGE_LENGTH \<and> 5 + length (ssm_strMsgBody m) \<le> length buf"
    and c: "ready (length (share p (labelled sq ms))) C" "input C = concat (packets (share p (labelled sq ms)))"
      "\<forall>x\<in>set (co_SeqSet C). unat x < unat sq"
  shows "\<exists>C'. consume_all (length (share p (labelled sq ms))) buf C = Some (map ssm_strMsgBody (share p (labelled sq ms)), C') \<and> input C' = [] \<and>
    cl_wire C' = cl_wire C @ acks_for (share p (labelled sq ms))"
proof -
  let ?ms = "share p (labelled sq ms)"
  note nums = round_numbers [OF ps(1)]
  have sub: "set ?ms \<subseteq> set (labelled sq ms)" by (auto simp: share_def)
  have d: "distinct (map ssm_iMsgSeq ?ms)" using nums(1) by (simp add: share_def distinct_map_filter)
  have new: "set (co_SeqSet C) \<inter> ssm_iMsgSeq ` set ?ms = {}" using c(3) nums(2) sub by fastforce
  have pushed: "\<forall>m\<in>set ?ms. pushed buf m"
  proof
    fix m assume "m \<in> set ?ms"
    then have m: "m \<in> set (labelled sq ms)" using sub by blast
    then obtain q m' where "(q, m') \<in> set ms" "ssm_iConfirmLevel m = mq_iConfirmLevel q" "ssm_strMsgBody m = ssm_strMsgBody m'"
      using labelled_members by blast
    then show "pushed buf m" using ps(2) nums(2) m by (fastforce simp: pushed_def client_fits_def)
  qed
  have inp: "input C = packets' @ []" if "packets' = concat (packets ?ms)" for packets' using c(2) that by simp
  from consume_stream [OF c(1) inp [OF refl] pushed] show ?thesis
    unfolding first_bodies_all [OF d new] acks_for_def by blast
qed

section \<open>From the queues to the applications\<close>

text \<open>What the subscribed queues have stored.\<close>

definition backlog :: "logic_server \<Rightarrow> bytes multiset" where
  "backlog s = (\<Sum>(n, a)\<leftarrow>m_mSubcribeQueues s. bodies (the (m_queues s a)))"

text \<open>The messages of a round of pushing.\<close>

definition pushes :: "logic_server \<Rightarrow> sever_store_message list" where
  "pushes s = labelled (m_iAckSeq s) (to_push s (m_mSubcribeQueues s))"

lemma push_room_mset: "push_room bs = (\<Sum>b\<in>#mset bs. 27 + length b)"
  unfolding push_room_def by (metis mset_map sum_mset_sum_list)

lemma backlog_handed_out:
  assumes "logic_inv s" "all_subscribed s (m_mSubcribeQueues s)"
  shows "mset (map (ssm_strMsgBody \<circ> snd) (to_push s (m_mSubcribeQueues s))) = backlog s"
    "length (to_push s (m_mSubcribeQueues s)) = size (backlog s)"
proof -
  show all: "mset (map (ssm_strMsgBody \<circ> snd) (to_push s (m_mSubcribeQueues s))) = backlog s"
    using to_push_bodies(1) [OF assms] by (simp only: backlog_def)
  show "length (to_push s (m_mSubcribeQueues s)) = size (backlog s)" using arg_cong [OF all, of size] by simp
qed

lemma handed_out_ok:
  assumes inv: "logic_inv s" "all_subscribed s (m_mSubcribeQueues s)" "\<forall>(n, a)\<in>set (m_mSubcribeQueues s). pushable (the (m_queues s a))"
    and subs: "\<forall>(n, a)\<in>set (m_mSubcribeQueues s). \<forall>c\<in>set (m_vSubscribeConsumers (the (m_queues s a))). \<exists>p\<in>clients. sint c = int p"
    and qm: "(q, m) \<in> set (to_push s (m_mSubcribeQueues s))"
  shows "mq_iConfirmLevel q = CONSUMER_AUTO_ACK" "21 + length (ssm_strMsgBody m) \<le> MAX_CLINT_PACKAGE_LENGTH"
    "ssm_strMsgBody m \<in># backlog s" "\<exists>p\<in>clients. sint (ssm_iIndex m) = int p"
proof -
  obtain n a where a: "(n, a) \<in> set (m_mSubcribeQueues s)" "m_queues s a = Some q" "ssm_strMsgBody m \<in># bodies q"
    "ssm_iIndex m \<in> set (m_vSubscribeConsumers q)"
    using to_push_bodies(2) [OF inv(1,2)] qm by blast
  have "pushable q" using inv(3) a by fastforce
  then show "mq_iConfirmLevel q = CONSUMER_AUTO_ACK" "21 + length (ssm_strMsgBody m) \<le> MAX_CLINT_PACKAGE_LENGTH"
    using a(3) by (simp_all add: pushable_def)
  show "\<exists>p\<in>clients. sint (ssm_iIndex m) = int p" using subs a by fastforce
  have "ssm_strMsgBody m \<in># mset (map (ssm_strMsgBody \<circ> snd) (to_push s (m_mSubcribeQueues s)))" using qm by force
  then show "ssm_strMsgBody m \<in># backlog s" unfolding backlog_handed_out(1) [OF inv(1,2)] .
qed

text \<open>A round of pushing, with the packets that it leaves in the ring.\<close>

lemma PushMessage_run:
  assumes inv: "logic_inv s" "all_subscribed s (m_mSubcribeQueues s)" "\<forall>(n, a)\<in>set (m_mSubcribeQueues s). pushable (the (m_queues s a))"
    and ring: "holds (m_pQueueToConnect s) []" "(\<Sum>b\<in>#backlog s. 27 + length b) \<le> capacity (m_pQueueToConnect s)"
  shows "\<exists>s'. PushMessage s = Some s' \<and> logic_inv s' \<and> backlog s' = {#} \<and> holds (m_pQueueToConnect s') (packets (pushes s)) \<and>
    m_NeedAckMessageList s' = m_NeedAckMessageList s @ pushes s"
proof -
  let ?l = "m_mSubcribeQueues s"
  have dist: "distinct (map fst ?l)" using core_invD(2) [OF logic_invD [OF inv(1)]] by blast
  have room: "used [] + push_room (map (ssm_strMsgBody \<circ> snd) (to_push s ?l)) \<le> capacity (m_pQueueToConnect s)"
    using ring(2) unfolding push_room_mset backlog_handed_out(1) [OF inv(1,2)] by (simp add: used_def)
  obtain s' where s': "push_loop ?l s = Some s'" "holds (m_pQueueToConnect s') (packets (pushes s))"
    "m_NeedAckMessageList s' = m_NeedAckMessageList s @ pushes s"
    using push_loop_run [OF inv(1) dist inv(2,3) ring(1) room] by (auto simp: pushes_def)
  have drained: "logic_inv s'" "m_mSubcribeQueues s' = ?l" "\<forall>(n, a)\<in>set ?l. \<exists>q. m_queues s' a = Some q \<and> IsEmpty q"
    using push_loop_effect [OF s'(1) inv(1) dist inv(2)] by blast+
  have "(\<Sum>(n, a)\<leftarrow>k. bodies (the (m_queues s' a))) = {#}" if "set k \<subseteq> set ?l" for k
    using that drained(3) by (induction k) (auto simp: bodies_def IsEmpty_stored)
  then have "backlog s' = {#}" by (simp add: backlog_def drained(2))
  with s' drained(1) show ?thesis by (auto simp: PushMessage_def)
qed

text \<open>A round of the connection server that delivers these packets.\<close>

lemma deliver_pushes:
  assumes ring: "holds (m_pQueueLogicToConnect cs) (packets ms)" "length ms \<le> 100"
    and ms: "\<forall>m\<in>set ms. ssm_iCmdId m = CMD_SERVER_PUSH_MESSAGE \<and> 21 + length (ssm_strMsgBody m) \<le> MAX_CLINT_PACKAGE_LENGTH"
    and connect: "server_inv cs" "\<forall>p. online cs p \<longrightarrow> pend_out cs p = []"
      "ri_events ri = []" "\<forall>a\<in>set (ri_net ri). answer_ok a" "200 \<le> length (ri_net ri)"
  shows "\<exists>t' cs' out. Connect_Run_round ri t cs = Some (t', cs', out) \<and> holds (m_pQueueLogicToConnect cs') [] \<and>
    (\<forall>p. online cs' p \<longrightarrow> sent_to p out = concat (packets (share p ms)))"
proof -
  have short: "\<forall>d\<in>set (packets ms). length d \<le> MAX_SERVER_PACKAGE_LENGTH" using ms by (fastforce simp: size_defs)
  have net: "2 * length (packets ms) \<le> length (ri_net ri)" using ring(2) connect(5) by simp
  obtain t' cs' out k where r: "Connect_Run_round ri t cs = Some (t', cs', out)" "k \<le> length (packets ms)"
    "k < length (packets ms) \<longrightarrow> 100 \<le> k" "holds (m_pQueueLogicToConnect cs') (drop k (packets ms))"
    "\<forall>p. online cs' p \<longrightarrow> sent_to p out = concat (filter (addressed p) (take k (packets ms)))"
    using round_run [OF connect(1,2) ring(1) short connect(3,4) net] by blast
  have "k = length ms" using r(2,3) ring(2) by auto
  moreover have "filter (addressed p) (packets ms) = packets (share p ms)" for p using ms by (intro filter_packets) blast
  ultimately show ?thesis using r(1,4,5) by (intro exI [of _ t'] exI [of _ cs'] exI [of _ out]) simp
qed


section \<open>Witness\<close>

text \<open>A queue with the body \<open>[65]\<close> and one subscriber, the client in slot 0.\<close>

definition w_stock :: message_queue where
  "w_stock = w_full_queue\<lparr>m_vSubscribeConsumers := [0]\<rparr>"

definition w_pushing :: logic_server where
  "w_pushing = Logic_Run.w_push\<lparr>m_queues := [0 \<mapsto> w_stock], m_iAckSeq := 5\<rparr>"

definition w_front :: connect_server where
  "w_front = \<lparr>m_iListenFd = 3, m_pClientConnectManager = w_pool, m_pQueueToLogicLayer = snd (Init True ShmCreated 400 ShmQueue_new),
     m_pQueueLogicToConnect = ShmQueue_new, cs_iSendCount = 0, cs_iRecvCount = 0\<rparr>"

lemma w_pushing_fields: "m_mSubcribeQueues w_pushing = [([113], 0)]" "m_queues w_pushing = [0 \<mapsto> w_stock]" "m_iAckSeq w_pushing = 5"
  "m_pQueueToConnect w_pushing = w_big"
  by (simp_all add: w_pushing_def Logic_Run.w_push_def)

lemma w_pushing_inv: "logic_inv w_pushing"
  using w_big_holds(1) w_ring_holds(1)
  by (auto simp: logic_inv_def core_inv_def w_pushing_def Logic_Run.w_push_def w_stock_def w_full_queue_def w_busy_def w_server_def new_LogicServer_def
      w_ring_ok new_Exchange_def size_defs bound_queues_def exchange_inv_def queue_inv_def new_MessageQueue_def w_msg_def shm_ok_def
      new_SeverStoreMessage_def pri_def split: if_split_asm)

lemma w_stock_facts: "IsSubscribe w_stock" "mq_strQueueName w_stock = [113]" "pushable w_stock" "bodies w_stock = {#[65]#}"
  "m_vSubscribeConsumers w_stock = [0]" "size (stored w_stock) = 1"
  by (simp_all add: w_stock_def w_full_queue_def new_MessageQueue_def IsSubscribe_def pushable_def bodies_def stored_def w_msg_def
      new_SeverStoreMessage_def size_defs CONSUMER_AUTO_ACK_def)

lemma w_pushes: "\<exists>m. pushes w_pushing = [m] \<and> share 0 [m] = [m] \<and> ssm_strMsgBody m = [65]"
proof -
  have "\<exists>m. handed_out w_stock = [m] \<and> ssm_strMsgBody m = [65] \<and> ssm_iIndex m = 0" unfolding handed_out_def w_stock_facts(6)
    by (simp add: PopFrontMsg_take_front w_stock_def w_full_queue_def new_MessageQueue_def IsSubscribe_def IsEmpty_def take_front_def w_msg_def
        new_SeverStoreMessage_def next_push_def)
  then show ?thesis by (auto simp: pushes_def w_pushing_fields share_def)
qed


end
