(* ===== verification/Confirm_Path.thy ===== *)
theory Confirm_Path
  imports Publish_Path Delivery_Path
begin

text \<open>
  The way back: the acknowledgements of the consumers through the connection server to the logic server, which stops waiting.
\<close>

section \<open>Acknowledgements in the logic server\<close>

definition ack_bytes :: "i32 \<Rightarrow> i32 \<Rightarrow> bytes" where
  "ack_bytes c sq = wire (ClientAckMessage c CMD_CLIENT_ACK_MESSAGE CONSUMER_AUTO_ACK sq)"

lemma length_ack_bytes [simp]: "length (ack_bytes c sq) = 13"
  by (simp add: ack_bytes_def)

lemma ack_bytes_fields: "pack_index (ack_bytes c sq) = c" "un_be32 (get_at (ack_bytes c sq) 9 4) = sq"
  by (simp_all add: ack_bytes_def pack_index_def wire_def get_at_def)

lemma stamp_ack: "stamp i (wire (new_ClientAckMessage CONSUMER_AUTO_ACK sq)) = ack_bytes i sq"
  by (simp add: ack_bytes_def new_ClientAckMessage_def stamp_def wire_def)

lemma without_first_subset: "set (without_first sq ms) \<subseteq> set ms"
  unfolding without_first_def
  by (metis Un_least list.set_sel(2) set_append set_dropWhileD set_takeWhileD subsetI tl_Nil)

text \<open>All packets of the ring.\<close>

lemma recv_acks:
  assumes "logic_inv s" "holds (m_pQueueFromConnect s) (map (\<lambda>(c, sq). ack_bytes c sq) xs)"
    and "\<forall>m\<in>set (m_NeedAckMessageList s). length (ssm_strQueueName m) \<le> MAX_NAME_LENGTH"
    and "length xs < rounds" "length xs < tries" "length buf = MAX_CLINT_PACKAGE_LENGTH"
  shows "\<exists>b s'. recv_loop tries rounds buf s = Some (b, s') \<and> logic_inv s' \<and> holds (m_pQueueFromConnect s') [] \<and>
    m_queues s' = m_queues s \<and> m_NeedAckMessageList s' = fold without_first (map snd xs) (m_NeedAckMessageList s)"
  using assms
proof (induction xs arbitrary: s tries rounds buf)
  case Nil
  obtain t r where tr: "tries = Suc t" "rounds = Suc r" using Nil.prems(4,5) by (cases tries; cases rounds) auto
  have "recv_loop tries rounds buf s = Some (buf, s\<lparr>m_pQueueFromConnect := m_pQueueFromConnect s\<rparr>)"
    using DequeueInto_empty [of "m_pQueueFromConnect s" buf "int MAX_CLINT_PACKAGE_LENGTH"] Nil.prems(2) by (simp add: tr)
  then show ?case using Nil.prems(1,2) by simp
next
  case (Cons x xs)
  obtain c sq where x: "x = (c, sq)" by (cases x)
  obtain t r where tr: "tries = Suc t" "rounds = Suc r" using Cons.prems(4,5) by (cases tries; cases rounds) auto
  let ?w = "ack_bytes c sq"
  have lw: "length ?w \<le> MAX_CLINT_PACKAGE_LENGTH" "length ?w \<le> length buf" using Cons.prems(6) by (simp_all add: size_defs)
  obtain q where q: "DequeueInto (m_pQueueFromConnect s) buf (int MAX_CLINT_PACKAGE_LENGTH) = Some (SUCCESS, put_at buf 0 ?w, 13, q)"
    "holds q (map (\<lambda>(c, sq). ack_bytes c sq) xs)"
    using DequeueInto_ok [of "m_pQueueFromConnect s" ?w "map (\<lambda>(c, sq). ack_bytes c sq) xs" "int MAX_CLINT_PACKAGE_LENGTH" buf] Cons.prems(2,6) lw
    by (auto simp: x)
  let ?s = "s\<lparr>m_pQueueFromConnect := q, m_iRecvCount := m_iRecvCount s + 1\<rparr>"
  have pad: "put_at buf 0 ?w = ?w @ drop 13 buf" by (simp add: put_at_def)
  obtain s1 where s1: "ProcessRecvData ?s (put_at buf 0 ?w) 13 (-1) = Some (SUCCESS, c, [], s1)" "m_queues s1 = m_queues s"
    "m_pQueueFromConnect s1 = q" "m_NeedAckMessageList s1 = without_first sq (m_NeedAckMessageList s)"
    using OnClientAck_removes_one [of ?s c CONSUMER_AUTO_ACK sq "drop 13 buf" "-1", folded ack_bytes_def] Cons.prems(1,3) unfolding pad by auto
  have inv: "logic_inv s1" using ProcessRecvData_keeps [OF _ s1(1)] Cons.prems(1) by simp
  have loop: "recv_loop tries rounds buf s = recv_loop t r (put_at buf 0 ?w) s1"
    using q(1) s1(1) by (simp add: tr send_reply_def SUCCESS_def ERR_SHM_QUEUE_EMPTY_def)
  have "\<forall>m\<in>set (m_NeedAckMessageList s1). length (ssm_strQueueName m) \<le> MAX_NAME_LENGTH"
    using Cons.prems(3) without_first_subset [of sq "m_NeedAckMessageList s"] unfolding s1(4) by blast
  moreover have "holds (m_pQueueFromConnect s1) (map (\<lambda>(c, sq). ack_bytes c sq) xs)" using q(2) s1(3) by simp
  moreover have "length (put_at buf 0 ?w) = MAX_CLINT_PACKAGE_LENGTH" using Cons.prems(6) lw by simp
  ultimately obtain b s' where s': "recv_loop t r (put_at buf 0 ?w) s1 = Some (b, s')" "logic_inv s'" "holds (m_pQueueFromConnect s') []"
    "m_queues s' = m_queues s1" "m_NeedAckMessageList s' = fold without_first (map snd xs) (m_NeedAckMessageList s1)"
    using Cons.IH [OF inv, of r t "put_at buf 0 ?w"] Cons.prems(4,5) tr by auto
  then show ?case using loop s1(2,4) by (simp add: x)
qed

lemma without_first_append: "sq \<notin> ssm_iMsgSeq ` set old \<Longrightarrow> without_first sq (old @ ms) = old @ without_first sq ms"
  unfolding without_first_def by (induction old) auto

lemma without_first_distinct:
  "distinct (map ssm_iMsgSeq ms) \<Longrightarrow> without_first sq ms = filter (\<lambda>m. ssm_iMsgSeq m \<noteq> sq) ms"
proof (induction ms)
  case (Cons m ms)
  show ?case
  proof (cases "ssm_iMsgSeq m = sq")
    case True
    then have "\<forall>x\<in>set ms. ssm_iMsgSeq x \<noteq> sq" using Cons.prems by (simp add: image_iff) metis
    then have "filter (\<lambda>m. ssm_iMsgSeq m \<noteq> sq) ms = ms" by (simp add: filter_id_conv)
    then show ?thesis using True by (simp add: without_first_def)
  qed (use Cons in \<open>simp add: without_first_def\<close>)
qed (simp add: without_first_def)

text \<open>Whatever the order in which they come, the acknowledgements take out just the messages they are for.\<close>

lemma fold_without_first:
  assumes "distinct (map ssm_iMsgSeq ms)" "set sqs \<inter> ssm_iMsgSeq ` set old = {}"
  shows "fold without_first sqs (old @ ms) = old @ filter (\<lambda>m. ssm_iMsgSeq m \<notin> set sqs) ms"
  using assms
proof (induction sqs arbitrary: ms)
  case (Cons sq sqs)
  have "fold without_first (sq # sqs) (old @ ms) = fold without_first sqs (old @ filter (\<lambda>m. ssm_iMsgSeq m \<noteq> sq) ms)"
    using Cons.prems without_first_append [of sq old ms] without_first_distinct [OF Cons.prems(1), of sq] by simp
  also have "\<dots> = old @ filter (\<lambda>m. ssm_iMsgSeq m \<notin> set sqs) (filter (\<lambda>m. ssm_iMsgSeq m \<noteq> sq) ms)"
    by (rule Cons.IH) (use Cons.prems in \<open>auto simp: distinct_map_filter\<close>)
  finally show ?case by (simp add: conj_commute)
qed simp

section \<open>From the consumers to the logic server\<close>

lemma ring_of_acks:
  assumes clients: "finite clients" "clients \<subseteq> {..<CLIENT_EPOLL_COUNT}" "set (map fst evs) \<subseteq> clients"
    and new: "\<forall>m\<in>set new. \<exists>p\<in>clients. sint (ssm_iIndex m) = int p"
    and streams: "\<forall>p\<in>clients. stream_of p evs = acks_for (share p new)"
  shows "\<exists>xs. snd (spec_events evs (\<lambda>_. [])) = map (\<lambda>(c, sq). ack_bytes c sq) xs \<and> mset (map snd xs) = mset (map ssm_iMsgSeq new)"
proof -
  let ?ds = "snd (spec_events evs (\<lambda>_. []))" and ?sq = "\<lambda>d. un_be32 (get_at d 9 4)"
  have small: "\<forall>e\<in>set evs. fst e < 2 ^ 31" using clients(2,3) by (force simp: size_defs)
  have parts: "packets_of p ?ds = map (\<lambda>m. ack_bytes (idx p) (ssm_iMsgSeq m)) (share p new)" if p: "p \<in> clients" for p
  proof -
    let ?ms = "map (\<lambda>m. new_ClientAckMessage CONSUMER_AUTO_ACK (ssm_iMsgSeq m)) (share p new)"
    have "p < 2 ^ 31" using clients(2) p by (auto simp: size_defs)
    then have "packets_of p ?ds = map (stamp (idx p)) (fst (split_stream (stream_of p evs)))"
      using spec_events_stream [OF small, of p "\<lambda>_. []"] by (simp add: next_len_def)
    also have "split_stream (stream_of p evs) = split_stream (concat (map wire ?ms) @ [])"
      using streams p by (simp only: acks_for_def map_map o_def append_Nil2)
    also have "\<dots> = (map wire ?ms, [])"
      by (rule split_stream_wires) (simp_all add: next_len_def new_ClientAckMessage_def)
    finally show ?thesis by (simp add: stamp_ack o_def)
  qed
  have of: "\<forall>d\<in>set ?ds. \<exists>p\<in>clients. pack_index d = idx p" by (rule spec_events_clients [OF clients(3)])
  have ack: "ack_bytes (pack_index d) (?sq d) = d" if d: "d \<in> set ?ds" for d
  proof -
    obtain p where p: "p \<in> clients" "pack_index d = idx p" using bspec [OF of d] by (elim bexE)
    then have "d \<in> set (packets_of p ?ds)" using d by (simp add: packets_of_def)
    then show ?thesis using parts [OF p(1)] by (auto simp: ack_bytes_fields)
  qed
  let ?xs = "map (\<lambda>d. (pack_index d, ?sq d)) ?ds"
  have "?ds = map (\<lambda>(c, sq). ack_bytes c sq) ?xs" using ack by (simp add: o_def map_idI)
  moreover have "mset (map ?sq ?ds) = (\<Sum>p\<in>clients. mset (map ?sq (packets_of p ?ds)))"
    using sum_by_key [OF clients(1) idx_inj [OF clients(2)] of, of "\<lambda>d. {#?sq d#}"] unfolding mset_sum packets_of_def .
  moreover have "\<dots> = (\<Sum>p\<in>clients. mset (map ssm_iMsgSeq (share p new)))"
    by (rule sum.cong) (simp_all add: parts o_def ack_bytes_fields)
  moreover have "\<dots> = mset (map ssm_iMsgSeq new)" by (rule share_sum [OF clients(1) new])
  ultimately show ?thesis by (intro exI [of _ ?xs]) (simp add: o_def)
qed

text \<open>C4. What the consumers acknowledge the server forgets, and nothing else. The consumers acknowledge all messages of a round of pushing, each over
  his own connection; the network cuts and mixes their streams; the connection server handles the pieces and the
  logic server then handles its ring. Then everything has returned, the ring is empty, none of these messages is waiting any more,
  in whatever order the acknowledgements have come, while older messages wait as before and the queues are untouched.\<close>

theorem acknowledged_messages_forgotten:
  assumes clients: "finite clients" "clients \<subseteq> {..<CLIENT_EPOLL_COUNT}" "\<forall>m\<in>set new. \<exists>p\<in>clients. sint (ssm_iIndex m) = int p"
    and network: "set (map fst evs) \<subseteq> clients" "recv_fits evs (\<lambda>_. [])" "\<forall>p\<in>clients. stream_of p evs = acks_for (share p new)"
    and connect: "server_holds cs clients (\<lambda>_. []) []" "27 * length new \<le> capacity (m_pQueueToLogicLayer cs)"
    and logic: "logic_inv s" "m_NeedAckMessageList s = old @ new" "length new < 800"
      "distinct (map ssm_iMsgSeq new)" "ssm_iMsgSeq ` set new \<inter> ssm_iMsgSeq ` set old = {}"
      "\<forall>m\<in>set (old @ new). length (ssm_strQueueName m) \<le> MAX_NAME_LENGTH"
  shows "\<exists>cs' b s'. ProcessEpollData (map (\<lambda>(p, d). data_event p d) evs) cs = Some cs' \<and>
    recv_loop 800 800 (replicate MAX_CLINT_PACKAGE_LENGTH 0) (s\<lparr>m_pQueueFromConnect := m_pQueueToLogicLayer cs'\<rparr>) = Some (b, s') \<and>
    logic_inv s' \<and> holds (m_pQueueFromConnect s') [] \<and> m_NeedAckMessageList s' = old \<and> m_queues s' = m_queues s"
proof -
  obtain xs where xs: "snd (spec_events evs (\<lambda>_. [])) = map (\<lambda>(c, sq). ack_bytes c sq) xs" "mset (map snd xs) = mset (map ssm_iMsgSeq new)"
    using ring_of_acks [OF clients(1,2) network(1) clients(3) network(3)] by blast
  have len: "length xs = length new" using arg_cong [OF xs(2), of size] by simp
  have same: "set (map snd xs) = ssm_iMsgSeq ` set new" using arg_cong [OF xs(2), of set_mset] by simp
  have "used (map (\<lambda>(c, sq). ack_bytes c sq) xs) = 27 * length xs" by (induction xs) (auto simp: used_def)
  then have room: "used [] + used (snd (spec_events evs (\<lambda>_. []))) \<le> capacity (m_pQueueToLogicLayer cs)"
    using connect(2) len unfolding xs(1) by (simp add: used_def)
  obtain cs' where cs': "ProcessEpollData (map (\<lambda>(p, d). data_event p d) evs) cs = Some cs'"
    "holds (m_pQueueToLogicLayer cs') (map (\<lambda>(c, sq). ack_bytes c sq) xs)"
    using events_refine [OF connect(1) network(1,2) room] unfolding xs(1) by (auto simp: server_holds_def)
  let ?s = "s\<lparr>m_pQueueFromConnect := m_pQueueToLogicLayer cs'\<rparr>"
  obtain b s' where s': "recv_loop 800 800 (replicate MAX_CLINT_PACKAGE_LENGTH 0) ?s = Some (b, s')" "logic_inv s'"
    "holds (m_pQueueFromConnect s') []" "m_queues s' = m_queues s"
    "m_NeedAckMessageList s' = fold without_first (map snd xs) (old @ new)"
    using recv_acks [of ?s xs 800 800 "replicate MAX_CLINT_PACKAGE_LENGTH 0"] logic(1,2,3,6) cs'(2) len by auto
  have "fold without_first (map snd xs) (old @ new) = old @ filter (\<lambda>m. ssm_iMsgSeq m \<notin> set (map snd xs)) new"
    by (rule fold_without_first) (use logic(4,5) same in simp_all)
  moreover have "filter (\<lambda>m. ssm_iMsgSeq m \<notin> set (map snd xs)) new = []" unfolding same by (simp add: filter_empty_conv)
  ultimately show ?thesis using cs'(1) s' by auto
qed

section \<open>Witness\<close>

text \<open>Two clients have one message each; the acknowledgement of the second comes in two pieces around the other.\<close>

definition w_waiting :: "sever_store_message list" where
  "w_waiting = [Logic_Leave.w_msg 1 5, Logic_Leave.w_msg 2 6]"

definition w_back :: "(nat \<times> bytes) list" where
  "w_back = [(2, take 3 (acks_for (share 2 w_waiting))), (1, acks_for (share 1 w_waiting)), (2, drop 3 (acks_for (share 2 w_waiting)))]"

lemma w_back_split:
  "split_stream (take 3 (acks_for (share 2 w_waiting))) = ([], take 3 (acks_for (share 2 w_waiting)))"
  "split_stream (acks_for (share 2 w_waiting)) = ([acks_for (share 2 w_waiting)], [])"
  "split_stream (acks_for (share 1 w_waiting)) = ([acks_for (share 1 w_waiting)], [])"
  "length (acks_for (share 2 w_waiting)) = 13" "length (acks_for (share 1 w_waiting)) = 13"
  by code_simp+

lemma w_back_fits: "recv_fits w_back (\<lambda>_. [])"
proof -
  have "0 < length (take 3 (acks_for (share 2 w_waiting)))" "0 < length (drop 3 (acks_for (share 2 w_waiting)))"
    "0 < length (acks_for (share 1 w_waiting))"
    unfolding length_take length_drop w_back_split by simp_all
  then have "take 3 (acks_for (share 2 w_waiting)) \<noteq> []" "drop 3 (acks_for (share 2 w_waiting)) \<noteq> []" "acks_for (share 1 w_waiting) \<noteq> []"
    by (simp_all only: length_greater_0_conv not_False_eq_True)
  then show ?thesis using w_back_split by (simp add: w_back_def SERVER_BUFFER_SIZE_def del: take_eq_Nil drop_eq_Nil)
qed

theorem acknowledged_messages_forgotten_witness:
  "\<exists>cs' b s'. ProcessEpollData (map (\<lambda>(p, d). data_event p d) w_back) w_connect = Some cs' \<and>
     recv_loop 800 800 (replicate MAX_CLINT_PACKAGE_LENGTH 0) (w_busy\<lparr>m_pQueueFromConnect := m_pQueueToLogicLayer cs'\<rparr>) = Some (b, s') \<and>
     m_NeedAckMessageList s' = []"
proof -
  have clients: "finite {1 :: nat, 2}" "{1, 2} \<subseteq> {..<CLIENT_EPOLL_COUNT}"
    "\<forall>m\<in>set w_waiting. \<exists>p\<in>{1 :: nat, 2}. sint (ssm_iIndex m) = int p"
    by (simp_all add: size_defs w_waiting_def Logic_Leave.w_msg_def)
  have network: "set (map fst w_back) \<subseteq> {1, 2}" "\<forall>p\<in>{1, 2}. stream_of p w_back = acks_for (share p w_waiting)"
    by (simp_all add: w_back_def stream_of_def)
  have cap: "27 * length w_waiting \<le> capacity (m_pQueueToLogicLayer w_connect)"
    using Init_holds [of 400 ShmQueue_new] by (auto simp: w_connect_def w_waiting_def)
  have logic: "m_NeedAckMessageList w_busy = [] @ w_waiting" "length w_waiting < 800" "distinct (map ssm_iMsgSeq w_waiting)"
    "ssm_iMsgSeq ` set w_waiting \<inter> ssm_iMsgSeq ` set [] = {}"
    "\<forall>m\<in>set ([] @ w_waiting). length (ssm_strQueueName m) \<le> MAX_NAME_LENGTH"
    by (simp_all add: w_waiting_def Logic_Leave.w_msg_def size_defs)
  from acknowledged_messages_forgotten [OF clients network(1) w_back_fits network(2) w_connect_holds cap w_busy_inv logic]
  show ?thesis by blast
qed

end
