(* ===== verification/Ini_File.thy ===== *)
theory Ini_File
  imports File_Sys
begin

text \<open>
  The reader of configuration files, \<^verbatim>\<open>ini_file/ini_file.cpp\<close>: the class \<^verbatim>\<open>CIniFile\<close> with its buffer, and the search for a value.
  A pointer into the buffer is an offset. Reading behind the buffer, and a loop that does not end, is \<open>None\<close>. The parts of
  the C library that it uses are modelled by what the standard says of them; what it leaves undefined is \<open>None\<close>.
\<close>

section \<open>Strings\<close>

text \<open>The first place where \<open>pat\<close> occurs.\<close>

fun first_occ :: "bytes \<Rightarrow> bytes \<Rightarrow> nat option" where
  "first_occ pat s =
     (if take (length pat) s = pat then Some 0
      else case s of [] \<Rightarrow> None | _ # s' \<Rightarrow> map_option Suc (first_occ pat s'))"

declare first_occ.simps [simp del]

definition strstr :: "bytes \<Rightarrow> nat \<Rightarrow> bytes \<Rightarrow> nat option option" where
  "strstr b p pat = do { s \<leftarrow> cstr (drop p b); Some (map_option ((+) p) (first_occ pat s)) }"

definition strncpy :: "bytes \<Rightarrow> bytes \<Rightarrow> int \<Rightarrow> bytes option" where
  "strncpy dst src n = (if n < 0 then None else mem_write dst 0 (take (nat n) (src @ replicate (nat n) 0)))"

definition char_at :: "bytes \<Rightarrow> nat \<Rightarrow> byte option" where
  "char_at b p = (if p < length b then Some (b ! p) else None)"

definition blank :: "byte \<Rightarrow> bool" where
  "blank c \<longleftrightarrow> c = 32 \<or> c = 9 \<or> c = 13 \<or> c = 10"

text \<open>The loop from the right clears blanks, the one from the left counts them.\<close>

fun trim_right :: "nat \<Rightarrow> bytes \<Rightarrow> bytes" where
  "trim_right 0 s = s"
| "trim_right (Suc n) s = (if blank (s ! n) then trim_right n (s[n := 0]) else s)"

fun left_start :: "nat \<Rightarrow> nat \<Rightarrow> bytes \<Rightarrow> nat" where
  "left_start 0 n s = n"
| "left_start (Suc k) n s = (if blank (s ! n) then left_start k (Suc n) s else n)"

definition TrimString :: "bytes \<Rightarrow> bytes option" where
  "TrimString szString = do {
     str \<leftarrow> cstr szString;
     let iLen = length str;
     if iLen = 0 then Some szString
     else do {
       let szString = trim_right iLen szString;
       str \<leftarrow> cstr szString;
       let iLen = length str;
       if iLen = 0 then Some szString
       else do {
         let n = left_start iLen 0 szString;
         if n = 0 then Some szString
         else memcpy szString 0 szString (int n) (int iLen - int n + 1) } } }"

section \<open>The class\<close>

definition E_INI_FILE :: int where "E_INI_FILE = -401"

record ini_file =
  m_szBuffer :: "bytes option"
  m_iSize :: int

text \<open>\<open>dir_size\<close> is what \<^verbatim>\<open>stat\<close> says of a directory; it can be opened, but not be read.\<close>

definition new_CIniFile :: "int \<Rightarrow> file_sys \<Rightarrow> bytes \<Rightarrow> ini_file" where
  "new_CIniFile dir_size fs szIniFile =
     (case stat fs szIniFile of
        None \<Rightarrow> \<lparr>m_szBuffer = None, m_iSize = 0\<rparr>
      | Some Dir \<Rightarrow> \<lparr>m_szBuffer = None, m_iSize = cint dir_size\<rparr>
      | Some (Reg d) \<Rightarrow>
          (let n = cint (int (length d))
           in if n \<le> 0 then \<lparr>m_szBuffer = None, m_iSize = n\<rparr>
              else \<lparr>m_szBuffer = Some (get_at d 0 (nat n) @ [0]), m_iSize = n\<rparr>))"

definition IsValid :: "ini_file \<Rightarrow> bool" where
  "IsValid ini \<longleftrightarrow> m_szBuffer ini \<noteq> None \<and> 0 < m_iSize ini"

section \<open>Looking up\<close>

text \<open>The loop that looks for the section: the error, or the place to go on from.\<close>

partial_function (option) find_section :: "bytes \<Rightarrow> nat \<Rightarrow> bytes \<Rightarrow> nat \<Rightarrow> nat option option" where
  "find_section b iSize szSection pszTemp =
     (if pszTemp < iSize then do {
        pos \<leftarrow> strstr b pszTemp szSection;
        case pos of
          None \<Rightarrow> Some None
        | Some pszSection \<Rightarrow>
            if pszSection = 0 then Some None
            else do {
              before \<leftarrow> char_at b (pszSection - 1);
              behind \<leftarrow> char_at b (pszSection + length szSection);
              if before \<noteq> 91 \<or> behind \<noteq> 93 then find_section b iSize szSection (pszSection + length szSection)
              else if 1 < pszSection then do {
                c \<leftarrow> char_at b (pszSection - 2);
                if c \<noteq> 10 then find_section b iSize szSection (pszSection + length szSection)
                else Some (Some pszSection) }
              else Some (Some pszSection) } }
      else Some (Some pszTemp))"

text \<open>The loop that looks for the start of the next section.\<close>

partial_function (option) next_section :: "bytes \<Rightarrow> nat \<Rightarrow> nat option option" where
  "next_section b pszTestSection = do {
     pos \<leftarrow> strstr b pszTestSection [91];
     case pos of
       None \<Rightarrow> Some None
     | Some pszNextSection \<Rightarrow> do {
         c \<leftarrow> (if pszNextSection = 0 then None else char_at b (pszNextSection - 1));
         if c = 10 then Some (Some pszNextSection) else next_section b (pszNextSection + 1) } }"

text \<open>The loop that copies the value, over the characters from \<open>pszValue[n]\<close> on; \<open>first\<close> is \<open>n = 0\<close>.\<close>

fun copy_value :: "bytes \<Rightarrow> bool \<Rightarrow> nat \<Rightarrow> int \<Rightarrow> bytes \<Rightarrow> (nat \<times> bytes) option" where
  "copy_value [] first iPos iValueLen szValue = (if int iPos < iValueLen - 1 then None else Some (iPos, szValue))"
| "copy_value (c # cs) first iPos iValueLen szValue =
     (if \<not> int iPos < iValueLen - 1 \<or> c = 13 \<or> c = 10 \<or> c = 0 then Some (iPos, szValue)
      else if (c = 32 \<or> c = 9) \<and> iPos = 0 then copy_value cs False iPos iValueLen szValue
      else if c = 59 then
        (if first then Some (iPos, szValue)
         else case cs of
           [] \<Rightarrow> None
         | d # ds \<Rightarrow>
             if d = 59 then do { szValue \<leftarrow> mem_write szValue iPos [c]; copy_value ds False (iPos + 1) iValueLen szValue }
             else Some (iPos, szValue))
      else do { szValue \<leftarrow> mem_write szValue iPos [c]; copy_value cs False (iPos + 1) iValueLen szValue })"

text \<open>The loop that looks for the item in front of \<open>pszNextSection\<close>: the result and the buffer of the caller.\<close>

partial_function (option) find_item ::
  "bytes \<Rightarrow> nat \<Rightarrow> bytes \<Rightarrow> nat \<Rightarrow> nat \<Rightarrow> bytes \<Rightarrow> int \<Rightarrow> (int \<times> bytes) option" where
  "find_item b iSize szItem pszNextSection pszTemp szValue iValueLen =
     (if pszTemp < iSize then do {
        pos \<leftarrow> strstr b pszTemp szItem;
        case pos of
          None \<Rightarrow> Some (E_INI_FILE, szValue)
        | Some pszItem \<Rightarrow>
            if pszNextSection \<le> pszItem then Some (E_INI_FILE, szValue)
            else do {
              before \<leftarrow> (if pszItem = 0 then None else char_at b (pszItem - 1));
              if before \<noteq> 10 then find_item b iSize szItem pszNextSection (pszItem + length szItem) szValue iValueLen
              else do {
                behind \<leftarrow> char_at b (pszItem + length szItem);
                if behind \<noteq> 32 \<and> behind \<noteq> 61 \<and> behind \<noteq> 9
                then find_item b iSize szItem pszNextSection (pszItem + length szItem) szValue iValueLen
                else do {
                  pos \<leftarrow> strstr b pszItem [61];
                  case pos of
                    None \<Rightarrow> Some (E_INI_FILE, szValue)
                  | Some pszValue \<Rightarrow>
                      (let pszValue = pszValue + 1
                       in if iSize \<le> pszValue then Some (E_INI_FILE, szValue)
                          else do {
                            (iPos, szValue) \<leftarrow> copy_value (drop pszValue b) True 0 iValueLen szValue;
                            szValue \<leftarrow> mem_write szValue iPos [0];
                            Some (SUCCESS, szValue) }) } } } }
      else Some (SUCCESS, szValue))"

definition GetString :: "ini_file \<Rightarrow> bytes \<Rightarrow> bytes \<Rightarrow> bytes \<Rightarrow> bytes \<Rightarrow> int \<Rightarrow> (int \<times> bytes) option" where
  "GetString ini szSection szItem szDefault szValue iValueLen = do {
     szValue \<leftarrow> strncpy szValue szDefault iValueLen;
     if \<not> IsValid ini then Some (E_INI_FILE, szValue)
     else do {
       b \<leftarrow> m_szBuffer ini;
       let iSize = nat (m_iSize ini);
       sec \<leftarrow> find_section b iSize szSection 0;
       case sec of
         None \<Rightarrow> Some (E_INI_FILE, szValue)
       | Some pszTemp \<Rightarrow> do {
           next \<leftarrow> next_section b pszTemp;
           let pszNextSection = (case next of None \<Rightarrow> iSize | Some p \<Rightarrow> p);
           (ret, szValue) \<leftarrow> find_item b iSize szItem pszNextSection pszTemp szValue iValueLen;
           if ret \<noteq> SUCCESS then Some (ret, szValue)
           else do { szValue \<leftarrow> TrimString szValue; Some (SUCCESS, szValue) } } } }"

section \<open>Numbers\<close>

definition is_space :: "byte \<Rightarrow> bool" where
  "is_space c \<longleftrightarrow> c = 32 \<or> 9 \<le> c \<and> c \<le> 13"

definition digit_val :: "nat \<Rightarrow> byte \<Rightarrow> nat option" where
  "digit_val base c =
     (let v = (if 48 \<le> c \<and> c \<le> 57 then unat c - 48 else if 97 \<le> c \<and> c \<le> 122 then unat c - 87
               else if 65 \<le> c \<and> c \<le> 90 then unat c - 55 else base)
      in if v < base then Some v else None)"

fun digits_of :: "nat \<Rightarrow> bytes \<Rightarrow> nat list" where
  "digits_of base [] = []"
| "digits_of base (c # cs) = (case digit_val base c of None \<Rightarrow> [] | Some v \<Rightarrow> v # digits_of base cs)"

text \<open>The sign and the digits behind the white space.\<close>

definition scan_number :: "nat \<Rightarrow> bytes \<Rightarrow> bool \<times> nat list" where
  "scan_number base s =
     (let s = dropWhile is_space s;
          neg = (s \<noteq> [] \<and> hd s = 45);
          s = (if s \<noteq> [] \<and> (hd s = 45 \<or> hd s = 43) then tl s else s);
          s = (if base = 16 \<and> (take 2 s = [48, 120] \<or> take 2 s = [48, 88]) then drop 2 s else s)
      in (neg, digits_of base s))"

definition num_val :: "nat \<Rightarrow> nat list \<Rightarrow> nat" where
  "num_val base ds = foldl (\<lambda>n d. base * n + d) 0 ds"

text \<open>\<^verbatim>\<open>atoi\<close>, and \<^verbatim>\<open>sscanf\<close> with \<^verbatim>\<open>%x\<close>: undefined when the number does not fit. Without digits \<^verbatim>\<open>sscanf\<close> stores nothing.\<close>

definition atoi :: "bytes \<Rightarrow> i32 option" where
  "atoi s = (let (neg, ds) = scan_number 10 s; v = (if neg then - int (num_val 10 ds) else int (num_val 10 ds))
     in if - (2 ^ 31) \<le> v \<and> v < 2 ^ 31 then Some (word_of_int v) else None)"

definition scan_hex :: "bytes \<Rightarrow> i32 \<Rightarrow> i32 option" where
  "scan_hex s old = (let (neg, ds) = scan_number 16 s; v = num_val 16 ds
     in if ds = [] then Some old else if 2 ^ 32 \<le> v then None
        else Some (if neg then - word_of_nat v else word_of_nat v))"

text \<open>\<^verbatim>\<open>strtoull\<close> stops at the largest number.\<close>

definition strtoull :: "bytes \<Rightarrow> 64 word" where
  "strtoull s = (let (neg, ds) = scan_number 10 s; v = num_val 10 ds
     in if 2 ^ 64 \<le> v then -1 else if neg then - word_of_nat v else word_of_nat v)"

definition GetInt :: "ini_file \<Rightarrow> bytes \<Rightarrow> bytes \<Rightarrow> i32 \<Rightarrow> i32 \<Rightarrow> (int \<times> i32) option" where
  "GetInt ini szSection szItem iDefault piValue =
     (if \<not> IsValid ini then Some (E_INI_FILE, piValue)
      else do {
        (ret, szInt) \<leftarrow> GetString ini szSection szItem [] (replicate 32 0) 32;
        if ret \<noteq> 0 then Some (E_INI_FILE, iDefault)
        else do {
          s \<leftarrow> cstr szInt;
          v \<leftarrow> (if take 2 s = [48, 120] \<or> take 2 s = [48, 88] then scan_hex (drop 2 s) piValue else atoi s);
          Some (SUCCESS, v) } })"

definition GetULongLong :: "ini_file \<Rightarrow> bytes \<Rightarrow> bytes \<Rightarrow> 64 word \<Rightarrow> 64 word \<Rightarrow> (int \<times> 64 word) option" where
  "GetULongLong ini szSection szItem ullDefault pullValue =
     (if \<not> IsValid ini then Some (E_INI_FILE, pullValue)
      else do {
        (ret, szULongLong) \<leftarrow> GetString ini szSection szItem [] (replicate 32 0) 32;
        if ret \<noteq> 0 then Some (E_INI_FILE, ullDefault)
        else do {
          s \<leftarrow> cstr szULongLong;
          Some (SUCCESS, strtoull s) } })"

end
