(* ===== verification/Ini_Lookup.thy ===== *)
theory Ini_Lookup
  imports Ini_File
begin

text \<open>
  The search through the buffer finds what a reader of the file, line by line, would find.
\<close>

section \<open>Occurrences\<close>

definition occ :: "bytes \<Rightarrow> bytes \<Rightarrow> nat \<Rightarrow> bool" where
  "occ t pat p \<longleftrightarrow> take (length pat) (drop p t) = pat"

text \<open>\<open>p\<close> is the first occurrence from \<open>q\<close> on.\<close>

definition first_from :: "bytes \<Rightarrow> bytes \<Rightarrow> nat \<Rightarrow> nat \<Rightarrow> bool" where
  "first_from t pat q p \<longleftrightarrow> q \<le> p \<and> occ t pat p \<and> (\<forall>r. q \<le> r \<and> r < p \<longrightarrow> \<not> occ t pat r)"

lemma occ_bound: "occ t pat p \<Longrightarrow> pat \<noteq> [] \<Longrightarrow> p + length pat \<le> length t"
proof -
  assume "occ t pat p" "pat \<noteq> []"
  then have "length (take (length pat) (drop p t)) = length pat" by (simp add: occ_def)
  then show ?thesis using \<open>pat \<noteq> []\<close> by (cases pat) auto
qed

lemma occ_nth: "occ t pat p \<Longrightarrow> pat \<noteq> [] \<Longrightarrow> i < length pat \<Longrightarrow> t ! (p + i) = pat ! i"
proof -
  assume o: "occ t pat p" "pat \<noteq> []" "i < length pat"
  have "pat ! i = take (length pat) (drop p t) ! i" using o(1) by (simp add: occ_def)
  then show ?thesis using o(3) occ_bound [OF o(1,2)] by simp
qed

lemma first_occ_cases:
  "case first_occ pat s of
     Some i \<Rightarrow> occ s pat i \<and> (\<forall>j<i. \<not> occ s pat j)
   | None \<Rightarrow> \<forall>j. \<not> occ s pat j \<or> pat = []"
proof (induction s)
  case Nil
  have "first_occ pat [] = (if pat = [] then Some 0 else None)" by (simp add: first_occ.simps [of pat "[]"])
  then show ?case by (simp add: occ_def)
next
  case (Cons c s)
  have shift: "occ (c # s) pat (Suc j) = occ s pat j" for j by (simp add: occ_def)
  show ?case
  proof (cases "take (length pat) (c # s) = pat")
    case True
    then show ?thesis by (simp add: first_occ.simps [of pat "c # s"] occ_def)
  next
    case False
    then have zero: "\<not> occ (c # s) pat 0" by (simp add: occ_def)
    show ?thesis
    proof (cases "first_occ pat s")
      case None
      have "\<not> occ (c # s) pat j \<or> pat = []" for j using Cons None zero shift by (cases j) auto
      then show ?thesis using False None by (simp add: first_occ.simps [of pat "c # s"])
    next
      case (Some i)
      have "\<not> occ (c # s) pat j" if "j < Suc i" for j using Cons Some zero shift that by (cases j) auto
      then show ?thesis using False Some Cons shift by (simp add: first_occ.simps [of pat "c # s"])
    qed
  qed
qed

lemma occ_drop: "q \<le> length t \<Longrightarrow> occ (drop q t) pat i = occ t pat (q + i)"
  by (simp add: occ_def add.commute)

lemma strstr_cases:
  assumes "0 \<notin> set t" "q \<le> length t" "pat \<noteq> []"
  obtains (none) "strstr (t @ [0]) q pat = Some None" "\<And>r. q \<le> r \<Longrightarrow> \<not> occ t pat r"
    | (some) p where "strstr (t @ [0]) q pat = Some (Some p)" "first_from t pat q p"
proof -
  have str: "cstr (drop q (t @ [0])) = Some (drop q t)"
  proof -
    have "0 \<notin> set (drop q t)" using assms(1) by (meson in_set_dropD)
    moreover have "takeWhile (\<lambda>c. c \<noteq> 0) (xs @ [0]) = xs" if "0 \<notin> set xs" for xs :: bytes
      using that by (induction xs) auto
    ultimately have "takeWhile (\<lambda>c. c \<noteq> 0) (drop q t @ [0]) = drop q t" by blast
    then show ?thesis using assms(2) by (simp add: cstr_def)
  qed
  show ?thesis
  proof (cases "first_occ pat (drop q t)")
    case None
    have "\<not> occ t pat r" if "q \<le> r" for r
      using first_occ_cases [where pat = pat and s = "drop q t"] None assms(2,3) occ_drop [of q t pat "r - q"] that by simp
    then show ?thesis using str None by (intro none) (simp_all add: strstr_def)
  next
    case (Some i)
    have *: "occ (drop q t) pat i" "\<forall>j<i. \<not> occ (drop q t) pat j" using first_occ_cases [where pat = pat and s = "drop q t"] Some by simp_all
    have "\<not> occ t pat r" if "q \<le> r" "r < q + i" for r
      using *(2) [rule_format, of "r - q"] occ_drop [OF assms(2), of pat "r - q"] that by simp
    then have "first_from t pat q (q + i)" using *(1) occ_drop [OF assms(2)] by (simp add: first_from_def)
    then show ?thesis using str Some by (intro some) (simp_all add: strstr_def)
  qed
qed

lemma first_from_ex:
  assumes "q \<le> p" "occ t pat p"
  obtains r where "first_from t pat q r" "r \<le> p"
proof -
  let ?P = "\<lambda>r. q \<le> r \<and> occ t pat r"
  have "\<exists>r. ?P r" using assms by blast
  then obtain r where r: "?P r" "\<forall>i<r. \<not> ?P i" using exists_least_iff [of ?P] by blast
  have "r \<le> p" using r(2) assms by (meson not_le)
  moreover have "first_from t pat q r" using r by (simp add: first_from_def)
  ultimately show ?thesis using that by blast
qed

lemma first_from_unique: "first_from t pat q p \<Longrightarrow> first_from t pat q p' \<Longrightarrow> p = p'"
  by (meson first_from_def linorder_neqE_nat)

lemma strstr_first:
  assumes "0 \<notin> set t" "pat \<noteq> []" "first_from t pat q p"
  shows "strstr (t @ [0]) q pat = Some (Some p)" "q < length t"
proof -
  have "q \<le> p" "occ t pat p" using assms(3) by (simp_all add: first_from_def)
  moreover have "0 < length pat" using assms(2) by simp
  ultimately show q: "q < length t" using occ_bound [of t pat p] assms(2) by linarith
  then have "q \<le> length t" by simp
  then show "strstr (t @ [0]) q pat = Some (Some p)"
    using strstr_cases [OF assms(1) _ assms(2), of q] assms(3) first_from_unique first_from_def by metis
qed

lemma strstr_none:
  assumes "0 \<notin> set t" "pat \<noteq> []" "q \<le> length t" "\<And>r. q \<le> r \<Longrightarrow> \<not> occ t pat r"
  shows "strstr (t @ [0]) q pat = Some None"
  using strstr_cases [OF assms(1,3,2)] assms(4) first_from_def by metis

section \<open>The search loops\<close>

text \<open>
  All three loops have the same shape: they go from one occurrence to the next until one is good or lies behind the limit.
\<close>

lemma scan_found:
  assumes pat: "pat \<noteq> []"
    and hit: "\<And>q p. first_from t pat q p \<Longrightarrow> q0 \<le> q \<Longrightarrow> p < lim \<Longrightarrow> good p \<Longrightarrow> f q = found p"
    and skip: "\<And>q p. first_from t pat q p \<Longrightarrow> q0 \<le> q \<Longrightarrow> p < lim \<Longrightarrow> \<not> good p \<Longrightarrow> f q = f (p + length pat)"
    and apart: "\<And>r p. occ t pat r \<Longrightarrow> good p \<Longrightarrow> r < p \<Longrightarrow> r + length pat \<le> p"
    and p: "q0 \<le> q" "q \<le> p" "occ t pat p" "good p" "p < lim" "\<And>r. q \<le> r \<Longrightarrow> r < p \<Longrightarrow> occ t pat r \<Longrightarrow> \<not> good r"
  shows "f q = found p"
  using p(1,2,6)
proof (induction "p - q" arbitrary: q rule: less_induct)
  case less
  obtain r where first: "first_from t pat q r" and r3: "r \<le> p" using first_from_ex [OF less.prems(2) p(3)] .
  then have r: "q \<le> r" "occ t pat r" "r \<le> p" by (simp_all add: first_from_def)
  show ?case
  proof (cases "r = p")
    case True
    then show ?thesis using hit [OF first less.prems(1)] p(4,5) by simp
  next
    case False
    then have rp: "r < p" using r(3) by simp
    have bad: "\<not> good r" using less.prems(3) [OF r(1) rp r(2)] .
    have f: "f q = f (r + length pat)" using skip [OF first less.prems(1) _ bad] rp p(5) by simp
    have le: "r + length pat \<le> p" using apart [OF r(2) p(4) rp] .
    have "f (r + length pat) = found p"
      using less.hyps [of "r + length pat"] le r(1) rp pat less.prems(1) less.prems(3) by (cases pat) auto
    then show ?thesis using f by simp
  qed
qed

lemma scan_missing:
  assumes pat: "pat \<noteq> []"
    and absent: "\<And>q. q < length t \<Longrightarrow> q0 \<le> q \<Longrightarrow> (\<And>r. q \<le> r \<Longrightarrow> \<not> occ t pat r) \<Longrightarrow> f q = missing"
    and behind: "\<And>q p. first_from t pat q p \<Longrightarrow> q0 \<le> q \<Longrightarrow> lim \<le> p \<Longrightarrow> f q = missing"
    and skip: "\<And>q p. first_from t pat q p \<Longrightarrow> q0 \<le> q \<Longrightarrow> p < lim \<Longrightarrow> \<not> good p \<Longrightarrow> f q = f (p + length pat)"
    and inside: "\<And>r. occ t pat r \<Longrightarrow> r + length pat < length t"
    and q: "q0 \<le> q" "q < length t" "\<And>r. q \<le> r \<Longrightarrow> r < lim \<Longrightarrow> occ t pat r \<Longrightarrow> \<not> good r"
  shows "f q = missing"
  using q
proof (induction "length t - q" arbitrary: q rule: less_induct)
  case less
  show ?case
  proof (cases "\<exists>r. q \<le> r \<and> occ t pat r")
    case False
    then show ?thesis using absent [OF less.prems(2,1)] by auto
  next
    case True
    obtain r where first: "first_from t pat q r" using True first_from_ex by blast
    then have r: "q \<le> r" "occ t pat r" by (simp_all add: first_from_def)
    show ?thesis
    proof (cases "lim \<le> r")
      case True
      then show ?thesis using behind [OF first less.prems(1)] by simp
    next
      case lim: False
      have bad: "\<not> good r" using less.prems(3) [OF r(1) _ r(2)] lim by simp
      have f: "f q = f (r + length pat)" using skip [OF first less.prems(1) _ bad] lim by simp
      have "f (r + length pat) = missing"
        using less.hyps [of "r + length pat"] inside [OF r(2)] r(1) pat less.prems by (cases pat) auto
      then show ?thesis using f by simp
    qed
  qed
qed

section \<open>Lines\<close>

definition unlines :: "bytes list \<Rightarrow> bytes" where
  "unlines ls = concat (map (\<lambda>l. l @ [10]) ls)"

lemma unlines_simps [simp]: "unlines [] = []" "unlines (l # ls) = l @ 10 # unlines ls" "unlines (xs @ ys) = unlines xs @ unlines ys"
  by (simp_all add: unlines_def)

definition lines_ok :: "bytes list \<Rightarrow> bool" where
  "lines_ok ls \<longleftrightarrow> (\<forall>l\<in>set ls. 10 \<notin> set l \<and> 0 \<notin> set l)"

lemma unlines_no_nul: "lines_ok ls \<Longrightarrow> 0 \<notin> set (unlines ls)"
  by (induction ls) (auto simp: lines_ok_def)

lemma unlines_last: "ls \<noteq> [] \<Longrightarrow> unlines ls ! (length (unlines ls) - 1) = 10"
  by (induction ls rule: rev_induct) (auto simp: nth_append)

text \<open>A place behind a line break is the start of a line.\<close>

lemma line_start:
  assumes "lines_ok ls" "p < length (unlines ls)" "p = 0 \<or> unlines ls ! (p - 1) = 10"
  shows "\<exists>A l B. ls = A @ l # B \<and> p = length (unlines A)"
  using assms
proof (induction ls arbitrary: p)
  case (Cons l ls)
  show ?case
  proof (cases "p = 0")
    case True
    then show ?thesis by (intro exI [of _ "[]"] exI [of _ l] exI [of _ ls]) simp
  next
    case p: False
    have "length l < p"
    proof (rule ccontr)
      assume "\<not> length l < p"
      then have pl: "p - 1 < length l" using p by linarith
      then have "unlines (l # ls) ! (p - 1) = l ! (p - 1)" by (simp add: nth_append)
      then have "10 \<in> set l" using Cons.prems(3) p pl by (metis nth_mem)
      then show False using Cons.prems(1) by (simp add: lines_ok_def)
    qed
    define q where "q = p - Suc (length l)"
    have pq: "p = Suc (length l) + q" using \<open>length l < p\<close> by (simp add: q_def)
    have "q = 0 \<or> unlines ls ! (q - 1) = 10"
      using Cons.prems(3) by (cases q) (auto simp: pq nth_append)
    moreover have "q < length (unlines ls)" using Cons.prems(2) by (simp add: pq)
    ultimately obtain A m B where "ls = A @ m # B" "q = length (unlines A)"
      using Cons.IH [of q] Cons.prems(1) by (auto simp: lines_ok_def)
    then show ?thesis by (intro exI [of _ "l # A"] exI [of _ m] exI [of _ B]) (simp add: pq)
  qed
qed simp

text \<open>Of two splits of the same lines the one with the shorter text before it comes first.\<close>

lemma split_before:
  assumes "A @ l # B = A' @ l' # B'" "length (unlines A') < length (unlines A)"
  shows "\<exists>C. A = A' @ l' # C"
proof -
  consider (eq) us where "A = A' @ us" "us @ l # B = l' # B'" | (gt) us where "A @ us = A'"
    using assms(1) by (auto simp: append_eq_append_conv2)
  then show ?thesis
  proof cases
    case eq
    then show ?thesis using assms(2) by (cases us) auto
  next
    case gt
    then show ?thesis using assms(2) by auto
  qed
qed

lemma prefix_line: "10 \<notin> set w \<Longrightarrow> take (length w) (l @ 10 # rest) = w \<Longrightarrow> prefix w l"
proof -
  assume w: "10 \<notin> set w" "take (length w) (l @ 10 # rest) = w"
  show ?thesis
  proof (cases "length w \<le> length l")
    case True
    then show ?thesis using w(2) by (metis append_take_drop_id diff_is_0_eq' append_Nil2 take0 take_append prefixI)
  next
    case False
    then have "w ! length l = 10"
      using w(2) by (metis nth_append_length nth_take not_le)
    then show ?thesis using w(1) False by (metis not_le nth_mem)
  qed
qed

lemma occ_line: "prefix w l \<Longrightarrow> occ (unlines A @ l @ rest) w (length (unlines A))"
  by (auto simp: occ_def prefix_def)

lemma occ_inside:
  assumes "occ (unlines ls) w r" "w \<noteq> []" "10 \<notin> set w"
  shows "r + length w < length (unlines ls)"
proof -
  let ?t = "unlines ls"
  have b: "r + length w \<le> length ?t" by (rule occ_bound [OF assms(1,2)])
  have w: "0 < length w" using assms(2) by simp
  have "r + length w \<noteq> length ?t"
  proof
    assume e: "r + length w = length ?t"
    then have "ls \<noteq> []" using w by auto
    moreover have "r + (length w - 1) = length ?t - 1" using e w by linarith
    ultimately have "?t ! (r + (length w - 1)) = 10" using unlines_last by simp
    moreover have "?t ! (r + (length w - 1)) = w ! (length w - 1)" using occ_nth [OF assms(1,2)] w by simp
    ultimately show False using w assms(3) by (metis diff_less nth_mem zero_less_one)
  qed
  then show ?thesis using b by simp
qed

section \<open>What a reader looks for\<close>

definition is_header :: "bytes \<Rightarrow> bytes \<Rightarrow> bool" where
  "is_header s l \<longleftrightarrow> prefix (91 # s @ [93]) l"

definition is_item :: "bytes \<Rightarrow> bytes \<Rightarrow> bool" where
  "is_item k l \<longleftrightarrow> prefix k l \<and> (case drop (length k) l of [] \<Rightarrow> False | c # _ \<Rightarrow> c = 32 \<or> c = 61 \<or> c = 9)"

text \<open>The line of an item in the first section of the name, up to the next line that starts with a bracket.\<close>

definition ini_line :: "bytes \<Rightarrow> bytes \<Rightarrow> bytes list \<Rightarrow> bytes option" where
  "ini_line s k ls =
     (case dropWhile (\<lambda>l. \<not> is_header s l) ls of
        [] \<Rightarrow> None
      | h # rest \<Rightarrow> find (is_item k) (takeWhile (\<lambda>l. \<not> prefix [91] l) rest))"

text \<open>The text of a value: leading blanks are skipped, a double semicolon stands for one, a single one starts a comment.\<close>

fun unescape :: "bytes \<Rightarrow> bytes" where
  "unescape [] = []"
| "unescape (c # cs) =
     (if c = 13 then []
      else if c = 59 then (case cs of d # ds \<Rightarrow> if d = 59 then 59 # unescape ds else [] | [] \<Rightarrow> [])
      else c # unescape cs)"

definition value_text :: "bytes \<Rightarrow> bytes" where
  "value_text w = (if prefix [59] w then [] else unescape (dropWhile (\<lambda>c. c = 32 \<or> c = 9) w))"

definition rtrim :: "bytes \<Rightarrow> bytes" where
  "rtrim w = rev (dropWhile blank (rev w))"

text \<open>The value on a line, of at most \<open>n\<close> characters.\<close>

definition ini_value :: "nat \<Rightarrow> bytes \<Rightarrow> bytes" where
  "ini_value n l = rtrim (take n (value_text (tl (dropWhile (\<lambda>c. c \<noteq> 61) l))))"

section \<open>Sections\<close>

definition good_section :: "bytes \<Rightarrow> bytes \<Rightarrow> nat \<Rightarrow> bool" where
  "good_section t s p \<longleftrightarrow> 0 < p \<and> t ! (p - 1) = 91 \<and> t ! (p + length s) = 93 \<and> (p = 1 \<or> t ! (p - 2) = 10)"

lemma good_section_split:
  assumes "lines_ok ls" "s \<noteq> []" "10 \<notin> set s" "occ (unlines ls) s p" "good_section (unlines ls) s p"
  shows "\<exists>A l B. ls = A @ l # B \<and> p = Suc (length (unlines A)) \<and> is_header s l"
proof -
  let ?t = "unlines ls"
  have g: "0 < p" "?t ! (p - 1) = 91" "?t ! (p + length s) = 93" "p - 1 = 0 \<or> ?t ! (p - 1 - 1) = 10"
    using assms(5) by (auto simp: good_section_def numeral_2_eq_2)
  have b: "p + length s < length ?t" by (rule occ_inside [OF assms(4,2,3)])
  have "p - 1 < length ?t" using b g(1) by linarith
  then obtain A l B where split: "ls = A @ l # B" "p - 1 = length (unlines A)" using line_start [OF assms(1) _ g(4)] by blast
  have "drop (p - 1) ?t = 91 # drop p ?t" using g(1,2) \<open>p - 1 < length ?t\<close> Cons_nth_drop_Suc [of "p - 1" ?t] by simp
  moreover have "drop p ?t = s @ drop (p + length s) ?t" using assms(4) by (metis append_take_drop_id drop_drop occ_def add.commute)
  moreover have "drop (p + length s) ?t = 93 # drop (Suc (p + length s)) ?t" using g(3) b Cons_nth_drop_Suc [of "p + length s" ?t] by simp
  ultimately have "drop (p - 1) ?t = (91 # s @ [93]) @ drop (Suc (p + length s)) ?t" by simp
  moreover have "drop (p - 1) ?t = l @ 10 # unlines B" using split by simp
  ultimately have "take (length (91 # s @ [93])) (l @ 10 # unlines B) = 91 # s @ [93]" by (metis append_eq_conv_conj)
  then have "prefix (91 # s @ [93]) l" by (intro prefix_line) (use assms(3) in auto)
  then show ?thesis using split g(1) by (intro exI [of _ A] exI [of _ l] exI [of _ B]) (simp add: is_header_def)
qed

lemma header_good:
  assumes "is_header s l"
  shows "occ (unlines (A @ l # B)) s (Suc (length (unlines A)))" "good_section (unlines (A @ l # B)) s (Suc (length (unlines A)))"
proof -
  obtain w where w: "l = 91 # s @ 93 # w" using assms by (auto simp: is_header_def prefix_def)
  show "occ (unlines (A @ l # B)) s (Suc (length (unlines A)))" by (simp add: w occ_def)
  show "good_section (unlines (A @ l # B)) s (Suc (length (unlines A)))"
  proof (cases "A = []")
    case True
    then show ?thesis by (simp add: w good_section_def nth_append)
  next
    case False
    then have "unlines A ! (length (unlines A) - 1) = 10" "0 < length (unlines A)" by (rule unlines_last) (use False in \<open>cases A; simp\<close>)
    then show ?thesis by (simp add: w good_section_def nth_append numeral_2_eq_2)
  qed
qed

lemma find_section_lines:
  assumes lines: "lines_ok ls" "ls \<noteq> []" and s: "s \<noteq> []" "91 \<notin> set s" "10 \<notin> set s" "\<not> prefix s (unlines ls)"
  defines "f \<equiv> find_section (unlines ls @ [0]) (length (unlines ls)) s"
  shows "\<forall>l\<in>set ls. \<not> is_header s l \<Longrightarrow> f 0 = Some None"
    and "ls = A @ h # B \<Longrightarrow> \<forall>l\<in>set A. \<not> is_header s l \<Longrightarrow> is_header s h \<Longrightarrow> f 0 = Some (Some (Suc (length (unlines A))))"
proof -
  let ?t = "unlines ls"
  note nul = unlines_no_nul [OF lines(1)]
  have zero: "\<not> occ ?t s 0" using s(4) by (auto simp: occ_def prefix_def) (metis append_take_drop_id)
  have inside: "r + length s < length ?t" if "occ ?t s r" for r by (rule occ_inside [OF that s(1,3)])
  have step: "f q = (if good_section ?t s p then Some (Some p) else f (p + length s))" if "first_from ?t s q p" for q p
  proof -
    have o: "occ ?t s p" using that by (simp add: first_from_def)
    have p: "0 < p" using o zero by (cases p) auto
    have chars: "char_at (?t @ [0]) (p - 1) = Some (?t ! (p - 1))" "char_at (?t @ [0]) (p + length s) = Some (?t ! (p + length s))"
      "1 < p \<Longrightarrow> char_at (?t @ [0]) (p - 2) = Some (?t ! (p - 2))"
      using inside [OF o] p by (auto simp: char_at_def nth_append)
    show ?thesis using strstr_first [OF nul s(1) that] chars p unfolding f_def
      by (subst find_section.simps) (auto simp: good_section_def)
  qed
  have absent: "f q = Some None" if "q < length ?t" "\<And>r. q \<le> r \<Longrightarrow> \<not> occ ?t s r" for q
    using strstr_none [OF nul s(1) _ that(2)] that(1) unfolding f_def by (subst find_section.simps) simp
  have apart: "r + length s \<le> p" if r: "occ ?t s r" and g: "good_section ?t s p" and rp: "r < p" for r p
  proof (rule ccontr)
    assume "\<not> r + length s \<le> p"
    then have i: "p - 1 - r < length s" "r + (p - 1 - r) = p - 1" using rp by linarith+
    then have "s ! (p - 1 - r) = ?t ! (p - 1)" using occ_nth [OF r s(1) i(1)] by simp
    then have "s ! (p - 1 - r) = 91" using g by (simp add: good_section_def)
    then show False using s(2) i(1) by (metis nth_mem)
  qed
  have t0: "0 < length ?t" using lines(2) by (cases ls) auto
  show "f 0 = Some None" if none: "\<forall>l\<in>set ls. \<not> is_header s l"
  proof (rule scan_missing [where t = ?t and pat = s and lim = "length ?t" and good = "good_section ?t s" and ?q0.0 = 0])
    show "\<not> good_section ?t s r" if "occ ?t s r" for r
      using good_section_split [OF lines(1) s(1,3) that] none by auto
  next
    fix q p assume first: "first_from ?t s q p" "length ?t \<le> p"
    then have "occ ?t s p" by (simp add: first_from_def)
    from occ_bound [OF this s(1)] have "length s = 0" using first(2) by linarith
    then show "f q = Some None" using s(1) by simp
  qed (use s(1) step absent inside t0 in auto)
  show "f 0 = Some (Some (Suc (length (unlines A))))" if split: "ls = A @ h # B" "\<forall>l\<in>set A. \<not> is_header s l" "is_header s h"
  proof (rule scan_found [where t = ?t and pat = s and lim = "length ?t" and good = "good_section ?t s" and ?q0.0 = 0
      and found = "\<lambda>p. Some (Some p)"])
    show o: "occ ?t s (Suc (length (unlines A)))" and "good_section ?t s (Suc (length (unlines A)))"
      using header_good [OF split(3)] split(1) by simp_all
    from inside [OF o] show "Suc (length (unlines A)) < length ?t" by simp
  next
    fix r assume r: "r < Suc (length (unlines A))" "occ ?t s r"
    show "\<not> good_section ?t s r"
    proof
      assume "good_section ?t s r"
      then obtain A' l B' where A': "ls = A' @ l # B'" "r = Suc (length (unlines A'))" "is_header s l"
        using good_section_split [OF lines(1) s(1,3) r(2)] by blast
      have "\<exists>C. A = A' @ l # C" using split_before [of A h B A' l B'] A'(1,2) split(1) r(1) by simp
      then show False using split(2) A'(3) by auto
    qed
  qed (use s(1) step apart in auto)
qed

section \<open>The end of a section\<close>

lemma in_front:
  assumes "Z @ l # Y = C @ R" "length (unlines Z) < length (unlines C)"
  shows "\<exists>W. C = Z @ l # W"
proof -
  consider (eq) us where "Z = C @ us" | (gt) us where "Z @ us = C" "us @ R = l # Y"
    using assms(1) by (auto simp: append_eq_append_conv2)
  then show ?thesis
  proof cases
    case eq
    then show ?thesis using assms(2) by simp
  next
    case gt
    then show ?thesis using assms(2) by (cases us) auto
  qed
qed

text \<open>A line that starts between the header and the end of the section belongs to the section.\<close>

lemma within_section:
  assumes "A @ h # C @ R = X @ l # Y" "length (unlines A) < length (unlines X)" "length (unlines X) < length (unlines (A @ h # C))"
  shows "\<exists>Z W. X = A @ h # Z \<and> C = Z @ l # W"
proof -
  obtain Z where Z: "X = A @ h # Z" using split_before [of X l Y A h "C @ R"] assms(1,2) by auto
  then have "Z @ l # Y = C @ R" using assms(1) by simp
  moreover have "length (unlines Z) < length (unlines C)" using assms(3) Z by simp
  ultimately show ?thesis using in_front Z by blast
qed

lemma bracket_split:
  assumes "lines_ok ls" "occ (unlines ls) [91] p" "unlines ls ! (p - 1) = 10"
  shows "\<exists>X l Y. ls = X @ l # Y \<and> p = length (unlines X) \<and> prefix [91] l"
proof -
  have "p + 1 \<le> length (unlines ls)" using occ_bound [OF assms(2)] by simp
  then obtain X l Y where split: "ls = X @ l # Y" "p = length (unlines X)" using line_start [OF assms(1), of p] assms(3) by auto
  have "take (length [91]) (l @ 10 # unlines Y) = [91]" using assms(2) split by (simp add: occ_def)
  then have "prefix [91] l" by (intro prefix_line) auto
  then show ?thesis using split by blast
qed

lemma next_section_lines:
  assumes lines: "lines_ok ls" and ls: "ls = A @ h # C @ R" and C: "\<forall>l\<in>set C. \<not> prefix [91] l" and R: "\<forall>d D. R = d # D \<longrightarrow> prefix [91] d"
  shows "next_section (unlines ls @ [0]) (Suc (length (unlines A))) =
    Some (case R of [] \<Rightarrow> None | _ \<Rightarrow> Some (length (unlines (A @ h # C))))"
proof -
  let ?t = "unlines ls" and ?p0 = "Suc (length (unlines A))"
  define f where "f = next_section (?t @ [0])"
  note nul = unlines_no_nul [OF lines]
  have inside: "r + length [91 :: byte] < length ?t" if "occ ?t [91] r" for r by (rule occ_inside [OF that]) auto
  have step: "f q = (if ?t ! (p - 1) = 10 then Some (Some p) else f (p + length [91 :: byte]))"
    if first: "first_from ?t [91] q p" and q: "?p0 \<le> q" for q p
  proof -
    have o: "occ ?t [91] p" "q \<le> p" using first by (simp_all add: first_from_def)
    have "p - 1 < length ?t" using inside [OF o(1)] by simp
    then have "char_at (?t @ [0]) (p - 1) = Some (?t ! (p - 1))" by (simp add: char_at_def nth_append)
    then show ?thesis using strstr_first [OF nul _ first] o(2) q unfolding f_def by (subst next_section.simps) simp
  qed
  have absent: "f q = Some None" if "q < length ?t" "\<And>r. q \<le> r \<Longrightarrow> \<not> occ ?t [91] r" for q
    using strstr_none [OF nul _ _ that(2)] that(1) unfolding f_def by (subst next_section.simps) simp
  have p0: "?p0 < length ?t \<or> (R = [] \<and> C = [] \<and> ?p0 = length ?t)" using ls by (cases h; cases C; cases R) auto
  show ?thesis
  proof (cases R)
    case Nil
    have none: "\<not> ?t ! (r - 1) = 10" if r: "occ ?t [91] r" "?p0 \<le> r" for r
    proof
      assume "?t ! (r - 1) = 10"
      then obtain X l Y where X: "ls = X @ l # Y" "r = length (unlines X)" "prefix [91] l" using bracket_split [OF lines r(1)] by blast
      have "length (unlines X) < length (unlines (A @ h # C))" using occ_bound [OF r(1)] X(2) ls Nil by simp
      then show False using within_section [of A h C R X l Y] X ls r(2) C by auto
    qed
    have "f ?p0 = Some None"
    proof (cases "?p0 < length ?t")
      case True
      show ?thesis
        by (rule scan_missing [where t = ?t and pat = "[91]" and lim = "length ?t" and good = "\<lambda>p. ?t ! (p - 1) = 10" and ?q0.0 = ?p0])
          (use True step absent inside none in \<open>auto simp: first_from_def dest: inside\<close>)
    next
      case False
      then have "strstr (?t @ [0]) ?p0 [91] = Some None" using p0 nul by (intro strstr_none) (auto dest: inside)
      then show ?thesis unfolding f_def by (subst next_section.simps) simp
    qed
    then show ?thesis using Nil by (simp add: f_def)
  next
    case (Cons d D)
    let ?e = "length (unlines (A @ h # C))"
    have d: "prefix [91] d" using R Cons by simp
    have ls': "ls = (A @ h # C) @ d # D" using ls Cons by simp
    have o: "occ ?t [91] ?e" unfolding ls' using d by (auto simp: occ_def prefix_def)
    have g: "?t ! (?e - 1) = 10"
    proof -
      have "unlines (A @ h # C) ! (?e - 1) = 10" by (rule unlines_last) simp
      moreover have "?e - 1 < ?e" by simp
      ultimately show ?thesis unfolding ls' unlines_simps(3) by (metis nth_append)
    qed
    have "f ?p0 = Some (Some ?e)"
    proof (rule scan_found [where t = ?t and pat = "[91]" and lim = "length ?t" and good = "\<lambda>p. ?t ! (p - 1) = 10" and ?q0.0 = ?p0 and f = f and q = ?p0 and p = ?e
        and found = "\<lambda>p. Some (Some p)"])
      show "?e < length ?t" using inside [OF o] by simp
      fix r assume r: "?p0 \<le> r" "r < ?e" "occ ?t [91] r"
      show "\<not> ?t ! (r - 1) = 10"
      proof
        assume "?t ! (r - 1) = 10"
        then obtain X l Y where X: "ls = X @ l # Y" "r = length (unlines X)" "prefix [91] l" using bracket_split [OF lines r(3)] by blast
        then show False using within_section [of A h C R X l Y] ls r(1,2) C by auto
      qed
    qed (use o g step in auto)
    then show ?thesis using Cons by (simp add: f_def)
  qed
qed

section \<open>Items\<close>

text \<open>What happens at the item that is taken.\<close>

definition take_value :: "bytes \<Rightarrow> nat \<Rightarrow> nat \<Rightarrow> bytes \<Rightarrow> int \<Rightarrow> (int \<times> bytes) option" where
  "take_value b n p v len = do {
     pos \<leftarrow> strstr b p [61];
     case pos of
       None \<Rightarrow> Some (E_INI_FILE, v)
     | Some q \<Rightarrow>
         (let q = q + 1
          in if n \<le> q then Some (E_INI_FILE, v)
             else do {
               (iPos, v) \<leftarrow> copy_value (drop q b) True 0 len v;
               v \<leftarrow> mem_write v iPos [0];
               Some (SUCCESS, v) }) }"

definition good_item :: "bytes \<Rightarrow> bytes \<Rightarrow> nat \<Rightarrow> bool" where
  "good_item t k p \<longleftrightarrow> t ! (p - 1) = 10 \<and> (t ! (p + length k) = 32 \<or> t ! (p + length k) = 61 \<or> t ! (p + length k) = 9)"

lemma item_split:
  assumes "lines_ok ls" "k \<noteq> []" "10 \<notin> set k" "occ (unlines ls) k p" "good_item (unlines ls) k p"
  shows "\<exists>X l Y. ls = X @ l # Y \<and> p = length (unlines X) \<and> is_item k l"
proof -
  let ?t = "unlines ls"
  let ?c = "?t ! (p + length k)"
  have b: "p + length k < length ?t" by (rule occ_inside [OF assms(4,2,3)])
  then obtain X l Y where split: "ls = X @ l # Y" "p = length (unlines X)"
    using line_start [OF assms(1), of p] assms(5) by (auto simp: good_item_def)
  have "drop p ?t = k @ drop (p + length k) ?t" using assms(4) by (metis append_take_drop_id drop_drop occ_def add.commute)
  moreover have "drop (p + length k) ?t = ?c # drop (Suc (p + length k)) ?t" using b Cons_nth_drop_Suc by metis
  ultimately have "drop p ?t = (k @ [?c]) @ drop (Suc (p + length k)) ?t" by simp
  moreover have "drop p ?t = l @ 10 # unlines Y" using split by simp
  ultimately have "take (length (k @ [?c])) (l @ 10 # unlines Y) = k @ [?c]" by (metis append_eq_conv_conj)
  then have "prefix (k @ [?c]) l" by (intro prefix_line) (use assms(3,5) in \<open>auto simp: good_item_def\<close>)
  then have "is_item k l" using assms(5) by (auto simp: is_item_def prefix_def good_item_def)
  then show ?thesis using split by blast
qed

lemma item_good:
  assumes "is_item k l" "X \<noteq> []"
  shows "occ (unlines (X @ l # Y)) k (length (unlines X))" "good_item (unlines (X @ l # Y)) k (length (unlines X))"
proof -
  obtain c w where w: "l = k @ c # w" "c = 32 \<or> c = 61 \<or> c = 9" using assms(1) by (auto simp: is_item_def prefix_def split: list.splits)
  show "occ (unlines (X @ l # Y)) k (length (unlines X))" by (simp add: w(1) occ_def)
  have "unlines X ! (length (unlines X) - 1) = 10" "0 < length (unlines X)" by (rule unlines_last [OF assms(2)]) (use assms(2) in \<open>cases X; simp\<close>)
  then have "(unlines X @ unlines (l # Y)) ! (length (unlines X) - 1) = 10" by (simp add: nth_append)
  moreover have "(unlines X @ unlines (l # Y)) ! (length (unlines X) + length k) = c" by (simp add: w(1) nth_append)
  ultimately show "good_item (unlines (X @ l # Y)) k (length (unlines X))" using w(2) by (auto simp: good_item_def)
qed

lemma find_item_lines:
  fixes v :: bytes and len :: int
  assumes lines: "lines_ok ls" and ls: "ls = A @ h # C @ R" and k: "k \<noteq> []" "10 \<notin> set k"
    and h: "h \<noteq> []"
  defines "t \<equiv> unlines ls"
  defines "f \<equiv> \<lambda>p. find_item (t @ [0]) (length t) k (length (unlines (A @ h # C))) p v len"
  shows "\<forall>l\<in>set C. \<not> is_item k l \<Longrightarrow> f (Suc (length (unlines A))) = Some (E_INI_FILE, v)"
    and "C = E @ l # F \<Longrightarrow> \<forall>l\<in>set E. \<not> is_item k l \<Longrightarrow> is_item k l \<Longrightarrow>
      f (Suc (length (unlines A))) = take_value (t @ [0]) (length t) (length (unlines (A @ h # E))) v len"
proof -
  let ?p0 = "Suc (length (unlines A))" and ?lim = "length (unlines (A @ h # C))"
  note nul = unlines_no_nul [OF lines, folded t_def]
  have inside: "r + length k < length t" if "occ t k r" for r
    using occ_inside [of ls k r] that k by (simp add: t_def)
  have step: "f q = (if ?lim \<le> p then Some (E_INI_FILE, v) else if good_item t k p then take_value (t @ [0]) (length t) p v len else f (p + length k))"
    if first: "first_from t k q p" and q: "?p0 \<le> q" for q p
  proof -
    have o: "occ t k p" "q \<le> p" using first by (simp_all add: first_from_def)
    have "p - 1 < length t" "p + length k < length t" using inside [OF o(1)] by simp_all
    then have "char_at (t @ [0]) (p - 1) = Some (t ! (p - 1))" "char_at (t @ [0]) (p + length k) = Some (t ! (p + length k))"
      by (simp_all add: char_at_def nth_append)
    then show ?thesis using strstr_first [OF nul k(1) first] o(2) q unfolding f_def
      by (subst find_item.simps) (simp add: good_item_def take_value_def Let_def)
  qed
  have absent: "f q = Some (E_INI_FILE, v)" if "q < length t" "\<And>r. q \<le> r \<Longrightarrow> \<not> occ t k r" for q
    using strstr_none [OF nul k(1) _ that(2)] that(1) unfolding f_def by (subst find_item.simps) simp
  have apart: "r + length k \<le> p" if r: "occ t k r" and g: "good_item t k p" and rp: "r < p" for r p
  proof (rule ccontr)
    assume "\<not> r + length k \<le> p"
    then have i: "p - 1 - r < length k" "r + (p - 1 - r) = p - 1" using rp by linarith+
    then have "k ! (p - 1 - r) = t ! (p - 1)" using occ_nth [OF r k(1) i(1)] by simp
    then have "k ! (p - 1 - r) = 10" using g by (simp add: good_item_def)
    then show False using k(2) i(1) by (metis nth_mem)
  qed
  have in_C: "\<exists>Z l W. C = Z @ l # W \<and> r = length (unlines (A @ h # Z)) \<and> is_item k l"
    if r: "?p0 \<le> r" "r < ?lim" "occ t k r" "good_item t k r" for r
  proof -
    obtain X l Y where X: "ls = X @ l # Y" "r = length (unlines X)" "is_item k l"
      using item_split [OF lines k] r(3,4) unfolding t_def by blast
    obtain Z W where "X = A @ h # Z" "C = Z @ l # W"
      using within_section [of A h C R X l Y] X ls r(1,2) by auto
    then show ?thesis using X(2,3) by blast
  qed
  have p0: "?p0 < length t" using h by (cases h) (auto simp: t_def ls)
  show "f ?p0 = Some (E_INI_FILE, v)" if none: "\<forall>l\<in>set C. \<not> is_item k l"
  proof (rule scan_missing [where t = t and pat = k and lim = ?lim and good = "good_item t k" and ?q0.0 = ?p0])
    fix r assume "?p0 \<le> r" "r < ?lim" "occ t k r"
    then show "\<not> good_item t k r" using in_C [of r] none by auto
  qed (use k(1) step absent inside p0 in auto)
  show "f ?p0 = take_value (t @ [0]) (length t) (length (unlines (A @ h # E))) v len"
    if C: "C = E @ l # F" "\<forall>l\<in>set E. \<not> is_item k l" "is_item k l"
  proof (rule scan_found [where t = t and pat = k and lim = ?lim and good = "good_item t k" and ?q0.0 = ?p0
      and found = "\<lambda>p. take_value (t @ [0]) (length t) p v len"])
    have "t = unlines ((A @ h # E) @ l # F @ R)" by (simp add: t_def ls C(1))
    then show "occ t k (length (unlines (A @ h # E)))" "good_item t k (length (unlines (A @ h # E)))"
      using item_good [OF C(3), of "A @ h # E" "F @ R"] by simp_all
    show "length (unlines (A @ h # E)) < ?lim" by (simp add: C(1))
    fix r assume r: "?p0 \<le> r" "r < length (unlines (A @ h # E))" "occ t k r"
    show "\<not> good_item t k r"
    proof
      assume g: "good_item t k r"
      have "r < ?lim" using r(2) by (simp add: C(1))
      then obtain Z l' W where Z: "C = Z @ l' # W" "r = length (unlines (A @ h # Z))" "is_item k l'" using in_C [OF r(1) _ r(3) g] by blast
      then have "length (unlines Z) < length (unlines E)" using r(2) by simp
      then have "\<exists>V. E = Z @ l' # V" using in_front [of Z l' W E "l # F"] Z(1) C(1) by simp
      then show False using C(2) Z(3) by auto
    qed
  qed (use k(1) step apart in auto)
qed

end
