(* ===== verification/Ini_Correct.thy ===== *)
theory Ini_Correct
  imports Ini_Lookup
begin

text \<open>
  \<open>GetString\<close> is the lookup line by line; its ends of file and its numbers.
\<close>

section \<open>Copying a value\<close>

lemma copy_value_text:
  assumes "10 \<notin> set w" "0 \<notin> set w" "0 < iPos \<or> w = [] \<or> hd w \<noteq> 32 \<and> hd w \<noteq> 9" "first \<longrightarrow> \<not> prefix [59] w"
    and "int iPos < len" "nat len \<le> length v"
  shows "copy_value (w @ 10 # rest) first iPos len v =
    Some (iPos + length (take (nat len - 1 - iPos) (unescape w)), put_at v iPos (take (nat len - 1 - iPos) (unescape w)))"
  using assms
proof (induction w arbitrary: first iPos v rule: unescape.induct)
  case 1
  then show ?case by (simp add: put_at_def)
next
  case (2 c cs)
  show ?case
  proof (cases "int iPos < len - 1")
    case False
    then have "nat len - 1 - iPos = 0" by linarith
    then show ?thesis using False by (simp add: put_at_def)
  next
    case room: True
    then obtain m where m: "nat len - 1 - iPos = Suc m" "nat len - 1 - Suc iPos = m" "int (Suc iPos) < len" "Suc iPos \<le> length v"
      using 2(8) by (cases "nat len - 1 - iPos") auto
    have c: "c \<noteq> 10" "c \<noteq> 0" using 2(3,4) by auto
    have put: "mem_write v iPos [c] = Some (put_at v iPos [c])" "length (put_at v iPos [c]) = length v" for c
      using m(4) by (simp_all add: mem_write_def)
    have join: "put_at (put_at v iPos [c]) (Suc iPos) r = put_at v iPos (c # r)" if "length r \<le> m" for c r
      using put_put_append [of iPos "[c]" r v] that m 2(8) by simp
    consider (cr) "c = 13" | (semi) "c = 59" | (plain) "c \<noteq> 13" "c \<noteq> 59" by blast
    then show ?thesis
    proof cases
      case cr
      then show ?thesis using room by (simp add: put_at_def)
    next
      case semi
      then have f: "\<not> first" using 2(6) by simp
      show ?thesis
      proof (cases "\<exists>ds. cs = 59 # ds")
        case True
        then obtain ds where cs: "cs = 59 # ds" by blast
        have "copy_value (ds @ 10 # rest) False (Suc iPos) len (put_at v iPos [59]) =
          Some (Suc iPos + length (take m (unescape ds)), put_at (put_at v iPos [59]) (Suc iPos) (take m (unescape ds)))"
          using 2(1) [of 59 ds "Suc iPos" False "put_at v iPos [59]"] semi cs 2(3,4,8) m put(2) by simp
        then show ?thesis using room semi cs f put(1) m(1) join [of "take m (unescape ds)" 59] by simp
      next
        case False
        then have "copy_value ((c # cs) @ 10 # rest) first iPos len v = Some (iPos, v)"
          using room semi f by (cases cs) auto
        moreover have "unescape (c # cs) = []" using False semi by (cases cs) auto
        ultimately show ?thesis by (simp add: put_at_def)
      qed
    next
      case plain
      have blank: "\<not> ((c = 32 \<or> c = 9) \<and> iPos = 0)" using 2(5) by auto
      have "copy_value (cs @ 10 # rest) False (Suc iPos) len (put_at v iPos [c]) =
          Some (Suc iPos + length (take m (unescape cs)), put_at (put_at v iPos [c]) (Suc iPos) (take m (unescape cs)))"
        using 2(2) [of "Suc iPos" False "put_at v iPos [c]"] plain 2(3,4,8) m put(2) by simp
      moreover have "copy_value ((c # cs) @ 10 # rest) first iPos len v = copy_value (cs @ 10 # rest) False (Suc iPos) len (put_at v iPos [c])"
        unfolding append_Cons copy_value.simps(2) if_not_P [OF blank] using room plain c put(1) by simp
      ultimately show ?thesis using plain m(1) join [of "take m (unescape cs)" c] by simp
    qed
  qed
qed

lemma copy_value_skip:
  "\<forall>c\<in>set bl. c = 32 \<or> c = 9 \<Longrightarrow> 0 < len - 1 \<Longrightarrow>
   copy_value (bl @ w) first 0 len v = copy_value w (first \<and> bl = []) 0 len v"
  by (induction bl arbitrary: first) auto

lemma copy_value_run:
  assumes "10 \<notin> set w" "0 \<notin> set w" "0 < len" "nat len \<le> length v"
  defines "r \<equiv> take (nat len - 1) (value_text w)"
  shows "copy_value (w @ 10 # rest) True 0 len v = Some (length r, put_at v 0 r)"
proof (cases "0 < len - 1")
  case False
  then have "r = []" using assms(3) by (simp add: r_def)
  then show ?thesis using False by (cases w) (simp_all add: put_at_def)
next
  case room: True
  let ?bl = "takeWhile (\<lambda>c. c = 32 \<or> c = 9) w" and ?w = "dropWhile (\<lambda>c. c = 32 \<or> c = 9) w"
  have split: "w = ?bl @ ?w" by simp
  show ?thesis
  proof (cases "prefix [59] w")
    case True
    then have "r = []" by (simp add: r_def value_text_def)
    then show ?thesis using True room by (auto simp: prefix_def put_at_def)
  next
    case False
    have hd: "?w = [] \<or> hd ?w \<noteq> 32 \<and> hd ?w \<noteq> 9" using hd_dropWhile [of "\<lambda>c. c = 32 \<or> c = 9" w] by blast
    have sub: "10 \<notin> set ?w" "0 \<notin> set ?w" using assms(1,2) by (auto dest: set_dropWhileD)
    have bl: "\<forall>c\<in>set ?bl. c = 32 \<or> c = 9" by (auto dest: set_takeWhileD)
    have "copy_value (w @ 10 # rest) True 0 len v = copy_value (?bl @ (?w @ 10 # rest)) True 0 len v"
      by (subst split) (simp only: append_assoc)
    also have "\<dots> = copy_value (?w @ 10 # rest) (?bl = []) 0 len v" using copy_value_skip [OF bl room] by simp
    also have "\<dots> = Some (length r, put_at v 0 r)"
    proof -
      have "?bl = [] \<longrightarrow> \<not> prefix [59] ?w" using False split by (metis append_Nil)
      then show ?thesis using copy_value_text [OF sub _ _ _ assms(4), of 0 "?bl = []" rest] hd assms(3) False
        by (simp add: r_def value_text_def)
    qed
    finally show ?thesis .
  qed
qed

section \<open>Trimming\<close>

lemma rtrim_snoc: "rtrim (xs @ [x]) = (if blank x then rtrim xs else xs @ [x])"
  by (simp add: rtrim_def)

lemma length_rtrim: "length (rtrim xs) \<le> length xs"
  using length_dropWhile_le [of blank "rev xs"] by (simp add: rtrim_def)

lemma trim_right_run:
  "trim_right (length r) (r @ 0 # z) = rtrim r @ replicate (length r - length (rtrim r)) 0 @ 0 # z"
proof (induction r arbitrary: z rule: rev_induct)
  case Nil
  then show ?case by (simp add: rtrim_def)
next
  case (snoc x xs)
  show ?case
  proof (cases "blank x")
    case True
    have "trim_right (length (xs @ [x])) ((xs @ [x]) @ 0 # z) = trim_right (length xs) (xs @ 0 # 0 # z)"
      using True by (simp add: nth_append)
    also have "\<dots> = rtrim xs @ replicate (length xs - length (rtrim xs)) 0 @ 0 # 0 # z" by (rule snoc)
    also have "\<dots> = rtrim xs @ replicate (Suc (length xs) - length (rtrim xs)) 0 @ 0 # z"
      using length_rtrim [of xs] by (simp add: Suc_diff_le replicate_app_Cons_same)
    finally show ?thesis using True by (simp add: rtrim_snoc)
  next
    case False
    then show ?thesis by (simp add: rtrim_snoc nth_append)
  qed
qed

lemma cstr_text: "0 \<notin> set r \<Longrightarrow> cstr (r @ 0 # z) = Some r"
  by (induction r) (auto simp: cstr_def)

lemma set_rtrim: "set (rtrim r) \<subseteq> set r"
  by (auto simp: rtrim_def dest: set_dropWhileD)

lemma hd_rtrim: "rtrim r \<noteq> [] \<Longrightarrow> hd (rtrim r) = hd r"
proof -
  assume ne: "rtrim r \<noteq> []"
  have "rev r = takeWhile blank (rev r) @ dropWhile blank (rev r)" by simp
  then have "r = rtrim r @ rev (takeWhile blank (rev r))" unfolding rtrim_def by (metis rev_append rev_rev_ident)
  then show ?thesis using ne by (metis hd_append2)
qed

lemma TrimString_run:
  assumes "0 \<notin> set r" "r = [] \<or> \<not> blank (hd r)"
  shows "\<exists>v. TrimString (r @ 0 # z) = Some v \<and> cstr v = Some (rtrim r)"
proof (cases "r = []")
  case True
  then show ?thesis using cstr_text [of "[]" z] by (simp add: TrimString_def rtrim_def)
next
  case False
  let ?v = "rtrim r @ replicate (length r - length (rtrim r)) 0 @ 0 # z"
  have nul: "0 \<notin> set (rtrim r)" using set_rtrim assms(1) by blast
  have v: "cstr ?v = Some (rtrim r)"
  proof (cases "length r - length (rtrim r)")
    case 0
    then show ?thesis using cstr_text [OF nul] by simp
  next
    case (Suc n)
    then show ?thesis using cstr_text [OF nul, of "replicate n 0 @ 0 # z"] by simp
  qed
  have ls: "left_start (length (rtrim r)) 0 ?v = 0" if ne: "rtrim r \<noteq> []"
  proof -
    have "\<not> blank (?v ! 0)" using hd_rtrim [OF ne] assms(2) False ne by (simp add: nth_append hd_conv_nth)
    then show ?thesis using ne by (cases "length (rtrim r)") auto
  qed
  have "TrimString (r @ 0 # z) = Some ?v"
    using False cstr_text [OF assms(1)] trim_right_run [of r z] v ls by (simp add: TrimString_def Let_def)
  then show ?thesis using v by blast
qed

lemma unescape_chars: "set (unescape w) \<subseteq> set w" "13 \<notin> set (unescape w)"
  by (induction w rule: unescape.induct) (auto split: list.splits if_splits)

lemma hd_unescape: "w \<noteq> [] \<Longrightarrow> unescape w \<noteq> [] \<Longrightarrow> hd (unescape w) = hd w"
  by (cases w) (auto split: list.splits if_splits)

lemma value_text_chars:
  assumes "10 \<notin> set w" "0 \<notin> set w"
  shows "0 \<notin> set (value_text w)" "value_text w = [] \<or> \<not> blank (hd (value_text w))"
proof -
  let ?w = "dropWhile (\<lambda>c. c = 32 \<or> c = 9) w"
  have sub: "set ?w \<subseteq> set w" by (auto dest: set_dropWhileD)
  show "0 \<notin> set (value_text w)" using unescape_chars(1) [of ?w] sub assms(2) by (auto simp: value_text_def)
  show "value_text w = [] \<or> \<not> blank (hd (value_text w))"
  proof (cases "value_text w = []")
    case False
    then have u: "value_text w = unescape ?w" "unescape ?w \<noteq> []" by (auto simp: value_text_def split: if_splits)
    have ne: "?w \<noteq> []"
    proof
      assume "?w = []"
      then have "unescape ?w = []" by (simp only: unescape.simps(1))
      then show False using u(2) by contradiction
    qed
    have hd: "hd (unescape ?w) = hd ?w" by (rule hd_unescape [OF ne u(2)])
    have "hd ?w \<noteq> 32 \<and> hd ?w \<noteq> 9" using hd_dropWhile [OF ne] by simp
    moreover have "hd ?w \<noteq> 10" using subsetD [OF sub hd_in_set [OF ne]] assms(1) by auto
    moreover have "hd (unescape ?w) \<noteq> 13" using hd_in_set [OF u(2)] unescape_chars(2) [of ?w] by auto
    ultimately show ?thesis using u(1) hd by (simp add: blank_def)
  qed simp
qed

section \<open>The value of a line\<close>

lemma first_equals:
  assumes "61 \<notin> set u"
  shows "first_from (unlines X @ u @ 61 # rest) [61] (length (unlines X)) (length (unlines X) + length u)"
proof -
  let ?t = "unlines X @ u @ 61 # rest"
  have "\<not> occ ?t [61] r" if r: "length (unlines X) \<le> r" "r < length (unlines X) + length u" for r
  proof
    assume o: "occ ?t [61] r"
    have "?t ! r = u ! (r - length (unlines X))" using r by (auto simp: nth_append)
    moreover have "?t ! r = 61" using occ_nth [OF o, of 0] by simp
    moreover have "r - length (unlines X) < length u" using r by linarith
    ultimately show False using assms by (metis nth_mem)
  qed
  moreover have "occ ?t [61] (length (unlines X) + length u)" by (simp add: occ_def)
  ultimately show ?thesis by (simp add: first_from_def)
qed

lemma take_value_line:
  assumes lines: "lines_ok (X @ l # Y)" and l: "61 \<in> set l" and len: "0 < len" "nat len \<le> length v"
  defines "t \<equiv> unlines (X @ l # Y)" and "r \<equiv> take (nat len - 1) (value_text (tl (dropWhile (\<lambda>c. c \<noteq> 61) l)))"
  shows "take_value (t @ [0]) (length t) (length (unlines X)) v len = Some (SUCCESS, r @ 0 # drop (Suc (length r)) v)"
proof -
  obtain u w where split: "l = u @ 61 # w" and u: "61 \<notin> set u" using split_list_first [OF l] by blast
  have r: "r = take (nat len - 1) (value_text w)"
  proof -
    have "dropWhile (\<lambda>c. c \<noteq> 61) (u @ 61 # w) = 61 # w" using u by (induction u) auto
    then show ?thesis by (simp add: r_def split)
  qed
  let ?q = "length (unlines X) + length u"
  have t: "t = unlines X @ u @ 61 # (w @ 10 # unlines Y)" by (simp add: t_def split)
  have nul: "0 \<notin> set t" unfolding t_def by (rule unlines_no_nul [OF lines])
  have pos: "strstr (t @ [0]) (length (unlines X)) [61] = Some (Some ?q)"
    by (rule strstr_first(1) [OF nul]) (use first_equals [OF u, of X "w @ 10 # unlines Y"] t in simp_all)
  have inside: "?q + 1 < length t" by (simp add: t)
  have rest: "drop (?q + 1) (t @ [0]) = w @ 10 # (unlines Y @ [0])" by (simp add: t)
  have w: "10 \<notin> set w" "0 \<notin> set w" using lines by (simp_all add: lines_ok_def split)
  have run: "copy_value (drop (?q + 1) (t @ [0])) True 0 len v = Some (length r, put_at v 0 r)"
    unfolding rest r by (rule copy_value_run [OF w len])
  have fits: "Suc (length r) \<le> length v" using len by (simp add: r)
  have "mem_write (put_at v 0 r) (length r) [0] = Some (r @ 0 # drop (Suc (length r)) v)"
    using fits by (simp add: mem_write_def put_at_def)
  then show ?thesis using pos run inside by (simp add: take_value_def Let_def)
qed

section \<open>The lookup\<close>

lemma split_section:
  assumes "dropWhile (\<lambda>l. \<not> is_header s l) ls = h # rest"
  obtains A C R where "ls = A @ h # C @ R" "\<forall>l\<in>set A. \<not> is_header s l" "is_header s h" "\<forall>l\<in>set C. \<not> prefix [91] l"
    "\<forall>d D. R = d # D \<longrightarrow> prefix [91] d" "C = takeWhile (\<lambda>l. \<not> prefix [91] l) rest"
proof -
  let ?A = "takeWhile (\<lambda>l. \<not> is_header s l) ls" and ?C = "takeWhile (\<lambda>l. \<not> prefix [91] l) rest" and ?R = "dropWhile (\<lambda>l. \<not> prefix [91] l) rest"
  have "ls = ?A @ h # ?C @ ?R" using assms by (metis takeWhile_dropWhile_id)
  moreover have "\<forall>l\<in>set ?A. \<not> is_header s l" "\<forall>l\<in>set ?C. \<not> prefix [91] l" by (auto dest: set_takeWhileD)
  moreover have "is_header s h" using hd_dropWhile [of "\<lambda>l. \<not> is_header s l" ls] assms by simp
  moreover have "prefix [91] d" if "?R = d # D" for d D using hd_dropWhile [of "\<lambda>l. \<not> prefix [91] l" rest] that by simp
  ultimately show ?thesis using that by blast
qed

lemma find_split:
  "(case find P xs of None \<Rightarrow> \<forall>x\<in>set xs. \<not> P x | Some x \<Rightarrow> \<exists>E F. xs = E @ x # F \<and> (\<forall>y\<in>set E. \<not> P y) \<and> P x)"
proof (induction xs)
  case (Cons a xs)
  show ?case
  proof (cases "P a")
    case True
    then show ?thesis by (auto intro: exI [of _ "[]"])
  next
    case False
    show ?thesis
    proof (cases "find P xs")
      case None
      then show ?thesis using Cons False by simp
    next
      case (Some x)
      then obtain E F where "xs = E @ x # F" "\<forall>y\<in>set E. \<not> P y" "P x" using Cons by auto
      then have "a # xs = (a # E) @ x # F \<and> (\<forall>y\<in>set (a # E). \<not> P y) \<and> P x" using False by simp
      moreover have "find P (a # xs) = Some x" using Some False by simp
      ultimately show ?thesis by (simp only: option.case) blast
    qed
  qed
qed simp

lemma in_tl: "x \<in> set (tl xs) \<Longrightarrow> x \<in> set xs"
  by (cases xs) auto

text \<open>The search for the section, for its end and for the item together.\<close>

lemma lookup_run:
  fixes v :: bytes and len :: int
  assumes lines: "lines_ok ls" "ls \<noteq> []" and s: "s \<noteq> []" "91 \<notin> set s" "10 \<notin> set s" "\<not> prefix s (unlines ls)"
    and k: "k \<noteq> []" "10 \<notin> set k" and eq: "\<forall>l\<in>set ls. is_item k l \<longrightarrow> 61 \<in> set l" and len: "0 < len" "nat len \<le> length v"
  defines "b \<equiv> unlines ls @ [0]" and "n \<equiv> length (unlines ls)"
  shows "(case ini_line s k ls of
      None \<Rightarrow> find_section b n s 0 = Some None \<or>
        (\<exists>p e. find_section b n s 0 = Some (Some p) \<and> next_section b p = Some e \<and>
           find_item b n k (case e of None \<Rightarrow> n | Some q \<Rightarrow> q) p v len = Some (E_INI_FILE, v))
    | Some l \<Rightarrow> \<exists>p e. find_section b n s 0 = Some (Some p) \<and> next_section b p = Some e \<and>
        (let r = take (nat len - 1) (value_text (tl (dropWhile (\<lambda>c. c \<noteq> 61) l)))
         in find_item b n k (case e of None \<Rightarrow> n | Some q \<Rightarrow> q) p v len = Some (SUCCESS, r @ 0 # drop (Suc (length r)) v)))"
proof (cases "dropWhile (\<lambda>l. \<not> is_header s l) ls")
  case Nil
  then have "\<forall>l\<in>set ls. \<not> is_header s l" by (simp add: dropWhile_eq_Nil_conv)
  then have "find_section b n s 0 = Some None" unfolding b_def n_def by (rule find_section_lines(1) [OF lines s])
  moreover have "ini_line s k ls = None" unfolding ini_line_def Nil by simp
  ultimately show ?thesis by simp
next
  case (Cons h rest)
  obtain A C R where split: "ls = A @ h # C @ R" "\<forall>l\<in>set A. \<not> is_header s l" "is_header s h" "\<forall>l\<in>set C. \<not> prefix [91] l"
    "\<forall>d D. R = d # D \<longrightarrow> prefix [91] d" and C: "C = takeWhile (\<lambda>l. \<not> prefix [91] l) rest"
    using split_section [OF Cons] by blast
  let ?p = "Suc (length (unlines A))" and ?e = "case R of [] \<Rightarrow> None | _ \<Rightarrow> Some (length (unlines (A @ h # C)))"
  have h: "h \<noteq> []" using split(3) by (auto simp: is_header_def)
  have sec: "find_section b n s 0 = Some (Some ?p)" unfolding b_def n_def
    by (rule find_section_lines(2) [OF lines s split(1-3)])
  have nxt: "next_section b ?p = Some ?e" unfolding b_def by (rule next_section_lines [OF lines(1) split(1,4,5)])
  have lim: "(case ?e of None \<Rightarrow> n | Some q \<Rightarrow> q) = length (unlines (A @ h # C))"
    by (cases R) (simp_all add: n_def split(1))
  have line: "ini_line s k ls = find (is_item k) C" using Cons C by (simp add: ini_line_def)
  show ?thesis
  proof (cases "find (is_item k) C")
    case None
    then have "\<forall>l\<in>set C. \<not> is_item k l" using find_split [where P = "is_item k" and xs = C] by simp
    then have "find_item b n k (length (unlines (A @ h # C))) ?p v len = Some (E_INI_FILE, v)"
      unfolding b_def n_def by (rule find_item_lines(1) [OF lines(1) split(1) k h])
    then show ?thesis using sec nxt lim line None by auto
  next
    case (Some l)
    then obtain E F where E: "C = E @ l # F" "\<forall>l\<in>set E. \<not> is_item k l" "is_item k l" using find_split [where P = "is_item k" and xs = C] by auto
    let ?X = "A @ h # E" and ?Y = "F @ R"
    have ls: "ls = ?X @ l # ?Y" using split(1) E(1) by simp
    have "find_item b n k (length (unlines (A @ h # C))) ?p v len = take_value b n (length (unlines ?X)) v len"
      unfolding b_def n_def by (rule find_item_lines(2) [OF lines(1) split(1) k h E])
    moreover have "lines_ok (?X @ l # ?Y)" "61 \<in> set l" using lines(1) eq E(3) ls by (simp_all add: lines_ok_def)
    ultimately show ?thesis using take_value_line [of ?X l ?Y len v] len sec nxt lim line Some ls
      by (simp add: b_def n_def Let_def)
  qed
qed

lemma GetString_buffer:
  assumes "lines_ok ls" "ls \<noteq> []" "s \<noteq> []" "91 \<notin> set s" "10 \<notin> set s" "\<not> prefix s (unlines ls)"
    and "k \<noteq> []" "10 \<notin> set k" "\<forall>l\<in>set ls. is_item k l \<longrightarrow> 61 \<in> set l" "0 < len" "len \<le> int (length v)"
    and "m_szBuffer ini = Some (unlines ls @ [0])" "m_iSize ini = int (length (unlines ls))"
  shows "case ini_line s k ls of
      None \<Rightarrow> GetString ini s k dflt v len = map_option (Pair E_INI_FILE) (strncpy v dflt len)
    | Some l \<Rightarrow> \<exists>v'. GetString ini s k dflt v len = Some (SUCCESS, v') \<and> cstr v' = Some (ini_value (nat len - 1) l)"
proof -
  let ?b = "unlines ls @ [0]" and ?n = "length (unlines ls)"
  define v0 where "v0 = put_at v 0 (take (nat len) (dflt @ replicate (nat len) 0))"
  have len0: "length (take (nat len) (dflt @ replicate (nat len) 0)) = nat len" by simp
  have nl: "nat len \<le> length v" using assms(11) by linarith
  have copy: "strncpy v dflt len = Some v0" using assms(10) nl len0 by (simp add: strncpy_def mem_write_def v0_def)
  have v0: "nat len \<le> length v0" using nl len0 by (simp add: v0_def)
  have pos: "0 < ?n" using assms(2) by (cases ls) auto
  have valid: "IsValid ini" using assms(12,13) pos by (simp add: IsValid_def)
  note run = lookup_run [OF assms(1-10) v0]
  show ?thesis
  proof (cases "ini_line s k ls")
    case None
    then consider "find_section ?b ?n s 0 = Some None" |
      p e where "find_section ?b ?n s 0 = Some (Some p)" "next_section ?b p = Some e"
        "find_item ?b ?n k (case e of None \<Rightarrow> ?n | Some q \<Rightarrow> q) p v0 len = Some (E_INI_FILE, v0)" using run by auto
    then show ?thesis
      by cases (simp_all add: None GetString_def copy valid assms(12,13) Let_def E_INI_FILE_def SUCCESS_def)
  next
    case (Some l)
    let ?r = "take (nat len - 1) (value_text (tl (dropWhile (\<lambda>c. c \<noteq> 61) l)))"
    obtain p e where "find_section ?b ?n s 0 = Some (Some p)" "next_section ?b p = Some e"
        "find_item ?b ?n k (case e of None \<Rightarrow> ?n | Some q \<Rightarrow> q) p v0 len = Some (SUCCESS, ?r @ 0 # drop (Suc (length ?r)) v0)"
      using run Some by (auto simp: Let_def)
    then have get: "GetString ini s k dflt v len = map_option (Pair SUCCESS) (TrimString (?r @ 0 # drop (Suc (length ?r)) v0))"
      by (simp add: GetString_def copy valid assms(12,13) Let_def map_option_case split: option.splits)
    have l: "l \<in> set ls"
    proof -
      have "find (is_item k) (takeWhile (\<lambda>l. \<not> prefix [91] l) (tl (dropWhile (\<lambda>l. \<not> is_header s l) ls))) = Some l"
        using Some by (auto simp: ini_line_def split: list.splits)
      then show ?thesis by (auto simp: find_Some_iff dest!: nth_mem set_takeWhileD in_tl set_dropWhileD)
    qed
    let ?w = "tl (dropWhile (\<lambda>c. c \<noteq> 61) l)"
    have "set ?w \<subseteq> set l" by (auto dest: in_tl set_dropWhileD)
    then have w: "10 \<notin> set ?w" "0 \<notin> set ?w" using assms(1) l by (auto simp: lines_ok_def)
    have "0 \<notin> set ?r" using value_text_chars(1) [OF w] by (auto dest: in_set_takeD)
    moreover have "?r = [] \<or> \<not> blank (hd ?r)" using value_text_chars(2) [OF w] by (cases "nat len - 1"; cases "value_text ?w") auto
    ultimately obtain v' where "TrimString (?r @ 0 # drop (Suc (length ?r)) v0) = Some v'" "cstr v' = Some (rtrim ?r)"
      using TrimString_run by blast
    then show ?thesis using get Some by (simp add: ini_value_def)
  qed
qed

lemma new_buffer:
  assumes "stat fs f = Some (Reg t)" "0 < length t" "length t < 2 ^ 31"
  shows "m_szBuffer (new_CIniFile d fs f) = Some (t @ [0])" "m_iSize (new_CIniFile d fs f) = int (length t)"
proof -
  have "cint (int (length t)) = int (length t)" using assms(3) by simp
  then show "m_szBuffer (new_CIniFile d fs f) = Some (t @ [0])" "m_iSize (new_CIniFile d fs f) = int (length t)"
    using assms(1,2) by (simp_all add: new_CIniFile_def Let_def get_at_def)
qed

text \<open>C33. \<open>GetString\<close> is the lookup that a reader of the file would do line by line. In a file whose lines all end with a line break, for
  a section and an item name without line breaks and brackets, it returns an error and the default exactly when the first section of the name, up to
  the next line that starts with a bracket, has no line for the item, and else \<open>SUCCESS\<close> and the value of the first such
  line: what follows the first equals sign, without blanks at its ends, up to a comment, with double semicolons as one, cut at the length of the buffer.
\<close>

theorem GetString_lines:
  assumes "stat fs f = Some (Reg (unlines ls))" "length (unlines ls) < 2 ^ 31" "lines_ok ls" "ls \<noteq> []"
    and "s \<noteq> []" "91 \<notin> set s" "10 \<notin> set s" "\<not> prefix s (unlines ls)" "k \<noteq> []" "10 \<notin> set k"
    and "\<forall>l\<in>set ls. is_item k l \<longrightarrow> 61 \<in> set l" "0 < len" "len \<le> int (length v)"
  shows "case ini_line s k ls of
      None \<Rightarrow> GetString (new_CIniFile d fs f) s k dflt v len = map_option (Pair E_INI_FILE) (strncpy v dflt len)
    | Some l \<Rightarrow> \<exists>v'. GetString (new_CIniFile d fs f) s k dflt v len = Some (SUCCESS, v') \<and> cstr v' = Some (ini_value (nat len - 1) l)"
proof -
  have "0 < length (unlines ls)" using assms(4) by (cases ls) auto
  then show ?thesis using GetString_buffer [OF assms(3-13) new_buffer] assms(1,2) by blast
qed

theorem GetString_lines_witness:
  "\<exists>v'. GetString (new_CIniFile 4096 [([[99]], Reg (unlines [[91, 65, 93], [120, 61, 32, 49, 32, 59, 99]]))] [99]) [65] [120] [] (replicate 8 0) 8
     = Some (SUCCESS, v') \<and> cstr v' = Some [49]"
proof -
  let ?ls = "[[91, 65, 93], [120, 61, 32, 49, 32, 59, 99]] :: bytes list"
  have "ini_line [65] [120] ?ls = Some [120, 61, 32, 49, 32, 59, 99]" by (simp add: ini_line_def is_header_def is_item_def)
  moreover have "ini_value (nat 8 - 1) [120, 61, 32, 49, 32, 59, 99] = [49]" by (simp add: ini_value_def value_text_def rtrim_def blank_def)
  ultimately show ?thesis
    using GetString_lines [of "[([[99]], Reg (unlines ?ls))]" "[99]" ?ls "[65]" "[120]" 8 "replicate 8 0" 4096 "[]"]
    by (simp add: stat_def path_of_def node_at_def lines_ok_def is_item_def)
qed

end
