(* ===== verification/Ini_Number.thy ===== *)
theory Ini_Number
  imports Ini_Correct
begin

text \<open>
  Numbers in a configuration file: what \<open>GetInt\<close> and \<open>GetULongLong\<close> make of a value, and where they fail to report a missing one.
\<close>

section \<open>Decimal digits\<close>

fun decimal :: "nat \<Rightarrow> bytes" where
  "decimal n = (if n < 10 then [48 + of_nat n] else decimal (n div 10) @ [48 + of_nat (n mod 10)])"

declare decimal.simps [simp del]

lemma digit_of_nat:
  assumes "d < 10"
  shows "digit_val 10 (48 + of_nat d) = Some d" "\<not> is_space (48 + of_nat d)"
    "48 + of_nat d \<noteq> (45 :: byte)" "48 + of_nat d \<noteq> (43 :: byte)" "48 + of_nat d \<noteq> (120 :: byte)" "48 + of_nat d \<noteq> (88 :: byte)"
proof -
  have "d \<in> {0, 1, 2, 3, 4, 5, 6, 7, 8, 9}" using assms by auto
  then show "digit_val 10 (48 + of_nat d) = Some d" "\<not> is_space (48 + of_nat d)"
    "48 + of_nat d \<noteq> (45 :: byte)" "48 + of_nat d \<noteq> (43 :: byte)" "48 + of_nat d \<noteq> (120 :: byte)" "48 + of_nat d \<noteq> (88 :: byte)"
    by (elim insertE emptyE; simp add: digit_val_def is_space_def)+
qed

lemma digits_snoc:
  assumes "length (digits_of b xs) = length xs" "digit_val b c = Some v"
  shows "digits_of b (xs @ [c]) = digits_of b xs @ [v]"
  using assms by (induction xs) (auto split: option.splits)

lemma decimal_digits:
  "length (digits_of 10 (decimal n)) = length (decimal n)" "num_val 10 (digits_of 10 (decimal n)) = n"
proof (induction n rule: decimal.induct)
  case (1 n)
  have both: "length (digits_of 10 (decimal n)) = length (decimal n) \<and> num_val 10 (digits_of 10 (decimal n)) = n"
  proof (cases "n < 10")
    case True
    then show ?thesis using digit_of_nat(1) [OF True] by (simp add: decimal.simps [of n] num_val_def)
  next
    case False
    have "digits_of 10 (decimal n) = digits_of 10 (decimal (n div 10)) @ [n mod 10]"
      using digits_snoc [OF 1(1) [OF False] digit_of_nat(1)] False by (simp add: decimal.simps [of n])
    then show ?thesis using 1 [OF False] False by (simp add: decimal.simps [of n] num_val_def)
  qed
  then show "length (digits_of 10 (decimal n)) = length (decimal n)" "num_val 10 (digits_of 10 (decimal n)) = n" by simp_all
qed

lemma decimal_chars:
  "c \<in> set (decimal n) \<Longrightarrow> \<exists>d<10. c = 48 + of_nat d"
proof (induction n rule: decimal.induct)
  case (1 n)
  show ?case
  proof (cases "n < 10")
    case True
    then show ?thesis using 1(2) by (auto simp: decimal.simps [of n])
  next
    case False
    then have "c \<in> set (decimal (n div 10)) \<or> c = 48 + of_nat (n mod 10)" using 1(2) by (auto simp: decimal.simps [of n])
    moreover have "n mod 10 < 10" by simp
    ultimately show ?thesis using 1(1) [OF False] by blast
  qed
qed

lemma decimal_ne: "decimal n \<noteq> []"
  by (simp add: decimal.simps [of n])

lemma decimal_hd: "\<exists>d<10. hd (decimal n) = 48 + of_nat d"
  using decimal_chars [OF hd_in_set [OF decimal_ne]] .

lemma scan_decimal: "scan_number 10 (decimal n) = (False, digits_of 10 (decimal n))"
proof -
  obtain d where d: "d < 10" "hd (decimal n) = 48 + of_nat d" using decimal_hd by blast
  then have hd: "\<not> is_space (hd (decimal n))" "hd (decimal n) \<noteq> 45" "hd (decimal n) \<noteq> 43" using digit_of_nat [OF d(1)] by simp_all
  have "dropWhile is_space (decimal n) = decimal n" using hd(1) decimal_ne [of n] by (cases "decimal n") auto
  then show ?thesis using hd(2,3) by (simp add: scan_number_def)
qed

lemma decimal_not_hex: "take 2 (decimal n) \<noteq> [48, 120]" "take 2 (decimal n) \<noteq> [48, 88]"
proof -
  have no: "120 \<notin> set (decimal n)" "88 \<notin> set (decimal n)" using decimal_chars digit_of_nat(5,6) by metis+
  have "set (take 2 (decimal n)) \<subseteq> set (decimal n)" by (rule set_take_subset)
  then show "take 2 (decimal n) \<noteq> [48, 120]" "take 2 (decimal n) \<noteq> [48, 88]" using no by auto
qed

lemma atoi_decimal: "n < 2 ^ 31 \<Longrightarrow> atoi (decimal n) = Some (word_of_nat n)"
  using decimal_digits(2) [of n] by (simp add: atoi_def scan_decimal)

lemma strtoull_decimal: "n < 2 ^ 64 \<Longrightarrow> strtoull (decimal n) = word_of_nat n"
  using decimal_digits(2) [of n] by (simp add: strtoull_def scan_decimal)

lemma digits_stop:
  "length (digits_of b xs) = length xs \<Longrightarrow> digit_val b c = None \<Longrightarrow> digits_of b (xs @ c # ys) = digits_of b xs"
proof (induction xs)
  case (Cons x xs)
  then show ?case by (cases "digit_val b x") simp_all
qed simp

text \<open>Only the first number of a product is read: \<^verbatim>\<open>mq_conf.ini\<close> gives sizes as \<^verbatim>\<open>1024*1024*10\<close>, and that is read as 1024.\<close>

lemma atoi_product:
  assumes "n < 2 ^ 31"
  shows "atoi (decimal n @ 42 # rest) = Some (word_of_nat n)"
proof -
  obtain d where d: "d < 10" "hd (decimal n) = 48 + of_nat d" using decimal_hd by blast
  then have hd: "\<not> is_space (hd (decimal n))" "hd (decimal n) \<noteq> 45" "hd (decimal n) \<noteq> 43" using digit_of_nat [OF d(1)] by simp_all
  have "dropWhile is_space (decimal n @ 42 # rest) = decimal n @ 42 # rest" "hd (decimal n @ 42 # rest) = hd (decimal n)"
    using hd(1) decimal_ne [of n] by (cases "decimal n"; simp)+
  moreover have "digit_val 10 42 = None" by (simp add: digit_val_def)
  then have "digits_of 10 (decimal n @ 42 # rest) = digits_of 10 (decimal n)" by (intro digits_stop decimal_digits(1))
  ultimately have "scan_number 10 (decimal n @ 42 # rest) = (False, digits_of 10 (decimal n))" using hd(2,3) by (simp add: scan_number_def)
  then show ?thesis using assms decimal_digits(2) [of n] by (simp add: atoi_def)
qed

section \<open>Reading a number\<close>

text \<open>C35. A number survives the way through a configuration file: when the first line of the item in the section has the decimal
  digits of a number as its value, \<open>GetInt\<close> returns \<open>SUCCESS\<close> and stores this number (and \<open>GetULongLong\<close>
  as well, over 64 bits); when there is no line of the item, they return the error and store the default.
\<close>

theorem GetInt_decimal:
  assumes "stat fs f = Some (Reg (unlines ls))" "length (unlines ls) < 2 ^ 31" "lines_ok ls" "ls \<noteq> []"
    and "s \<noteq> []" "91 \<notin> set s" "10 \<notin> set s" "\<not> prefix s (unlines ls)" "k \<noteq> []" "10 \<notin> set k"
    and "\<forall>l\<in>set ls. is_item k l \<longrightarrow> 61 \<in> set l"
    and "case ini_line s k ls of None \<Rightarrow> True | Some l \<Rightarrow> ini_value 31 l = decimal n"
  shows "(case ini_line s k ls of
      None \<Rightarrow> GetInt (new_CIniFile d fs f) s k i old = Some (E_INI_FILE, i) \<and>
        GetULongLong (new_CIniFile d fs f) s k u uold = Some (E_INI_FILE, u)
    | Some l \<Rightarrow>
        (n < 2 ^ 31 \<longrightarrow> GetInt (new_CIniFile d fs f) s k i old = Some (SUCCESS, word_of_nat n)) \<and>
        (n < 2 ^ 64 \<longrightarrow> GetULongLong (new_CIniFile d fs f) s k u uold = Some (SUCCESS, word_of_nat n)))"
proof -
  let ?ini = "new_CIniFile d fs f"
  have "0 < length (unlines ls)" using assms(4) by (cases ls) auto
  then have valid: "IsValid ?ini" using new_buffer [OF assms(1) _ assms(2), of d] by (simp add: IsValid_def)
  have get: "case ini_line s k ls of
      None \<Rightarrow> GetString ?ini s k [] (replicate 32 0) 32 = map_option (Pair E_INI_FILE) (strncpy (replicate 32 0) [] 32)
    | Some l \<Rightarrow> \<exists>v'. GetString ?ini s k [] (replicate 32 0) 32 = Some (SUCCESS, v') \<and> cstr v' = Some (ini_value (nat 32 - 1) l)"
    using GetString_buffer [OF assms(3-11) _ _ new_buffer [OF assms(1) _ assms(2), of d], where len = 32 and v = "replicate 32 0" and dflt = "[]"] \<open>0 < length (unlines ls)\<close>
    by simp
  show ?thesis
  proof (cases "ini_line s k ls")
    case None
    then have "GetString ?ini s k [] (replicate 32 0) 32 = Some (E_INI_FILE, replicate 32 0)"
      using get by (simp add: strncpy_def mem_write_def put_at_def)
    then show ?thesis using None valid by (simp add: GetInt_def GetULongLong_def E_INI_FILE_def)
  next
    case (Some l)
    then obtain v' where "GetString ?ini s k [] (replicate 32 0) 32 = Some (SUCCESS, v')" "cstr v' = Some (decimal n)"
      using get assms(12) by auto
    then show ?thesis using Some valid atoi_decimal strtoull_decimal decimal_not_hex [of n]
      by (simp add: GetInt_def GetULongLong_def SUCCESS_def)
  qed
qed

theorem GetInt_decimal_witness:
  "GetInt (new_CIniFile 4096 [([[99]], Reg (unlines [[91, 65, 93], [120, 61, 32, 52, 50]]))] [99]) [65] [120] 7 0 = Some (SUCCESS, 42)"
proof -
  let ?ls = "[[91, 65, 93], [120, 61, 32, 52, 50]] :: bytes list"
  have l: "ini_line [65] [120] ?ls = Some [120, 61, 32, 52, 50]" by (simp add: ini_line_def is_header_def is_item_def)
  have v: "ini_value 31 [120, 61, 32, 52, 50] = decimal 42" by (simp add: ini_value_def value_text_def rtrim_def blank_def decimal.simps)
  show ?thesis
    using GetInt_decimal [of "[([[99]], Reg (unlines ?ls))]" "[99]" ?ls "[65]" "[120]" 42 4096 7 0 0 0] l v
    by (simp add: stat_def path_of_def node_at_def lines_ok_def is_item_def)
qed

section \<open>A file without a last line break\<close>

text \<open>A missing number is reported as found when the file ends with the text of its item: of the file with the lines \<open>[MQ]\<close> and
  \<open>Name=Port\<close>, the second without a line break, \<open>GetInt\<close> reads the number \<open>Port\<close>
  with \<open>SUCCESS\<close> and stores 0, whatever the default is. With the line break it returns the error and stores the default.
\<close>

lemma ini_default_lost:
  "GetInt (new_CIniFile d [([[99]], Reg [91, 77, 81, 93, 10, 78, 97, 109, 101, 61, 80, 111, 114, 116])] [99]) [77, 81] [80, 111, 114, 116] i old
     = Some (SUCCESS, 0) \<and>
   GetInt (new_CIniFile d [([[99]], Reg [91, 77, 81, 93, 10, 78, 97, 109, 101, 61, 80, 111, 114, 116, 10])] [99]) [77, 81] [80, 111, 114, 116] i old
     = Some (E_INI_FILE, i)"
proof
  let ?b = "[91, 77, 81, 93, 10, 78, 97, 109, 101, 61, 80, 111, 114, 116] :: bytes"
  have b: "m_szBuffer (new_CIniFile d [([[99]], Reg ?b)] [99]) = Some (?b @ [0])" "m_iSize (new_CIniFile d [([[99]], Reg ?b)] [99]) = 14"
    using new_buffer [of "[([[99]], Reg ?b)]" "[99]" ?b d] by (simp_all add: stat_def path_of_def node_at_def)
  have sec: "find_section (?b @ [0]) 14 [77, 81] 0 = Some (Some 1)"
    by (subst find_section.simps) (simp add: strstr_def cstr_def first_occ.simps char_at_def)
  have nxt: "next_section (?b @ [0]) 1 = Some None"
    by (subst next_section.simps) (simp add: strstr_def cstr_def first_occ.simps)
  have item: "find_item (?b @ [0]) 14 [80, 111, 114, 116] 14 1 v len = Some (SUCCESS, v)" for v len
  proof -
    have "find_item (?b @ [0]) 14 [80, 111, 114, 116] 14 q v len = Some (SUCCESS, v)" if "14 \<le> q" for q
      using that by (subst find_item.simps) simp
    then show ?thesis by (subst find_item.simps) (simp add: strstr_def cstr_def first_occ.simps char_at_def)
  qed
  let ?ini = "new_CIniFile d [([[99]], Reg ?b)] [99]" and ?z = "replicate 32 0 :: bytes"
  have valid: "IsValid ?ini" using b by (simp add: IsValid_def)
  have empty: "cstr ?z = Some []" by (simp add: cstr_def numeral_eq_Suc)
  have trim: "TrimString ?z = Some ?z" unfolding TrimString_def empty by (simp add: Let_def)
  have copy: "strncpy ?z [] 32 = Some ?z" by (simp add: strncpy_def mem_write_def put_at_def)
  have size: "nat (m_iSize ?ini) = 14" using b(2) by simp
  have get: "GetString ?ini [77, 81] [80, 111, 114, 116] [] ?z 32 = Some (SUCCESS, ?z)"
    unfolding GetString_def copy b(1) size using valid sec nxt item by (simp only: Option.bind.bind_lunit option.case prod.case Let_def not_True_eq_False simp_thms if_False trim if_True)
  have "atoi [] = Some 0" by (simp add: atoi_def scan_number_def num_val_def)
  then show "GetInt ?ini [77, 81] [80, 111, 114, 116] i old = Some (SUCCESS, 0)"
    using get valid empty by (simp add: GetInt_def SUCCESS_def)
next
  let ?ls = "[[91, 77, 81, 93], [78, 97, 109, 101, 61, 80, 111, 114, 116]] :: bytes list"
  have u: "[91, 77, 81, 93, 10, 78, 97, 109, 101, 61, 80, 111, 114, 116, 10] = unlines ?ls" by simp
  have "ini_line [77, 81] [80, 111, 114, 116] ?ls = None" by (simp add: ini_line_def is_header_def is_item_def)
  then show "GetInt (new_CIniFile d [([[99]], Reg [91, 77, 81, 93, 10, 78, 97, 109, 101, 61, 80, 111, 114, 116, 10])] [99]) [77, 81] [80, 111, 114, 116] i old
     = Some (E_INI_FILE, i)"
    unfolding u
    using GetInt_decimal [of "[([[99]], Reg (unlines ?ls))]" "[99]" ?ls "[77, 81]" "[80, 111, 114, 116]" 0 d i old 0 0]
    by (simp add: stat_def path_of_def node_at_def lines_ok_def is_item_def)
qed

end
