(* ===== verification/Log_File.thy ===== *)
theory Log_File
  imports Ini_Number
begin

text \<open>
  The logger of the servers, \<^verbatim>\<open>logger/logger.cpp\<close>: the log file of a day and its lines. The clock and the formatted message are
  arguments; the output to the terminal is the text that is printed. \<open>umask\<close> is left out.
\<close>

section \<open>The class\<close>

definition MQ_MAX_PATH_LEN :: nat where "MQ_MAX_PATH_LEN = 100"

definition ERR_LOG :: bytes where "ERR_LOG = [69, 82, 82, 95, 76, 79, 71]"
definition WARN_LOG :: bytes where "WARN_LOG = [87, 65, 82, 78, 95, 76, 79, 71]"
definition INFO_LOG :: bytes where "INFO_LOG = [73, 78, 70, 79, 95, 76, 79, 71]"

datatype mq_log_level = mq_log_err | mq_log_warn | mq_log_info

record logger =
  m_pLogFile :: "path option"
  m_pLogPath :: bytes

definition Logger_new :: logger where
  "Logger_new = \<lparr>m_pLogFile = None, m_pLogPath = replicate MQ_MAX_PATH_LEN 0\<rparr>"

text \<open>\<^verbatim>\<open>strcat\<close>, and \<^verbatim>\<open>sprintf\<close> with \<^verbatim>\<open>%d\<close> into five bytes.\<close>

definition strcat :: "bytes \<Rightarrow> bytes \<Rightarrow> bytes option" where
  "strcat dst src = do { old \<leftarrow> cstr dst; new \<leftarrow> cstr src; mem_write dst (length old) (new @ [0]) }"

definition sprint_int :: "nat \<Rightarrow> bytes option" where
  "sprint_int n = mem_write (replicate 5 0) 0 (decimal n @ [0])"

text \<open>The time is the year, the month and the day of \<^verbatim>\<open>localtime\<close> (the month from 1 on).\<close>

definition Logger_Init :: "bytes \<Rightarrow> nat \<times> nat \<times> nat \<Rightarrow> logger \<Rightarrow> file_sys \<Rightarrow> (int \<times> logger \<times> file_sys) option" where
  "Logger_Init pLogPath tLocal lg fs = do {
     m_pLogPath \<leftarrow> memcpy (m_pLogPath lg) 0 pLogPath 0 (int MQ_MAX_PATH_LEN);
     dir \<leftarrow> cstr m_pLogPath;
     let fs = (if stat fs dir = None then (case mkdir dir fs of None \<Rightarrow> fs | Some fs' \<Rightarrow> fs') else fs);
     let (year, mon, mday) = tLocal;
     pYear \<leftarrow> sprint_int year;
     m_pLogPath \<leftarrow> strcat m_pLogPath pYear;
     pMon \<leftarrow> sprint_int mon;
     m_pLogPath \<leftarrow> strcat m_pLogPath pMon;
     pDay \<leftarrow> sprint_int mday;
     m_pLogPath \<leftarrow> strcat m_pLogPath pDay;
     m_pLogPath \<leftarrow> strcat m_pLogPath [46, 108, 111, 103, 0];
     name \<leftarrow> cstr m_pLogPath;
     let (f, fs) = fopen_wb name fs;
     Some (SUCCESS, \<lparr>m_pLogFile = f, m_pLogPath = m_pLogPath\<rparr>, fs) }"

definition level_text :: "mq_log_level \<Rightarrow> bytes" where
  "level_text iLevel = (case iLevel of mq_log_err \<Rightarrow> ERR_LOG | mq_log_warn \<Rightarrow> WARN_LOG | mq_log_info \<Rightarrow> INFO_LOG)"

text \<open>
  \<open>pBuf\<close> is the text of the time and \<open>msg\<close> the formatted message. Ten bytes are copied from the constant; \<open>behind\<close> is the memory
  behind it. A stream that was not opened is a null pointer.
\<close>

definition WriteLog :: "mq_log_level \<Rightarrow> bytes \<Rightarrow> bytes \<Rightarrow> bytes \<Rightarrow> logger \<Rightarrow> file_sys \<Rightarrow> (int \<times> file_sys) option" where
  "WriteLog iLevel behind pBuf msg lg fs = do {
     pLogLevel \<leftarrow> memcpy (replicate 10 0) 0 (level_text iLevel @ 0 # behind) 0 10;
     level \<leftarrow> cstr pLogLevel;
     f \<leftarrow> m_pLogFile lg;
     let line = pBuf @ [58, 32] @ level @ [32] @ msg @ [10];
     fs \<leftarrow> fwrite line 0 (int (length line)) f fs;
     Some (SUCCESS, fs) }"

text \<open>\<^verbatim>\<open>Print\<close>: the text that appears; \<^verbatim>\<open>vsnprintf\<close> keeps 99 characters.\<close>

definition Print :: "mq_log_level \<Rightarrow> bytes \<Rightarrow> int \<times> bytes" where
  "Print iLevel msg = (SUCCESS, level_text iLevel @ [58] @ take 99 msg @ [10])"

section \<open>The name of the file\<close>

lemma strcat_text:
  assumes "0 \<notin> set a" "0 \<notin> set b" "length b \<le> n" "0 < n"
  shows "strcat (a @ replicate n 0) (b @ 0 # z) = (if length b < n then Some ((a @ b) @ replicate (n - length b) 0) else None)"
proof -
  obtain m where n: "n = Suc m" using assms(4) by (cases n) auto
  have "cstr (a @ replicate n 0) = Some a" using cstr_text [OF assms(1)] by (simp add: n)
  moreover have "replicate (n - length b) (0 :: byte) = 0 # replicate (n - Suc (length b)) 0" if "length b < n"
    using that by (metis Suc_diff_Suc replicate_Suc)
  ultimately show ?thesis using cstr_text [OF assms(2), of z]
    by (auto simp: strcat_def mem_write_def put_at_def min_def)
qed

lemma strcat_room:
  "0 \<notin> set a \<Longrightarrow> 0 \<notin> set b \<Longrightarrow> length b < n \<Longrightarrow> strcat (a @ replicate n 0) (b @ 0 # z) = Some ((a @ b) @ replicate (n - length b) 0)"
  using strcat_text [of a b n z] by simp

lemma decimal_no_nul: "0 \<notin> set (decimal n)"
proof
  assume "0 \<in> set (decimal n)"
  then obtain d :: nat where d: "d < 10" "(0 :: byte) = 48 + of_nat d" using decimal_chars by metis
  then have "d \<in> {0, 1, 2, 3, 4, 5, 6, 7, 8, 9}" by auto
  then show False using d(2) by auto
qed

lemma length_decimal: "n < 10 ^ k \<Longrightarrow> 0 < k \<Longrightarrow> length (decimal n) \<le> k"
proof (induction n arbitrary: k rule: decimal.induct)
  case (1 n)
  show ?case
  proof (cases "n < 10")
    case True
    then show ?thesis using 1(3) by (simp add: decimal.simps [of n])
  next
    case False
    then obtain j where j: "k = Suc j" "0 < j" using 1(2,3) by (cases k; cases "k - 1") auto
    then have "n div 10 < 10 ^ j" using 1(2) by (simp add: div_less_iff_less_mult mult.commute)
    then have "length (decimal (n div 10)) \<le> j" using 1(1) [OF False] j(2) by simp
    then show ?thesis using False j(1) by (simp add: decimal.simps [of n])
  qed
qed

text \<open>The name of the log of a day.\<close>

definition log_name :: "bytes \<Rightarrow> nat \<times> nat \<times> nat \<Rightarrow> bytes" where
  "log_name dir = (\<lambda>(year, mon, mday). dir @ decimal year @ decimal mon @ decimal mday @ [46, 108, 111, 103])"

lemma sprint_int_text: "n < 10000 \<Longrightarrow> \<exists>z. sprint_int n = Some (decimal n @ 0 # z)"
  using length_decimal [of n 4] by (simp add: sprint_int_def mem_write_def put_at_def)

text \<open>\<open>Init\<close> opens the file of the day, empties it, and reports success whether it could be opened or not.\<close>

lemma Logger_Init_name:
  fixes fs :: file_sys
  assumes "0 \<notin> set dir" "length dir + 12 < MQ_MAX_PATH_LEN" "year < 10000" "mon < 100" "mday < 100"
    and "length (m_pLogPath lg) = MQ_MAX_PATH_LEN"
  defines "fs1 \<equiv> if stat fs dir = None then (case mkdir dir fs of None \<Rightarrow> fs | Some fs' \<Rightarrow> fs') else fs"
  shows "\<exists>path. Logger_Init (dir @ replicate (MQ_MAX_PATH_LEN - length dir) 0) (year, mon, mday) lg fs =
    Some (SUCCESS, \<lparr>m_pLogFile = fst (fopen_wb (log_name dir (year, mon, mday)) fs1), m_pLogPath = path\<rparr>,
      snd (fopen_wb (log_name dir (year, mon, mday)) fs1))"
proof -
  let ?p = "dir @ replicate (MQ_MAX_PATH_LEN - length dir) 0"
  let ?y = "decimal year" and ?m = "decimal mon" and ?d = "decimal mday" and ?l = "[46, 108, 111, 103] :: bytes"
  have lens: "length ?y \<le> 4" "length ?m \<le> 2" "length ?d \<le> 2" using length_decimal [of year 4] length_decimal [of mon 2] length_decimal [of mday 2] assms(3-5) by simp_all
  have room: "length dir + 12 < 100" using assms(2) by (simp add: MQ_MAX_PATH_LEN_def)
  obtain zy where zy: "sprint_int year = Some (?y @ 0 # zy)" using sprint_int_text [OF assms(3)] by blast
  obtain zm where zm: "sprint_int mon = Some (?m @ 0 # zm)" using sprint_int_text [of mon] assms(4) by auto
  obtain zd where zd: "sprint_int mday = Some (?d @ 0 # zd)" using sprint_int_text [of mday] assms(5) by auto
  let ?n0 = "100 - length dir" let ?n1 = "?n0 - length ?y" let ?n2 = "?n1 - length ?m" let ?n3 = "?n2 - length ?d"
  note nul = assms(1) decimal_no_nul
  have copy: "memcpy (m_pLogPath lg) 0 ?p 0 (int MQ_MAX_PATH_LEN) = Some ?p"
    using assms(6) room by (simp add: memcpy_def mem_write_def put_at_def mem_read_def MQ_MAX_PATH_LEN_def get_at_def)
  have dir: "cstr (dir @ replicate ?n0 0) = Some dir"
  proof -
    obtain m where "?n0 = Suc m" using room by (cases ?n0) auto
    then show ?thesis using cstr_text [OF assms(1)] by simp
  qed
  have c1: "strcat (dir @ replicate ?n0 0) (?y @ 0 # zy) = Some ((dir @ ?y) @ replicate ?n1 0)"
    by (rule strcat_room) (use nul lens room in simp_all)
  have c2: "strcat ((dir @ ?y) @ replicate ?n1 0) (?m @ 0 # zm) = Some (((dir @ ?y) @ ?m) @ replicate ?n2 0)"
    by (rule strcat_room) (use nul lens room in simp_all)
  have c3: "strcat (((dir @ ?y) @ ?m) @ replicate ?n2 0) (?d @ 0 # zd) = Some ((((dir @ ?y) @ ?m) @ ?d) @ replicate ?n3 0)"
    by (rule strcat_room) (use nul lens room in simp_all)
  have c4: "strcat ((((dir @ ?y) @ ?m) @ ?d) @ replicate ?n3 0) (?l @ 0 # []) = Some (((((dir @ ?y) @ ?m) @ ?d) @ ?l) @ replicate (?n3 - length ?l) 0)"
    by (rule strcat_room) (use nul lens room in simp_all)
  have name: "cstr (((((dir @ ?y) @ ?m) @ ?d) @ ?l) @ replicate (?n3 - length ?l) 0) = Some (log_name dir (year, mon, mday))"
  proof -
    obtain m where "?n3 - length ?l = Suc m" using room lens by (cases "?n3 - length ?l") auto
    then show ?thesis using cstr_text [of "(((dir @ ?y) @ ?m) @ ?d) @ ?l"] nul by (simp add: log_name_def)
  qed
  have p: "?p = dir @ replicate ?n0 0" by (simp add: MQ_MAX_PATH_LEN_def)
  show ?thesis
    unfolding Logger_Init_def copy unfolding p
    by (simp only: Option.bind.bind_lunit dir zy zm zd c1 c2 c3 c4 [unfolded append.simps] name Let_def fs1_def [symmetric] prod.case append_Cons append_Nil)
      (simp add: case_prod_unfold)
qed

text \<open>The number of the month and of the day are not padded: the logs of January 11 and of November 1 have the same name, and the second deletes the first.\<close>

lemma log_names_collide: "log_name dir (year, 1, 11) = log_name dir (year, 11, 1)"
  by (simp add: log_name_def decimal.simps)

lemma WriteLog_line:
  assumes "m_pLogFile lg = Some f" "map_of fs f = Some (Reg d)" "length behind = 2"
  shows "WriteLog iLevel behind pBuf msg lg fs =
    Some (SUCCESS, AList.update f (Reg (d @ pBuf @ [58, 32] @ level_text iLevel @ [32] @ msg @ [10])) fs)"
proof -
  have t: "length (level_text iLevel) \<le> 8" "7 \<le> length (level_text iLevel)" "0 \<notin> set (level_text iLevel)"
    by (cases iLevel; simp add: level_text_def ERR_LOG_def WARN_LOG_def INFO_LOG_def)+
  have "get_at (level_text iLevel @ 0 # behind) 0 10 = level_text iLevel @ 0 # take (9 - length (level_text iLevel)) behind"
    using t(1) by (simp add: get_at_def take_Cons')
  then have "memcpy (replicate 10 0) 0 (level_text iLevel @ 0 # behind) 0 10 = Some (level_text iLevel @ 0 # take (9 - length (level_text iLevel)) behind)"
    using t(1,2) assms(3) by (simp add: memcpy_def put_at_def)
  then have "\<exists>x. memcpy (replicate 10 0) 0 (level_text iLevel @ 0 # behind) 0 10 = Some x \<and> cstr x = Some (level_text iLevel)"
    using cstr_text [OF t(3)] by blast
  then show ?thesis using assms(1,2) by (auto simp: WriteLog_def fwrite_def get_at_def Let_def)
qed

end
