(* ===== verification/Sem_Lock.thy ===== *)
theory Sem_Lock
  imports Mq_Prelude
begin

text \<open>
  The semaphore wrapper \<^verbatim>\<open>sem_lock/sem_lock.cpp\<close>: the class \<^verbatim>\<open>SemLock\<close> over the semaphores of System V. The calls of the
  system are modelled by what their manual pages say; a call that does not return is \<open>None\<close>. The error texts are not kept.
\<close>

section \<open>The semaphores of the system\<close>

text \<open>One set has one semaphore: its value, the time of the last operation and, per process, what its end undoes.\<close>

record sem_set =
  semval :: int
  sem_otime :: int
  semadj :: "nat \<Rightarrow> int"

record sem_kernel =
  sem_ids :: "(int \<times> int) list"
  sem_sets :: "(int \<times> sem_set) list"

definition SEMVMX :: int where "SEMVMX = 32767"

text \<open>\<open>fresh\<close> is the identifier of a new set, or \<open>None\<close> when none can be made. A set of the key 0 is always new.\<close>

definition semget :: "int option \<Rightarrow> int \<Rightarrow> sem_kernel \<Rightarrow> int \<times> sem_kernel" where
  "semget fresh key k =
     (case (if key = 0 then None else map_of (sem_ids k) key) of
        Some i \<Rightarrow> (i, k)
      | None \<Rightarrow> (case fresh of
          None \<Rightarrow> (-1, k)
        | Some i \<Rightarrow> (i, k\<lparr>sem_ids := (key, i) # sem_ids k,
            sem_sets := (i, \<lparr>semval = 0, sem_otime = 0, semadj = \<lambda>_. 0\<rparr>) # sem_sets k\<rparr>)))"

text \<open>\<^verbatim>\<open>SETVAL\<close> also forgets what the ends of processes would undo.\<close>

definition semctl_setval :: "int \<Rightarrow> int \<Rightarrow> sem_kernel \<Rightarrow> int \<times> sem_kernel" where
  "semctl_setval i v k =
     (case map_of (sem_sets k) i of
        None \<Rightarrow> (-1, k)
      | Some st \<Rightarrow> (0, k\<lparr>sem_sets := AList.update i (st\<lparr>semval := v, semadj := \<lambda>_. 0\<rparr>) (sem_sets k)\<rparr>))"

datatype semop_result = Waits | Fails | Does sem_set

text \<open>One operation of the process \<open>p\<close> with \<^verbatim>\<open>SEM_UNDO\<close> at the time \<open>t\<close>.\<close>

definition semop :: "nat \<Rightarrow> int \<Rightarrow> int \<Rightarrow> sem_set \<Rightarrow> semop_result" where
  "semop p sem_op t st =
     (if semval st + sem_op < 0 then Waits
      else if SEMVMX < semval st + sem_op \<or> semadj st p - sem_op < - SEMVMX - 1 \<or> SEMVMX < semadj st p - sem_op then Fails
      else Does (st\<lparr>semval := semval st + sem_op, sem_otime := t, semadj := (semadj st)(p := semadj st p - sem_op)\<rparr>))"

text \<open>The end of a process.\<close>

definition exit_set :: "nat \<Rightarrow> int \<Rightarrow> sem_set \<Rightarrow> sem_set" where
  "exit_set p t st =
     (if semadj st p = 0 then st
      else st\<lparr>semval := max 0 (min SEMVMX (semval st + semadj st p)), sem_otime := t, semadj := (semadj st)(p := 0)\<rparr>)"

definition sem_exit :: "nat \<Rightarrow> int \<Rightarrow> sem_kernel \<Rightarrow> sem_kernel" where
  "sem_exit p t k = k\<lparr>sem_sets := map (\<lambda>(i, st). (i, exit_set p t st)) (sem_sets k)\<rparr>"

section \<open>The class\<close>

definition ERR_SEM_LOCK_INIT :: int where "ERR_SEM_LOCK_INIT = -100"
definition ERR_SEM_LOCK_LOCK :: int where "ERR_SEM_LOCK_LOCK = -101"

record sem_lock =
  m_iSemKey :: int
  m_iSemId :: int

definition SemLock_new :: sem_lock where
  "SemLock_new = \<lparr>m_iSemKey = 0, m_iSemId = 0\<rparr>"

text \<open>The three calls of \<^verbatim>\<open>Init\<close>: the set, the test of its last operation at the time \<open>t\<close>, the value.\<close>

definition Init_get :: "int option \<Rightarrow> int \<Rightarrow> sem_lock \<Rightarrow> sem_kernel \<Rightarrow> sem_lock \<times> sem_kernel" where
  "Init_get fresh iSemKey l k =
     (let l = l\<lparr>m_iSemKey := iSemKey\<rparr>; (i, k) = semget fresh (m_iSemKey l) k in (l\<lparr>m_iSemId := i\<rparr>, k))"

definition Init_stat :: "int \<Rightarrow> sem_lock \<Rightarrow> sem_kernel \<Rightarrow> bool option" where
  "Init_stat t l k = do {
     semDs \<leftarrow> map_of (sem_sets k) (m_iSemId l);
     Some (sem_otime semDs = 0 \<or> 0 < sem_otime semDs \<and> t - sem_otime semDs > 3 * 60) }"

definition Init_set :: "sem_lock \<Rightarrow> sem_kernel \<Rightarrow> int \<times> sem_kernel" where
  "Init_set l k = semctl_setval (m_iSemId l) 1 k"

definition SemLock_Init :: "int option \<Rightarrow> int \<Rightarrow> int \<Rightarrow> sem_lock \<Rightarrow> sem_kernel \<Rightarrow> int \<times> sem_lock \<times> sem_kernel" where
  "SemLock_Init fresh t iSemKey l k =
     (let (l, k) = Init_get fresh iSemKey l k
      in if m_iSemId l = -1 then (ERR_SEM_LOCK_INIT, l, k)
         else case Init_stat t l k of
             None \<Rightarrow> (ERR_SEM_LOCK_INIT, l, k)
           | Some reset \<Rightarrow>
               if reset then let (ret, k) = Init_set l k in (if ret = -1 then ERR_SEM_LOCK_INIT else SUCCESS, l, k)
               else (SUCCESS, l, k))"

text \<open>The loops around \<^verbatim>\<open>semop\<close>, over what becomes of its calls: each is interrupted by a signal or runs at a time.\<close>

datatype semop_call = Interrupted | Runs int

fun semop_loop :: "semop_call list \<Rightarrow> nat \<Rightarrow> int \<Rightarrow> int \<Rightarrow> sem_kernel \<Rightarrow> (int \<times> sem_kernel) option" where
  "semop_loop [] p sem_op i k = None"
| "semop_loop (Interrupted # cs) p sem_op i k = semop_loop cs p sem_op i k"
| "semop_loop (Runs t # cs) p sem_op i k =
     (case map_of (sem_sets k) i of
        None \<Rightarrow> Some (ERR_SEM_LOCK_LOCK, k)
      | Some st \<Rightarrow> (case semop p sem_op t st of
          Waits \<Rightarrow> None
        | Fails \<Rightarrow> Some (ERR_SEM_LOCK_LOCK, k)
        | Does st' \<Rightarrow> Some (SUCCESS, k\<lparr>sem_sets := AList.update i st' (sem_sets k)\<rparr>)))"

definition Lock :: "sem_lock \<Rightarrow> semop_call list \<Rightarrow> nat \<Rightarrow> sem_kernel \<Rightarrow> (int \<times> sem_kernel) option" where
  "Lock l cs p k = (if m_iSemId l = 0 then Some (ERR_SEM_LOCK_LOCK, k) else semop_loop cs p (-1) (m_iSemId l) k)"

definition UnLock :: "sem_lock \<Rightarrow> semop_call list \<Rightarrow> nat \<Rightarrow> sem_kernel \<Rightarrow> (int \<times> sem_kernel) option" where
  "UnLock l cs p k = (if m_iSemId l = 0 then Some (ERR_SEM_LOCK_LOCK, k) else semop_loop cs p 1 (m_iSemId l) k)"

section \<open>Processes\<close>

text \<open>Where a process stands in \<^verbatim>\<open>Init\<close>; \<open>Ready\<close> is behind it.\<close>

datatype phase = Outside | Got | Reset | Ready

record sem_sys =
  kernel :: sem_kernel
  locks :: "nat \<Rightarrow> sem_lock"
  phase_of :: "nat \<Rightarrow> phase"
  holds :: "nat \<Rightarrow> bool"

text \<open>Any number of processes with one key; each call of the system is a step, a process holds the lock from \<^verbatim>\<open>Lock\<close> to \<^verbatim>\<open>UnLock\<close>.\<close>

datatype sem_event = EGet nat "int option" | EStat nat int | ESet nat | ELock nat "semop_call list" | EUnLock nat "semop_call list" | EExit nat int

inductive sem_step :: "int \<Rightarrow> sem_event \<Rightarrow> sem_sys \<Rightarrow> sem_sys \<Rightarrow> bool" for key where
  get: "phase_of s p \<in> {Outside, Ready} \<Longrightarrow> (\<forall>i. fresh = Some i \<longrightarrow> 0 \<le> i \<and> i \<notin> fst ` set (sem_sets (kernel s))) \<Longrightarrow>
    Init_get fresh key (locks s p) (kernel s) = (l, k) \<Longrightarrow>
    sem_step key (EGet p fresh) s (s\<lparr>kernel := k, locks := (locks s)(p := l),
      phase_of := (phase_of s)(p := if m_iSemId l = -1 then Outside else Got)\<rparr>)"
| stat: "phase_of s p = Got \<Longrightarrow> Init_stat t (locks s p) (kernel s) = Some reset \<Longrightarrow>
    sem_step key (EStat p t) s (s\<lparr>phase_of := (phase_of s)(p := if reset then Reset else Ready)\<rparr>)"
| set_one: "phase_of s p = Reset \<Longrightarrow> Init_set (locks s p) (kernel s) = (ret, k) \<Longrightarrow>
    sem_step key (ESet p) s (s\<lparr>kernel := k, phase_of := (phase_of s)(p := if ret = -1 then Outside else Ready)\<rparr>)"
| lock: "phase_of s p = Ready \<Longrightarrow> (\<forall>t. Runs t \<in> set cs \<longrightarrow> 0 < t) \<Longrightarrow> Lock (locks s p) cs p (kernel s) = Some (ret, k) \<Longrightarrow>
    sem_step key (ELock p cs) s (s\<lparr>kernel := k, holds := (holds s)(p := holds s p \<or> ret = SUCCESS)\<rparr>)"
| unlock: "phase_of s p = Ready \<Longrightarrow> (\<forall>t. Runs t \<in> set cs \<longrightarrow> 0 < t) \<Longrightarrow> UnLock (locks s p) cs p (kernel s) = Some (ret, k) \<Longrightarrow>
    sem_step key (EUnLock p cs) s (s\<lparr>kernel := k, holds := (holds s)(p := holds s p \<and> ret \<noteq> SUCCESS)\<rparr>)"
| exit: "0 < t \<Longrightarrow>
    sem_step key (EExit p t) s (s\<lparr>kernel := sem_exit p t (kernel s), locks := (locks s)(p := SemLock_new),
      phase_of := (phase_of s)(p := Outside), holds := (holds s)(p := False)\<rparr>)"

inductive_cases sem_stepE: "sem_step key e s s'"

definition sem_start :: sem_sys where
  "sem_start = \<lparr>kernel = \<lparr>sem_ids = [], sem_sets = []\<rparr>, locks = \<lambda>_. SemLock_new, phase_of = \<lambda>_. Outside, holds = \<lambda>_. False\<rparr>"

inductive sem_reach :: "int \<Rightarrow> sem_sys \<Rightarrow> bool" for key where
  start: "sem_reach key sem_start"
| step: "sem_reach key s \<Longrightarrow> sem_step key e s s' \<Longrightarrow> sem_reach key s'"

text \<open>
  What the lock needs of its users: \<^verbatim>\<open>Init\<close> comes at most three minutes after the last operation, nobody locks while another
  process is about to set the value, and only a holder unlocks.
\<close>

fun calm :: "sem_event \<Rightarrow> sem_sys \<Rightarrow> bool" where
  "calm (EStat p t) s \<longleftrightarrow> (\<forall>(i, st)\<in>set (sem_sets (kernel s)). sem_otime st \<noteq> 0 \<longrightarrow> t - sem_otime st \<le> 3 * 60)"
| "calm (ELock p cs) s \<longleftrightarrow> (\<forall>q. phase_of s q \<noteq> Reset)"
| "calm (EUnLock p cs) s \<longleftrightarrow> holds s p"
| "calm e s \<longleftrightarrow> True"

inductive sem_calm :: "int \<Rightarrow> sem_sys \<Rightarrow> bool" for key where
  start: "sem_calm key sem_start"
| step: "sem_calm key s \<Longrightarrow> sem_step key e s s' \<Longrightarrow> calm e s \<Longrightarrow> sem_calm key s'"

section \<open>The invariant\<close>

definition value_ok :: "sem_sys \<Rightarrow> sem_set \<Rightarrow> bool" where
  "value_ok s st \<longleftrightarrow> semval st = (if \<exists>p. holds s p then 0 else 1)"

definition set_inv :: "sem_sys \<Rightarrow> int \<Rightarrow> sem_set \<Rightarrow> bool" where
  "set_inv s i st \<longleftrightarrow>
     (\<forall>p q. holds s p \<longrightarrow> holds s q \<longrightarrow> p = q) \<and> (\<forall>p. holds s p \<longrightarrow> m_iSemId (locks s p) = i \<and> i \<noteq> 0) \<and>
     (\<forall>p. semadj st p = (if holds s p then 1 else 0)) \<and> 0 \<le> sem_otime st \<and> 0 \<le> i \<and>
     (if \<exists>p. holds s p then 0 < sem_otime st else 0 \<le> semval st \<and> semval st \<le> 1) \<and>
     (sem_otime st \<noteq> 0 \<longrightarrow> value_ok s st) \<and> (\<forall>p. phase_of s p = Ready \<longrightarrow> value_ok s st) \<and>
     (\<forall>p. phase_of s p = Reset \<longrightarrow> (\<forall>q. \<not> holds s q)) \<and>
     (\<forall>p. phase_of s p \<noteq> Outside \<longrightarrow> m_iSemId (locks s p) = i)"

definition sem_inv :: "int \<Rightarrow> sem_sys \<Rightarrow> bool" where
  "sem_inv key s \<longleftrightarrow>
     sem_ids (kernel s) = [] \<and> sem_sets (kernel s) = [] \<and> (\<forall>p. \<not> holds s p) \<and> (\<forall>p. phase_of s p = Outside) \<or>
     (\<exists>i st. sem_ids (kernel s) = [(key, i)] \<and> sem_sets (kernel s) = [(i, st)] \<and> set_inv s i st)"

end
