(* ===== verification/Sem_Mutex.thy ===== *)
theory Sem_Mutex
  imports Sem_Lock
begin

text \<open>
  The semaphore excludes two holders as long as its users are calm, and the two ways in which \<^verbatim>\<open>Init\<close> breaks it.
\<close>

section \<open>The invariant is kept\<close>

lemma loop_cases:
  assumes "semop_loop cs p d i k = Some (ret, k')"
  obtains (failed) "ret = ERR_SEM_LOCK_LOCK" "k' = k"
    | (did) t st st' where "Runs t \<in> set cs" "map_of (sem_sets k) i = Some st" "semop p d t st = Does st'" "ret = SUCCESS"
        "k' = k\<lparr>sem_sets := AList.update i st' (sem_sets k)\<rparr>"
  using assms
proof (induction cs p d i k rule: semop_loop.induct)
  case (3 t cs p d i k)
  then show ?case by (auto split: option.splits semop_result.splits)
qed auto

lemma semop_does:
  assumes "semop p d t st = Does st'"
  shows "st' = st\<lparr>semval := semval st + d, sem_otime := t, semadj := (semadj st)(p := semadj st p - d)\<rparr>" "0 \<le> semval st + d"
  using assms by (auto simp: semop_def split: if_splits)

lemma sem_invE:
  assumes "sem_inv key s" "phase_of s p \<noteq> Outside \<or> holds s p"
  obtains i st where "sem_ids (kernel s) = [(key, i)]" "sem_sets (kernel s) = [(i, st)]" "set_inv s i st"
  using assms unfolding sem_inv_def by metis

lemma sem_invI: "sem_ids (kernel s) = [(key, i)] \<Longrightarrow> sem_sets (kernel s) = [(i, st)] \<Longrightarrow> set_inv s i st \<Longrightarrow> sem_inv key s"
  by (auto simp: sem_inv_def)

lemma set_invD:
  assumes "set_inv s i st"
  shows "holds s p \<Longrightarrow> holds s q \<Longrightarrow> p = q" "holds s p \<Longrightarrow> m_iSemId (locks s p) = i" "holds s p \<Longrightarrow> i \<noteq> 0"
    "semadj st p = (if holds s p then 1 else 0)" "0 \<le> i" "holds s p \<Longrightarrow> 0 < sem_otime st" "sem_otime st \<noteq> 0 \<Longrightarrow> value_ok s st"
    "phase_of s p = Ready \<Longrightarrow> value_ok s st" "phase_of s p = Reset \<Longrightarrow> \<not> holds s q" "phase_of s p \<noteq> Outside \<Longrightarrow> m_iSemId (locks s p) = i"
  using assms unfolding set_inv_def by (blast | (elim conjE, erule spec) | metis)+

lemma set_inv_free: "set_inv s i st \<Longrightarrow> \<forall>p. \<not> holds s p \<Longrightarrow> 0 \<le> semval st \<and> semval st \<le> 1"
  "set_inv s i st \<Longrightarrow> 0 \<le> sem_otime st"
  unfolding set_inv_def by (elim conjE; simp)+

lemma set_invI:
  assumes "\<And>p q. holds s p \<Longrightarrow> holds s q \<Longrightarrow> p = q" "\<And>p. holds s p \<Longrightarrow> m_iSemId (locks s p) = i \<and> i \<noteq> 0 \<and> 0 < sem_otime st"
    "\<And>p. semadj st p = (if holds s p then 1 else 0)" "0 \<le> sem_otime st" "0 \<le> i"
    "\<forall>p. \<not> holds s p \<Longrightarrow> 0 \<le> semval st \<and> semval st \<le> 1" "sem_otime st \<noteq> 0 \<Longrightarrow> value_ok s st"
    "\<And>p. phase_of s p = Ready \<Longrightarrow> value_ok s st" "\<And>p q. phase_of s p = Reset \<Longrightarrow> \<not> holds s q"
    "\<And>p. phase_of s p \<noteq> Outside \<Longrightarrow> m_iSemId (locks s p) = i"
  shows "set_inv s i st"
  unfolding set_inv_def using assms by (intro conjI allI impI) (auto split: if_splits)

lemma value_cong: "holds s' = holds s \<Longrightarrow> value_ok s' st = value_ok s st"
  by (simp add: value_ok_def)

lemma value_cases: "value_ok s st \<Longrightarrow> holds s p \<Longrightarrow> semval st = 0" "value_ok s st \<Longrightarrow> 1 \<le> semval st \<Longrightarrow> \<not> holds s p"
    "value_ok s st \<Longrightarrow> 1 \<le> semval st \<Longrightarrow> semval st = 1"
  by (auto simp: value_ok_def split: if_splits)

lemma err_not_success [simp]: "ERR_SEM_LOCK_LOCK \<noteq> SUCCESS" "SUCCESS \<noteq> ERR_SEM_LOCK_LOCK"
  by (simp_all add: ERR_SEM_LOCK_LOCK_def SUCCESS_def)

lemma get_inv:
  assumes inv: "sem_inv key s" and key: "key \<noteq> 0" and p: "\<forall>i. fresh = Some i \<longrightarrow> 0 \<le> i"
    and get: "Init_get fresh key (locks s p) (kernel s) = (l, k)"
  shows "sem_inv key (s\<lparr>kernel := k, locks := (locks s)(p := l), phase_of := (phase_of s)(p := if m_iSemId l = -1 then Outside else Got)\<rparr>)"
    (is "sem_inv key ?s")
proof -
  consider (none) "sem_ids (kernel s) = []" "sem_sets (kernel s) = []" "\<forall>p. \<not> holds s p" "\<forall>p. phase_of s p = Outside"
    | (one) i st where "sem_ids (kernel s) = [(key, i)]" "sem_sets (kernel s) = [(i, st)]" "set_inv s i st"
    using inv unfolding sem_inv_def by blast
  then show ?thesis
  proof cases
    case none
    show ?thesis
    proof (cases fresh)
      case None
      then have "m_iSemId l = -1" "k = kernel s" using get none key by (auto simp: Init_get_def semget_def Let_def)
      then show ?thesis using none by (simp add: sem_inv_def)
    next
      case (Some i)
      let ?st = "\<lparr>semval = 0, sem_otime = 0, semadj = \<lambda>_. 0\<rparr>"
      have l: "m_iSemId l = i" "sem_ids k = [(key, i)]" "sem_sets k = [(i, ?st)]" "0 \<le> i"
        using get none key Some p by (auto simp: Init_get_def semget_def Let_def)
      then have "set_inv ?s i ?st" using none by (simp add: set_inv_def)
      then show ?thesis using l by (intro sem_invI [of _ _ i ?st]) simp_all
    qed
  next
    case one
    then have l: "m_iSemId l = i" "k = kernel s" "0 \<le> i" using get key by (auto simp: Init_get_def semget_def Let_def set_inv_def)
    then have "set_inv ?s i st" using one(3) by (auto simp: set_inv_def value_ok_def)
    then show ?thesis using one l by (intro sem_invI [of _ _ i st]) simp_all
  qed
qed

lemma stat_inv:
  assumes inv: "sem_inv key s" and p: "phase_of s p = Got" and stat: "Init_stat t (locks s p) (kernel s) = Some reset"
    and calm: "calm (EStat p t) s"
  shows "sem_inv key (s\<lparr>phase_of := (phase_of s)(p := if reset then Reset else Ready)\<rparr>)" (is "sem_inv key ?s")
proof -
  obtain i st where one: "sem_ids (kernel s) = [(key, i)]" "sem_sets (kernel s) = [(i, st)]" "set_inv s i st"
    using sem_invE [OF inv, of p] p by auto
  have id: "m_iSemId (locks s p) = i" using one(3) p by (simp add: set_inv_def)
  then have reset: "reset \<longleftrightarrow> sem_otime st = 0" using stat one(2) calm by (auto simp: Init_stat_def)
  have "set_inv ?s i st"
  proof (cases reset)
    case True
    then have "\<forall>q. \<not> holds s q" using reset set_invD(6) [OF one(3)] by (metis less_irrefl)
    then show ?thesis using one(3) True id by (auto simp: set_inv_def value_ok_def)
  next
    case False
    then have "value_ok s st" using reset set_invD(7) [OF one(3)] by simp
    then have "value_ok ?s st" using value_cong [of ?s s] by simp
    then show ?thesis using set_invD [OF one(3)] set_inv_free [OF one(3)] False id by (intro set_invI) (auto split: if_splits)
  qed
  then show ?thesis using one by (intro sem_invI [of _ _ i st]) simp_all
qed

lemma set_inv_step:
  assumes inv: "sem_inv key s" and p: "phase_of s p = Reset" and call: "Init_set (locks s p) (kernel s) = (ret, k)"
  shows "sem_inv key (s\<lparr>kernel := k, phase_of := (phase_of s)(p := if ret = -1 then Outside else Ready)\<rparr>)" (is "sem_inv key ?s")
proof -
  obtain i st where one: "sem_ids (kernel s) = [(key, i)]" "sem_sets (kernel s) = [(i, st)]" "set_inv s i st"
    using sem_invE [OF inv, of p] p by auto
  let ?st = "st\<lparr>semval := 1, semadj := \<lambda>_. 0\<rparr>"
  have id: "m_iSemId (locks s p) = i" and free: "\<forall>q. \<not> holds s q" using one(3) p by (auto simp: set_inv_def)
  have k: "ret = 0" "k = (kernel s)\<lparr>sem_sets := [(i, ?st)]\<rparr>" using call one(2) id by (auto simp: Init_set_def semctl_setval_def)
  have "set_inv ?s i ?st" using one(3) free k(1) id by (simp add: set_inv_def value_ok_def)
  then show ?thesis using one k by (intro sem_invI [of _ _ i ?st]) simp_all
qed

lemma lock_inv:
  assumes inv: "sem_inv key s" and p: "phase_of s p = Ready" and pos: "\<forall>t. Runs t \<in> set cs \<longrightarrow> 0 < t"
    and call: "Lock (locks s p) cs p (kernel s) = Some (ret, k)" and calm: "calm (ELock p cs) s"
  shows "sem_inv key (s\<lparr>kernel := k, holds := (holds s)(p := holds s p \<or> ret = SUCCESS)\<rparr>)" (is "sem_inv key ?s")
proof -
  obtain i st where one: "sem_ids (kernel s) = [(key, i)]" "sem_sets (kernel s) = [(i, st)]" "set_inv s i st"
    using sem_invE [OF inv, of p] p by auto
  have id: "m_iSemId (locks s p) = i" using one(3) p by (simp add: set_inv_def)
  have same: "sem_inv key ?s" if "k = kernel s" "ret = ERR_SEM_LOCK_LOCK"
  proof -
    have "?s = s" using that by simp
    then show ?thesis using inv by (simp only:)
  qed
  show ?thesis
  proof (cases "i = 0")
    case True
    then show ?thesis using call id same by (auto simp: Lock_def)
  next
    case False
    then have loop: "semop_loop cs p (-1) i (kernel s) = Some (ret, k)" using call id by (simp add: Lock_def)
    then show ?thesis
    proof (cases rule: loop_cases)
      case failed
      then show ?thesis using same by simp
    next
      case (did t st1 st')
      have st: "st1 = st" "0 < t" using did(1,2) one(2) pos by auto
      have st': "st' = st\<lparr>semval := semval st - 1, sem_otime := t, semadj := (semadj st)(p := semadj st p + 1)\<rparr>" "1 \<le> semval st"
        using semop_does [OF did(3)] st(1) by simp_all
      have val: "value_ok s st" by (rule set_invD(8) [OF one(3) p])
      have free: "\<forall>q. \<not> holds s q" "semval st = 1" using value_cases(2,3) [OF val st'(2)] by blast+
      have "\<forall>q. phase_of s q \<noteq> Reset" using calm by simp
      then have "set_inv ?s i st'" using one(3) free st'(1) st(2) id False did(4) by (auto simp: set_inv_def value_ok_def)
      then show ?thesis using one did(5) by (intro sem_invI [of _ _ i st']) simp_all
    qed
  qed
qed

lemma unlock_inv:
  assumes inv: "sem_inv key s" and p: "phase_of s p = Ready" and pos: "\<forall>t. Runs t \<in> set cs \<longrightarrow> 0 < t"
    and call: "UnLock (locks s p) cs p (kernel s) = Some (ret, k)" and calm: "holds s p"
  shows "sem_inv key (s\<lparr>kernel := k, holds := (holds s)(p := holds s p \<and> ret \<noteq> SUCCESS)\<rparr>)" (is "sem_inv key ?s")
proof -
  obtain i st where one: "sem_ids (kernel s) = [(key, i)]" "sem_sets (kernel s) = [(i, st)]" "set_inv s i st"
    using sem_invE [OF inv, of p] p by auto
  have id: "m_iSemId (locks s p) = i" "i \<noteq> 0" using one(3) calm by (simp_all add: set_inv_def)
  have loop: "semop_loop cs p 1 i (kernel s) = Some (ret, k)" using call id by (simp add: UnLock_def)
  then show ?thesis
  proof (cases rule: loop_cases)
    case failed
    then have "(holds s)(p := holds s p \<and> ret \<noteq> SUCCESS) = holds s" using calm failed by (intro ext) simp
    then have "?s = s" using failed by simp
    then show ?thesis using inv by (simp only:)
  next
    case (did t st1 st')
    have st: "st1 = st" "0 < t" using did(1,2) one(2) pos by auto
    have st': "st' = st\<lparr>semval := semval st + 1, sem_otime := t, semadj := (semadj st)(p := semadj st p - 1)\<rparr>"
      using semop_does [OF did(3)] st(1) by simp
    have v: "semval st = 0" by (rule value_cases(1) [OF set_invD(8) [OF one(3) p] calm])
    have others: "\<not> holds s q" if "q \<noteq> p" for q using set_invD(1) [OF one(3) _ calm] that by blast
    have none: "\<not> holds ?s q" for q using others did(4) by simp
    have "set_inv ?s i st'" using none st' st(2) v id did(4) calm others set_invD(4,5,10) [OF one(3)]
      by (intro set_invI) (auto simp: value_ok_def split: if_splits)
    then show ?thesis using one did(5) by (intro sem_invI [of _ _ i st']) simp_all
  qed
qed

lemma exit_inv:
  assumes inv: "sem_inv key s" and t: "0 < t"
  shows "sem_inv key (s\<lparr>kernel := sem_exit p t (kernel s), locks := (locks s)(p := SemLock_new),
      phase_of := (phase_of s)(p := Outside), holds := (holds s)(p := False)\<rparr>)" (is "sem_inv key ?s")
proof -
  consider (none) "sem_ids (kernel s) = []" "sem_sets (kernel s) = []" "\<forall>p. \<not> holds s p" "\<forall>p. phase_of s p = Outside"
    | (one) i st where "sem_ids (kernel s) = [(key, i)]" "sem_sets (kernel s) = [(i, st)]" "set_inv s i st"
    using inv unfolding sem_inv_def by blast
  then show ?thesis
  proof cases
    case none
    then show ?thesis by (simp add: sem_inv_def sem_exit_def)
  next
    case one
    let ?st = "exit_set p t st"
    have "set_inv ?s i ?st"
    proof (cases "holds s p")
      case True
      have adj: "semadj st p = 1" using set_invD(4) [OF one(3), of p] True by simp
      have "sem_otime st \<noteq> 0" using set_invD(6) [OF one(3) True] by simp
      then have "semval st = 0" by (rule value_cases(1) [OF set_invD(7) [OF one(3)] True])
      moreover have "\<not> holds s q" if "q \<noteq> p" for q using set_invD(1) [OF one(3) _ True] that by blast
      ultimately show ?thesis using set_invD(4,5,10) [OF one(3)] adj t True
        by (intro set_invI) (auto simp: value_ok_def exit_set_def SEMVMX_def split: if_splits)
    next
      case False
      then have "exit_set p t st = st" using set_invD(4) [OF one(3), of p] by (simp add: exit_set_def)
      moreover have free: "(holds s)(p := False) = holds s" using False by (intro ext) simp
      moreover have "value_ok ?s st = value_ok s st" using free by (intro value_cong) simp
      moreover note set_invD [OF one(3)] set_inv_free [OF one(3)]
      ultimately show ?thesis using False by (intro set_invI) (auto split: if_splits)
    qed
    then show ?thesis using one by (intro sem_invI [of _ _ i ?st]) (simp_all add: sem_exit_def)
  qed
qed

lemma step_inv:
  assumes "sem_step key e s s'" "calm e s" "sem_inv key s" "key \<noteq> 0"
  shows "sem_inv key s'"
  using assms(1)
proof cases
  case (get p fresh l k)
  then show ?thesis using get_inv [OF assms(3,4), of fresh p l k] by simp
next
  case (stat p t reset)
  then show ?thesis using stat_inv [OF assms(3)] assms(2) by simp
next
  case (set_one p ret k)
  then show ?thesis using set_inv_step [OF assms(3)] by simp
next
  case (lock p cs ret k)
  then show ?thesis using lock_inv [OF assms(3)] assms(2) by simp
next
  case (unlock p cs ret k)
  then show ?thesis using unlock_inv [OF assms(3)] assms(2) by simp
next
  case (exit t p)
  then show ?thesis using exit_inv [OF assms(3)] by simp
qed

lemma calm_inv: "sem_calm key s \<Longrightarrow> key \<noteq> 0 \<Longrightarrow> sem_inv key s"
proof (induction rule: sem_calm.induct)
  case start
  then show ?case by (simp add: sem_inv_def sem_start_def)
next
  case (step s e s')
  then show ?case using step_inv by blast
qed

section \<open>What the lock does\<close>

lemma loop_interrupted: "set cs \<subseteq> {Interrupted} \<Longrightarrow> semop_loop (cs @ ds) p d i k = semop_loop ds p d i k"
  by (induction cs) auto

text \<open>C34. The semaphore is a lock. Of any number of processes that share a key, while \<^verbatim>\<open>Init\<close> comes at most three minutes after the last
  operation, nobody locks between the test and the write of another \<^verbatim>\<open>Init\<close> and only a holder unlocks, at most one holds the lock,
  whatever the order of their calls and whenever they end. A process whose \<^verbatim>\<open>Init\<close> returned gets the lock with
  \<open>SUCCESS\<close>, after any number of signals, exactly when nobody holds it, and else waits; the end of a holder gives it back.
\<close>

theorem sem_lock_exclusive:
  assumes "sem_calm key s" "key \<noteq> 0"
  shows "(\<forall>p q. holds s p \<and> holds s q \<longrightarrow> p = q) \<and>
    (\<forall>p cs t. phase_of s p = Ready \<and> m_iSemId (locks s p) \<noteq> 0 \<and> set cs \<subseteq> {Interrupted} \<longrightarrow>
       (case Lock (locks s p) (cs @ [Runs t]) p (kernel s) of
          None \<Rightarrow> \<exists>q. holds s q
        | Some (ret, k) \<Rightarrow> ret = SUCCESS \<and> (\<forall>q. \<not> holds s q)))"
proof (intro conjI allI impI)
  note inv = calm_inv [OF assms]
  show "p = q" if h: "holds s p \<and> holds s q" for p q
  proof -
    obtain i st where "set_inv s i st" using sem_invE [OF inv, of p] h by metis
    then show ?thesis using set_invD(1) h by blast
  qed
  fix p cs t
  assume p: "phase_of s p = Ready \<and> m_iSemId (locks s p) \<noteq> 0 \<and> set cs \<subseteq> {Interrupted}"
  then have "phase_of s p \<noteq> Outside \<or> holds s p" by simp
  then obtain i st where one: "sem_sets (kernel s) = [(i, st)]" "set_inv s i st" using sem_invE [OF inv] by blast
  have id: "m_iSemId (locks s p) = i" using set_invD(10) [OF one(2), of p] p by simp
  have val: "value_ok s st" using set_invD(8) [OF one(2), of p] p by simp
  have call: "Lock (locks s p) (cs @ [Runs t]) p (kernel s) = semop_loop [Runs t] p (-1) i (kernel s)"
    using p id loop_interrupted by (simp add: Lock_def)
  show "case Lock (locks s p) (cs @ [Runs t]) p (kernel s) of None \<Rightarrow> \<exists>q. holds s q | Some (ret, k) \<Rightarrow> ret = SUCCESS \<and> (\<forall>q. \<not> holds s q)"
  proof (cases "\<exists>q. holds s q")
    case True
    then have "semval st = 0" using val by (simp add: value_ok_def)
    then show ?thesis using True by (simp add: call one(1) semop_def)
  next
    case False
    then have "semval st = 1" "semadj st p = 0" using val set_invD(4) [OF one(2), of p] by (auto simp: value_ok_def)
    then show ?thesis using False by (simp add: call one(1) semop_def SEMVMX_def)
  qed
qed

section \<open>How \<^verbatim>\<open>Init\<close> breaks it\<close>

inductive sem_run :: "int \<Rightarrow> sem_event list \<Rightarrow> sem_sys \<Rightarrow> sem_sys \<Rightarrow> bool" for key where
  none: "sem_run key [] s s"
| cons: "sem_step key e s s' \<Longrightarrow> sem_run key es s' s'' \<Longrightarrow> sem_run key (e # es) s s''"

text \<open>The steps in a system with one set.\<close>

definition one_set :: "int \<Rightarrow> int \<Rightarrow> sem_set \<Rightarrow> (nat \<Rightarrow> sem_lock) \<Rightarrow> (nat \<Rightarrow> phase) \<Rightarrow> (nat \<Rightarrow> bool) \<Rightarrow> sem_sys" where
  "one_set key i st lk ph h = \<lparr>kernel = \<lparr>sem_ids = [(key, i)], sem_sets = [(i, st)]\<rparr>, locks = lk, phase_of = ph, holds = h\<rparr>"

abbreviation new_set :: sem_set where
  "new_set \<equiv> \<lparr>semval = 0, sem_otime = 0, semadj = \<lambda>_. 0\<rparr>"

lemma first_get:
  assumes "key \<noteq> 0" "0 < i"
  shows "sem_step key (EGet p (Some i)) sem_start
    (one_set key i new_set ((\<lambda>_. SemLock_new)(p := \<lparr>m_iSemKey = key, m_iSemId = i\<rparr>)) ((\<lambda>_. Outside)(p := Got)) (\<lambda>_. False))"
proof -
  have "Init_get (Some i) key SemLock_new \<lparr>sem_ids = [], sem_sets = []\<rparr> =
    (\<lparr>m_iSemKey = key, m_iSemId = i\<rparr>, \<lparr>sem_ids = [(key, i)], sem_sets = [(i, new_set)]\<rparr>)"
    by (simp add: Init_get_def semget_def SemLock_new_def Let_def)
  then show ?thesis using sem_step.get [of sem_start p "Some i" key] assms by (simp add: sem_start_def one_set_def)
qed

lemma one_get:
  assumes "key \<noteq> 0" "0 < i" "ph p = Outside"
  shows "sem_step key (EGet p None) (one_set key i st lk ph h)
    (one_set key i st (lk(p := \<lparr>m_iSemKey = key, m_iSemId = i\<rparr>)) (ph(p := Got)) h)"
proof -
  let ?k = "\<lparr>sem_ids = [(key, i)], sem_sets = [(i, st)]\<rparr>"
  have "Init_get None key (lk p) ?k = (\<lparr>m_iSemKey = key, m_iSemId = i\<rparr>, ?k)" using assms(1) by (simp add: Init_get_def semget_def Let_def)
  then show ?thesis using sem_step.get [of "one_set key i st lk ph h" p None key] assms by (simp add: one_set_def)
qed

lemma one_stat:
  assumes "ph p = Got" "m_iSemId (lk p) = i" "sem_otime st = 0 \<or> 0 < sem_otime st \<and> sem_otime st + 180 < t"
  shows "sem_step key (EStat p t) (one_set key i st lk ph h) (one_set key i st lk (ph(p := Reset)) h)"
  using sem_step.stat [of "one_set key i st lk ph h" p t True key] assms by (auto simp: one_set_def Init_stat_def)

lemma one_set_one:
  assumes "ph p = Reset" "m_iSemId (lk p) = i"
  shows "sem_step key (ESet p) (one_set key i st lk ph h)
    (one_set key i (st\<lparr>semval := 1, semadj := \<lambda>_. 0\<rparr>) lk (ph(p := Ready)) h)"
  using sem_step.set_one [of "one_set key i st lk ph h" p 0 _ key] assms by (simp add: one_set_def Init_set_def semctl_setval_def)

lemma one_lock:
  assumes "ph p = Ready" "m_iSemId (lk p) = i" "i \<noteq> 0" "semval st = 1" "semadj st p = 0" "0 < t"
  shows "sem_step key (ELock p [Runs t]) (one_set key i st lk ph h)
    (one_set key i (st\<lparr>semval := 0, sem_otime := t, semadj := (semadj st)(p := 1)\<rparr>) lk ph (h(p := True)))"
  using sem_step.lock [of "one_set key i st lk ph h" p "[Runs t]" SUCCESS _ key] assms
  by (simp add: one_set_def Lock_def semop_def SEMVMX_def)

theorem sem_lock_exclusive_witness:
  "\<exists>s k. sem_calm 5 s \<and> Lock (locks s 0) [Interrupted, Runs 20] 0 (kernel s) = Some (SUCCESS, k)"
proof -
  let ?lk = "(\<lambda>_. SemLock_new)(0 := \<lparr>m_iSemKey = 5, m_iSemId = 7\<rparr>)"
  define s where "s = one_set 5 7 (new_set\<lparr>semval := 1, semadj := \<lambda>_. 0\<rparr>) ?lk ((\<lambda>_. Outside)(0 := Ready)) (\<lambda>_. False)"
  have "sem_calm 5 (one_set 5 7 new_set ?lk ((\<lambda>_. Outside)(0 := Got)) (\<lambda>_. False))"
    by (rule sem_calm.step [OF sem_calm.start first_get]) simp_all
  from sem_calm.step [OF this one_stat [of _ 0 _ _ _ 10]]
  have "sem_calm 5 (one_set 5 7 new_set ?lk ((\<lambda>_. Outside)(0 := Reset)) (\<lambda>_. False))" by (simp add: one_set_def)
  from sem_calm.step [OF this one_set_one [of _ 0]]
  have s: "sem_calm 5 s" by (simp add: s_def)
  moreover have "phase_of s 0 = Ready" "m_iSemId (locks s 0) = 7" "\<forall>q. \<not> holds s q" by (simp_all add: s_def one_set_def)
  ultimately have "\<exists>k. Lock (locks s 0) ([Interrupted] @ [Runs 20]) 0 (kernel s) = Some (SUCCESS, k)"
    using conjunct2 [OF sem_lock_exclusive [OF s], rule_format, of 0 "[Interrupted]" 20] by (auto split: option.splits)
  then show ?thesis using s by auto
qed

text \<open>C39. \<^verbatim>\<open>Init\<close> breaks the lock in two ways. A process that holds the lock for more than three minutes loses it to the next one that
  starts: \<^verbatim>\<open>Init\<close> sets the semaphore to 1, and both hold the lock. And when two processes start together, the second can lock between
  the test and the write of the first, whose write frees the lock again. No call reports an error.
\<close>

theorem init_breaks_lock:
  assumes "key \<noteq> 0" "0 < i" "p \<noteq> q" "0 < t" "t + 180 < t'"
  shows "(\<exists>s. sem_run key [EGet p (Some i), EStat p t, ESet p, ELock p [Runs t],
      EGet q None, EStat q t', ESet q, ELock q [Runs t']] sem_start s \<and> holds s p \<and> holds s q) \<and>
    (\<exists>s. sem_run key [EGet p (Some i), EStat p t, EGet q None, EStat q t, ESet q, ELock q [Runs t],
      ESet p, ELock p [Runs t]] sem_start s \<and> holds s p \<and> holds s q)"
proof (intro conjI)
  note steps = first_get [OF assms(1,2)] one_get [OF assms(1,2)] one_stat one_set_one one_lock
  note q = assms(3) [symmetric]
  show "\<exists>s. sem_run key [EGet p (Some i), EStat p t, ESet p, ELock p [Runs t],
      EGet q None, EStat q t', ESet q, ELock q [Runs t']] sem_start s \<and> holds s p \<and> holds s q"
    by (rule exI, rule conjI, (rule sem_run.cons, rule steps; (use assms q in simp)?)+, rule sem_run.none) (simp add: one_set_def)
  show "\<exists>s. sem_run key [EGet p (Some i), EStat p t, EGet q None, EStat q t, ESet q, ELock q [Runs t],
      ESet p, ELock p [Runs t]] sem_start s \<and> holds s p \<and> holds s q"
    by (rule exI, rule conjI, (rule sem_run.cons, rule steps; (use assms q in simp)?)+, rule sem_run.none) (simp add: one_set_def)
qed

theorem init_breaks_lock_witness:
  "\<exists>s. sem_run 5 [EGet 0 (Some 7), EStat 0 10, ESet 0, ELock 0 [Runs 10],
      EGet 1 None, EStat 1 191, ESet 1, ELock 1 [Runs 191]] sem_start s \<and> holds s 0 \<and> holds s 1"
  using init_breaks_lock [of 5 7 0 1 10 191] by simp

text \<open>The first set of a system has the identifier 0, which the class takes for a lock without \<^verbatim>\<open>Init\<close>.\<close>

lemma first_set_unusable:
  assumes "key \<noteq> 0"
  shows "\<exists>l k. SemLock_Init (Some 0) t key SemLock_new \<lparr>sem_ids = [], sem_sets = []\<rparr> = (SUCCESS, l, k) \<and>
    Lock l cs p k = Some (ERR_SEM_LOCK_LOCK, k)"
  using assms by (simp add: SemLock_Init_def Init_get_def Init_stat_def Init_set_def semget_def semctl_setval_def SemLock_new_def Lock_def SUCCESS_def Let_def)

end
