(* ===== verification/Spec2Isabelle.thy ===== *)
theory Spec2Isabelle
  imports Shm_Concurrent Logic_Session Connect_Pool Logic_Reports Persis_Idle Confirm_Path Log_File Sem_Mutex
begin

text \<open>
  \<^bold>\<open>A verification library for the message queue WSMQ\<close>

  \<^bold>\<open>The program.\<close> Three server processes and a client library. The \<^emph>\<open>connection server\<close>
  (\<^verbatim>\<open>src/connectServer\<close>) owns the sockets: it cuts the byte stream of each client into packets, marks them with the
  index of the client and puts them into a shared-memory queue; it sends the packets that come back to the clients.
  The \<^emph>\<open>logic server\<close> (\<^verbatim>\<open>src/logicServer\<close>) takes the requests from this queue and keeps exchanges, bindings, queues,
  subscriptions and messages. The \<^emph>\<open>persistence server\<close> (\<^verbatim>\<open>src/PersistenceServer\<close>) gets what is durable through a
  second shared-memory queue and writes it to files, which the logic server reads when it starts again.
  The parts meet in two formats: the packets of \<^verbatim>\<open>src/message\<close>, and the files of a queue.

  \<^bold>\<open>Which theory models what.\<close>
  \<^item> \<open>Mq_Prelude\<close>, \<open>Func_Tool\<close>: bytes, bounds-checked copies, constants of \<^verbatim>\<open>common_def/comdef.h\<close>; the accessors of
    \<^verbatim>\<open>mq_util/mq_util.cpp\<close> (\<open>ReadShort\<close>, \<open>WriteInt\<close>, ...) and \<open>Sendn\<close>, \<open>Recvn\<close>. \<open>None\<close> is everywhere the value of an
    execution that does not return normally: an access outside an array, an uncaught exception, an endless loop.
  \<^item> \<open>Shm_Queue\<close> (\<^verbatim>\<open>shm_queue/shm_queue.cpp\<close>): the ring with its head in shared memory, \<open>Enqueue\<close>, \<open>Dequeue\<close>, \<open>Init\<close> and the
    compare-and-swap lock. \<open>Ring_Memory\<close> and \<open>Shm_Correct\<close> show that both operations refine a list of blocks, on each of
    the paths that wrap around; \<open>Fifo_Channel\<close> is the interface (a locale) that the queue is an instance of;
    \<open>Shm_Concurrent\<close> has the interleaving of several processes as a step relation, with its invariant and progress.
  \<^item> \<open>Mq_Message\<close>, \<open>Mq_Wire\<close> (\<^verbatim>\<open>message/message.cpp\<close>): one constructor and one packer for every message class, and the wire
    format they refine.
  \<^item> \<open>Priority_Store\<close>, \<open>Mq_Queue\<close>, \<open>Mq_Exchange\<close> (classes of \<^verbatim>\<open>logicServer/logicServer.h\<close>): the priority queue of the standard
    library as an interface and an implementation, the class \<open>MessageQueue\<close>, and \<open>Exchange\<close> with its three kinds of routing.
  \<^item> \<open>Logic_State\<close>, \<open>Logic_Server\<close>, \<open>Logic_Consume\<close> (\<^verbatim>\<open>logicServer/logicServer.cpp\<close>): the state of the logic server, where queues
    have addresses because maps and exchanges share them, and every request handler, the pushing and resending loops and
    one round of the main loop. \<open>Logic_Inv\<close> and \<open>Logic_Preserve\<close> have the invariant and its preservation by every handler,
    \<open>Logic_Publish\<close>, \<open>Logic_Leave\<close>, \<open>Logic_Run\<close> and \<open>Logic_Session\<close> what the handlers, the loops and a session achieve.
  \<^item> \<open>Srv_Timer\<close> (\<^verbatim>\<open>timer/timer.cpp\<close>), \<open>Client_Connect\<close> (\<^verbatim>\<open>connectServer/clientConnect.cpp\<close>), \<open>Connect_Split\<close> and \<open>Connect_Server\<close>
    (\<^verbatim>\<open>connectServer/connectServer.cpp\<close>): timers, the pool of connections with their buffers, the cutting of streams, socket
    events, delivery, start. \<open>Connect_Stream\<close>, \<open>Connect_Deliver\<close> and \<open>Connect_Pool\<close> have what they achieve.
  \<^item> \<open>File_Sys\<close> (the directory functions of \<^verbatim>\<open>mq_util/mq_util.cpp\<close> over POSIX calls), \<open>Persis_Server\<close>
    (\<^verbatim>\<open>PersistenceServer/PersistenceServer.cpp\<close>): handlers, start, merging of files, main loop. \<open>Index_Name\<close>, \<open>Persis_Log\<close>,
    \<open>Persis_Disk\<close> and \<open>Persis_Keeps\<close> show that the files of a queue represent an abstract log and that publishing and
    consuming are operations on it.
  \<^item> \<open>Logic_Recover\<close>: the start of the logic server, which reads the files back. \<open>Recover_Msg\<close> and \<open>Recover_Disk\<close> show that
    it reads what was written: a packet, a group of files, the directory of a queue, all queues.
  \<^item> \<open>Persis_Ops\<close>, \<open>Persis_Step\<close>, \<open>Persis_Restart\<close>, \<open>Crash_Recovery\<close>: the packets between the two servers as operations on an
    abstract store, each of them performed by the files (an instance of the locale \<open>run_refinement\<close>), the start of the persistence
    server, and the theorem that nothing is lost in a crash. \<open>Logic_Reports\<close> joins this to the publishing handler and the
    shared ring; \<open>Persis_Idle\<close> has the defect of the idle persistence server.
  \<^item> \<open>Client_Conn\<close>, \<open>Client_Roles\<close> (\<^verbatim>\<open>client/client.cpp\<close>): the classes \<open>Client\<close>, \<open>Producer\<close> and \<open>Consumer\<close>. \<open>Client_Stream\<close> shows
    that a client gets the packets of its stream one by one, \<open>Client_Request\<close> what a request sends and returns, \<open>Client_Confirm\<close> and
    \<open>Client_Resend\<close> what becomes of the messages a producer waits for, \<open>Client_Deliver\<close> what a consumer hands to the application.
  \<^item> Three theories compose the processes along the way of a message: \<open>Publish_Path\<close> from the calls of producers through both servers
    into the queues, \<open>Delivery_Path\<close> from the queues to the applications of the consumers, \<open>Confirm_Path\<close> back to the server's waiting list.
    They run the handlers one process after the other over the shared rings; the steps inside a ring are interleaved in \<open>Shm_Concurrent\<close>.
  \<^item> \<open>Ini_File\<close> (\<^verbatim>\<open>ini_file/ini_file.cpp\<close>): the reader of configuration files, with its loops over a buffer. \<open>Ini_Lookup\<close> and \<open>Ini_Correct\<close>
    show that they find what a reader of the lines would find, \<open>Ini_Number\<close> that numbers are read back.
  \<^item> \<open>Sem_Lock\<close> (\<^verbatim>\<open>sem_lock/sem_lock.cpp\<close>): the semaphore wrapper over a model of System V semaphores, and any number of processes
    that use it as a step relation; \<open>Sem_Mutex\<close> has the exclusion it gives and the two ways in which \<open>Init\<close> breaks it.
  \<^item> \<open>Log_File\<close> (\<^verbatim>\<open>logger/logger.cpp\<close>): the name of a log file and its lines.

  \<^bold>\<open>Conventions.\<close> A \<^verbatim>\<open>std::unordered_map\<close> is an association list; no theorem depends on the order of its entries. Integers have
  the width of the code (\<open>u16\<close>, \<open>i32\<close>) wherever it can wrap around, and \<open>int\<close> where the code compares lengths. Results
  of system calls, the clock and uninitialised memory are arguments or fields of the environment.

  \<^bold>\<open>Bounds and fuel.\<close> The loops over a mapped file take the length of the file as a bound on the number of rounds: each
  round advances by at least four bytes. \<open>RemoveDir_depth\<close> has the number of entries of the file system as its depth.
  \<open>recv_loop\<close> has a bound on the number of calls of \<open>Dequeue\<close>, over which its theorems are quantified. Loops that may not end
  are \<^verbatim>\<open>partial_function\<close>s, and the theorems say when they return.

  \<^bold>\<open>Not modelled.\<close> Signal handlers, \<open>DaemonInit\<close>, \<open>SetNonBlock\<close>, the pointers in epoll events, singletons, destructors and \<open>main\<close> of
  the servers, which only make system calls or free memory; \<open>InitConf\<close>, which is commented out in two servers and assigns
  to constants in the third, so that it does not compile; the log lines of the servers, which do not change their state; the example clients
  and test programs of \<^verbatim>\<open>src/client\<close>, which call the client library with fixed names and print what they get.
\<close>

end
